(* ===== verification/Clm_Prelude.thy ===== *)
theory Clm_Prelude
  imports Main "HOL-Library.Word"
begin

text \<open>
  Shared vocabulary of the development: machine integers and byte strings, the negative
  errno values the C functions return, the outcome of heap allocations, and the generic
  facts on lists and words that the component theories use.
\<close>

unbundle bit_operations_syntax

section \<open>Machine integers, bytes and C strings\<close>

type_synonym byte = "8 word"
type_synonym u16 = "16 word"
type_synonym u32 = "32 word"
type_synonym u64 = "64 word"

text \<open>
  A C string is the list of its bytes without the terminating NUL; a buffer with an explicit
  length is a list of bytes as well, and may hold NUL bytes.
\<close>

type_synonym cstr = "byte list"

text \<open>A C string literal.\<close>

definition lit :: "string \<Rightarrow> cstr" where
  "lit s = map of_char s"

text \<open>What \<^verbatim>\<open>strlen\<close>-based code sees of a buffer: the bytes before the first NUL.\<close>

definition c_str :: "byte list \<Rightarrow> cstr" where
  "c_str bs = takeWhile (\<lambda>b. b \<noteq> 0) bs"

text \<open>\<^verbatim>\<open>%0wx\<close>: the hexadecimal digits of a number that fits into \<open>w\<close> of them.\<close>

definition hex_digit :: "nat \<Rightarrow> byte" where
  "hex_digit n = (if n < 10 then word_of_nat (48 + n) else word_of_nat (87 + n))"

fun hex_fixed :: "nat \<Rightarrow> nat \<Rightarrow> cstr" where
  "hex_fixed 0 n = []"
| "hex_fixed (Suc w) n = hex_fixed w (n div 16) @ [hex_digit (n mod 16)]"

abbreviation U64_MAX :: nat where
  "U64_MAX \<equiv> 18446744073709551615"

section \<open>Error codes\<close>

text \<open>The errno values the modelled functions return (negated, in C).\<close>

datatype errno = EINVAL | ENOMEM | ENOENT | EEXIST | EBUSY | EIO | ENOSPC
  | EPROTONOSUPPORT | ENAMETOOLONG | ECANCELED

section \<open>Heap allocation\<close>

text \<open>
  Every \<^verbatim>\<open>malloc\<close>, \<^verbatim>\<open>calloc\<close>, \<^verbatim>\<open>realloc\<close> or \<^verbatim>\<open>strdup\<close> of a function may fail. The outcomes of the
  coming allocations are a tape of booleans that the model consumes one by one; past its end
  allocations succeed. A statement about every tape covers every pattern of failures.
\<close>

type_synonym tape = "bool list"

fun alloc :: "tape \<Rightarrow> bool \<times> tape" where
  "alloc [] = (True, [])"
| "alloc (b # t) = (b, t)"

section \<open>Facts on lists\<close>

lemma length_hex_fixed [simp]: "length (hex_fixed w n) = w"
  by (induction w arbitrary: n) auto

named_theorems clm_simps

lemma lit_Nil [simp]: "lit [] = []"
  and lit_Cons [simp]: "lit (c # cs) = of_char c # lit cs"
  and lit_append [simp]: "lit (xs @ ys) = lit xs @ lit ys"
  and length_lit [simp]: "length (lit s) = length s"
  by (simp_all add: lit_def)

lemma c_str_Nil [simp]: "c_str [] = []"
  by (simp add: c_str_def)

lemma c_str_no_nul: "0 \<notin> set (c_str bs)"
  by (auto simp: c_str_def dest: set_takeWhileD)

lemma c_str_id: "0 \<notin> set bs \<Longrightarrow> c_str bs = bs"
  by (auto simp: c_str_def takeWhile_eq_all_conv)

lemma take_drop_append3:
  "i \<le> j \<Longrightarrow> take i xs @ take (j - i) (drop i xs) @ drop j xs = xs"
  by (metis append_take_drop_id drop_drop le_add_diff_inverse2)

lemma sum_list_map_append [simp]:
  "sum_list (map f (xs @ ys)) = sum_list (map f xs) + (sum_list (map f ys) :: nat)"
  by simp

end
