(* ===== verification/Ratelimit.thy ===== *)
theory Ratelimit
  imports Clm_Prelude
begin

text \<open>
  The token bucket of \<^verbatim>\<open>libclm/ratelimit.c\<close>. All arithmetic is the C code's \<^verbatim>\<open>uint64_t\<close> arithmetic;
  the reading of the monotonic clock an operation takes is its argument \<open>now\<close>, and a limiter
  handle is an option (\<open>None\<close> for the NULL pointer).
\<close>

section \<open>The limiter and its operations\<close>

record clm_ratelimit =
  rate :: u64
  burst :: u64
  tokens :: u64
  last_usec :: u64

text \<open>The clock: \<^verbatim>\<open>tv_sec * 1000000 + tv_nsec / 1000\<close>.\<close>

definition now_usec :: "u64 \<Rightarrow> u64 \<Rightarrow> u64" where
  "now_usec tv_sec tv_nsec = tv_sec * 1000000 + tv_nsec div 1000"

definition refill :: "u64 \<Rightarrow> clm_ratelimit \<Rightarrow> clm_ratelimit" where
  "refill now rl =
     (if rate rl = 0 then rl
      else let elapsed = now - last_usec rl in
        if elapsed = 0 then rl
        else if elapsed \<ge> (- 1) div rate rl then rl\<lparr>tokens := burst rl, last_usec := now\<rparr>
        else let added = rate rl * elapsed div 1000000 in
          if added = 0 then rl
          else if added \<ge> burst rl - tokens rl
               then rl\<lparr>tokens := burst rl, last_usec := now\<rparr>
          else let used = added * 1000000 div rate rl in
               rl\<lparr>tokens := tokens rl + added, last_usec := last_usec rl + used\<rparr>)"

text \<open>\<^verbatim>\<open>calloc\<close> may fail, which the code reports as -1.\<close>

definition clm_ratelimit_new ::
  "tape \<Rightarrow> u64 \<Rightarrow> u64 \<Rightarrow> u64 \<Rightarrow> int \<times> clm_ratelimit option" where
  "clm_ratelimit_new t now r b =
     (if \<not> fst (alloc t) then (- 1, None)
      else let b' = (if b \<noteq> 0 then b else r)
           in (0, Some \<lparr>rate = r, burst = b', tokens = b', last_usec = now\<rparr>))"

definition clm_ratelimit_allow ::
  "u64 \<Rightarrow> clm_ratelimit option \<Rightarrow> u64 \<Rightarrow> bool \<times> clm_ratelimit option" where
  "clm_ratelimit_allow now rlo n =
     (case rlo of None \<Rightarrow> (True, None)
      | Some rl \<Rightarrow>
        if rate rl = 0 then (True, Some rl)
        else let rl' = refill now rl in
          if tokens rl' \<ge> n then (True, Some (rl'\<lparr>tokens := tokens rl' - n\<rparr>))
          else (False, Some rl'))"

definition clm_ratelimit_delay ::
  "u64 \<Rightarrow> clm_ratelimit option \<Rightarrow> u64 \<Rightarrow> u64 \<times> clm_ratelimit option" where
  "clm_ratelimit_delay now rlo n =
     (case rlo of None \<Rightarrow> (0, None)
      | Some rl \<Rightarrow>
        if rate rl = 0 then (0, Some rl)
        else let rl' = refill now rl in
          if tokens rl' \<ge> n then (0, Some rl')
          else let deficit = n - tokens rl' in (deficit * 1000000 div rate rl', Some rl'))"

definition clm_ratelimit_consume ::
  "u64 \<Rightarrow> clm_ratelimit option \<Rightarrow> u64 \<Rightarrow> clm_ratelimit option" where
  "clm_ratelimit_consume now rlo n =
     (case rlo of None \<Rightarrow> None
      | Some rl \<Rightarrow>
        if rate rl = 0 then Some rl
        else let rl' = refill now rl in
          if tokens rl' \<ge> n then Some (rl'\<lparr>tokens := tokens rl' - n\<rparr>)
          else Some (rl'\<lparr>tokens := 0\<rparr>))"

definition clm_ratelimit_tokens ::
  "u64 \<Rightarrow> clm_ratelimit option \<Rightarrow> u64 \<times> clm_ratelimit option" where
  "clm_ratelimit_tokens now rlo =
     (case rlo of None \<Rightarrow> (- 1, None)
      | Some rl \<Rightarrow>
        if rate rl = 0 then (- 1, Some rl)
        else let rl' = refill now rl in (tokens rl', Some rl'))"

definition clm_ratelimit_set_rate ::
  "u64 \<Rightarrow> clm_ratelimit option \<Rightarrow> u64 \<Rightarrow> clm_ratelimit option" where
  "clm_ratelimit_set_rate now rlo r = map_option (\<lambda>rl. (refill now rl)\<lparr>rate := r\<rparr>) rlo"

definition clm_ratelimit_set_burst ::
  "clm_ratelimit option \<Rightarrow> u64 \<Rightarrow> clm_ratelimit option" where
  "clm_ratelimit_set_burst rlo b =
     map_option (\<lambda>rl. let rl' = rl\<lparr>burst := b\<rparr> in
       if tokens rl' > b then rl'\<lparr>tokens := b\<rparr> else rl') rlo"

definition clm_ratelimit_rate :: "clm_ratelimit option \<Rightarrow> u64" where
  "clm_ratelimit_rate rlo = (case rlo of Some rl \<Rightarrow> rate rl | None \<Rightarrow> 0)"

definition clm_ratelimit_burst :: "clm_ratelimit option \<Rightarrow> u64" where
  "clm_ratelimit_burst rlo = (case rlo of Some rl \<Rightarrow> burst rl | None \<Rightarrow> 0)"


section \<open>The bucket in exact arithmetic\<close>

text \<open>
  The intended limiter: after a quiet time the bucket holds what it held plus the whole tokens
  of the elapsed microseconds, at most a full burst. \<open>bucket_ok\<close> is the invariant of a limiter
  in use (never more than a burst, its stamp not in the future) and the one bound on the
  configuration that keeps the early exit of \<^verbatim>\<open>refill\<close> a full bucket.
\<close>

definition bucket_spec :: "clm_ratelimit \<Rightarrow> nat \<Rightarrow> nat" where
  "bucket_spec rl elapsed =
     min (unat (burst rl)) (unat (tokens rl) + unat (rate rl) * elapsed div 1000000)"

definition tokens_ok :: "clm_ratelimit \<Rightarrow> bool" where
  "tokens_ok rl \<longleftrightarrow> tokens rl \<le> burst rl"

definition bucket_ok :: "u64 \<Rightarrow> clm_ratelimit \<Rightarrow> bool" where
  "bucket_ok now rl \<longleftrightarrow> tokens_ok rl \<and> last_usec rl \<le> now
     \<and> unat (burst rl) * 1000000 + unat (rate rl) < 2 ^ 64"

lemma unat_minus_one_u64 [simp]: "unat (- 1 :: u64) = U64_MAX"
  by (simp add: unsigned_minus_1_eq_mask mask_eq_exp_minus_1)

lemma unat_mult_u64:
  "unat (a :: u64) * unat b < 2 ^ 64 \<Longrightarrow> unat (a * b) = unat a * unat b"
  by (simp add: unat_word_ariths)

lemma unat_add_u64:
  "unat (a :: u64) + unat b < 2 ^ 64 \<Longrightarrow> unat (a + b) = unat a + unat b"
  by (simp add: unat_word_ariths)

lemma no_overflow_product:
  fixes r e :: nat
  assumes "0 < r" "e < U64_MAX div r"
  shows "r * e < 2 ^ 64"
proof -
  have "r * e \<le> r * (U64_MAX div r)" using assms(2) by simp
  also have "\<dots> \<le> U64_MAX" by (metis div_mult_self_is_m mult.commute times_div_less_eq_dividend)
  finally show ?thesis by simp
qed

lemma overflow_product:
  fixes r e :: nat
  assumes "0 < r" "U64_MAX div r \<le> e"
  shows "U64_MAX < r * e + r"
proof -
  have "U64_MAX < r * (U64_MAX div r) + r"
    using dividend_less_times_div [OF assms(1), of U64_MAX] by (simp add: add.commute)
  also have "\<dots> \<le> r * e + r" using assms(2) by simp
  finally show ?thesis .
qed


text \<open>The accumulating branch of \<^verbatim>\<open>refill\<close>: no product overflows and the stamp stays in the past.\<close>

lemma refill_accumulate:
  fixes rl :: clm_ratelimit and now :: u64
  defines "e \<equiv> now - last_usec rl"
  defines "added \<equiv> rate rl * e div 1000000"
  assumes r: "rate rl \<noteq> 0" and past: "last_usec rl \<le> now" and small: "e < (- 1) div rate rl"
  shows "unat added = unat (rate rl) * (unat now - unat (last_usec rl)) div 1000000"
    and "unat (added * 1000000 div rate rl) = unat added * 1000000 div unat (rate rl)"
    and "unat added * 1000000 div unat (rate rl) \<le> unat now - unat (last_usec rl)"
    and "unat (last_usec rl + added * 1000000 div rate rl)
           = unat (last_usec rl) + unat added * 1000000 div unat (rate rl)"
proof -
  have r0: "0 < unat (rate rl)" using r by (simp add: unat_gt_0)
  have e: "unat e = unat now - unat (last_usec rl)"
    using past by (simp add: e_def unat_sub)
  have "unat e < U64_MAX div unat (rate rl)"
    using small by (simp add: word_less_nat_alt unat_div_distrib)
  then have lt: "unat (rate rl) * unat e < 2 ^ 64" by (rule no_overflow_product [OF r0])
  show added: "unat added = unat (rate rl) * (unat now - unat (last_usec rl)) div 1000000"
    using lt by (simp add: added_def unat_div_distrib unat_mult_u64 e)
  have le: "unat added * 1000000 \<le> unat (rate rl) * unat e"
    unfolding added e by (simp add: div_times_less_eq_dividend)
  then have "unat added * 1000000 < 2 ^ 64" using lt by simp
  then show used: "unat (added * 1000000 div rate rl) = unat added * 1000000 div unat (rate rl)"
    by (simp add: unat_div_distrib unat_mult_u64)
  have "unat added * 1000000 div unat (rate rl) \<le> unat (rate rl) * unat e div unat (rate rl)"
    by (rule div_le_mono [OF le])
  then show used_le: "unat added * 1000000 div unat (rate rl) \<le> unat now - unat (last_usec rl)"
    using r0 e by simp
  have "unat (last_usec rl) \<le> unat now" using past by (simp add: word_le_nat_alt)
  then have "unat (last_usec rl) + unat added * 1000000 div unat (rate rl) \<le> unat now"
    using used_le by linarith
  also have "unat now < 2 ^ 64" using unsigned_less [of now] by simp
  finally have "unat (last_usec rl) + unat (added * 1000000 div rate rl) < 2 ^ 64"
    by (simp only: used)
  then show "unat (last_usec rl + added * 1000000 div rate rl)
               = unat (last_usec rl) + unat added * 1000000 div unat (rate rl)"
    using unat_add_u64 used by metis
qed

lemma refill_frame [simp]:
  "rate (refill now rl) = rate rl" "burst (refill now rl) = burst rl"
  by (auto simp: refill_def Let_def)

lemma unat_room:
  "tokens_ok rl \<Longrightarrow> unat (burst rl - tokens rl) = unat (burst rl) - unat (tokens rl)"
  by (simp add: tokens_ok_def unat_sub)

lemma refill_tokens_ok:
  assumes ok: "tokens_ok rl" shows "tokens_ok (refill now rl)"
proof -
  have "tokens rl + a \<le> burst rl" if "\<not> burst rl - tokens rl \<le> a" for a
  proof -
    have lt: "unat a < unat (burst rl) - unat (tokens rl)"
      using that unat_room [OF ok] by (simp add: word_le_nat_alt)
    moreover have "unat (burst rl) < 2 ^ 64" using unsigned_less [of "burst rl"] by simp
    ultimately have "unat (tokens rl) + unat a < 2 ^ 64" by linarith
    then have "unat (tokens rl + a) = unat (tokens rl) + unat a" by (rule unat_add_u64)
    then show ?thesis using lt by (simp add: word_le_nat_alt)
  qed
  then show ?thesis using ok by (auto simp: refill_def tokens_ok_def Let_def)
qed

lemma refill_past:
  assumes "last_usec rl \<le> now" shows "last_usec (refill now rl) \<le> now"
proof (cases "rate rl = 0 \<or> (- 1) div rate rl \<le> now - last_usec rl")
  case True then show ?thesis using assms by (auto simp: refill_def Let_def)
next
  case False
  then have r: "rate rl \<noteq> 0" and small: "now - last_usec rl < (- 1) div rate rl" by auto
  note acc = refill_accumulate [OF r assms small]
  have "unat (last_usec rl) \<le> unat now" using assms by (simp add: word_le_nat_alt)
  then have "unat (last_usec rl + rate rl * (now - last_usec rl) div 1000000 * 1000000 div rate rl)
      \<le> unat now"
    using acc(3,4) by linarith
  then show ?thesis using assms by (auto simp: refill_def Let_def word_le_nat_alt)
qed

lemma refill_bucket_ok: "bucket_ok now rl \<Longrightarrow> bucket_ok now (refill now rl)"
  by (simp add: bucket_ok_def refill_tokens_ok refill_past)


text \<open>The four shapes of a refill, in exact arithmetic; later proofs split on these.\<close>

lemma refill_cases:
  fixes rl :: clm_ratelimit and now :: u64
  assumes ok: "bucket_ok now rl"
  defines "E \<equiv> unat now - unat (last_usec rl)"
  defines "A \<equiv> unat (rate rl) * E div 1000000"
  obtains (idle) "refill now rl = rl" "A = 0"
  | (full) "tokens (refill now rl) = burst rl" "last_usec (refill now rl) = now"
      "unat (burst rl) * 1000000 \<le> unat (tokens rl) * 1000000 + unat (rate rl) * E + unat (rate rl)"
      "unat (burst rl) \<le> unat (tokens rl) + A"
  | (accumulate) "unat (tokens (refill now rl)) = unat (tokens rl) + A"
      "unat (last_usec (refill now rl)) = unat (last_usec rl) + A * 1000000 div unat (rate rl)"
      "A * 1000000 div unat (rate rl) \<le> E" "unat (tokens rl) + A \<le> unat (burst rl)"
      "0 < unat (rate rl)"
proof (cases "rate rl = 0 \<or> now = last_usec rl")
  case True
  then have "refill now rl = rl" "A = 0" by (auto simp: refill_def A_def E_def Let_def)
  then show thesis by (rule idle)
next
  case False
  then have r: "rate rl \<noteq> 0" and e0: "now - last_usec rl \<noteq> 0" by auto
  have r0: "0 < unat (rate rl)" using r by (simp add: unat_gt_0)
  from ok have past: "last_usec rl \<le> now" and tok: "tokens_ok rl"
    and conf: "unat (burst rl) * 1000000 + unat (rate rl) < 2 ^ 64"
    by (auto simp: bucket_ok_def)
  have E: "unat (now - last_usec rl) = E" using past by (simp add: E_def unat_sub)
  have tb: "unat (tokens rl) \<le> unat (burst rl)"
    using tok by (simp add: tokens_ok_def word_le_nat_alt)
  show thesis
  proof (cases "(- 1) div rate rl \<le> now - last_usec rl")
    case big: True
    then have "U64_MAX div unat (rate rl) \<le> E"
      using E by (simp add: word_le_nat_alt unat_div_distrib)
    then have gt: "U64_MAX < unat (rate rl) * E + unat (rate rl)" by (rule overflow_product [OF r0])
    have "unat (burst rl) * 1000000 \<le> unat (rate rl) * E" using gt conf by simp
    then have "unat (burst rl) \<le> A" unfolding A_def
      by (metis div_le_mono div_mult_self_is_m zero_less_numeral)
    then show thesis using big r e0 gt conf by (intro full) (simp_all add: refill_def Let_def)
  next
    case small: False
    define added where "added = rate rl * (now - last_usec rl) div 1000000"
    note acc = refill_accumulate [OF r past, folded added_def, OF small [unfolded not_le]]
    have A: "unat added = A" using acc(1) by (simp add: A_def E_def)
    have le: "A * 1000000 \<le> unat (rate rl) * E"
      unfolding A_def by (simp add: div_times_less_eq_dividend)
    show thesis
    proof (cases "added = 0 \<or> burst rl - tokens rl \<le> added")
      case True
      show thesis
      proof (cases "added = 0")
        case True
        then have "refill now rl = rl" "A = 0"
          using A small r by (auto simp: refill_def Let_def added_def)
        then show thesis by (rule idle)
      next
        case nz: False
        then have room: "unat (burst rl) \<le> unat (tokens rl) + A"
          using True A tb unat_room [OF tok] by (simp add: word_le_nat_alt)
        then have "unat (burst rl) * 1000000 \<le> unat (tokens rl) * 1000000 + A * 1000000"
          by (metis add_mult_distrib mult_le_mono1)
        then have "unat (burst rl) * 1000000
            \<le> unat (tokens rl) * 1000000 + unat (rate rl) * E + unat (rate rl)"
          using le by linarith
        then show thesis using nz True small r e0 room
          by (intro full) (simp_all add: refill_def Let_def added_def)
      qed
    next
      case False
      then have room: "unat (tokens rl) + A < unat (burst rl)"
        using A tb unat_room [OF tok] by (simp add: word_le_nat_alt) linarith
      have "unat (burst rl) < 2 ^ 64" using unsigned_less [of "burst rl"] by simp
      then have tokadd: "unat (tokens rl + added) = unat (tokens rl) + A"
        using room A by (subst unat_add_u64) simp_all
      have eq: "refill now rl =
          rl\<lparr>tokens := tokens rl + added, last_usec := last_usec rl + added * 1000000 div rate rl\<rparr>"
        using False small r e0 by (simp add: refill_def Let_def added_def)
      show thesis
      proof (rule accumulate)
        show "unat (tokens (refill now rl)) = unat (tokens rl) + A" using eq tokadd by simp
        show "unat (last_usec (refill now rl))
            = unat (last_usec rl) + A * 1000000 div unat (rate rl)"
          using eq acc(4) A by simp
        show "A * 1000000 div unat (rate rl) \<le> E" using acc(3) A by (simp add: E_def)
      qed (use room r0 in simp_all)
    qed
  qed
qed

lemma tokens_ok_nat: "tokens_ok rl \<longleftrightarrow> unat (tokens rl) \<le> unat (burst rl)"
  by (simp add: tokens_ok_def word_le_nat_alt)

lemma bucket_spec_full: "unat (burst rl) \<le> unat (tokens rl) + unat (rate rl) * e div 1000000 \<Longrightarrow>
    bucket_spec rl e = unat (burst rl)"
  by (simp add: bucket_spec_def)

lemma refill_exact:
  assumes ok: "bucket_ok now rl"
  shows "unat (tokens (refill now rl)) = bucket_spec rl (unat now - unat (last_usec rl))"
  using ok
proof (cases rule: refill_cases)
  case idle
  then show ?thesis using ok by (simp add: bucket_spec_def bucket_ok_def tokens_ok_nat)
next
  case full then show ?thesis by (simp add: bucket_spec_full)
next
  case accumulate then show ?thesis by (simp add: bucket_spec_def)
qed

lemma refill_leak:
  assumes "bucket_ok now rl"
  shows "unat (last_usec rl) \<le> unat (last_usec (refill now rl))" (is ?mono)
    and "unat (tokens (refill now rl)) * 1000000 \<le> unat (tokens rl) * 1000000
      + unat (rate rl) * (unat (last_usec (refill now rl)) - unat (last_usec rl)) + unat (rate rl)"
      (is ?leak)
proof -
  have past: "unat (last_usec rl) \<le> unat now"
    using assms by (simp add: bucket_ok_def word_le_nat_alt)
  from assms show ?mono by (cases rule: refill_cases) (simp_all add: past)
  from assms show ?leak
  proof (cases rule: refill_cases)
    case accumulate
    then show ?thesis
      using dividend_less_times_div [OF accumulate(5)]
      by (simp add: add_mult_distrib less_imp_le add.commute)
  qed simp_all
qed

lemma time_split:
  fixes r u a d :: nat
  assumes "r * u \<le> a" "u \<le> d" shows "r * d \<le> a + r * (d - u)"
proof -
  have "r * d = r * u + r * (d - u)" using assms(2) by (simp flip: add_mult_distrib2)
  then show ?thesis using assms(1) by simp
qed

text \<open>Asking early never costs a token: the bucket at a later time is at least what it would
  have been without the poll.\<close>

lemma refill_keeps_time:
  assumes ok: "bucket_ok t rl" and le: "t \<le> now"
  shows "bucket_spec rl (unat now - unat (last_usec rl))
    \<le> bucket_spec (refill t rl) (unat now - unat (last_usec (refill t rl)))"
  using ok
proof (cases rule: refill_cases)
  case idle then show ?thesis by simp
next
  case full then show ?thesis by (simp add: bucket_spec_def)
next
  case accumulate
  let ?r = "unat (rate rl)" and ?l = "unat (last_usec rl)"
  let ?A = "?r * (unat t - ?l) div 1000000"
  let ?u = "?A * 1000000 div ?r"
  have l: "?u \<le> unat now - ?l" using accumulate(3) le by (simp add: word_le_nat_alt)
  have "?r * ?u \<le> ?A * 1000000" by simp
  then have "?r * (unat now - ?l) \<le> ?A * 1000000 + ?r * (unat now - ?l - ?u)"
    using l by (rule time_split)
  then have "?r * (unat now - ?l) div 1000000
      \<le> (?A * 1000000 + ?r * (unat now - ?l - ?u)) div 1000000"
    by (rule div_le_mono)
  also have "\<dots> = ?A + ?r * (unat now - ?l - ?u) div 1000000" by simp
  finally show ?thesis using accumulate by (simp add: bucket_spec_def diff_diff_left min.coboundedI2)
qed


section \<open>Sequences of requests\<close>

text \<open>A stream of requests against one limiter, each with the clock at its arrival: the tokens
  granted in all and the limiter left behind.\<close>

fun allow_run :: "clm_ratelimit option \<Rightarrow> (u64 \<times> u64) list \<Rightarrow> nat \<times> clm_ratelimit option" where
  "allow_run rlo [] = (0, rlo)"
| "allow_run rlo ((now, n) # rs) =
     (let (ok, rlo') = clm_ratelimit_allow now rlo n; (g, rlo'') = allow_run rlo' rs
      in ((if ok then unat n else 0) + g, rlo''))"

fun poll_run :: "clm_ratelimit \<Rightarrow> u64 list \<Rightarrow> clm_ratelimit" where
  "poll_run rl [] = rl"
| "poll_run rl (t # ts) = poll_run (refill t rl) ts"

lemma bucket_ok_mono: "bucket_ok t rl \<Longrightarrow> t \<le> now \<Longrightarrow> bucket_ok now rl"
  by (auto simp: bucket_ok_def)

lemma tokens_ok_consume: "tokens_ok rl \<Longrightarrow> n \<le> tokens rl \<Longrightarrow> tokens_ok (rl\<lparr>tokens := tokens rl - n\<rparr>)"
  by (simp add: tokens_ok_nat unat_sub)

lemma allow_step:
  assumes ok: "bucket_ok now rl" and r: "rate rl \<noteq> 0"
  obtains ok' rl' where "clm_ratelimit_allow now (Some rl) n = (ok', Some rl')"
    "bucket_ok now rl'" "rate rl' = rate rl" "burst rl' = burst rl"
    "ok' \<longleftrightarrow> unat n \<le> bucket_spec rl (unat now - unat (last_usec rl))"
    "last_usec rl' = last_usec (refill now rl)"
    "unat (tokens rl') + (if ok' then unat n else 0) = unat (tokens (refill now rl))"
proof -
  let ?f = "refill now rl"
  have ok2: "bucket_ok now ?f" by (rule refill_bucket_ok [OF ok])
  show thesis
  proof (cases "n \<le> tokens ?f")
    case True
    have "bucket_ok now (?f\<lparr>tokens := tokens ?f - n\<rparr>)"
      using ok2 True tokens_ok_consume [of ?f n] by (simp add: bucket_ok_def)
    then show thesis using True r
      by (intro that [of True "?f\<lparr>tokens := tokens ?f - n\<rparr>"])
        (simp_all add: clm_ratelimit_allow_def Let_def refill_exact [OF ok, symmetric]
          word_le_nat_alt unat_sub)
  next
    case False
    then show thesis using ok2 r
      by (intro that [of False ?f])
        (simp_all add: clm_ratelimit_allow_def Let_def refill_exact [OF ok, symmetric] word_le_nat_alt)
  qed
qed

lemma allow_run_bound:
  assumes "bucket_ok t0 rl" "rate rl \<noteq> 0" "sorted (t0 # map fst rs)"
  shows "\<exists>g rl'. allow_run (Some rl) rs = (g, Some rl')
    \<and> unat (last_usec rl) \<le> unat (last_usec rl')
    \<and> unat (last_usec rl') \<le> unat (last (t0 # map fst rs))
    \<and> g * 1000000 + unat (tokens rl') * 1000000 \<le> unat (tokens rl) * 1000000
        + unat (rate rl) * (unat (last_usec rl') - unat (last_usec rl)) + length rs * unat (rate rl)"
  using assms
proof (induction rs arbitrary: rl t0)
  case Nil
  then show ?case by (simp add: bucket_ok_def word_le_nat_alt)
next
  case (Cons q rs)
  obtain now n where q: "q = (now, n)" by (cases q)
  have ok: "bucket_ok now rl" using Cons.prems(1,3) q by (auto intro: bucket_ok_mono)
  obtain ok' rl' where st: "clm_ratelimit_allow now (Some rl) n = (ok', Some rl')"
    "bucket_ok now rl'" "rate rl' = rate rl"
    "last_usec rl' = last_usec (refill now rl)"
    "unat (tokens rl') + (if ok' then unat n else 0) = unat (tokens (refill now rl))"
    using allow_step [OF ok Cons.prems(2)] by metis
  obtain g rl'' where IH: "allow_run (Some rl') rs = (g, Some rl'')"
    "unat (last_usec rl') \<le> unat (last_usec rl'')"
    "unat (last_usec rl'') \<le> unat (last (now # map fst rs))"
    "g * 1000000 + unat (tokens rl'') * 1000000 \<le> unat (tokens rl') * 1000000
      + unat (rate rl) * (unat (last_usec rl'') - unat (last_usec rl')) + length rs * unat (rate rl)"
    using Cons.IH [OF st(2)] Cons.prems(2,3) st(3) q by auto
  let ?l = "unat (last_usec rl)" and ?m = "unat (last_usec rl')" and ?e = "unat (last_usec rl'')"
  note leak = refill_leak [OF ok, folded st(4)]
  have "unat (rate rl) * (?m - ?l) + unat (rate rl) * (?e - ?m) = unat (rate rl) * (?e - ?l)"
    using leak(1) IH(2) by (simp flip: add_mult_distrib2)
  moreover have "(unat (tokens rl') + (if ok' then unat n else 0)) * 1000000
      \<le> unat (tokens rl) * 1000000 + unat (rate rl) * (?m - ?l) + unat (rate rl)"
    using leak(2) st(5) by simp
  ultimately show ?case using IH leak(1) st(1) q
    by (auto simp: add_mult_distrib split: if_splits)
qed

lemma poll_run_spec:
  assumes "bucket_ok t0 rl" "sorted (t0 # ts @ [now])"
  shows "bucket_ok now (poll_run rl ts) \<and>
    bucket_spec rl (unat now - unat (last_usec rl))
      \<le> bucket_spec (poll_run rl ts) (unat now - unat (last_usec (poll_run rl ts)))"
  using assms
proof (induction ts arbitrary: rl t0)
  case Nil then show ?case by (auto intro: bucket_ok_mono)
next
  case (Cons t ts)
  have ok: "bucket_ok t rl" using Cons.prems by (auto intro: bucket_ok_mono)
  have "t \<le> now" using Cons.prems(2) by (auto simp: sorted_append)
  from refill_keeps_time [OF ok this] Cons.IH [OF refill_bucket_ok [OF ok]] Cons.prems(2)
  show ?case by fastforce
qed


section \<open>Limiters in use\<close>

text \<open>A limiter a client can hold: freshly made, or left by any operation at any clock value.\<close>

inductive rl_reachable :: "clm_ratelimit \<Rightarrow> bool" where
  fresh: "clm_ratelimit_new t now r b = (0, Some rl) \<Longrightarrow> rl_reachable rl"
| allow: "rl_reachable rl \<Longrightarrow> snd (clm_ratelimit_allow now (Some rl) n) = Some rl' \<Longrightarrow> rl_reachable rl'"
| delay: "rl_reachable rl \<Longrightarrow> snd (clm_ratelimit_delay now (Some rl) n) = Some rl' \<Longrightarrow> rl_reachable rl'"
| consume: "rl_reachable rl \<Longrightarrow> clm_ratelimit_consume now (Some rl) n = Some rl' \<Longrightarrow> rl_reachable rl'"
| peek: "rl_reachable rl \<Longrightarrow> snd (clm_ratelimit_tokens now (Some rl)) = Some rl' \<Longrightarrow> rl_reachable rl'"
| set_rate: "rl_reachable rl \<Longrightarrow> clm_ratelimit_set_rate now (Some rl) r = Some rl' \<Longrightarrow> rl_reachable rl'"
| set_burst: "rl_reachable rl \<Longrightarrow> clm_ratelimit_set_burst (Some rl) b = Some rl' \<Longrightarrow> rl_reachable rl'"

lemmas rl_op_defs = clm_ratelimit_new_def clm_ratelimit_allow_def clm_ratelimit_delay_def
  clm_ratelimit_consume_def clm_ratelimit_tokens_def clm_ratelimit_set_rate_def
  clm_ratelimit_set_burst_def

lemma tokens_ok_rate [simp]: "tokens_ok (rl\<lparr>rate := r\<rparr>) = tokens_ok rl"
  by (simp add: tokens_ok_def)

text \<open>(invariant). Whatever operations a client runs, at whatever clock readings, a limiter never
  holds more tokens than its burst, so the subtraction \<^verbatim>\<open>burst - tokens\<close> in \<^verbatim>\<open>refill\<close> never wraps.\<close>

theorem ratelimit_never_over_burst:
  "rl_reachable rl \<Longrightarrow> tokens_ok rl"
proof (induction rule: rl_reachable.induct)
  case (fresh t now r b rl) then show ?case
    by (auto simp: rl_op_defs tokens_ok_def Let_def split: if_splits)
next
  case (set_burst rl b rl') then show ?case
    by (auto simp: rl_op_defs tokens_ok_def Let_def split: if_splits)
qed (auto simp: rl_op_defs Let_def refill_tokens_ok tokens_ok_consume split: if_splits,
     auto simp: tokens_ok_def)

definition sample_rl :: "u64 \<Rightarrow> u64 \<Rightarrow> u64 \<Rightarrow> u64 \<Rightarrow> clm_ratelimit" where
  "sample_rl r b n t = \<lparr>rate = r, burst = b, tokens = n, last_usec = t\<rparr>"

theorem ratelimit_never_over_burst_witness:
  "rl_reachable (sample_rl 3 3 3 7) \<and> tokens_ok (sample_rl 3 3 3 7)"
proof -
  have "rl_reachable (sample_rl 3 3 3 7)"
    by (rule rl_reachable.fresh [of "[]" 7 3 3]) (simp add: clm_ratelimit_new_def sample_rl_def)
  then show ?thesis using ratelimit_never_over_burst by blast
qed

text \<open>C31 (refinement). The 64-bit \<^verbatim>\<open>refill\<close> computes the bucket of exact arithmetic: none of its
  products overflows, no early exit loses tokens, and the result is the old contents plus the whole
  tokens of the elapsed time, capped at the burst.\<close>

theorem ratelimit_refill_refines:
  "bucket_ok now rl \<Longrightarrow>
     unat (tokens (refill now rl)) = bucket_spec rl (unat now - unat (last_usec rl))"
  by (rule refill_exact)

theorem ratelimit_refill_refines_witness:
  "bucket_ok 500000 (sample_rl 4 8 1 0) \<and>
   unat (tokens (refill 500000 (sample_rl 4 8 1 0))) = 3"
proof -
  have h: "bucket_ok 500000 (sample_rl 4 8 1 0)"
    by (simp add: bucket_ok_def tokens_ok_def sample_rl_def)
  have "bucket_spec (sample_rl 4 8 1 0) (unat (500000 :: u64) - unat (last_usec (sample_rl 4 8 1 0))) = 3"
    by (simp add: bucket_spec_def sample_rl_def)
  then show ?thesis using h ratelimit_refill_refines [OF h] by simp
qed

text \<open>C35 (safety). The rate guarantee: over any run of requests at non-decreasing clock readings the
  tokens granted exceed the initial contents by at most the rate over the elapsed time, plus less
  than one microsecond's worth of tokens per request (the rounding of \<^verbatim>\<open>used\<close> in \<^verbatim>\<open>refill\<close>).\<close>

theorem ratelimit_rate_bound:
  assumes "bucket_ok t0 rl" "rate rl \<noteq> 0" "sorted (t0 # map fst rs)"
  shows "fst (allow_run (Some rl) rs) * 1000000 \<le> unat (tokens rl) * 1000000
    + unat (rate rl) * (unat (last (t0 # map fst rs)) - unat (last_usec rl) + length rs)"
proof -
  define T where "T = unat (last (t0 # map fst rs))"
  obtain g rl' where run: "allow_run (Some rl) rs = (g, Some rl')"
    and past: "unat (last_usec rl') \<le> T"
    and sum: "g * 1000000 + unat (tokens rl') * 1000000 \<le> unat (tokens rl) * 1000000
        + unat (rate rl) * (unat (last_usec rl') - unat (last_usec rl)) + length rs * unat (rate rl)"
    using allow_run_bound [OF assms] unfolding T_def by blast
  from past have "unat (rate rl) * (unat (last_usec rl') - unat (last_usec rl))
      \<le> unat (rate rl) * (T - unat (last_usec rl))"
    by (intro mult_le_mono2 diff_le_mono)
  with sum have "g * 1000000 \<le> unat (tokens rl) * 1000000
      + unat (rate rl) * (T - unat (last_usec rl)) + unat (rate rl) * length rs"
    by (simp only: mult.commute [of "length rs"])
  then show ?thesis
    by (simp only: run fst_conv T_def [symmetric] add_mult_distrib2 add.assoc)
qed

theorem ratelimit_rate_bound_witness:
  "fst (allow_run (Some (sample_rl 2 4 4 0)) [(0, 4), (600000, 1), (600001, 1)]) = 5 \<and>
   fst (allow_run (Some (sample_rl 2 4 4 0)) [(0, 4), (600000, 1), (600001, 1)]) * 1000000
     \<le> 4 * 1000000 + 2 * (600001 + 3)"
proof -
  have h: "bucket_ok 0 (sample_rl 2 4 4 0)" "rate (sample_rl 2 4 4 0) \<noteq> 0"
    by (simp_all add: bucket_ok_def tokens_ok_def sample_rl_def)
  have "fst (allow_run (Some (sample_rl 2 4 4 0)) [(0, 4), (600000, 1), (600001, 1)]) = 5"
    by (simp add: clm_ratelimit_allow_def refill_def sample_rl_def Let_def word_le_nat_alt)
  moreover have "fst (allow_run (Some (sample_rl 2 4 4 0)) [(0, 4), (600000, 1), (600001, 1)]) * 1000000
      \<le> 4 * 1000000 + 2 * (600001 + 3)"
    using ratelimit_rate_bound [OF h, of "[(0, 4), (600000, 1), (600001, 1)]"]
    by (simp add: sample_rl_def)
  ultimately show ?thesis by simp
qed

text \<open>(liveness). A limiter polled arbitrarily often still refills: after any polls, a request
  is granted as soon as the whole elapsed time has earned its tokens.\<close>

theorem ratelimit_polls_lose_nothing:
  assumes "bucket_ok t0 rl" "rate rl \<noteq> 0" "sorted (t0 # ts @ [now])"
    and "unat n \<le> bucket_spec rl (unat now - unat (last_usec rl))"
  shows "fst (clm_ratelimit_allow now (Some (poll_run rl ts)) n)"
proof -
  have p: "bucket_ok now (poll_run rl ts)"
    "unat n \<le> bucket_spec (poll_run rl ts) (unat now - unat (last_usec (poll_run rl ts)))"
    using poll_run_spec [OF assms(1,3)] assms(4) by auto
  have "rate (poll_run rl ts) = rate rl" by (induction ts arbitrary: rl) simp_all
  then have "rate (poll_run rl ts) \<noteq> 0" using assms(2) by simp
  from allow_step [OF p(1) this] p(2) show ?thesis by (metis fst_conv)
qed

theorem ratelimit_polls_lose_nothing_witness:
  "fst (clm_ratelimit_allow 1000000 (Some (poll_run (sample_rl 1 8 0 0) [400000, 800000])) 1)"
proof (rule ratelimit_polls_lose_nothing [of 0])
  show "bucket_ok 0 (sample_rl 1 8 0 0)" by (simp add: bucket_ok_def tokens_ok_def sample_rl_def)
qed (simp_all add: sample_rl_def bucket_spec_def)

lemma delay_enough:
  fixes r d T n :: nat
  assumes "0 < r" "d = (n - T) * 1000000 div r" "T \<le> n"
  shows "n \<le> T + r * (d + 1) div 1000000"
proof -
  have "(n - T) * 1000000 < r * (d + 1)"
    using dividend_less_times_div [OF assms(1), of "(n - T) * 1000000"] assms(2) by simp
  then have "(n - T) * 1000000 div 1000000 \<le> r * (d + 1) div 1000000"
    by (intro div_le_mono) simp
  then show ?thesis using assms(3) by simp
qed

text \<open>(functional). \<^verbatim>\<open>clm_ratelimit_delay\<close>: one microsecond after the delay it reports, a request
  for a number of tokens within the burst is granted.\<close>

theorem ratelimit_delay_suffices:
  assumes ok: "bucket_ok now rl" and r: "rate rl \<noteq> 0" and n: "n \<le> burst rl"
    and d: "clm_ratelimit_delay now (Some rl) n = (d, Some rl')"
    and clock: "unat now + unat d + 1 < 2 ^ 64"
  shows "fst (clm_ratelimit_allow (now + d + 1) (Some rl') n)"
proof -
  have rl': "rl' = refill now rl" using d r
    by (auto simp: clm_ratelimit_delay_def Let_def split: if_splits)
  have r0: "0 < unat (rate rl)" using r by (simp add: unat_gt_0)
  have late: "unat (now + d + 1) = unat now + unat d + 1"
    using clock by (simp add: unat_word_ariths)
  have le: "now \<le> now + d + 1" using late by (simp add: word_le_nat_alt)
  have ok': "bucket_ok (now + d + 1) rl'"
    using bucket_ok_mono [OF refill_bucket_ok [OF ok] le] rl' by simp
  have "unat n \<le> unat (tokens rl') + unat (rate rl) * (unat d + 1) div 1000000"
  proof (cases "n \<le> tokens rl'")
    case True then show ?thesis by (simp add: word_le_nat_alt trans_le_add1)
  next
    case False
    then have lt: "unat (tokens rl') \<le> unat n" "tokens rl' \<le> n" by (simp_all add: word_le_nat_alt)
    have def1: "unat (n - tokens rl') = unat n - unat (tokens rl')" by (rule unat_sub [OF lt(2)])
    have "unat n \<le> unat (burst rl)" using n by (simp add: word_le_nat_alt)
    then have "(unat n - unat (tokens rl')) * 1000000 \<le> unat (burst rl) * 1000000" by simp
    then have "(unat n - unat (tokens rl')) * 1000000 < 2 ^ 64"
      using ok unfolding bucket_ok_def by linarith
    then have "unat ((n - tokens rl') * 1000000) = (unat n - unat (tokens rl')) * 1000000"
      using unat_mult_u64 [of "n - tokens rl'" 1000000] def1 by simp
    moreover have "d = (n - tokens rl') * 1000000 div rate rl"
      using d False r rl' by (simp add: clm_ratelimit_delay_def Let_def)
    ultimately have "unat d = (unat n - unat (tokens rl')) * 1000000 div unat (rate rl)"
      by (simp only: unat_div_distrib)
    then show ?thesis using delay_enough [OF r0 _ lt(1)] by simp
  qed
  also have "\<dots> \<le> unat (tokens rl') + unat (rate rl)
      * (unat (now + d + 1) - unat (last_usec rl')) div 1000000"
    using refill_past [of rl now] ok unfolding late rl'
    by (intro add_left_mono div_le_mono mult_le_mono2) (simp add: bucket_ok_def word_le_nat_alt)
  finally have "unat n \<le> bucket_spec rl' (unat (now + d + 1) - unat (last_usec rl'))"
    using n rl' by (simp add: bucket_spec_def word_le_nat_alt)
  moreover have "rate rl' \<noteq> 0" using r rl' by simp
  ultimately show ?thesis using allow_step [OF ok'] by (metis fst_conv)
qed

theorem ratelimit_delay_suffices_witness:
  "fst (clm_ratelimit_allow (0 + 333333 + 1) (Some (sample_rl 3 3 0 0)) 1)"
proof (rule ratelimit_delay_suffices [of 0 "sample_rl 3 3 0 0"])
  show "bucket_ok 0 (sample_rl 3 3 0 0)" by (simp add: bucket_ok_def tokens_ok_def sample_rl_def)
  show "clm_ratelimit_delay 0 (Some (sample_rl 3 3 0 0)) 1 = (333333, Some (sample_rl 3 3 0 0))"
    by (simp add: clm_ratelimit_delay_def refill_def sample_rl_def)
qed (simp_all add: sample_rl_def)

text \<open>(error). The reported delay itself is rounded down: an empty limiter of three tokens a second
  answers 333333 microseconds for one token, and a request made exactly then is still refused.\<close>

theorem ratelimit_delay_rounds_down:
  "fst (clm_ratelimit_delay 0 (Some (sample_rl 3 3 0 0)) 1) = 333333
   \<and> \<not> fst (clm_ratelimit_allow 333333 (Some (sample_rl 3 3 0 0)) 1)"
  by (simp add: clm_ratelimit_delay_def clm_ratelimit_allow_def refill_def sample_rl_def Let_def)

end
