(* ===== verification/Text_Clean.thy ===== *)
theory Text_Clean
  imports Clm_Prelude
begin

text \<open>
  Captured terminal output reduced to plain text: \<^verbatim>\<open>libclm/text_clean.c\<close>. The C function works in
  place, reading at \<^verbatim>\<open>i\<close> and writing at \<^verbatim>\<open>n\<close>; the model keeps that shape: one buffer, two
  indices, and a write that stores at the write index.
\<close>

section \<open>Model\<close>

text \<open>\<^verbatim>\<open>(b & 0xC0) == 0x80\<close>\<close>

definition is_cont :: "byte \<Rightarrow> bool" where
  "is_cont b \<longleftrightarrow> b AND 0xC0 = 0x80"

text \<open>The loop of \<^verbatim>\<open>drop_last\<close>: back up while the byte at \<open>n\<close> is a continuation byte.\<close>

fun back_up :: "byte list \<Rightarrow> nat \<Rightarrow> nat" where
  "back_up out 0 = 0"
| "back_up out (Suc n) = (if is_cont (out ! Suc n) then back_up out n else Suc n)"

definition drop_last :: "byte list \<Rightarrow> nat \<Rightarrow> nat" where
  "drop_last out n = (if n = 0 then 0 else back_up out (n - 1))"

text \<open>The scans of \<^verbatim>\<open>skip_escape\<close> for the end of a CSI or OSC sequence, over \<open>data[i..len)\<close>.\<close>

function skip_csi :: "byte list \<Rightarrow> nat \<Rightarrow> nat \<Rightarrow> nat" where
  "skip_csi data len i =
     (if i < len then
        if data ! i \<ge> 0x40 \<and> data ! i \<le> 0x7E then i + 1 else skip_csi data len (i + 1)
      else i)"
  by pat_completeness auto
termination by (relation "measure (\<lambda>(data, len, i). len - i)") auto

function skip_osc :: "byte list \<Rightarrow> nat \<Rightarrow> nat \<Rightarrow> nat" where
  "skip_osc data len i =
     (if i < len then
        if data ! i = 0x07 then i + 1
        else if data ! i = 0x1B \<and> i + 1 < len \<and> data ! (i + 1) = of_char CHR 0x5C then i + 2
        else skip_osc data len (i + 1)
      else i)"
  by pat_completeness auto
termination by (relation "measure (\<lambda>(data, len, i). len - i)") auto

declare skip_csi.simps [simp del] skip_osc.simps [simp del]

definition skip_escape :: "byte list \<Rightarrow> nat \<Rightarrow> nat \<Rightarrow> nat" where
  "skip_escape data len i =
     (let i = i + 1 in
      if i \<ge> len then i
      else if data ! i = of_char CHR ''['' then skip_csi data len (i + 1)
      else if data ! i = of_char CHR '']'' then skip_osc data len (i + 1)
      else i + 1)"

lemma skip_csi_ge: "i \<le> skip_csi data len i"
proof (induction data len i rule: skip_csi.induct)
  case (1 data len i) then show ?case by (subst skip_csi.simps) auto
qed

lemma skip_osc_ge: "i \<le> skip_osc data len i"
proof (induction data len i rule: skip_osc.induct)
  case (1 data len i) then show ?case by (subst skip_osc.simps) auto
qed

lemma skip_escape_gt: "i < skip_escape data len i"
  using skip_csi_ge [of "i + 2" data len] skip_osc_ge [of "i + 2" data len]
  by (auto simp: skip_escape_def Let_def)

text \<open>
  One iteration of \<^verbatim>\<open>clm_clean_text\<close> at read index \<open>i\<close>: the buffer, the write index and the read
  index of the next iteration (the loop's \<^verbatim>\<open>i++\<close> included).
\<close>

definition clean_step :: "byte list \<Rightarrow> nat \<Rightarrow> nat \<Rightarrow> nat \<Rightarrow> byte list \<times> nat \<times> nat" where
  "clean_step data len i n =
     (let b = data ! i in
      if b = 0x1B then (data, n, skip_escape data len i)
      else if b = 0x08 then (data, drop_last data n, i + 1)
      else if b = 0x0A \<or> b = 0x09 then (data[n := b], n + 1, i + 1)
      else if b < 0x20 \<or> b = 0x7F then (data, n, i + 1)
      else (data[n := b], n + 1, i + 1))"

lemma clean_step_advances: "clean_step data len i n = (data', n', i') \<Longrightarrow> i < i'"
  by (auto simp: clean_step_def Let_def skip_escape_gt split: if_splits)

function clean_loop :: "byte list \<Rightarrow> nat \<Rightarrow> nat \<Rightarrow> nat \<Rightarrow> byte list \<times> nat" where
  "clean_loop data len i n =
     (if i < len then (case clean_step data len i n of (data', n', i') \<Rightarrow> clean_loop data' len i' n')
      else (data, n))"
  by pat_completeness auto
termination
  by (relation "measure (\<lambda>(data, len, i, n). len - i)")
    (auto dest!: clean_step_advances [OF sym])

declare clean_loop.simps [simp del]

text \<open>\<^verbatim>\<open>clm_clean_text(data, len)\<close>: the buffer afterwards and the new length; NULL data gives 0.\<close>

definition clm_clean_text :: "byte list option \<Rightarrow> nat \<Rightarrow> byte list option \<times> nat" where
  "clm_clean_text d len =
     (case d of None \<Rightarrow> (None, 0)
      | Some data \<Rightarrow> (case clean_loop data len 0 0 of (data', n) \<Rightarrow> (Some data', n)))"


section \<open>Reference: the same reduction on a stream\<close>

text \<open>What the in-place loop computes, without buffer or indices: the bytes still to read, and the
  text produced so far, from which an overstrike removes its last character.\<close>

fun csi_rest :: "byte list \<Rightarrow> byte list" where
  "csi_rest [] = []"
| "csi_rest (b # bs) = (if 0x40 \<le> b \<and> b \<le> 0x7E then bs else csi_rest bs)"

fun osc_rest :: "byte list \<Rightarrow> byte list" where
  "osc_rest [] = []"
| "osc_rest (b # bs) =
     (if b = 0x07 then bs
      else if b = 0x1B \<and> bs \<noteq> [] \<and> hd bs = 0x5C then tl bs
      else osc_rest bs)"

fun escape_rest :: "byte list \<Rightarrow> byte list" where
  "escape_rest [] = []"
| "escape_rest (b # bs) =
     (if b = 0x5B then csi_rest bs else if b = 0x5D then osc_rest bs else bs)"

definition drop_char :: "byte list \<Rightarrow> byte list" where
  "drop_char out = rev (tl (dropWhile is_cont (rev out)))"

definition is_text :: "byte \<Rightarrow> bool" where
  "is_text b \<longleftrightarrow> b = 0x0A \<or> b = 0x09 \<or> \<not> (b < 0x20 \<or> b = 0x7F)"

lemma length_csi_rest: "length (csi_rest bs) \<le> length bs"
  by (induction bs) auto

lemma length_osc_rest: "length (osc_rest bs) \<le> length bs"
  by (induction bs) auto

lemma length_escape_rest: "length (escape_rest bs) \<le> length bs"
  using length_csi_rest length_osc_rest by (cases bs) (auto intro: le_SucI)

function clean_ref :: "byte list \<Rightarrow> byte list \<Rightarrow> byte list" where
  "clean_ref out [] = out"
| "clean_ref out (b # bs) =
     (if b = 0x1B then clean_ref out (escape_rest bs)
      else if b = 0x08 then clean_ref (drop_char out) bs
      else if is_text b then clean_ref (out @ [b]) bs
      else clean_ref out bs)"
  by pat_completeness auto
termination
  by (relation "measure (\<lambda>(out, bs). length bs)") (auto simp: less_Suc_eq_le length_escape_rest)

section \<open>The loop computes the reference\<close>

lemma is_text_alt:
  "is_text b \<longleftrightarrow> b = 0x0A \<or> b = 0x09 \<or> \<not> (b < 0x20 \<or> b = 0x7F)" "\<not> is_text 0x1B" "\<not> is_text 0x08"
  by (simp_all add: is_text_def)

lemma drop_nth_take:
  assumes "i < len" "len \<le> length data"
  shows "drop i (take len data) = data ! i # drop (Suc i) (take len data)"
  using assms by (simp add: Cons_nth_drop_Suc [symmetric])

lemma skip_csi_rest:
  assumes "len \<le> length data" "i \<le> len"
  shows "skip_csi data len i \<le> len \<and>
    drop (skip_csi data len i) (take len data) = csi_rest (drop i (take len data))"
  using assms
proof (induction data len i rule: skip_csi.induct)
  case (1 data len i)
  show ?case
  proof (cases "i < len")
    case True
    then show ?thesis using "1.prems" "1.IH"
      by (subst (1 2) skip_csi.simps) (simp add: drop_nth_take)
  next
    case False then show ?thesis using "1.prems" by (subst (1 2) skip_csi.simps) simp
  qed
qed

lemma skip_osc_rest:
  assumes "len \<le> length data" "i \<le> len"
  shows "skip_osc data len i \<le> len \<and>
    drop (skip_osc data len i) (take len data) = osc_rest (drop i (take len data))"
  using assms
proof (induction data len i rule: skip_osc.induct)
  case (1 data len i)
  let ?t = "take len data"
  let ?st = "data ! i = 0x1B \<and> Suc i < len \<and> data ! Suc i = 0x5C"
  consider (fin) "\<not> i < len" | (bel) "i < len" "data ! i = 0x07"
    | (st) "i < len" "data ! i \<noteq> 0x07" ?st | (next1) "i < len" "data ! i \<noteq> 0x07" "\<not> ?st"
    by blast
  then show ?case
  proof cases
    case fin then show ?thesis using "1.prems" by (subst (1 2) skip_osc.simps) simp
  next
    case bel
    then show ?thesis using "1.prems" by (subst (1 2) skip_osc.simps) (simp add: drop_nth_take)
  next
    case st
    then have "drop (Suc i) ?t = 0x5C # drop (Suc (Suc i)) ?t"
      using "1.prems" drop_nth_take [of "Suc i" len data] by simp
    then show ?thesis using st "1.prems" drop_nth_take [of i len data]
      by (subst (1 2) skip_osc.simps) simp
  next
    case next1
    have no_st: "\<not> (data ! i = 0x1B \<and> drop (Suc i) ?t \<noteq> [] \<and> hd (drop (Suc i) ?t) = 0x5C)"
      using next1(3) "1.prems"(1) by (auto simp: hd_drop_conv_nth)
    have "skip_osc data len i = skip_osc data len (Suc i)"
      using next1 by (subst skip_osc.simps) auto
    moreover have "osc_rest (drop i ?t) = osc_rest (drop (Suc i) ?t)"
      using next1(1,2) no_st "1.prems"(1) by (simp only: drop_nth_take osc_rest.simps if_False)
    ultimately show ?thesis using next1 "1.prems" "1.IH" by simp
  qed
qed

lemma skip_escape_rest:
  assumes "len \<le> length data" "i < len"
  shows "skip_escape data len i \<le> len \<and>
    drop (skip_escape data len i) (take len data) = escape_rest (drop (Suc i) (take len data))"
proof (cases "Suc i < len")
  case True
  then show ?thesis
    using assms skip_csi_rest [OF assms(1), of "Suc (Suc i)"] skip_osc_rest [OF assms(1), of "Suc (Suc i)"]
    by (simp add: skip_escape_def Let_def drop_nth_take)
next
  case False
  then show ?thesis using assms by (simp add: skip_escape_def)
qed

lemma back_up_take:
  "n < length out \<Longrightarrow> back_up out n \<le> n \<and>
     take (back_up out n) out = rev (tl (dropWhile is_cont (rev (take (Suc n) out))))"
proof (induction n)
  case 0
  then show ?case by (cases out) auto
next
  case (Suc n)
  have "rev (take (Suc (Suc n)) out) = out ! Suc n # rev (take (Suc n) out)"
    using Suc.prems by (simp add: take_Suc_conv_app_nth)
  then show ?case using Suc by auto
qed

lemma drop_last_take:
  "n \<le> length out \<Longrightarrow> drop_last out n \<le> n \<and> take (drop_last out n) out = drop_char (take n out)"
proof (cases n)
  case (Suc m)
  assume "n \<le> length out"
  then show ?thesis using Suc back_up_take [of m out] by (simp add: drop_last_def drop_char_def)
qed (simp add: drop_last_def drop_char_def)

lemma take_update_snoc: "n < length xs \<Longrightarrow> take (Suc n) (xs[n := b]) = take n xs @ [b]"
  by (simp add: take_Suc_conv_app_nth)

lemma drop_update_beyond: "n < i \<Longrightarrow> drop i (take len (xs[n := b])) = drop i (take len xs)"
  by (simp add: take_update_swap)

lemma clean_step_ref:
  assumes st: "clean_step data len i n = (data', n', i')"
    and b: "n \<le> i" "i < len" "len \<le> length data"
  shows "length data' = length data" "n' \<le> i'" "i' \<le> len"
    and "clean_ref (take n data) (drop i (take len data))
       = clean_ref (take n' data') (drop i' (take len data'))"
proof -
  have n: "n < length data" using b by simp
  note dl = drop_last_take [OF less_imp_le [OF n]]
  note se = skip_escape_rest [OF b(3,2)]
  note cases = is_text_alt drop_nth_take [OF b(2,3)] take_update_snoc [OF n]
    drop_update_beyond [of n "Suc i"]
  have "n \<le> skip_escape data len i" using skip_escape_gt [of i data len] b(1) by linarith
  then show "length data' = length data" "n' \<le> i'" "i' \<le> len"
    using st b dl se by (auto simp: clean_step_def Let_def split: if_splits)
  show "clean_ref (take n data) (drop i (take len data))
       = clean_ref (take n' data') (drop i' (take len data'))"
    using st b dl se by (auto simp: clean_step_def Let_def cases split: if_splits)
qed

lemma clean_loop_ref:
  assumes "n \<le> i" "i \<le> len" "len \<le> length data"
  shows "case clean_loop data len i n of (data', n') \<Rightarrow>
    length data' = length data \<and> n' \<le> len \<and>
    take n' data' = clean_ref (take n data) (drop i (take len data))"
  using assms
proof (induction data len i n rule: clean_loop.induct)
  case (1 data len i n)
  show ?case
  proof (cases "i < len")
    case True
    obtain data' n' i' where st: "clean_step data len i n = (data', n', i')"
      by (cases "clean_step data len i n")
    note r = clean_step_ref [OF st "1.prems"(1) True "1.prems"(3)]
    have "case clean_loop data' len i' n' of (data'', n'') \<Rightarrow>
      length data'' = length data' \<and> n'' \<le> len \<and>
      take n'' data'' = clean_ref (take n' data') (drop i' (take len data'))"
      using "1.IH" [OF True st [symmetric] refl] r "1.prems" by simp
    then show ?thesis using r True st by (subst clean_loop.simps) simp
  next
    case False
    then show ?thesis using "1.prems" by (subst clean_loop.simps) simp
  qed
qed


section \<open>Properties\<close>

lemma set_drop_char: "set (drop_char out) \<subseteq> set out"
proof -
  have "set (tl (dropWhile is_cont (rev out))) \<subseteq> set (dropWhile is_cont (rev out))"
    by (metis list.set_sel(2) list.sel(2) subsetI)
  also have "\<dots> \<subseteq> set out" by (auto dest: set_dropWhileD)
  finally show ?thesis by (simp add: drop_char_def)
qed

lemma clean_ref_text:
  "\<forall>b \<in> set out. is_text b \<Longrightarrow> \<forall>b \<in> set (clean_ref out bs). is_text b"
proof (induction out bs rule: clean_ref.induct)
  case (2 out b bs)
  have drop: "\<forall>b \<in> set (drop_char out). is_text b" using "2.prems" set_drop_char [of out] by blast
  consider (esc) "b = 0x1B" | (bs) "b \<noteq> 0x1B" "b = 0x08" | (keep) "b \<noteq> 0x1B" "b \<noteq> 0x08" "is_text b"
    | (ctl) "b \<noteq> 0x1B" "b \<noteq> 0x08" "\<not> is_text b" by blast
  then show ?case
  proof cases
    case esc then show ?thesis using "2.IH"(1) [OF esc "2.prems"] by simp
  next
    case bs then show ?thesis using "2.IH"(2) [OF bs drop] by simp
  next
    case keep
    then have "\<forall>b \<in> set (out @ [b]). is_text b" using "2.prems" by simp
    from "2.IH"(3) [OF keep this] show ?thesis using keep by simp
  next
    case ctl then show ?thesis using "2.IH"(4) [OF ctl "2.prems"] by simp
  qed
qed simp

lemma is_text_not_special: "is_text b \<Longrightarrow> b \<noteq> 0x1B \<and> b \<noteq> 0x08"
  by (auto simp: is_text_def)

lemma clean_ref_id: "\<forall>b \<in> set bs. is_text b \<Longrightarrow> clean_ref out bs = out @ bs"
  by (induction bs arbitrary: out) (auto dest: is_text_not_special)

lemma clm_clean_text_ref:
  assumes "len \<le> length data" "clm_clean_text (Some data) len = (Some data', n)"
  shows "n \<le> len" "length data' = length data" "take n data' = clean_ref [] (take len data)"
  using assms clean_loop_ref [of 0 0 len data]
  by (auto simp: clm_clean_text_def split: prod.splits)

text \<open>C36 (equivalence). The in-place loop of \<^verbatim>\<open>clm_clean_text\<close> stays inside the buffer, never grows the
  text, and leaves in the first \<open>n\<close> bytes exactly the stream reduction of the input: escape
  sequences skipped, overstrikes removing the character before them, control bytes dropped.\<close>

theorem text_clean_in_place:
  assumes "len \<le> length data"
  shows "\<exists>data' n. clm_clean_text (Some data) len = (Some data', n) \<and> n \<le> len
    \<and> length data' = length data \<and> take n data' = clean_ref [] (take len data)"
proof -
  obtain data' n where r: "clm_clean_text (Some data) len = (Some data', n)"
    by (cases "clean_loop data len 0 0") (simp add: clm_clean_text_def)
  then show ?thesis using clm_clean_text_ref [OF assms r] by blast
qed

text \<open>The bold \<^verbatim>\<open>x\<close> of nroff, an SGR sequence and a bell.\<close>

definition sample_output :: "byte list" where
  "sample_output = [0x78, 0x08, 0x78, 0x1B, 0x5B, 0x31, 0x6D, 0x79, 0x07, 0x0A]"

theorem text_clean_in_place_witness:
  "\<exists>data' n. clm_clean_text (Some sample_output) 10 = (Some data', n) \<and> n \<le> 10
    \<and> length data' = length sample_output \<and> take n data' = [0x78, 0x79, 0x0A]"
proof -
  have h: "10 \<le> length sample_output" by (simp add: sample_output_def)
  have "clean_ref [] (take 10 sample_output) = [0x78, 0x79, 0x0A]"
    by (simp add: sample_output_def is_text_def drop_char_def is_cont_def)
  then show ?thesis using text_clean_in_place [OF h] by simp
qed

text \<open>(safety). Nothing that could drive a terminal survives: the text left behind holds no
  escape, no backspace, no DEL and no control byte other than tab and newline.\<close>

theorem text_clean_plain:
  assumes "len \<le> length data" "clm_clean_text (Some data) len = (Some data', n)"
  shows "\<forall>b \<in> set (take n data'). is_text b"
  using clm_clean_text_ref(3) [OF assms] clean_ref_text [of "[]"] by simp

theorem text_clean_plain_witness:
  "\<exists>data' n. clm_clean_text (Some sample_output) 10 = (Some data', n)
     \<and> (\<forall>b \<in> set (take n data'). is_text b)"
proof -
  have h: "10 \<le> length sample_output" by (simp add: sample_output_def)
  then obtain data' n where "clm_clean_text (Some sample_output) 10 = (Some data', n)"
    by (cases "clean_loop sample_output 10 0 0") (simp add: clm_clean_text_def)
  then show ?thesis using text_clean_plain [OF h] by blast
qed

text \<open>(functional). Cleaning is idempotent: a second pass over cleaned text keeps every byte.\<close>

theorem text_clean_idempotent:
  assumes "len \<le> length data" "clm_clean_text (Some data) len = (Some data', n)"
    and "clm_clean_text (Some data') n = (Some data'', m)"
  shows "take m data'' = take n data'"
proof -
  have "n \<le> length data'" using clm_clean_text_ref(1,2) [OF assms(1,2)] assms(1) by simp
  from clm_clean_text_ref(3) [OF this assms(3)]
  have "take m data'' = clean_ref [] (take n data')" .
  also have "\<dots> = [] @ take n data'"
    using clm_clean_text_ref(3) [OF assms(1,2)] clean_ref_text [of "[]"] by (intro clean_ref_id) simp
  finally show ?thesis by simp
qed

theorem text_clean_idempotent_witness:
  "\<exists>data' n data'' m. clm_clean_text (Some sample_output) 10 = (Some data', n)
     \<and> clm_clean_text (Some data') n = (Some data'', m) \<and> take m data'' = take n data'"
proof -
  have h: "10 \<le> length sample_output" by (simp add: sample_output_def)
  then obtain data' n where 1: "clm_clean_text (Some sample_output) 10 = (Some data', n)"
    by (cases "clean_loop sample_output 10 0 0") (simp add: clm_clean_text_def)
  obtain data'' m where 2: "clm_clean_text (Some data') n = (Some data'', m)"
    by (cases "clean_loop data' n 0 0") (simp add: clm_clean_text_def)
  show ?thesis using 1 2 text_clean_idempotent [OF h 1 2] by blast
qed

end
