(* ===== verification/Base64.thy ===== *)
theory Base64
  imports Clm_Prelude
begin

text \<open>
  Base64 (RFC 4648, padded) for data URLs: the first half of \<^verbatim>\<open>libclm/image.c\<close>. The 24-bit group of
  a quantum is a 32-bit word as in the code; the index loops become recursion over quanta.
\<close>

section \<open>Model\<close>

definition clm_base64_len :: "nat \<Rightarrow> nat" where
  "clm_base64_len n = (n + 2) div 3 * 4"

definition b64_tab :: "byte list" where
  "b64_tab = lit ''ABCDEFGHIJKLMNOPQRSTUVWXYZabcdefghijklmnopqrstuvwxyz0123456789+/''"

text \<open>\<^verbatim>\<open>tab[v >> s & 63]\<close>\<close>

definition sextet :: "u32 \<Rightarrow> nat \<Rightarrow> u32" where
  "sextet v s = drop_bit s v AND 63"

definition tab_at :: "u32 \<Rightarrow> nat \<Rightarrow> byte" where
  "tab_at v s = b64_tab ! unat (sextet v s)"

abbreviation pad_char :: byte where
  "pad_char \<equiv> 0x3D"

fun clm_base64_encode :: "byte list \<Rightarrow> cstr" where
  "clm_base64_encode (x # y # z # rest) =
     (let v = push_bit 16 (ucast x) OR push_bit 8 (ucast y) OR ucast z
      in [tab_at v 18, tab_at v 12, tab_at v 6, tab_at v 0] @ clm_base64_encode rest)"
| "clm_base64_encode [x, y] =
     (let v = push_bit 16 (ucast x) OR push_bit 8 (ucast y)
      in [tab_at v 18, tab_at v 12, tab_at v 6, pad_char])"
| "clm_base64_encode [x] =
     (let v = push_bit 16 (ucast x) in [tab_at v 18, tab_at v 12, pad_char, pad_char])"
| "clm_base64_encode [] = []"

definition b64val :: "byte \<Rightarrow> int" where
  "b64val c =
     (if 0x41 \<le> c \<and> c \<le> 0x5A then uint c - 0x41
      else if 0x61 \<le> c \<and> c \<le> 0x7A then uint c - 0x61 + 26
      else if 0x30 \<le> c \<and> c \<le> 0x39 then uint c - 0x30 + 52
      else if c = 0x2B then 62
      else if c = 0x2F then 63
      else - 1)"

text \<open>One quantum of \<^verbatim>\<open>clm_base64_decode\<close>: the bytes it yields, or \<open>None\<close> for \<^verbatim>\<open>-EINVAL\<close>.\<close>

definition decode_quantum :: "byte \<Rightarrow> byte \<Rightarrow> byte \<Rightarrow> byte \<Rightarrow> bool \<Rightarrow> byte list option" where
  "decode_quantum i0 i1 i2 i3 lst =
     (let a = b64val i0; b = b64val i1; c = b64val i2; d = b64val i3;
          pad = (if c < 0 then 2 else if d < 0 then 1 else 0 :: nat) in
      if a < 0 \<or> b < 0 then None
      else if c < 0 \<and> \<not> (lst \<and> i2 = pad_char \<and> i3 = pad_char) then None
      else if d < 0 \<and> \<not> (lst \<and> i3 = pad_char) then None
      else let v = push_bit 18 (word_of_int a :: u32) OR push_bit 12 (word_of_int b)
             OR push_bit 6 (word_of_int (if c < 0 then 0 else c))
             OR word_of_int (if d < 0 then 0 else d) in
        if pad = 2 \<and> v AND 0xffff \<noteq> 0 \<or> pad = 1 \<and> v AND 0xff \<noteq> 0 then None
        else Some ([ucast (drop_bit 16 v)]
           @ (if pad < 2 then [ucast (drop_bit 8 v)] else [])
           @ (if pad < 1 then [ucast v] else [])))"

fun decode_loop :: "cstr \<Rightarrow> byte list option" where
  "decode_loop (i0 # i1 # i2 # i3 # rest) =
     (case decode_quantum i0 i1 i2 i3 (rest = []) of
        None \<Rightarrow> None
      | Some bs \<Rightarrow> map_option (\<lambda>r. bs @ r) (decode_loop rest))"
| "decode_loop _ = Some []"

definition clm_base64_decode :: "cstr \<Rightarrow> errno + byte list" where
  "clm_base64_decode s =
     (if length s mod 4 \<noteq> 0 then Inl EINVAL
      else case decode_loop s of None \<Rightarrow> Inl EINVAL | Some bs \<Rightarrow> Inr bs)"

section \<open>The alphabet\<close>

lemma tab_values: "\<forall>k \<in> set [0..<64]. b64val (b64_tab ! k) = int k"
  by code_simp

lemma b64val_tab: "k < 64 \<Longrightarrow> b64val (b64_tab ! k) = int k"
  using tab_values by simp


lemma b64val_bounds: "- 1 \<le> b64val c" "b64val c < 64"
  by (auto simp: b64val_def word_le_def)

lemma b64val_inj:
  assumes "0 \<le> b64val c" "b64val c = b64val c'" shows "c = c'"
proof -
  have "uint c = uint c'"
    using assms by (auto simp: b64val_def word_le_def word_uint_eq_iff split: if_splits)
  then show ?thesis by (simp add: word_uint_eq_iff)
qed

lemma tab_b64val:
  assumes "0 \<le> b64val c" shows "b64_tab ! nat (b64val c) = c"
proof -
  have "b64val (b64_tab ! nat (b64val c)) = b64val c"
    using assms b64val_bounds(2) [of c] b64val_tab [of "nat (b64val c)"] by simp
  from b64val_inj [OF assms this [symmetric]] show ?thesis by simp
qed

lemma b64val_pad [simp]: "b64val pad_char = - 1"
  by (simp add: b64val_def)

section \<open>Sextets\<close>

definition join4 :: "u32 \<Rightarrow> u32 \<Rightarrow> u32 \<Rightarrow> u32 \<Rightarrow> u32" where
  "join4 a b c d = push_bit 18 a OR push_bit 12 b OR push_bit 6 c OR d"

text \<open>A bit position in a 24-bit group, by sextet and by byte.\<close>

lemma split_24_by_6:
  obtains k where "n = 24 + k" | k where "n = 18 + k" "k < 6" | k where "n = 12 + k" "k < 6"
    | k where "n = 6 + k" "k < 6" | "n < (6 :: nat)"
proof -
  consider "24 \<le> n" | "18 \<le> n" "n < 24" | "12 \<le> n" "n < 18" | "6 \<le> n" "n < 12" | "n < 6"
    by linarith
  then show thesis
    by cases (use that(1) [of "n - 24"] that(2) [of "n - 18"] that(3) [of "n - 12"]
      that(4) [of "n - 6"] that(5) in auto)
qed

lemma split_24:
  obtains k where "n = 24 + k" | k where "n = 16 + k" "k < 8" | k where "n = 8 + k" "k < 8"
    | "n < (8 :: nat)"
proof -
  consider "24 \<le> n" | "16 \<le> n" "n < 24" | "8 \<le> n" "n < 16" | "n < 8" by linarith
  then show thesis
    by cases (use that(1) [of "n - 24"] that(2) [of "n - 16"] that(3) [of "n - 8"] that(4) in auto)
qed

lemma mask_6: "(63 :: u32) = mask 6"
  by (simp add: mask_numeral)

lemma bit_sextet: "bit (sextet v s) n \<longleftrightarrow> n < 6 \<and> bit v (s + n)"
  by (auto simp: sextet_def mask_6 bit_simps)

lemma sextet_less: "unat (sextet v s) < 64"
proof -
  have "sextet v s < 2 ^ 6" unfolding sextet_def mask_6 by (rule and_mask_less') simp
  then show ?thesis by (simp add: word_less_nat_alt)
qed

lemma b64val_tab_at: "b64val (tab_at v s) = uint (sextet v s)"
  using b64val_tab [OF sextet_less] by (simp add: tab_at_def)

lemma b64val_nonneg [simp]: "\<not> b64val (tab_at v s) < 0"
  by (simp add: b64val_tab_at)

lemma join4_sextets:
  assumes "\<And>n. 24 \<le> n \<Longrightarrow> \<not> bit v n"
  shows "join4 (sextet v 18) (sextet v 12) (sextet v 6) (sextet v 0) = v"
proof (rule bit_word_eqI)
  fix n assume n: "n < LENGTH(32)"
  consider k where "n = 24 + k" | k where "n = 18 + k" "k < 6" | k where "n = 12 + k" "k < 6"
    | k where "n = 6 + k" "k < 6" | "n < 6"
    by (rule split_24_by_6)
  then show "bit (join4 (sextet v 18) (sextet v 12) (sextet v 6) (sextet v 0)) n = bit v n"
    by cases (use n in \<open>simp_all add: join4_def bit_or_iff bit_push_bit_iff bit_sextet assms\<close>)
qed

lemma bit_high_sextet: "unat (a :: u32) < 64 \<Longrightarrow> bit a n \<Longrightarrow> n < 6"
proof (rule ccontr)
  assume a: "unat a < 64" "bit a n" "\<not> n < 6"
  then have "unat a < 2 ^ n" using power_increasing [of 6 n "2 :: nat"] by simp
  then have "\<not> bit (unat a) n" by (simp add: bit_iff_odd)
  then show False using a(2) by (simp add: bit_unsigned_iff)
qed

lemma sextet_join4:
  assumes "unat a < 64" "unat b < 64" "unat c < 64" "unat d < 64"
  shows "sextet (join4 a b c d) 18 = a" "sextet (join4 a b c d) 12 = b"
    "sextet (join4 a b c d) 6 = c" "sextet (join4 a b c d) 0 = d"
proof -
  note hi = assms [THEN bit_high_sextet]
  show "sextet (join4 a b c d) 18 = a" "sextet (join4 a b c d) 12 = b"
    "sextet (join4 a b c d) 6 = c" "sextet (join4 a b c d) 0 = d"
    by (rule bit_word_eqI, auto simp: join4_def bit_or_iff bit_push_bit_iff bit_sextet dest: hi)+
qed

lemma join4_high: 
  assumes "unat a < 64" "unat b < 64" "unat c < 64" "unat d < 64" "24 \<le> n"
  shows "\<not> bit (join4 a b c d) n"
proof -
  note hi = assms(1-4) [THEN bit_high_sextet]
  have "\<not> bit a (n - 18)" "\<not> bit b (n - 12)" "\<not> bit c (n - 6)" "\<not> bit d n"
    using assms(5) hi(1) [of "n - 18"] hi(2) [of "n - 12"] hi(3) [of "n - 6"] hi(4) [of n] by auto
  then show ?thesis by (simp add: join4_def bit_or_iff bit_push_bit_iff)
qed

section \<open>Groups of three bytes\<close>

definition group3 :: "byte \<Rightarrow> byte \<Rightarrow> byte \<Rightarrow> u32" where
  "group3 x y z = push_bit 16 (ucast x) OR push_bit 8 (ucast y) OR ucast z"

lemma bit_byte: "bit (x :: byte) n \<Longrightarrow> n < 8"
  using bit_imp_le_length [of x n] by simp

lemma bit_group3: "bit (group3 x y z) n \<longleftrightarrow>
    16 \<le> n \<and> bit x (n - 16) \<or> 8 \<le> n \<and> bit y (n - 8) \<or> bit z n"
  using bit_byte [of x "n - 16"] bit_byte [of y "n - 8"] bit_byte [of z n]
  by (auto simp: group3_def bit_or_iff bit_push_bit_iff bit_ucast_iff)

lemma group3_high: "24 \<le> n \<Longrightarrow> \<not> bit (group3 x y z) n"
  by (auto simp: bit_group3 dest: bit_byte)

lemma group3_bytes:
  "ucast (drop_bit 16 (group3 x y z)) = x" "ucast (drop_bit 8 (group3 x y z)) = y"
  "ucast (group3 x y z) = z"
  by (rule bit_word_eqI, auto simp: bit_ucast_iff bit_drop_bit_eq bit_group3 dest: bit_byte)+

lemma group3_of_bytes:
  assumes "\<And>n. 24 \<le> n \<Longrightarrow> \<not> bit (v :: u32) n"
  shows "group3 (ucast (drop_bit 16 v)) (ucast (drop_bit 8 v)) (ucast v) = v"
proof (rule bit_word_eqI)
  fix n assume n: "n < LENGTH(32)"
  consider k where "n = 24 + k" | k where "n = 16 + k" "k < 8" | k where "n = 8 + k" "k < 8" | "n < 8"
    by (rule split_24)
  then show "bit (group3 (ucast (drop_bit 16 v)) (ucast (drop_bit 8 v)) (ucast v)) n = bit v n"
    by cases (use n in \<open>simp_all add: bit_group3 bit_ucast_iff bit_drop_bit_eq assms\<close>)
qed


lemma and_mask_zero: "(v :: u32) AND mask m = 0 \<longleftrightarrow> (\<forall>n < m. \<not> bit v n)"
proof -
  have "bit v n \<Longrightarrow> n < 32" for n using bit_imp_le_length [of v n] by simp
  then show ?thesis by (auto simp: bit_eq_iff bit_and_iff bit_mask_iff)
qed

lemma and_ff_zero: "(v :: u32) AND 0xff = 0 \<longleftrightarrow> (\<forall>n < 8. \<not> bit v n)"
  and and_ffff_zero: "(v :: u32) AND 0xffff = 0 \<longleftrightarrow> (\<forall>n < 16. \<not> bit v n)"
  using and_mask_zero [of v 8] and_mask_zero [of v 16] by (simp_all add: mask_numeral)

lemma low_byte_zero: "(v :: u32) AND 0xff = 0 \<longleftrightarrow> (ucast v :: byte) = 0"
  unfolding and_ff_zero by (auto simp: bit_eq_iff bit_ucast_iff)

lemma low_bytes_zero:
  "(v :: u32) AND 0xffff = 0 \<longleftrightarrow> (ucast v :: byte) = 0 \<and> (ucast (drop_bit 8 v) :: byte) = 0"
proof -
  have "(\<forall>n < 16. \<not> bit v n) \<longleftrightarrow> (\<forall>n < 8. \<not> bit v n) \<and> (\<forall>n < 8. \<not> bit v (8 + n))"
  proof safe
    fix n assume h: "\<forall>n < 8. \<not> bit v n" "\<forall>n < 8. \<not> bit v (8 + n)" "n < 16" "bit v n"
    then have "\<not> n < 8" by blast
    then obtain k where "n = 8 + k" by (metis le_Suc_ex not_less)
    then show False using h by simp
  qed auto
  then show ?thesis unfolding and_ffff_zero by (auto simp: bit_eq_iff bit_ucast_iff bit_drop_bit_eq)
qed

lemma sextet_0_low: "(ucast v :: byte) = 0 \<Longrightarrow> sextet v 0 = 0"
  by (auto simp: bit_eq_iff bit_sextet bit_ucast_iff)

lemma sextet_6_low:
  assumes "v AND 0xffff = 0" shows "sextet v 6 = 0" "sextet v 0 = 0"
  using assms unfolding and_ffff_zero by (auto simp: bit_eq_iff bit_sextet)

section \<open>Quanta\<close>

lemma encode_group3:
  "clm_base64_encode (x # y # z # rest) = (let v = group3 x y z in
     [tab_at v 18, tab_at v 12, tab_at v 6, tab_at v 0] @ clm_base64_encode rest)"
  "clm_base64_encode [x, y] = (let v = group3 x y 0 in
     [tab_at v 18, tab_at v 12, tab_at v 6, pad_char])"
  "clm_base64_encode [x] = (let v = group3 x 0 0 in
     [tab_at v 18, tab_at v 12, pad_char, pad_char])"
  by (simp_all add: group3_def)

declare clm_base64_encode.simps(1-3) [simp del]

text \<open>The decoder's guards and group in terms of the sextets of the four characters.\<close>

lemma decode_quantum_join4:
  "decode_quantum i0 i1 i2 i3 lst =
     (let c = b64val i2; d = b64val i3; pad = (if c < 0 then 2 else if d < 0 then 1 else 0 :: nat);
          v = join4 (word_of_int (b64val i0)) (word_of_int (b64val i1))
                (word_of_int (if c < 0 then 0 else c)) (word_of_int (if d < 0 then 0 else d)) in
      if b64val i0 < 0 \<or> b64val i1 < 0
        \<or> c < 0 \<and> \<not> (lst \<and> i2 = pad_char \<and> i3 = pad_char) \<or> d < 0 \<and> \<not> (lst \<and> i3 = pad_char)
        \<or> pad = 2 \<and> v AND 0xffff \<noteq> 0 \<or> pad = 1 \<and> v AND 0xff \<noteq> 0
      then None
      else Some (take (3 - pad) [ucast (drop_bit 16 v), ucast (drop_bit 8 v), ucast v]))"
  by (cases "b64val i0 < 0"; cases "b64val i1 < 0"; cases "b64val i2 < 0"; cases "b64val i3 < 0";
      auto simp: decode_quantum_def Let_def join4_def)

lemma decode_quantum_full:
  "decode_quantum (tab_at v 18) (tab_at v 12) (tab_at v 6) (tab_at v 0) lst = Some [x, y, z]"
  if "v = group3 x y z"
  using that join4_sextets [OF group3_high, of x y z]
  by (simp add: decode_quantum_join4 Let_def b64val_tab_at group3_bytes)

lemma decode_quantum_two:
  "decode_quantum (tab_at v 18) (tab_at v 12) (tab_at v 6) pad_char True = Some [x, y]"
  if "v = group3 x y 0"
proof -
  have low: "(ucast v :: byte) = 0" using that by (simp add: group3_bytes)
  have "join4 (sextet v 18) (sextet v 12) (sextet v 6) 0 = v"
    using join4_sextets [OF group3_high, of x y 0] sextet_0_low [OF low] that by simp
  then show ?thesis using low that
    by (simp add: decode_quantum_join4 Let_def b64val_tab_at group3_bytes low_byte_zero)
qed

lemma decode_quantum_one:
  "decode_quantum (tab_at v 18) (tab_at v 12) pad_char pad_char True = Some [x]"
  if "v = group3 x 0 0"
proof -
  have low: "v AND 0xffff = 0" using that by (simp add: low_bytes_zero group3_bytes)
  have "join4 (sextet v 18) (sextet v 12) 0 0 = v"
    using join4_sextets [OF group3_high, of x 0 0] sextet_6_low [OF low] that by simp
  then show ?thesis using low that
    by (simp add: decode_quantum_join4 Let_def b64val_tab_at group3_bytes)
qed

lemma decode_loop_encode: "decode_loop (clm_base64_encode bs) = Some bs"
  by (induction bs rule: clm_base64_encode.induct)
    (simp_all add: encode_group3 Let_def decode_quantum_full decode_quantum_two decode_quantum_one)

lemma length_encode: "length (clm_base64_encode bs) = clm_base64_len (length bs)"
  by (induction bs rule: clm_base64_encode.induct)
    (simp_all add: encode_group3 Let_def clm_base64_len_def, presburger)

section \<open>Every accepted string is the encoding of its bytes\<close>

lemma sextet_word:
  assumes "0 \<le> b64val i" shows "unat (word_of_int (b64val i) :: u32) = nat (b64val i)"
  using assms b64val_bounds(2) [of i]
  by (simp add: unat_eq_nat_uint uint_word_of_int_eq take_bit_int_eq_self)

lemma tab_at_sextet:
  assumes "sextet v s = word_of_int (b64val i)" "0 \<le> b64val i" shows "tab_at v s = i"
  using assms by (simp add: tab_at_def sextet_word tab_b64val)

lemma decode_quantum_sound:
  assumes dec: "decode_quantum i0 i1 i2 i3 lst = Some bs"
  shows "clm_base64_encode bs = [i0, i1, i2, i3]" "\<not> lst \<Longrightarrow> length bs = 3" "bs \<noteq> []"
    "length bs \<le> 3"
proof -
  define wc where "wc = (word_of_int (if b64val i2 < 0 then 0 else b64val i2) :: u32)"
  define wd where "wd = (word_of_int (if b64val i3 < 0 then 0 else b64val i3) :: u32)"
  define v where "v = join4 (word_of_int (b64val i0)) (word_of_int (b64val i1)) wc wd"
  have ab: "0 \<le> b64val i0" "0 \<le> b64val i1"
    using dec by (auto simp: decode_quantum_join4 Let_def split: if_splits)
  have lt: "unat (word_of_int (b64val i0) :: u32) < 64" "unat (word_of_int (b64val i1) :: u32) < 64"
    "unat wc < 64" "unat wd < 64"
    using ab b64val_bounds(2) sextet_word by (auto simp: wc_def wd_def nat_less_iff)
  note sx = sextet_join4 [OF lt, folded v_def]
  have g3: "group3 (ucast (drop_bit 16 v)) (ucast (drop_bit 8 v)) (ucast v) = v"
    using join4_high [OF lt] by (intro group3_of_bytes) (simp add: v_def)
  have i01: "tab_at v 18 = i0" "tab_at v 12 = i1" using sx(1,2) ab by (simp_all add: tab_at_sextet)
  have i2: "tab_at v 6 = i2" if "0 \<le> b64val i2"
    using that sx(3) by (intro tab_at_sextet) (simp_all add: wc_def)
  have i3: "tab_at v 0 = i3" if "0 \<le> b64val i3"
    using that sx(4) by (intro tab_at_sextet) (simp_all add: wd_def)
  note D = dec [unfolded decode_quantum_join4 Let_def, folded wc_def wd_def, folded v_def]
  consider (none) "0 \<le> b64val i2" "0 \<le> b64val i3" | (one) "0 \<le> b64val i2" "b64val i3 < 0"
    | (two) "b64val i2 < 0" by linarith
  then have "clm_base64_encode bs = [i0, i1, i2, i3] \<and> (\<not> lst \<longrightarrow> length bs = 3)
    \<and> bs \<noteq> [] \<and> length bs \<le> 3"
  proof cases
    case none
    then show ?thesis using D g3 i01 i2 i3
      by (auto simp: encode_group3 Let_def split: if_splits)
  next
    case one
    then have "bs = [ucast (drop_bit 16 v), ucast (drop_bit 8 v)]" "(ucast v :: byte) = 0"
      "i3 = pad_char" lst
      using D by (auto simp: low_byte_zero split: if_splits)
    then show ?thesis using g3 i01 i2 [OF one(1)] by (simp add: encode_group3 Let_def)
  next
    case two
    then have "bs = [ucast (drop_bit 16 v)]" "(ucast v :: byte) = 0"
      "(ucast (drop_bit 8 v) :: byte) = 0" "i2 = pad_char" "i3 = pad_char" lst
      using D by (auto simp: low_bytes_zero split: if_splits)
    then show ?thesis using g3 i01 by (simp add: encode_group3 Let_def)
  qed
  then show "clm_base64_encode bs = [i0, i1, i2, i3]" "\<not> lst \<Longrightarrow> length bs = 3" "bs \<noteq> []"
    "length bs \<le> 3" by auto
qed

lemma decode_loop_sound:
  assumes "length s mod 4 = 0" "decode_loop s = Some bs" shows "clm_base64_encode bs = s"
  using assms
proof (induction s arbitrary: bs rule: decode_loop.induct)
  case (1 i0 i1 i2 i3 rest)
  then obtain q r where q: "decode_quantum i0 i1 i2 i3 (rest = []) = Some q"
    and r: "decode_loop rest = Some r" and bs: "bs = q @ r"
    by (auto split: option.splits)
  note sound = decode_quantum_sound [OF q]
  have IH: "clm_base64_encode r = rest" using "1.IH" [OF q _ r] "1.prems"(1) by simp
  show ?case
  proof (cases "rest = []")
    case True then show ?thesis using sound(1) bs r by simp
  next
    case False
    then obtain x y z where xyz: "q = [x, y, z]" using sound(2)
      by (auto simp: length_Suc_conv numeral_3_eq_3)
    then show ?thesis using sound(1) IH bs by (simp add: encode_group3 Let_def)
  qed
qed simp_all


lemma clm_base64_len_mod: "clm_base64_len n mod 4 = 0"
  by (simp add: clm_base64_len_def)

lemma decode_encode_iff: "clm_base64_decode s = Inr bs \<longleftrightarrow> s = clm_base64_encode bs"
proof
  assume "clm_base64_decode s = Inr bs"
  then have "length s mod 4 = 0" "decode_loop s = Some bs"
    by (auto simp: clm_base64_decode_def split: if_splits option.splits)
  then show "s = clm_base64_encode bs" using decode_loop_sound by simp
next
  assume "s = clm_base64_encode bs"
  then show "clm_base64_decode s = Inr bs"
    by (simp add: clm_base64_decode_def decode_loop_encode length_encode clm_base64_len_mod)
qed

text \<open>C37 (roundtrip). Encoding and decoding are inverse to each other: the decoder accepts exactly the
  strings the encoder produces and returns the bytes they came from, so each byte string has
  exactly one accepted encoding.\<close>

theorem base64_decode_iff_encode:
  "clm_base64_decode s = Inr bs \<longleftrightarrow> s = clm_base64_encode bs"
  by (rule decode_encode_iff)

text \<open>(bounds). The buffer contracts of \<^verbatim>\<open>internal.h\<close>: the encoder writes \<^verbatim>\<open>clm_base64_len(n)\<close>
  characters, and whatever the decoder accepts fits in the \<^verbatim>\<open>n / 4 * 3\<close> bytes its callers allocate.\<close>

theorem base64_buffer_sizes:
  "length (clm_base64_encode bs) = clm_base64_len (length bs)
   \<and> (\<forall>s. clm_base64_decode s = Inr bs \<longrightarrow> length bs \<le> length s div 4 * 3)"
proof -
  have "length bs \<le> length (clm_base64_encode bs) div 4 * 3"
    by (simp add: length_encode clm_base64_len_def)
  then show ?thesis by (simp add: length_encode decode_encode_iff)
qed

theorem base64_buffer_sizes_witness:
  "clm_base64_decode (lit ''aGk='') = Inr [0x68, 0x69]
   \<and> length [0x68, 0x69 :: byte] \<le> length (lit ''aGk='') div 4 * 3"
proof -
  have h: "clm_base64_decode (lit ''aGk='') = Inr [0x68, 0x69]"
    by (simp add: clm_base64_decode_def decode_quantum_def b64val_def)
  then show ?thesis using base64_buffer_sizes [of "[0x68, 0x69]"] by blast
qed

end
