(* ===== verification/Image.thy ===== *)
theory Image
  imports Clm_Prelude "HOL-Library.Monad_Syntax"
begin

text \<open>
  Recognition of an image by its first bytes: the second half of \<^verbatim>\<open>libclm/image.c\<close>. Every read of
  the buffer goes through \<open>rd\<close>, which is \<open>None\<close> past the end of the buffer, so a computation that
  is \<open>None\<close> is one that would read out of bounds.
\<close>

section \<open>Bounded reads\<close>

definition rd :: "byte list \<Rightarrow> nat \<Rightarrow> byte option" where
  "rd d i = (if i < length d then Some (d ! i) else None)"

lemma rd_eq [simp]: "i < length d \<Longrightarrow> rd d i = Some (d ! i)"
  by (simp add: rd_def)

definition be16 :: "byte list \<Rightarrow> nat \<Rightarrow> u32 option" where
  "be16 d i = do { p0 \<leftarrow> rd d i; p1 \<leftarrow> rd d (i + 1);
     Some (push_bit 8 (ucast p0) OR ucast p1) }"

definition be32 :: "byte list \<Rightarrow> nat \<Rightarrow> u32 option" where
  "be32 d i = do { p0 \<leftarrow> rd d i; p1 \<leftarrow> rd d (i + 1); p2 \<leftarrow> rd d (i + 2); p3 \<leftarrow> rd d (i + 3);
     Some (push_bit 24 (ucast p0) OR push_bit 16 (ucast p1) OR push_bit 8 (ucast p2) OR ucast p3) }"

definition le16 :: "byte list \<Rightarrow> nat \<Rightarrow> u32 option" where
  "le16 d i = do { p0 \<leftarrow> rd d i; p1 \<leftarrow> rd d (i + 1);
     Some (push_bit 8 (ucast p1) OR ucast p0) }"

definition le24 :: "byte list \<Rightarrow> nat \<Rightarrow> u32 option" where
  "le24 d i = do { p0 \<leftarrow> rd d i; p1 \<leftarrow> rd d (i + 1); p2 \<leftarrow> rd d (i + 2);
     Some (push_bit 16 (ucast p2) OR push_bit 8 (ucast p1) OR ucast p0) }"

text \<open>\<^verbatim>\<open>memcmp(d + i, s, strlen(s)) == 0\<close>, byte by byte.\<close>

fun memeq :: "byte list \<Rightarrow> nat \<Rightarrow> byte list \<Rightarrow> bool option" where
  "memeq d i [] = Some True"
| "memeq d i (c # cs) = do { b \<leftarrow> rd d i; if b = c then memeq d (i + 1) cs else Some False }"

section \<open>The formats\<close>

type_synonym sniffed = "(errno + u32 \<times> u32) option"

definition sniff_png :: "byte list \<Rightarrow> sniffed" where
  "sniff_png d =
     (if length d < 24 then Some (Inl EINVAL)
      else do {
        eq \<leftarrow> memeq d 12 (lit ''IHDR'');
        if \<not> eq then Some (Inl EINVAL)
        else do { w \<leftarrow> be32 d 16; h \<leftarrow> be32 d 20; Some (Inr (w, h)) } })"

text \<open>The marker walk of \<^verbatim>\<open>sniff_jpeg\<close> from offset \<open>i\<close>.\<close>

function jpeg_walk :: "byte list \<Rightarrow> nat \<Rightarrow> sniffed" where
  "jpeg_walk d i =
     (if i + 4 \<le> length d then do {
        b \<leftarrow> rd d i;
        if b \<noteq> 0xff then Some (Inl EINVAL)
        else do {
          m \<leftarrow> rd d (i + 1);
          if m = 0xff then jpeg_walk d (i + 1)
          else if m = 0x01 \<or> (m \<ge> 0xd0 \<and> m \<le> 0xd8) then jpeg_walk d (i + 2)
          else do {
            seg \<leftarrow> be16 d (i + 2);
            if seg < 2 then Some (Inl EINVAL)
            else if m \<ge> 0xc0 \<and> m \<le> 0xcf \<and> m \<noteq> 0xc4 \<and> m \<noteq> 0xc8 \<and> m \<noteq> 0xcc then
              (if i + 9 > length d \<or> seg < 7 then Some (Inl EINVAL)
               else do { h \<leftarrow> be16 d (i + 5); w \<leftarrow> be16 d (i + 7); Some (Inr (w, h)) })
            else jpeg_walk d (i + 2 + unat seg) } } }
      else Some (Inl EINVAL))"
  by pat_completeness auto
termination
  by (relation "measure (\<lambda>(d, i). length d - i)") auto

declare jpeg_walk.simps [simp del]

definition sniff_jpeg :: "byte list \<Rightarrow> sniffed" where
  "sniff_jpeg d = jpeg_walk d 2"

definition sniff_gif :: "byte list \<Rightarrow> sniffed" where
  "sniff_gif d =
     (if length d < 10 then Some (Inl EINVAL)
      else do { w \<leftarrow> le16 d 6; h \<leftarrow> le16 d 8; Some (Inr (w, h)) })"

definition sniff_webp :: "byte list \<Rightarrow> sniffed" where
  "sniff_webp d =
     (if length d < 30 then Some (Inl EINVAL)
      else do {
        x \<leftarrow> memeq d 12 (lit ''VP8X'');
        if x then do { w \<leftarrow> le24 d 24; h \<leftarrow> le24 d 27; Some (Inr (w + 1, h + 1)) }
        else do {
          l \<leftarrow> memeq d 12 (lit ''VP8L'');
          if l then do {
            sig \<leftarrow> rd d 20;
            if sig \<noteq> 0x2f then Some (Inl EINVAL)
            else do {
              b0 \<leftarrow> rd d 21; b1 \<leftarrow> rd d 22; b2 \<leftarrow> rd d 23; b3 \<leftarrow> rd d 24;
              let b = (ucast b0 OR push_bit 8 (ucast b1) OR push_bit 16 (ucast b2)
                        OR push_bit 24 (ucast b3) :: u32) in
              Some (Inr ((b AND 0x3fff) + 1, (drop_bit 14 b AND 0x3fff) + 1)) } }
          else do {
            v \<leftarrow> memeq d 12 (lit ''VP8 '');
            if v then do {
              s0 \<leftarrow> rd d 23;
              if s0 \<noteq> 0x9d then Some (Inl EINVAL)
              else do {
                s1 \<leftarrow> rd d 24;
                if s1 \<noteq> 0x01 then Some (Inl EINVAL)
                else do {
                  s2 \<leftarrow> rd d 25;
                  if s2 \<noteq> 0x2a then Some (Inl EINVAL)
                  else do { w \<leftarrow> le16 d 26; h \<leftarrow> le16 d 28;
                            Some (Inr (w AND 0x3fff, h AND 0x3fff)) } } } }
            else Some (Inl EINVAL) } } })"

text \<open>\<^verbatim>\<open>len >= n && memcmp(data, sig, n) == 0\<close>\<close>

definition has_sig :: "byte list \<Rightarrow> nat \<Rightarrow> byte list \<Rightarrow> bool option" where
  "has_sig d n sig = (if n \<le> length d then memeq d 0 sig else Some False)"

definition clm_image_sniff :: "byte list option \<Rightarrow> (errno + string \<times> u32 \<times> u32) option" where
  "clm_image_sniff data =
     (case data of None \<Rightarrow> Some (Inl EINVAL)
      | Some d \<Rightarrow> do {
        png \<leftarrow> has_sig d 8 [0x89, 0x50, 0x4E, 0x47, 0x0D, 0x0A, 0x1A, 0x0A];
        jpeg \<leftarrow> if png then Some False else has_sig d 3 [0xFF, 0xD8, 0xFF];
        gif87 \<leftarrow> if png \<or> jpeg then Some False else has_sig d 6 (lit ''GIF87a'');
        gif \<leftarrow> if png \<or> jpeg then Some False else if gif87 then Some True
               else has_sig d 6 (lit ''GIF89a'');
        riff \<leftarrow> if png \<or> jpeg \<or> gif then Some False else has_sig d 12 (lit ''RIFF'');
        webp \<leftarrow> if riff then memeq d 8 (lit ''WEBP'') else Some False;
        let found = (if png then Some (''image/png'', sniff_png d)
                     else if jpeg then Some (''image/jpeg'', sniff_jpeg d)
                     else if gif then Some (''image/gif'', sniff_gif d)
                     else if webp then Some (''image/webp'', sniff_webp d)
                     else None) in
        case found of None \<Rightarrow> Some (Inl EINVAL)
        | Some (mt, so) \<Rightarrow> do {
            r \<leftarrow> so;
            case r of Inl e \<Rightarrow> Some (Inl EINVAL)
            | Inr (w, h) \<Rightarrow> if w = 0 \<or> h = 0 then Some (Inl EINVAL) else Some (Inr (mt, w, h)) } })"

section \<open>Reads stay in bounds\<close>

lemma reads_defined:
  "i + 2 \<le> length d \<Longrightarrow> be16 d i \<noteq> None" "i + 4 \<le> length d \<Longrightarrow> be32 d i \<noteq> None"
  "i + 2 \<le> length d \<Longrightarrow> le16 d i \<noteq> None" "i + 3 \<le> length d \<Longrightarrow> le24 d i \<noteq> None"
  by (simp_all add: be16_def be32_def le16_def le24_def)

lemma memeq_defined: "i + length cs \<le> length d \<Longrightarrow> memeq d i cs \<noteq> None"
  by (induction cs arbitrary: i) auto

lemma bind_defined: "x \<noteq> None \<Longrightarrow> (\<And>y. f y \<noteq> None) \<Longrightarrow> Option.bind x f \<noteq> None"
  by (cases x) auto

lemma jpeg_walk_defined: "jpeg_walk d i \<noteq> None"
proof (induction d i rule: jpeg_walk.induct)
  case (1 d i)
  show ?case
    apply (subst jpeg_walk.simps)
    using "1.IH" reads_defined(1) [of "i + 2" d] reads_defined(1) [of "i + 5" d]
      reads_defined(1) [of "i + 7" d]
    by (auto split: if_splits)
qed

lemma sniff_defined:
  "sniff_png d \<noteq> None" "sniff_jpeg d \<noteq> None" "sniff_gif d \<noteq> None" "sniff_webp d \<noteq> None"
proof -
  show "sniff_png d \<noteq> None"
    using reads_defined(2) [of 16 d] reads_defined(2) [of 20 d] memeq_defined [of 12 "lit ''IHDR''" d]
    by (auto simp: sniff_png_def)
  show "sniff_jpeg d \<noteq> None" by (simp add: sniff_jpeg_def jpeg_walk_defined del: not_None_eq)
  show "sniff_gif d \<noteq> None"
    using reads_defined(3) [of 6 d] reads_defined(3) [of 8 d] by (auto simp: sniff_gif_def)
  show "sniff_webp d \<noteq> None"
    using reads_defined(3) [of 26 d] reads_defined(3) [of 28 d] reads_defined(4) [of 24 d]
      reads_defined(4) [of 27 d] memeq_defined [of 12 "lit ''VP8X''" d]
      memeq_defined [of 12 "lit ''VP8L''" d] memeq_defined [of 12 "lit ''VP8 ''" d]
    by (auto simp: sniff_webp_def Let_def)
qed

lemma has_sig_defined: "length sig \<le> n \<Longrightarrow> has_sig d n sig \<noteq> None"
  using memeq_defined [of 0 sig d] by (auto simp: has_sig_def)


text \<open>C39 (safety). \<^verbatim>\<open>clm_image_sniff\<close> returns on every input without reading past the end of the buffer,
  however short, truncated or malformed the header is; the marker walk terminates.\<close>

theorem image_sniff_in_bounds:
  "\<exists>r. clm_image_sniff data = Some r"
proof (cases data)
  case None then show ?thesis by (simp add: clm_image_sniff_def)
next
  case (Some d)
  let ?png = "[0x89, 0x50, 0x4E, 0x47, 0x0D, 0x0A, 0x1A, 0x0A] :: byte list"
  let ?jpg = "[0xFF, 0xD8, 0xFF] :: byte list"
  obtain s1 s2 s3 s4 s5 where sigs: "has_sig d 8 ?png = Some s1" "has_sig d 3 ?jpg = Some s2"
    "has_sig d 6 (lit ''GIF87a'') = Some s3" "has_sig d 6 (lit ''GIF89a'') = Some s4"
    "has_sig d 12 (lit ''RIFF'') = Some s5"
    using has_sig_defined [of ?png 8 d] has_sig_defined [of ?jpg 3 d]
      has_sig_defined [of "lit ''GIF87a''" 6 d] has_sig_defined [of "lit ''GIF89a''" 6 d]
      has_sig_defined [of "lit ''RIFF''" 12 d] by auto
  have webp: "memeq d 8 (lit ''WEBP'') \<noteq> None" if s5
  proof -
    have "12 \<le> length d" using sigs(5) that by (auto simp: has_sig_def split: if_splits)
    then show ?thesis by (intro memeq_defined) simp
  qed
  obtain r1 r2 r3 r4 where res: "sniff_png d = Some r1" "sniff_jpeg d = Some r2"
    "sniff_gif d = Some r3" "sniff_webp d = Some r4"
    using sniff_defined [of d] by auto
  have tail: "\<exists>y. (case r of Inl e \<Rightarrow> Some (Inl EINVAL)
      | Inr (w, h) \<Rightarrow> if w = 0 \<or> h = 0 then Some (Inl EINVAL) else Some (Inr (mt, w, h))) = Some y"
    for r :: "errno + u32 \<times> u32" and mt :: string by (auto split: sum.splits)
  show ?thesis
  proof (cases s5)
    case False
    then show ?thesis using Some sigs res tail
      by (cases s1; cases s2; cases s3; cases s4; simp add: clm_image_sniff_def del: lit_Cons)
  next
    case True
    then obtain s6 where "memeq d 8 (lit ''WEBP'') = Some s6" using webp by auto
    then show ?thesis using Some sigs res tail True
      by (cases s1; cases s2; cases s3; cases s4; cases s6; simp add: clm_image_sniff_def del: lit_Cons)
  qed
qed

section \<open>Recognized headers\<close>

definition be32_bytes :: "u32 \<Rightarrow> byte list" where
  "be32_bytes w = [ucast (drop_bit 24 w), ucast (drop_bit 16 w), ucast (drop_bit 8 w), ucast w]"

definition be16_bytes :: "u16 \<Rightarrow> byte list" where
  "be16_bytes w = [ucast (drop_bit 8 w), ucast w]"

lemma split_32:
  obtains k where "n = 24 + k" | k where "n = 16 + k" "k < 8" | k where "n = 8 + k" "k < 8"
    | "n < (8 :: nat)"
proof -
  consider "24 \<le> n" | "16 \<le> n" "n < 24" | "8 \<le> n" "n < 16" | "n < 8" by linarith
  then show thesis
    by cases (use that(1) [of "n - 24"] that(2) [of "n - 16"] that(3) [of "n - 8"] that(4) in auto)
qed

lemma be32_join: "(push_bit 24 (ucast (ucast (drop_bit 24 w) :: byte))
    OR push_bit 16 (ucast (ucast (drop_bit 16 w) :: byte))
    OR push_bit 8 (ucast (ucast (drop_bit 8 w) :: byte)) OR ucast (ucast w :: byte)) = (w :: u32)"
proof (rule bit_word_eqI, goal_cases)
  case (1 n)
  then show ?case
    by (cases rule: split_32 [of n])
      (simp_all add: bit_or_iff bit_push_bit_iff bit_ucast_iff bit_drop_bit_eq)
qed

lemma be16_join: "(push_bit 8 (ucast (ucast (drop_bit 8 w) :: byte)) OR ucast (ucast w :: byte))
    = (ucast (w :: u16) :: u32)"
proof (rule bit_word_eqI, goal_cases)
  case (1 n)
  have high: "\<not> bit w (16 + k)" "\<not> bit w (24 + k)" for k
    using bit_imp_le_length [of w "16 + k"] bit_imp_le_length [of w "24 + k"] by auto
  from 1 show ?case
    by (cases rule: split_32 [of n])
      (simp_all add: bit_or_iff bit_push_bit_iff bit_ucast_iff bit_drop_bit_eq high)
qed

lemma rd_append [simp]:
  "rd (xs @ ys) (length xs) = rd ys 0" "rd (xs @ ys) (length xs + i) = rd ys i"
  by (auto simp: rd_def nth_append)

lemma be16_append: "be16 (xs @ be16_bytes w @ ys) (length xs) = Some (ucast w)"
  by (simp add: be16_def be16_bytes_def rd_def nth_append be16_join)

lemma be32_append: "be32 (xs @ be32_bytes w @ ys) (length xs) = Some w"
  by (simp add: be32_def be32_bytes_def rd_def nth_append be32_join)

lemma memeq_append: "memeq (xs @ cs @ ys) (length xs) cs = Some True"
proof (induction cs arbitrary: xs)
  case (Cons c cs)
  have "memeq ((xs @ [c]) @ cs @ ys) (length (xs @ [c])) cs = Some True" by (rule Cons.IH)
  then show ?case by (simp add: rd_def nth_append)
qed simp

text \<open>The first 24 bytes of a PNG file: signature, then an IHDR chunk with the size.\<close>

definition png_sig :: "byte list" where
  "png_sig = [0x89, 0x50, 0x4E, 0x47, 0x0D, 0x0A, 0x1A, 0x0A]"

definition png_file :: "u32 \<Rightarrow> u32 \<Rightarrow> byte list \<Rightarrow> byte list" where
  "png_file w h rest =
     png_sig @ be32_bytes 13 @ lit ''IHDR'' @ be32_bytes w @ be32_bytes h @ rest"

lemma be32_at: "length xs = i \<Longrightarrow> d = xs @ be32_bytes w @ ys \<Longrightarrow> be32 d i = Some w"
  using be32_append by blast

lemma sniff_png_file: "sniff_png (png_file w h rest) = Some (Inr (w, h))"
proof -
  have "memeq (png_file w h rest) 12 (lit ''IHDR'') = Some True"
    using memeq_append [of "png_sig @ be32_bytes 13" "lit ''IHDR''" "be32_bytes w @ be32_bytes h @ rest"]
    by (simp add: png_file_def be32_bytes_def png_sig_def)
  moreover have "be32 (png_file w h rest) 16 = Some w"
    by (rule be32_at [of "png_sig @ be32_bytes 13 @ lit ''IHDR''" _ _ _ "be32_bytes h @ rest"])
      (simp_all add: png_file_def be32_bytes_def png_sig_def)
  moreover have "be32 (png_file w h rest) 20 = Some h"
    by (rule be32_at [of "png_sig @ be32_bytes 13 @ lit ''IHDR'' @ be32_bytes w" _ _ _ rest])
      (simp_all add: png_file_def be32_bytes_def png_sig_def)
  moreover have "\<not> length (png_file w h rest) < 24"
    by (simp add: png_file_def be32_bytes_def png_sig_def)
  ultimately show ?thesis by (simp add: sniff_png_def del: lit_Cons)
qed

text \<open>(functional). A PNG header is recognized with its exact 32-bit width and height; a zero
  dimension is refused.\<close>

theorem image_sniff_png:
  "clm_image_sniff (Some (png_file w h rest)) =
     Some (if w = 0 \<or> h = 0 then Inl EINVAL else Inr (''image/png'', w, h))"
proof -
  have "has_sig (png_file w h rest) 8 [0x89, 0x50, 0x4E, 0x47, 0x0D, 0x0A, 0x1A, 0x0A] = Some True"
    using memeq_append [of "[]" png_sig] by (simp add: has_sig_def png_file_def png_sig_def)
  then show ?thesis by (simp add: clm_image_sniff_def sniff_png_file)
qed


text \<open>JPEG: marker segments before the start of frame, and the start of frame with the size.\<close>

definition is_sof :: "byte \<Rightarrow> bool" where
  "is_sof m \<longleftrightarrow> m \<ge> 0xc0 \<and> m \<le> 0xcf \<and> m \<noteq> 0xc4 \<and> m \<noteq> 0xc8 \<and> m \<noteq> 0xcc"

definition jpeg_seg :: "byte \<Rightarrow> byte list \<Rightarrow> byte list" where
  "jpeg_seg m p = [0xff, m] @ be16_bytes (word_of_nat (length p + 2)) @ p"

definition seg_ok :: "byte \<times> byte list \<Rightarrow> bool" where
  "seg_ok = (\<lambda>(m, p). m \<noteq> 0xff \<and> m \<noteq> 0x01 \<and> \<not> (m \<ge> 0xd0 \<and> m \<le> 0xd8) \<and> \<not> is_sof m
     \<and> length p + 2 < 2 ^ 16)"

definition jpeg_file :: "(byte \<times> byte list) list \<Rightarrow> byte \<Rightarrow> u16 \<Rightarrow> byte \<Rightarrow> u16 \<Rightarrow> u16 \<Rightarrow> byte list \<Rightarrow> byte list" where
  "jpeg_file segs m len prec h w rest =
     [0xff, 0xd8] @ concat (map (\<lambda>(m, p). jpeg_seg m p) segs)
     @ [0xff, m] @ be16_bytes len @ [prec] @ be16_bytes h @ be16_bytes w @ rest"

lemma be16_at: "length xs = i \<Longrightarrow> d = xs @ be16_bytes w @ ys \<Longrightarrow> be16 d i = Some (ucast w)"
  using be16_append by blast

lemma unat_u16_u32: "unat (ucast (w :: u16) :: u32) = unat w"
proof -
  have "unat w < 2 ^ LENGTH(16)" by (rule unsigned_less)
  then have "unat w < 2 ^ 32" by simp
  then show ?thesis by (simp add: unsigned_ucast_eq take_bit_nat_eq_self)
qed

lemma jpeg_walk_skip:
  assumes "i + 4 \<le> length d" "rd d i = Some 0xff" "rd d (i + 1) = Some m" "be16 d (i + 2) = Some seg"
    and "\<not> seg < 2" "m \<noteq> 0xff" "\<not> (m = 0x01 \<or> (m \<ge> 0xd0 \<and> m \<le> 0xd8))"
    and "\<not> (m \<ge> 0xc0 \<and> m \<le> 0xcf \<and> m \<noteq> 0xc4 \<and> m \<noteq> 0xc8 \<and> m \<noteq> 0xcc)"
  shows "jpeg_walk d i = jpeg_walk d (i + 2 + unat seg)"
  by (subst jpeg_walk.simps) (simp only: assms Option.bind_lunit if_True if_False simp_thms)

lemma jpeg_walk_sof:
  assumes "i + 4 \<le> length d" "rd d i = Some 0xff" "rd d (i + 1) = Some m" "be16 d (i + 2) = Some seg"
    and "\<not> seg < 2" "m \<noteq> 0xff" "\<not> (m = 0x01 \<or> (m \<ge> 0xd0 \<and> m \<le> 0xd8))"
    and "(m \<ge> 0xc0 \<and> m \<le> 0xcf \<and> m \<noteq> 0xc4 \<and> m \<noteq> 0xc8 \<and> m \<noteq> 0xcc) = True"
    and "\<not> (i + 9 > length d \<or> seg < 7)" "be16 d (i + 5) = Some h" "be16 d (i + 7) = Some w"
  shows "jpeg_walk d i = Some (Inr (w, h))"
  by (subst jpeg_walk.simps) (simp only: assms Option.bind_lunit if_True if_False simp_thms)

lemma unat_seg_len: "n < 2 ^ 16 \<Longrightarrow> unat (ucast (word_of_nat n :: u16) :: u32) = n"
  by (simp add: unat_u16_u32 unat_of_nat take_bit_nat_eq_self)

lemma jpeg_skip:
  assumes ok: "seg_ok (m, p)" and d: "d = pre @ jpeg_seg m p @ rest"
  shows "jpeg_walk d (length pre) = jpeg_walk d (length (pre @ jpeg_seg m p))"
proof -
  let ?n = "length p + 2"
  have n: "unat (ucast (word_of_nat ?n :: u16) :: u32) = ?n"
    using ok by (intro unat_seg_len) (simp add: seg_ok_def)
  have "jpeg_walk d (length pre) = jpeg_walk d (length pre + 2 + unat (ucast (word_of_nat ?n :: u16) :: u32))"
  proof (rule jpeg_walk_skip)
    show "be16 d (length pre + 2) = Some (ucast (word_of_nat ?n :: u16))"
      by (rule be16_at [of "pre @ [0xff, m]" _ _ _ "p @ rest"]) (simp_all add: d jpeg_seg_def)
    show "\<not> (ucast (word_of_nat ?n :: u16) :: u32) < 2" using n by (simp only: word_less_nat_alt) simp
    show "rd d (length pre) = Some 0xff" "rd d (length pre + 1) = Some m"
      by (simp_all add: d jpeg_seg_def rd_def nth_append)
    show "length pre + 4 \<le> length d" by (simp add: d jpeg_seg_def be16_bytes_def)
  qed (use ok in \<open>auto simp: seg_ok_def is_sof_def\<close>)
  then show ?thesis unfolding n by (simp add: jpeg_seg_def be16_bytes_def ac_simps)
qed

lemma jpeg_sof:
  assumes m: "is_sof m" and len: "7 \<le> unat len"
    and d: "d = pre @ [0xff, m] @ be16_bytes len @ [prec] @ be16_bytes h @ be16_bytes w @ rest"
  shows "jpeg_walk d (length pre) = Some (Inr (ucast w, ucast h))"
proof -
  have big: "\<not> (ucast len :: u32) < 2" "\<not> (ucast len :: u32) < 7"
    using len by (simp_all add: word_less_nat_alt unat_u16_u32)
  show ?thesis
  proof (rule jpeg_walk_sof)
    show "be16 d (length pre + 2) = Some (ucast len)"
      by (rule be16_at [of "pre @ [0xff, m]"]) (simp_all add: d)
    show "be16 d (length pre + 5) = Some (ucast h)"
      by (rule be16_at [of "pre @ [0xff, m] @ be16_bytes len @ [prec]" _ _ _ "be16_bytes w @ rest"])
        (simp_all add: d be16_bytes_def)
    show "be16 d (length pre + 7) = Some (ucast w)"
      by (rule be16_at [of "pre @ [0xff, m] @ be16_bytes len @ [prec] @ be16_bytes h" _ _ _ rest])
        (simp_all add: d be16_bytes_def)
    show "rd d (length pre) = Some 0xff" "rd d (length pre + 1) = Some m"
      by (simp_all add: d rd_def nth_append)
    show "length pre + 4 \<le> length d" by (simp add: d be16_bytes_def)
    show "\<not> (length pre + 9 > length d \<or> (ucast len :: u32) < 7)"
      using big by (simp add: d be16_bytes_def)
    show "\<not> (ucast len :: u32) < 2" by (rule big)
    show "(m \<ge> 0xc0 \<and> m \<le> 0xcf \<and> m \<noteq> 0xc4 \<and> m \<noteq> 0xc8 \<and> m \<noteq> 0xcc) = True"
      using m by (simp add: is_sof_def)
    show "m \<noteq> 0xff" "\<not> (m = 0x01 \<or> (m \<ge> 0xd0 \<and> m \<le> 0xd8))"
      using m by (auto simp: is_sof_def word_le_nat_alt)
  qed
qed

lemma jpeg_skip_all:
  assumes "\<forall>s \<in> set segs. seg_ok s" "d = pre @ concat (map (\<lambda>(m, p). jpeg_seg m p) segs) @ rest"
  shows "jpeg_walk d (length pre)
    = jpeg_walk d (length (pre @ concat (map (\<lambda>(m, p). jpeg_seg m p) segs)))"
  using assms
proof (induction segs arbitrary: pre)
  case (Cons s segs)
  obtain m p where s: "s = (m, p)" by (cases s)
  have "jpeg_walk d (length pre) = jpeg_walk d (length (pre @ jpeg_seg m p))"
    using Cons.prems s by (intro jpeg_skip) auto
  also have "\<dots> = jpeg_walk d (length ((pre @ jpeg_seg m p) @ concat (map (\<lambda>(m, p). jpeg_seg m p) segs)))"
    using Cons.prems s by (intro Cons.IH) auto
  finally show ?case using s by simp
qed simp

text \<open>(functional). A JPEG is recognized behind any number of marker segments of any contents: the
  walk skips each by its length and reads height and width from the first start of frame.\<close>

theorem image_sniff_jpeg:
  assumes "\<forall>s \<in> set segs. seg_ok s" "is_sof m" "7 \<le> unat len" "w \<noteq> 0" "h \<noteq> 0"
  shows "clm_image_sniff (Some (jpeg_file segs m len prec h w rest))
    = Some (Inr (''image/jpeg'', ucast w, ucast h))"
proof -
  let ?d = "jpeg_file segs m len prec h w rest"
  let ?segs = "concat (map (\<lambda>(m, p). jpeg_seg m p) segs)"
  have "jpeg_walk ?d (length [0xff, 0xd8 :: byte]) = jpeg_walk ?d (length ([0xff, 0xd8 :: byte] @ ?segs))"
    by (rule jpeg_skip_all [OF assms(1)]) (simp add: jpeg_file_def)
  also have "\<dots> = Some (Inr (ucast w, ucast h))"
    by (rule jpeg_sof [OF assms(2,3)]) (simp add: jpeg_file_def)
  finally have walk: "sniff_jpeg ?d = Some (Inr (ucast w, ucast h))"
    by (simp add: sniff_jpeg_def numeral_2_eq_2)
  obtain t where t: "?d = 0xff # 0xd8 # 0xff # t"
    by (cases segs) (auto simp: jpeg_file_def jpeg_seg_def)
  have "(ucast w :: u32) \<noteq> 0" "(ucast h :: u32) \<noteq> 0"
    using assms(4,5) unat_u16_u32 [of w] unat_u16_u32 [of h] by (metis unat_0 unsigned_0 unat_eq_zero)+
  moreover have "has_sig ?d 8 [0x89, 0x50, 0x4E, 0x47, 0x0D, 0x0A, 0x1A, 0x0A] = Some False"
    by (simp add: t has_sig_def)
  moreover have "has_sig ?d 3 [0xFF, 0xD8, 0xFF] = Some True" by (simp add: t has_sig_def)
  ultimately show ?thesis by (simp add: clm_image_sniff_def walk)
qed

theorem image_sniff_jpeg_witness:
  "clm_image_sniff (Some (jpeg_file [(0xe0, [1, 2, 3])] 0xc0 17 8 480 640 []))
    = Some (Inr (''image/jpeg'', ucast (640 :: u16), ucast (480 :: u16)))"
  by (rule image_sniff_jpeg) (simp_all add: seg_ok_def is_sof_def)

end
