(* ===== verification/Utf8.thy ===== *)
theory Utf8
  imports Clm_Prelude
begin

text \<open>
  The UTF-8 checks of \<^verbatim>\<open>libclm/history.c\<close>: the sequence scanner \<open>utf8_seq\<close> and the repair
  \<open>utf8_repair\<close> every stored message goes through. The reference is Unicode itself: \<open>utf8_enc\<close> encodes
  a scalar value, and a text is valid when it is a concatenation of such encodings.
\<close>

section \<open>The scanner and the repair\<close>

text \<open>The number of continuation bytes the lead byte asks for; \<open>None\<close> for a byte that leads nothing.\<close>

definition utf8_need :: "byte \<Rightarrow> nat option" where
  "utf8_need s0 =
     (if s0 AND 0xE0 = 0xC0 \<and> s0 \<ge> 0xC2 then Some 1
      else if s0 AND 0xF0 = 0xE0 then Some 2
      else if s0 AND 0xF8 = 0xF0 \<and> s0 \<le> 0xF4 then Some 3
      else None)"

text \<open>\<^verbatim>\<open>utf8_seq(s, len)\<close> on the bytes \<^verbatim>\<open>s[0..len)\<close>; its callers pass \<^verbatim>\<open>len > 0\<close>.\<close>

definition utf8_seq :: "byte list \<Rightarrow> nat" where
  "utf8_seq s =
     (if s ! 0 < 0x80 then 1
      else case utf8_need (s ! 0) of None \<Rightarrow> 0
      | Some need \<Rightarrow>
          if need \<ge> length s then 0
          else if \<not> list_all (\<lambda>k. s ! k AND 0xC0 = 0x80) [1..<Suc need] then 0
          else if (s ! 0 = 0xE0 \<and> s ! 1 < 0xA0) \<or> (s ! 0 = 0xED \<and> s ! 1 > 0x9F)
                \<or> (s ! 0 = 0xF0 \<and> s ! 1 < 0x90) \<or> (s ! 0 = 0xF4 \<and> s ! 1 > 0x8F) then 0
          else need + 1)"

text \<open>The first loop of \<^verbatim>\<open>utf8_repair\<close>: how many bytes are not part of a valid sequence.\<close>

function utf8_bad :: "byte list \<Rightarrow> nat" where
  "utf8_bad s =
     (if s = [] then 0
      else let n = utf8_seq s in
        (if n = 0 then 1 else 0) + utf8_bad (drop (if n = 0 then 1 else n) s))"
  by pat_completeness auto
termination
  by (relation "measure length") (auto split: if_splits)

text \<open>The second loop: what is written at \<^verbatim>\<open>out\<close>.\<close>

function utf8_subst :: "byte list \<Rightarrow> byte list" where
  "utf8_subst s =
     (if s = [] then []
      else let n = utf8_seq s in
        if n = 0 then [0xEF, 0xBF, 0xBD] @ utf8_subst (drop 1 s)
        else take n s @ utf8_subst (drop n s))"
  by pat_completeness auto
termination
  by (relation "measure length") auto

declare utf8_bad.simps [simp del] utf8_subst.simps [simp del]

text \<open>\<^verbatim>\<open>None\<close> is the C function's NULL: nothing to repair, or no memory for the copy.\<close>

definition utf8_repair :: "tape \<Rightarrow> byte list \<Rightarrow> byte list option \<times> tape" where
  "utf8_repair t s =
     (if utf8_bad s = 0 then (None, t)
      else let (ok, t') = alloc t in (if ok then Some (utf8_subst s) else None, t'))"

section \<open>Unicode text\<close>

definition scalar :: "nat \<Rightarrow> bool" where
  "scalar c \<longleftrightarrow> c < 0xD800 \<or> (0xE000 \<le> c \<and> c < 0x110000)"

definition nb :: "nat \<Rightarrow> byte" where
  "nb n = word_of_nat n"

definition utf8_enc :: "nat \<Rightarrow> byte list" where
  "utf8_enc c = map nb
     (if c < 0x80 then [c]
      else if c < 0x800 then [0xC0 + c div 64, 0x80 + c mod 64]
      else if c < 0x10000 then [0xE0 + c div 4096, 0x80 + c div 64 mod 64, 0x80 + c mod 64]
      else [0xF0 + c div 262144, 0x80 + c div 4096 mod 64, 0x80 + c div 64 mod 64, 0x80 + c mod 64])"

definition utf8_text :: "byte list \<Rightarrow> bool" where
  "utf8_text s \<longleftrightarrow> (\<exists>cs. list_all scalar cs \<and> s = concat (map utf8_enc cs))"

section \<open>Bytes as numbers\<close>

lemma and_high_eq:
  fixes b c :: byte
  assumes "m = NOT (mask k)" "take_bit k c = 0"
  shows "b AND m = c \<longleftrightarrow> unat b div 2 ^ k = unat c div 2 ^ k"
proof -
  have high: "b AND m = push_bit k (drop_bit k b)" unfolding assms(1)
    by (rule bit_word_eqI) (auto simp: bit_simps)
  have split: "push_bit k (drop_bit k c) = c" using bits_ident [of k c] assms(2) by simp
  have "drop_bit k (b AND m) = drop_bit k b" unfolding assms(1)
    by (rule bit_word_eqI) (auto simp: bit_simps dest: bit_imp_le_length)
  then have "b AND m = c \<longleftrightarrow> drop_bit k b = drop_bit k c" using high split by metis
  also have "\<dots> \<longleftrightarrow> unat b div 2 ^ k = unat c div 2 ^ k"
    by (metis drop_bit_eq_div unat_drop_bit_eq word_unat_eq_iff)
  finally show ?thesis .
qed

lemma div_range: "0 < k \<Longrightarrow> (x :: nat) div k = q \<longleftrightarrow> q * k \<le> x \<and> x < (q + 1) * k"
  using div_less_iff_less_mult [of k x "q + 1"] less_eq_div_iff_mult_less_eq [of k q x] by auto

lemma and_high_range:
  assumes "m = NOT (mask k)" "take_bit k c = 0" "q = unat c div 2 ^ k"
  shows "(b :: byte) AND m = c \<longleftrightarrow> q * 2 ^ k \<le> unat b \<and> unat b < (q + 1) * 2 ^ k"
  using and_high_eq [OF assms(1,2), of b] div_range [of "2 ^ k" "unat b" q] assms(3) by simp

lemma byte_masks:
  fixes b :: byte
  shows "b AND 0xC0 = 0x80 \<longleftrightarrow> 128 \<le> unat b \<and> unat b < 192"
    and "b AND 0xE0 = 0xC0 \<longleftrightarrow> 192 \<le> unat b \<and> unat b < 224"
    and "b AND 0xF0 = 0xE0 \<longleftrightarrow> 224 \<le> unat b \<and> unat b < 240"
    and "b AND 0xF8 = 0xF0 \<longleftrightarrow> 240 \<le> unat b \<and> unat b < 248"
  using and_high_range [of "0xC0" 6 "0x80" 2 b] and_high_range [of "0xE0" 5 "0xC0" 6 b]
    and_high_range [of "0xF0" 4 "0xE0" 14 b] and_high_range [of "0xF8" 3 "0xF0" 30 b]
  by (simp_all add: mask_eq_exp_minus_1 take_bit_eq_mod)

lemma unat_nb [simp]: "n < 256 \<Longrightarrow> unat (nb n) = n"
  by (simp add: nb_def unat_of_nat take_bit_nat_eq_self)

lemma nb_unat [simp]: "nb (unat b) = b"
  by (simp add: nb_def)

definition cont :: "byte \<Rightarrow> bool" where
  "cont b \<longleftrightarrow> 128 \<le> unat b \<and> unat b < 192"

lemma utf8_need_table:
  "utf8_need s0 = (if 194 \<le> unat s0 \<and> unat s0 < 224 then Some 1
     else if 224 \<le> unat s0 \<and> unat s0 < 240 then Some 2
     else if 240 \<le> unat s0 \<and> unat s0 \<le> 244 then Some 3 else None)"
proof -
  have n: "s0 \<ge> 0xC2 \<longleftrightarrow> 194 \<le> unat s0" "s0 \<le> 0xF4 \<longleftrightarrow> unat s0 \<le> 244"
    by (simp_all add: word_le_nat_alt)
  consider "unat s0 < 192" | "192 \<le> unat s0" "unat s0 < 194" | "194 \<le> unat s0" "unat s0 < 224"
    | "224 \<le> unat s0" "unat s0 < 240" | "240 \<le> unat s0" "unat s0 \<le> 244" | "244 < unat s0" by linarith
  then show ?thesis unfolding utf8_need_def byte_masks n by cases simp_all
qed

text \<open>The scanner on each kind of lead byte.\<close>

lemma utf8_seq_ascii: "unat s0 < 128 \<Longrightarrow> utf8_seq (s0 # r) = 1"
  by (simp add: utf8_seq_def word_less_nat_alt)

lemma utf8_seq_bad: "128 \<le> unat s0 \<Longrightarrow> unat s0 < 194 \<or> 244 < unat s0 \<Longrightarrow> utf8_seq (s0 # r) = 0"
proof -
  assume a: "128 \<le> unat s0" "unat s0 < 194 \<or> 244 < unat s0"
  then have "utf8_need s0 = None" unfolding utf8_need_table by auto
  then show ?thesis using a(1) by (simp add: utf8_seq_def word_less_nat_alt)
qed

lemma utf8_seq_short: "128 \<le> unat s0 \<Longrightarrow> utf8_need s0 = Some k \<Longrightarrow> length r < k \<Longrightarrow> utf8_seq (s0 # r) = 0"
  by (auto simp: utf8_seq_def word_less_nat_alt)

lemma special_bytes:
  "b < 0x80 \<longleftrightarrow> unat b < 128"
  "b = 0xE0 \<longleftrightarrow> unat b = 224" "b = 0xED \<longleftrightarrow> unat b = 237" "b = 0xF0 \<longleftrightarrow> unat b = 240" "b = 0xF4 \<longleftrightarrow> unat b = 244"
  "b < 0xA0 \<longleftrightarrow> unat b < 160" "b > 0x9F \<longleftrightarrow> 159 < unat b" "b < 0x90 \<longleftrightarrow> unat b < 144" "b > 0x8F \<longleftrightarrow> 143 < unat b"
  for b :: byte
  by (simp_all add: word_less_nat_alt word_unat_eq_iff)

lemma utf8_seq_2:
  "194 \<le> unat s0 \<Longrightarrow> unat s0 < 224 \<Longrightarrow> utf8_seq (s0 # s1 # r) = (if cont s1 then 2 else 0)"
  unfolding utf8_seq_def utf8_need_table byte_masks special_bytes cont_def [symmetric]
  by simp

lemma utf8_seq_3:
  "224 \<le> unat s0 \<Longrightarrow> unat s0 < 240 \<Longrightarrow> utf8_seq (s0 # s1 # s2 # r) =
     (if cont s1 \<and> cont s2 \<and> (unat s0 = 224 \<longrightarrow> 160 \<le> unat s1) \<and> (unat s0 = 237 \<longrightarrow> unat s1 \<le> 159)
      then 3 else 0)"
  unfolding utf8_seq_def utf8_need_table byte_masks special_bytes cont_def [symmetric]
  by (simp add: upt_rec)

lemma utf8_seq_4:
  "240 \<le> unat s0 \<Longrightarrow> unat s0 \<le> 244 \<Longrightarrow> utf8_seq (s0 # s1 # s2 # s3 # r) =
     (if cont s1 \<and> cont s2 \<and> cont s3 \<and> (unat s0 = 240 \<longrightarrow> 144 \<le> unat s1) \<and> (unat s0 = 244 \<longrightarrow> unat s1 \<le> 143)
      then 4 else 0)"
  unfolding utf8_seq_def utf8_need_table byte_masks special_bytes cont_def [symmetric]
  by (simp add: upt_rec)


section \<open>The scanner accepts exactly the encodings of scalar values\<close>

lemma enc_1: "c < 128 \<Longrightarrow> utf8_enc c = [nb c]"
  and enc_2: "128 \<le> c \<Longrightarrow> c < 2048 \<Longrightarrow> utf8_enc c = [nb (192 + c div 64), nb (128 + c mod 64)]"
  and enc_3: "2048 \<le> c \<Longrightarrow> c < 65536 \<Longrightarrow> utf8_enc c =
    [nb (224 + c div 4096), nb (128 + c div 64 mod 64), nb (128 + c mod 64)]"
  and enc_4: "65536 \<le> c \<Longrightarrow> utf8_enc c = [nb (240 + c div 262144),
    nb (128 + c div 4096 mod 64), nb (128 + c div 64 mod 64), nb (128 + c mod 64)]"
  unfolding utf8_enc_def by (simp_all only: if_True if_False list.map) simp_all

lemma cont_of_nat: "n < 64 \<Longrightarrow> cont (nb (128 + n))"
  by (simp add: cont_def)

lemma digits_3: "(c :: nat) = c div 4096 * 4096 + c div 64 mod 64 * 64 + c mod 64"
proof -
  have "c div 4096 = c div 64 div 64" by (simp add: div_mult2_eq [symmetric])
  then show ?thesis using div_mult_mod_eq [of c 64] div_mult_mod_eq [of "c div 64" 64] by linarith
qed

lemma digits_4: "(c :: nat) = c div 262144 * 262144 + c div 4096 mod 64 * 4096 + c div 64 mod 64 * 64 + c mod 64"
proof -
  have "c div 262144 = c div 4096 div 64" by (simp add: div_mult2_eq [symmetric])
  then show ?thesis using digits_3 [of c] div_mult_mod_eq [of "c div 4096" 64] by linarith
qed

lemma utf8_seq_enc:
  assumes "scalar c"
  shows "utf8_seq (utf8_enc c @ r) = length (utf8_enc c)"
proof -
  consider "c < 128" | "128 \<le> c" "c < 2048" | "2048 \<le> c" "c < 65536" | "65536 \<le> c" by linarith
  then show ?thesis
  proof cases
    case 1 then show ?thesis by (simp add: enc_1 utf8_seq_ascii)
  next
    case 2
    have "c div 64 < 32" "2 \<le> c div 64" using 2 by (auto simp: div_less_iff_less_mult less_eq_div_iff_mult_less_eq)
    then have "utf8_seq (utf8_enc c @ r) = 2"
      unfolding enc_2 [OF 2] append_Cons
      by (subst utf8_seq_2) (simp_all add: cont_of_nat)
    then show ?thesis by (simp add: enc_2 [OF 2])
  next
    case 3
    have d: "c div 4096 < 16" using 3 by (simp add: div_less_iff_less_mult)
    have low: "c div 4096 = 0 \<Longrightarrow> 32 \<le> c div 64 mod 64"
      using 3 digits_3 [of c] mod_less_divisor [of 64 c] by linarith
    have sur: "c div 4096 = 13 \<Longrightarrow> c div 64 mod 64 < 32"
      using assms digits_3 [of c] mod_less_divisor [of 64 c] mod_less_divisor [of 64 "c div 64"]
      unfolding scalar_def by linarith
    have "utf8_seq (utf8_enc c @ r) = 3"
      unfolding enc_3 [OF 3] append_Cons
      using d low sur by (subst utf8_seq_3) (auto simp add: cont_of_nat)
    then show ?thesis by (simp add: enc_3 [OF 3])
  next
    case 4
    have d': "c < 0x110000" using assms 4 by (auto simp: scalar_def)
    have d: "c div 262144 \<le> 4" using digits_4 [of c] d' by linarith
    have m: "c mod 64 < 64" "c div 64 mod 64 < 64" by simp_all
    have low: "c div 262144 = 0 \<Longrightarrow> 16 \<le> c div 4096 mod 64" using 4 digits_4 [of c] m by linarith
    have high: "c div 262144 = 4 \<Longrightarrow> c div 4096 mod 64 < 16" using d' digits_4 [of c] by linarith
    have "utf8_seq (utf8_enc c @ r) = 4"
      unfolding enc_4 [OF 4] append_Cons
      using d low high by (subst utf8_seq_4) (auto simp add: cont_of_nat)
    then show ?thesis by (simp add: enc_4 [OF 4])
  qed
qed

lemma contE:
  assumes "cont b" obtains n where "n < 64" "b = nb (128 + n)"
proof
  show "unat b - 128 < 64" using assms by (auto simp: cont_def)
  show "b = nb (128 + (unat b - 128))" using assms nb_unat [of b] by (simp add: cont_def)
qed

lemma leadE:
  assumes "k \<le> unat b" obtains n where "b = nb (k + n)" "unat b = k + n"
  using that [of "unat b - k"] assms by simp

lemma last_digit: "e < 64 \<Longrightarrow> (q * 64 + e) div 64 = q" "e < 64 \<Longrightarrow> (q * 64 + e) mod 64 = (e :: nat)"
  by simp_all

lemma enc_2_digits:
  "2 \<le> a \<Longrightarrow> a < 32 \<Longrightarrow> b < 64 \<Longrightarrow> \<exists>c. scalar c \<and> utf8_enc c = [nb (192 + a), nb (128 + b)]"
  by (rule exI [of _ "a * 64 + b"]) (simp add: enc_2 scalar_def)

lemma enc_3_digits:
  assumes "a < 16" "b < 64" "d < 64" "a = 0 \<Longrightarrow> 32 \<le> b" "a = 13 \<Longrightarrow> b < 32"
  shows "\<exists>c. scalar c \<and> utf8_enc c = [nb (224 + a), nb (128 + b), nb (128 + d)]"
proof (intro exI conjI)
  let ?c = "a * 4096 + b * 64 + d"
  have "2048 \<le> ?c" using assms(4) by (cases "a = 0") auto
  moreover have "?c < 65536" using assms by linarith
  moreover have "?c = (a * 64 + b) * 64 + d" by simp
  then have "?c div 64 = a * 64 + b" "?c mod 64 = d"
    using last_digit [OF assms(3), of "a * 64 + b"] by metis+
  moreover have "?c div 4096 = a" using assms by (intro div_nat_eqI) auto
  ultimately show "utf8_enc ?c = [nb (224 + a), nb (128 + b), nb (128 + d)]"
    using assms by (simp add: enc_3)
  show "scalar ?c" using assms by (cases "a < 13"; cases "a = 13") (auto simp: scalar_def)
qed

lemma enc_4_digits:
  assumes "a \<le> 4" "b < 64" "d < 64" "e < 64" "a = 0 \<Longrightarrow> 16 \<le> b" "a = 4 \<Longrightarrow> b < 16"
  shows "\<exists>c. scalar c \<and> utf8_enc c = [nb (240 + a), nb (128 + b), nb (128 + d), nb (128 + e)]"
proof (intro exI conjI)
  let ?c = "a * 262144 + b * 4096 + d * 64 + e"
  have big: "65536 \<le> ?c" using assms(5) by (cases "a = 0") auto
  have "?c = ((a * 64 + b) * 64 + d) * 64 + e" by simp
  then have q1: "?c div 64 = (a * 64 + b) * 64 + d" "?c mod 64 = e"
    using last_digit [OF assms(4), of "(a * 64 + b) * 64 + d"] by metis+
  have q2: "?c div 4096 = a * 64 + b" using assms by (intro div_nat_eqI) auto
  have q3: "?c div 262144 = a" using assms by (intro div_nat_eqI) auto
  show "utf8_enc ?c = [nb (240 + a), nb (128 + b), nb (128 + d), nb (128 + e)]"
    unfolding enc_4 [OF big] q1 q2 q3 last_digit [OF assms(2)] last_digit [OF assms(3)] by simp
  have "?c < 0x110000" using assms(1,2,3,4,6) by (cases "a = 4") auto
  then show "scalar ?c" using big by (simp add: scalar_def)
qed

lemma utf8_seq_sound:
  assumes "s \<noteq> []" "utf8_seq s \<noteq> 0"
  shows "\<exists>c r. scalar c \<and> s = utf8_enc c @ r \<and> utf8_seq s = length (utf8_enc c)"
proof -
  obtain s0 r where s: "s = s0 # r" using assms(1) by (cases s) auto
  have *: ?thesis if "scalar c" "s = utf8_enc c @ r'" for c r'
    using that utf8_seq_enc by auto
  consider "unat s0 < 128" | "128 \<le> unat s0" "unat s0 < 194 \<or> 244 < unat s0" | "194 \<le> unat s0" "unat s0 < 224"
    | "224 \<le> unat s0" "unat s0 < 240" | "240 \<le> unat s0" "unat s0 \<le> 244" by linarith
  then show ?thesis
  proof cases
    case 1
    then show ?thesis using * [of "unat s0" r] by (simp add: s enc_1 scalar_def)
  next
    case 2
    then show ?thesis using assms s utf8_seq_bad by simp
  next
    case 3
    then have "\<not> length r < 1" using utf8_seq_short [of s0 1 r] assms s by (auto simp: utf8_need_table)
    then obtain s1 r1 where r: "r = s1 # r1" by (cases r) auto
    then have "cont s1" using utf8_seq_2 [OF 3] assms s by (auto split: if_splits)
    moreover obtain a where "s0 = nb (192 + a)" "unat s0 = 192 + a" using 3 leadE [of 192 s0] by auto
    ultimately show ?thesis using 3 enc_2_digits [of a] * s r by (fastforce elim: contE)
  next
    case 4
    then have "\<not> length r < 2" using utf8_seq_short [of s0 2 r] assms s by (auto simp: utf8_need_table)
    then obtain s1 s2 r2 where r: "r = s1 # s2 # r2" by (cases r; cases "tl r") auto
    then have c: "cont s1" "cont s2" "unat s0 = 224 \<Longrightarrow> 160 \<le> unat s1" "unat s0 = 237 \<Longrightarrow> unat s1 \<le> 159"
      using utf8_seq_3 [OF 4] assms s by (auto split: if_splits)
    obtain a where a: "s0 = nb (224 + a)" "unat s0 = 224 + a" using 4 leadE [of 224 s0] by auto
    obtain b d where bd: "b < 64" "s1 = nb (128 + b)" "d < 64" "s2 = nb (128 + d)"
      using c(1,2) by (elim contE) blast
    have "\<exists>c. scalar c \<and> utf8_enc c = [nb (224 + a), nb (128 + b), nb (128 + d)]"
      using a bd c 4 by (intro enc_3_digits) auto
    then show ?thesis using * s r a bd by fastforce
  next
    case 5
    then have "\<not> length r < 3" using utf8_seq_short [of s0 3 r] assms s by (auto simp: utf8_need_table)
    then obtain s1 s2 s3 r3 where r: "r = s1 # s2 # s3 # r3" by (cases r; cases "tl r"; cases "tl (tl r)") auto
    then have c: "cont s1" "cont s2" "cont s3" "unat s0 = 240 \<Longrightarrow> 144 \<le> unat s1" "unat s0 = 244 \<Longrightarrow> unat s1 \<le> 143"
      using utf8_seq_4 [OF 5] assms s by (auto split: if_splits)
    obtain a where a: "s0 = nb (240 + a)" "unat s0 = 240 + a" using 5 leadE [of 240 s0] by auto
    obtain b d e where bd: "b < 64" "s1 = nb (128 + b)" "d < 64" "s2 = nb (128 + d)" "e < 64" "s3 = nb (128 + e)"
      using c(1,2,3) by (elim contE) blast
    have "\<exists>c. scalar c \<and> utf8_enc c = [nb (240 + a), nb (128 + b), nb (128 + d), nb (128 + e)]"
      using a bd c 5 by (intro enc_4_digits) auto
    then show ?thesis using * s r a bd by fastforce
  qed
qed

section \<open>Repaired text\<close>

lemma utf8_text_Nil [simp]: "utf8_text []"
  by (auto simp: utf8_text_def intro: exI [of _ "[]"])

lemma utf8_text_enc: "scalar c \<Longrightarrow> utf8_text r \<Longrightarrow> utf8_text (utf8_enc c @ r)"
proof -
  assume c: "scalar c" and r: "utf8_text r"
  then obtain cs where "list_all scalar (c # cs) \<and> utf8_enc c @ r = concat (map utf8_enc (c # cs))"
    by (auto simp: utf8_text_def)
  then show ?thesis unfolding utf8_text_def by blast
qed

lemma utf8_text_cases:
  assumes "utf8_text s" obtains "s = []" | c r where "scalar c" "utf8_text r" "s = utf8_enc c @ r"
proof -
  obtain cs where cs: "list_all scalar cs" "s = concat (map utf8_enc cs)" using assms by (auto simp: utf8_text_def)
  show thesis
  proof (cases cs)
    case Nil then show ?thesis using cs that(1) by simp
  next
    case (Cons c ds)
    then show ?thesis using cs that(2) [of c "concat (map utf8_enc ds)"] by (auto simp: utf8_text_def)
  qed
qed

lemma utf8_enc_neq_Nil [simp]: "utf8_enc c \<noteq> []"
  by (simp add: utf8_enc_def)

lemma enc_fffd: "[0xEF, 0xBF, 0xBD] = utf8_enc 0xFFFD"
  by (simp add: utf8_enc_def nb_def)

lemma scan_cases:
  assumes "s \<noteq> []"
  obtains "utf8_seq s = 0"
  | c r where "scalar c" "s = utf8_enc c @ r" "utf8_seq s = length (utf8_enc c)" "utf8_seq s \<noteq> 0"
  using utf8_seq_sound [OF assms] that by (metis length_0_conv utf8_enc_neq_Nil)

lemma scan_unfold:
  "utf8_bad [] = 0" "utf8_subst [] = []"
  "s \<noteq> [] \<Longrightarrow> utf8_seq s = 0 \<Longrightarrow> utf8_bad s = Suc (utf8_bad (drop 1 s))"
  "s \<noteq> [] \<Longrightarrow> utf8_seq s = 0 \<Longrightarrow> utf8_subst s = [0xEF, 0xBF, 0xBD] @ utf8_subst (drop 1 s)"
  "scalar c \<Longrightarrow> utf8_bad (utf8_enc c @ r) = utf8_bad r"
  "scalar c \<Longrightarrow> utf8_subst (utf8_enc c @ r) = utf8_enc c @ utf8_subst r"
  by (simp_all add: utf8_bad.simps utf8_subst.simps utf8_seq_enc Let_def)

lemma scan_induct [case_names empty bad good]:
  assumes "P []" "\<And>b s. utf8_seq (b # s) = 0 \<Longrightarrow> P s \<Longrightarrow> P (b # s)"
    "\<And>c s. scalar c \<Longrightarrow> P s \<Longrightarrow> P (utf8_enc c @ s)"
  shows "P s"
proof (induction s rule: length_induct)
  case (1 s)
  show ?case
  proof (cases "s = []")
    case True then show ?thesis using assms(1) by simp
  next
    case False
    then show ?thesis
    proof (cases rule: scan_cases)
      case 1
      with False show ?thesis using "1.IH" assms(2) by (cases s) auto
    next
      case (2 c r)
      then show ?thesis using "1.IH" assms(3) by auto
    qed
  qed
qed

lemma utf8_subst_text: "utf8_text (utf8_subst s)"
proof (induction s rule: scan_induct)
  case (bad b s)
  then show ?case using utf8_text_enc [of "0xFFFD"] by (simp add: scan_unfold enc_fffd scalar_def)
qed (simp_all add: scan_unfold utf8_text_enc)

lemma length_utf8_subst: "length (utf8_subst s) = length s + 2 * utf8_bad s"
  by (induction s rule: scan_induct) (simp_all add: scan_unfold)

lemma utf8_bad_text: "utf8_text s \<Longrightarrow> utf8_bad s = 0"
proof -
  have "list_all scalar cs \<Longrightarrow> utf8_bad (concat (map utf8_enc cs)) = 0" for cs
    by (induction cs) (simp_all add: scan_unfold)
  then show "utf8_text s \<Longrightarrow> utf8_bad s = 0" by (auto simp: utf8_text_def)
qed

lemma utf8_subst_id: "utf8_bad s = 0 \<Longrightarrow> utf8_subst s = s"
  by (induction s rule: scan_induct) (simp_all add: scan_unfold)

lemma utf8_bad_iff: "utf8_bad s = 0 \<longleftrightarrow> utf8_text s"
  using utf8_bad_text utf8_subst_id utf8_subst_text by metis


lemma utf8_enc_prefix: "take (length (utf8_enc c)) s = utf8_enc c \<Longrightarrow> s = utf8_enc c @ drop (length (utf8_enc c)) s"
  by (metis append_take_drop_id)

text \<open>C40 (equivalence). The scanner accepts at the start of a buffer exactly the shortest-form encodings of
  Unicode scalar values (no overlong form, surrogate or code point past U+10FFFF), with their length.\<close>

theorem utf8_seq_exact:
  assumes "s \<noteq> []" "n \<noteq> 0"
  shows "utf8_seq s = n \<longleftrightarrow> (\<exists>c. scalar c \<and> length (utf8_enc c) = n \<and> take n s = utf8_enc c)"
proof
  assume "utf8_seq s = n"
  then show "\<exists>c. scalar c \<and> length (utf8_enc c) = n \<and> take n s = utf8_enc c"
    using utf8_seq_sound [OF assms(1)] assms(2) by fastforce
next
  assume "\<exists>c. scalar c \<and> length (utf8_enc c) = n \<and> take n s = utf8_enc c"
  then show "utf8_seq s = n" using utf8_seq_enc utf8_enc_prefix by metis
qed

theorem utf8_seq_exact_witness:
  "utf8_seq [0xE2, 0x82, 0xAC] = 3 \<longleftrightarrow>
     (\<exists>c. scalar c \<and> length (utf8_enc c) = 3 \<and> take 3 [0xE2, 0x82, 0xAC] = utf8_enc c)"
  by (rule utf8_seq_exact) simp_all

lemma ascii_text: "list_all (\<lambda>b. b < 0x80) s \<Longrightarrow> utf8_text s"
proof (induction s)
  case (Cons b s)
  then have b: "unat b < 128" by (simp add: word_less_nat_alt)
  then have "utf8_text (utf8_enc (unat b) @ s)" using Cons by (intro utf8_text_enc) (simp_all add: scalar_def)
  then show ?case using b by (simp add: enc_1)
qed simp

text \<open>(functional). \<^verbatim>\<open>utf8_repair\<close> returns NULL without allocating exactly when the text is valid UTF-8 already;
  otherwise its copy is valid UTF-8 and fills exactly the \<^verbatim>\<open>len + bad * 2\<close> bytes allocated for it, and the only
  way to get NULL back for invalid text is a failed allocation.\<close>

theorem utf8_repair_spec:
  "case utf8_repair t s of
     (Some out, t') \<Rightarrow> \<not> utf8_text s \<and> utf8_text out \<and> length out = length s + utf8_bad s * 2 \<and> alloc t = (True, t')
   | (None, t') \<Rightarrow> if utf8_text s then t' = t else alloc t = (False, t')"
  by (auto simp: utf8_repair_def utf8_bad_iff utf8_subst_text length_utf8_subst split: prod.splits)

section \<open>Cutting valid text\<close>

lemma enc_tail_cont: "0 < k \<Longrightarrow> k < length (utf8_enc c) \<Longrightarrow> cont (utf8_enc c ! k)"
proof -
  have *: "cont (nb (128 + n mod 64))" for n by (simp add: cont_of_nat)
  consider "c < 128" | "128 \<le> c" "c < 2048" | "2048 \<le> c" "c < 65536" | "65536 \<le> c" by linarith
  then show "0 < k \<Longrightarrow> k < length (utf8_enc c) \<Longrightarrow> cont (utf8_enc c ! k)"
    by cases (auto simp: enc_1 enc_2 enc_3 enc_4 less_Suc_eq *)
qed

lemma length_utf8_enc: "length (utf8_enc c) \<le> 4"
  by (simp add: utf8_enc_def)

lemma utf8_text_take:
  assumes "utf8_text s" "n < length s" "\<not> cont (s ! n)"
  shows "utf8_text (take n s)"
  using assms
proof (induction s arbitrary: n rule: scan_induct)
  case (bad b s)
  then show ?case using utf8_bad_text [of "b # s"] by (simp add: scan_unfold)
next
  case (good c s)
  have s: "utf8_text s" using good.prems(1) good.hyps by (simp add: utf8_bad_iff [symmetric] scan_unfold)
  show ?case
  proof (cases "n < length (utf8_enc c)")
    case True
    then have "n = 0" using enc_tail_cont [of n c] good.prems(3) by (auto simp: nth_append)
    then show ?thesis by simp
  next
    case False
    then have "utf8_text (take (n - length (utf8_enc c)) s)"
      using good.prems s by (intro good.IH) (auto simp: nth_append)
    then show ?thesis using False good.hyps by (simp add: utf8_text_enc)
  qed
qed simp

lemma utf8_text_lead_near:
  assumes "utf8_text s" "n < length s"
  shows "\<exists>k \<le> n. n \<le> k + 3 \<and> \<not> cont (s ! k)"
  using assms
proof (induction s arbitrary: n rule: scan_induct)
  case (bad b s)
  then show ?case using utf8_bad_text [of "b # s"] by (simp add: scan_unfold)
next
  case (good c s)
  have s: "utf8_text s" using good.prems(1) good.hyps by (simp add: utf8_bad_iff [symmetric] scan_unfold)
  show ?case
  proof (cases "n < length (utf8_enc c)")
    case True
    moreover have "\<not> cont ((utf8_enc c @ s) ! 0)"
      using utf8_seq_enc [OF good.hyps, of "[]"] utf8_seq_bad [of "utf8_enc c ! 0" "tl (utf8_enc c)"]
      by (cases "utf8_enc c") (auto simp: cont_def)
    ultimately show ?thesis using length_utf8_enc [of c] by (intro exI [of _ 0]) auto
  next
    case False
    then have "n - length (utf8_enc c) < length s" using good.prems(2) by simp
    then obtain k where k: "k \<le> n - length (utf8_enc c)" "n - length (utf8_enc c) \<le> k + 3" "\<not> cont (s ! k)"
      using good.IH [OF s] by blast
    then show ?thesis using False by (intro exI [of _ "length (utf8_enc c) + k"]) (auto simp: nth_append)
  qed
qed simp

lemma enc_first: "scalar c \<Longrightarrow> \<not> cont (utf8_enc c ! 0)"
proof -
  assume c: "scalar c"
  obtain b bs where e: "utf8_enc c = b # bs" by (cases "utf8_enc c") auto
  have "utf8_seq (b # bs) \<noteq> 0" using utf8_seq_enc [OF c, of "[]"] e by simp
  then show ?thesis using utf8_seq_bad [of b bs] e by (auto simp: cont_def)
qed

definition boundary :: "byte list \<Rightarrow> nat \<Rightarrow> bool" where
  "boundary s n \<longleftrightarrow> length s \<le> n \<or> \<not> cont (s ! n)"

lemma utf8_text_suffix: "utf8_text (utf8_enc c @ s) \<Longrightarrow> scalar c \<Longrightarrow> utf8_text s"
  by (simp add: utf8_bad_iff [symmetric] scan_unfold)

lemma boundary_0: "utf8_text s \<Longrightarrow> boundary s 0"
  by (erule utf8_text_cases) (auto simp: boundary_def nth_append enc_first)

lemma utf8_text_drop:
  assumes "utf8_text s" "boundary s n"
  shows "utf8_text (drop n s)"
  using assms
proof (induction s arbitrary: n rule: scan_induct)
  case (bad b s)
  then show ?case using utf8_bad_text [of "b # s"] by (simp add: scan_unfold)
next
  case (good c s)
  show ?case
  proof (cases "n < length (utf8_enc c)")
    case True
    then have "n = 0" using enc_tail_cont [of n c] good.prems(2) by (auto simp: boundary_def nth_append)
    then show ?thesis using good.prems(1) by simp
  next
    case False
    then have "boundary s (n - length (utf8_enc c))" using good.prems(2) by (auto simp: boundary_def nth_append)
    then show ?thesis using good False utf8_text_suffix by simp
  qed
qed simp

lemma utf8_text_take_boundary: "utf8_text s \<Longrightarrow> boundary s n \<Longrightarrow> utf8_text (take n s)"
  using utf8_text_take [of s n] by (cases "n < length s") (auto simp: boundary_def)

lemma enc_ascii: "k < length (utf8_enc c) \<Longrightarrow> unat (utf8_enc c ! k) < 128 \<Longrightarrow> c < 0x110000 \<Longrightarrow> length (utf8_enc c) = 1"
proof -
  assume a: "k < length (utf8_enc c)" "unat (utf8_enc c ! k) < 128" "c < 0x110000"
  consider "c < 128" | "128 \<le> c" "c < 2048" | "2048 \<le> c" "c < 65536" | "65536 \<le> c" by linarith
  then show ?thesis
  proof cases
    case 1 then show ?thesis by (simp add: enc_1)
  next
    case 2
    have "c div 64 < 32" using 2 by (simp add: div_less_iff_less_mult)
    then show ?thesis using a 2 by (auto simp: enc_2 less_Suc_eq)
  next
    case 3
    have "c div 4096 < 16" using 3 by (simp add: div_less_iff_less_mult)
    then show ?thesis using a 3 by (auto simp: enc_3 less_Suc_eq)
  next
    case 4
    have "c div 262144 < 5" using a(3) by (simp add: div_less_iff_less_mult)
    then show ?thesis using a 4 by (auto simp: enc_4 less_Suc_eq)
  qed
qed

lemma boundary_after_ascii:
  assumes "utf8_text s" "n < length s" "unat (s ! n) < 128"
  shows "boundary s (Suc n)"
  using assms
proof (induction s arbitrary: n rule: scan_induct)
  case (bad b s)
  then show ?case using utf8_bad_text [of "b # s"] by (simp add: scan_unfold)
next
  case (good c s)
  have s: "utf8_text s" using good.prems(1) good.hyps utf8_text_suffix by blast
  show ?case
  proof (cases "n < length (utf8_enc c)")
    case True
    then have "length (utf8_enc c) = 1"
      using enc_ascii [of n c] good.prems(3) good.hyps by (auto simp: nth_append scalar_def)
    then show ?thesis using True boundary_0 [OF s] by (auto simp: boundary_def nth_append)
  next
    case False
    then have "boundary s (Suc (n - length (utf8_enc c)))"
      using good.prems s by (intro good.IH) (auto simp: nth_append)
    then show ?thesis using False by (auto simp: boundary_def nth_append Suc_diff_le)
  qed
qed simp

end
