(* ===== verification/History.thy ===== *)
theory History
  imports Utf8
begin

text \<open>
  The conversation history of \<^verbatim>\<open>libclm/history.c\<close>: messages, the operations that append to a history,
  compaction, superseding of stale tool results and the repair of a history left in the middle of a tool
  batch. A history (a TAILQ of messages) is the list of its messages; a pointer into it is an index.
  Functions that can fail to allocate take and return an allocation tape, and return the history they
  leave behind also when they fail.
\<close>

section \<open>Messages\<close>

datatype clm_role = CLM_ROLE_SYSTEM | CLM_ROLE_USER | CLM_ROLE_ASSISTANT | CLM_ROLE_TOOL

record clm_tool_call =
  tc_id :: "cstr option"
  tc_name :: "cstr option"
  tc_args :: "cstr option"

record clm_attachment =
  media_type :: cstr
  at_data :: "byte list"

record clm_message =
  role :: clm_role
  content :: "cstr option"
  content_len :: u16
  content_compressed :: bool
  tool_call_id :: "cstr option"
  tool_name :: "cstr option"
  tool_calls :: "clm_tool_call list"
  attachments :: "clm_attachment list"

type_synonym clm_history = "clm_message list"

text \<open>
  The compressor an embedder may install: \<^verbatim>\<open>write\<close> and \<^verbatim>\<open>read\<close> are its functions (NULL, or a function that
  fails or returns bytes).
\<close>

record clm_compressor =
  cz_write :: "(cstr \<Rightarrow> cstr option) option"
  cz_read :: "(cstr \<Rightarrow> cstr option) option"
  cz_min_len :: nat

definition clm_message_create :: "tape \<Rightarrow> clm_role \<Rightarrow> clm_message option \<times> tape" where
  "clm_message_create t r =
     (let (ok, t') = alloc t in
      (if ok then Some \<lparr>role = r, content = None, content_len = 0, content_compressed = False,
         tool_call_id = None, tool_name = None, tool_calls = [], attachments = []\<rparr> else None, t'))"

definition drop_attachments :: "clm_message \<Rightarrow> clm_message" where
  "drop_attachments m = m\<lparr>attachments := []\<rparr>"

definition clm_message_add_attachment ::
    "tape \<Rightarrow> clm_message \<Rightarrow> cstr option \<Rightarrow> byte list option \<Rightarrow> nat \<Rightarrow> (errno + unit) \<times> clm_message \<times> tape" where
  "clm_message_add_attachment t m mt data len =
     (case mt of None \<Rightarrow> (Inl EINVAL, m, t)
      | Some mtype \<Rightarrow>
        if data = None \<and> len \<noteq> 0 then (Inl EINVAL, m, t)
        else let (ok0, t0) = alloc t in
          if \<not> ok0 then (Inl ENOMEM, m, t0)
          else let (ok1, t1) = alloc t0; (ok2, t2) = alloc t1 in
            if \<not> ok1 \<or> \<not> ok2 then (Inl ENOMEM, m, t2)
            else (Inr (), m\<lparr>attachments := attachments m
                    @ [\<lparr>media_type = mtype, at_data = take len (case data of None \<Rightarrow> [] | Some d \<Rightarrow> d)\<rparr>]\<rparr>, t2))"

section \<open>Storing content\<close>

text \<open>\<^verbatim>\<open>while (len > 0 && (content[len] & 0xC0) == 0x80) len--;\<close>\<close>

fun cut_back :: "byte list \<Rightarrow> nat \<Rightarrow> nat" where
  "cut_back c 0 = 0"
| "cut_back c (Suc n) = (if c ! Suc n AND 0xC0 = 0x80 then cut_back c n else Suc n)"

text \<open>The attempt to compress: the packed bytes when the compressor is usable and helps.\<close>

definition try_pack :: "clm_compressor option \<Rightarrow> byte list \<Rightarrow> byte list option" where
  "try_pack cz c =
     (case cz of None \<Rightarrow> None
      | Some z \<Rightarrow> case cz_write z of None \<Rightarrow> None
        | Some wr \<Rightarrow>
          if length c \<ge> cz_min_len z then
            (case wr c of None \<Rightarrow> None
             | Some packed \<Rightarrow> if length packed < length c \<and> length packed \<le> 65535 then Some packed else None)
          else None)"

definition message_set_content_len ::
    "tape \<Rightarrow> clm_message \<Rightarrow> byte list option \<Rightarrow> clm_compressor option \<Rightarrow> (errno + unit) \<times> clm_message \<times> tape" where
  "message_set_content_len t m body cz =
     (case body of
        None \<Rightarrow> (Inr (), m\<lparr>content := None, content_len := 0, content_compressed := False\<rparr>, t)
      | Some c0 \<Rightarrow>
        let (repaired, t1) = utf8_repair t c0;
            c = (case repaired of Some r \<Rightarrow> r | None \<Rightarrow> c0);
            len = (if length c > 65535 then cut_back c 65535 else length c);
            c' = take len c
        in case try_pack cz c' of
             Some packed \<Rightarrow> (Inr (), m\<lparr>content := Some packed, content_len := word_of_nat (length packed),
                                content_compressed := True\<rparr>, t1)
           | None \<Rightarrow>
             let (ok, t2) = alloc t1 in
             if ok then (Inr (), m\<lparr>content := Some c', content_len := word_of_nat len,
                           content_compressed := False\<rparr>, t2)
             else (Inl ENOMEM, m, t2))"

text \<open>The wrapper for C strings: the length is \<^verbatim>\<open>strlen\<close>.\<close>

definition message_set_content ::
    "tape \<Rightarrow> clm_message \<Rightarrow> cstr option \<Rightarrow> clm_compressor option \<Rightarrow> (errno + unit) \<times> clm_message \<times> tape" where
  "message_set_content t m body cz = message_set_content_len t m (map_option c_str body) cz"

definition message_bytes :: "clm_message \<Rightarrow> nat" where
  "message_bytes m = unat (content_len m) + 32
     + sum_list (map (\<lambda>tc. (case tc_name tc of None \<Rightarrow> 0 | Some n \<Rightarrow> length n)
         + (case tc_args tc of None \<Rightarrow> 0 | Some a \<Rightarrow> length a) + 48) (tool_calls m))"

section \<open>Appending\<close>

text \<open>The three text adders share one body up to the role of the message they create.\<close>

definition history_add :: "clm_role \<Rightarrow> tape \<Rightarrow> clm_history \<Rightarrow> cstr option \<Rightarrow> clm_compressor option
    \<Rightarrow> bool \<times> clm_history \<times> tape" where
  "history_add r t h body cz =
     (case clm_message_create t r of
        (None, t1) \<Rightarrow> (False, h, t1)
      | (Some m, t1) \<Rightarrow>
        case message_set_content t1 m body cz of
          (Inl e, _, t2) \<Rightarrow> (False, h, t2)
        | (Inr _, m', t2) \<Rightarrow> (True, h @ [m'], t2))"

definition clm_history_add_system where
  "clm_history_add_system = history_add CLM_ROLE_SYSTEM"

definition clm_history_add_user where
  "clm_history_add_user = history_add CLM_ROLE_USER"

definition clm_history_add_assistant_text where
  "clm_history_add_assistant_text = history_add CLM_ROLE_ASSISTANT"

definition clm_history_add_assistant_tool_calls :: "tape \<Rightarrow> clm_history \<Rightarrow> bool \<times> clm_history \<times> tape" where
  "clm_history_add_assistant_tool_calls t h =
     (case clm_message_create t CLM_ROLE_ASSISTANT of
        (None, t1) \<Rightarrow> (False, h, t1)
      | (Some m, t1) \<Rightarrow> (True, h @ [m], t1))"

text \<open>\<^verbatim>\<open>if (s) { d = strdup(s); ... }\<close>: allocates only for a non-NULL string.\<close>

definition opt_strdup :: "tape \<Rightarrow> cstr option \<Rightarrow> bool \<times> tape" where
  "opt_strdup t s = (case s of None \<Rightarrow> (True, t) | Some _ \<Rightarrow> alloc t)"

text \<open>A tool message with id, name and content: what \<^verbatim>\<open>clm_history_add_tool_result\<close> builds before it
  appends it, and what the repair of dangling calls builds.\<close>

definition make_tool_message :: "tape \<Rightarrow> cstr option \<Rightarrow> cstr option \<Rightarrow> byte list option \<Rightarrow> clm_compressor option
    \<Rightarrow> clm_message option \<times> tape" where
  "make_tool_message t tid tname body cz =
     (case clm_message_create t CLM_ROLE_TOOL of
        (None, t1) \<Rightarrow> (None, t1)
      | (Some m, t1) \<Rightarrow>
        let (ok1, t2) = opt_strdup t1 tid in
        if \<not> ok1 then (None, t2)
        else let (ok2, t3) = opt_strdup t2 tname in
        if \<not> ok2 then (None, t3)
        else case message_set_content_len t3 (m\<lparr>tool_call_id := tid, tool_name := tname\<rparr>) body cz of
            (Inl e, _, t4) \<Rightarrow> (None, t4)
          | (Inr _, m', t4) \<Rightarrow> (Some m', t4))"

definition clm_history_add_tool_result :: "tape \<Rightarrow> clm_history \<Rightarrow> cstr option \<Rightarrow> cstr option \<Rightarrow> byte list option
    \<Rightarrow> clm_compressor option \<Rightarrow> bool \<times> clm_history \<times> tape" where
  "clm_history_add_tool_result t h tid tname body cz =
     (case make_tool_message t tid tname body cz of
        (None, t1) \<Rightarrow> (False, h, t1)
      | (Some m, t1) \<Rightarrow> (True, h @ [m], t1))"

definition clm_message_add_tool_call :: "tape \<Rightarrow> clm_message \<Rightarrow> cstr option \<Rightarrow> cstr option \<Rightarrow> cstr option
    \<Rightarrow> bool \<times> clm_message \<times> tape" where
  "clm_message_add_tool_call t m cid name args =
     (if role m \<noteq> CLM_ROLE_ASSISTANT then (False, m, t)
      else let (ok0, t0) = alloc t in
        if \<not> ok0 then (False, m, t0)
        else let (ok1, t1) = opt_strdup t0 cid in
        if \<not> ok1 then (False, m, t1)
        else let (ok2, t2) = opt_strdup t1 name in
        if \<not> ok2 then (False, m, t2)
        else let (ok3, t3) = opt_strdup t2 args in
        if \<not> ok3 then (False, m, t3)
        else (True, m\<lparr>tool_calls := tool_calls m @ [\<lparr>tc_id = cid, tc_name = name, tc_args = args\<rparr>]\<rparr>, t3))"

section \<open>Compaction\<close>

text \<open>Replace \<^verbatim>\<open>[start, cut)\<close> with one summary message.\<close>

definition fold_range :: "tape \<Rightarrow> clm_history \<Rightarrow> nat \<Rightarrow> nat \<Rightarrow> cstr \<Rightarrow> clm_compressor option
    \<Rightarrow> (errno + nat) \<times> clm_history \<times> tape" where
  "fold_range t h start cutp summary cz =
     (case clm_message_create t CLM_ROLE_USER of
        (None, t1) \<Rightarrow> (Inl ENOMEM, h, t1)
      | (Some summ, t1) \<Rightarrow>
        case message_set_content t1 summ (Some summary) cz of
          (Inl e, _, t2) \<Rightarrow> (Inl ENOMEM, h, t2)
        | (Inr _, summ', t2) \<Rightarrow> (Inr (cutp - start), take start h @ [summ'] @ drop cutp h, t2))"

definition is_cut_point :: "clm_message \<Rightarrow> bool" where
  "is_cut_point m \<longleftrightarrow> role m = CLM_ROLE_USER \<or> (role m = CLM_ROLE_ASSISTANT \<and> tool_calls m \<noteq> [])"

text \<open>The index of the first message that is not of the leading system prologue.\<close>

definition first_nonsys :: "clm_history \<Rightarrow> nat" where
  "first_nonsys h = length (takeWhile (\<lambda>m. role m = CLM_ROLE_SYSTEM) h)"

text \<open>
  The backward walk of \<^verbatim>\<open>clm_history_compact_within\<close>: the message under the cursor is \<open>h ! (i - 1)\<close> and the
  walk stops at the prologue, at index \<open>lo\<close>. The result is \<^verbatim>\<open>cut\<close> and \<^verbatim>\<open>newest_cut\<close>.
\<close>

fun within_walk :: "clm_history \<Rightarrow> nat \<Rightarrow> nat \<Rightarrow> nat \<Rightarrow> nat \<Rightarrow> nat \<Rightarrow> nat \<Rightarrow> nat option \<Rightarrow> nat option
    \<Rightarrow> nat option \<times> nat option" where
  "within_walk h lo keep_bytes keep_min_turns 0 bytes turns cutp newest = (cutp, newest)"
| "within_walk h lo keep_bytes keep_min_turns (Suc i) bytes turns cutp newest =
     (if Suc i \<le> lo then (cutp, newest)
      else let m = h ! i; bytes' = bytes + message_bytes m in
        if \<not> is_cut_point m then within_walk h lo keep_bytes keep_min_turns i bytes' turns cutp newest
        else let newest' = (if newest = None then Some i else newest) in
          if bytes' > keep_bytes then (cutp, newest')
          else if role m = CLM_ROLE_USER then
            (let turns' = turns + 1 in
             if turns' \<ge> keep_min_turns \<and> bytes' > keep_bytes then (Some i, newest')
             else within_walk h lo keep_bytes keep_min_turns i bytes' turns' (Some i) newest')
          else within_walk h lo keep_bytes keep_min_turns i bytes' turns (Some i) newest')"

text \<open>The next cut point at or after index \<open>i\<close>.\<close>

definition next_cut :: "clm_history \<Rightarrow> nat \<Rightarrow> nat option" where
  "next_cut h i = find (\<lambda>j. is_cut_point (h ! j)) [i..<length h]"

definition clm_history_compact_within :: "tape \<Rightarrow> clm_history \<Rightarrow> cstr option \<Rightarrow> nat \<Rightarrow> nat \<Rightarrow> clm_compressor option
    \<Rightarrow> (errno + nat) \<times> clm_history \<times> tape" where
  "clm_history_compact_within t h summary keep_bytes0 keep_min_turns cz =
     (case summary of None \<Rightarrow> (Inl EINVAL, h, t)
      | Some sm \<Rightarrow>
        let ns = first_nonsys h in
        if ns = length h then (Inr 0, h, t)
        else
          let total = sum_list (map message_bytes (drop ns h));
              keep_bytes = (if keep_bytes0 > total div 2 then total div 2 else keep_bytes0);
              (cut0, newest) = within_walk h ns keep_bytes keep_min_turns (length h) 0 0 None None;
              cut1 = (if cut0 = Some ns then next_cut h (Suc ns) else cut0);
              cut2 = (if cut1 = None then newest else cut1)
          in case cut2 of None \<Rightarrow> (Inr 0, h, t)
             | Some cutp \<Rightarrow>
               if cutp = ns then (Inr 0, h, t)
               else let removed = sum_list (map message_bytes (take (cutp - ns) (drop ns h))) in
                 if removed \<le> length (c_str sm) + 32 then (Inr 0, h, t)
                 else fold_range t h ns cutp sm cz)"

text \<open>
  The backward walks of \<^verbatim>\<open>clm_history_compact\<close>: the index of the \<open>k\<close>-th message from the end that satisfies
  \<open>P\<close>, not before index \<open>lo\<close>.
\<close>

fun nth_from_end :: "(clm_message \<Rightarrow> bool) \<Rightarrow> clm_history \<Rightarrow> nat \<Rightarrow> nat \<Rightarrow> nat \<Rightarrow> nat \<Rightarrow> nat option" where
  "nth_from_end P h lo k 0 seen = None"
| "nth_from_end P h lo k (Suc i) seen =
     (if Suc i \<le> lo then None
      else if P (h ! i) then (if seen + 1 = k then Some i else nth_from_end P h lo k i (seen + 1))
      else nth_from_end P h lo k i seen)"

definition is_head :: "clm_message \<Rightarrow> bool" where
  "is_head m \<longleftrightarrow> role m = CLM_ROLE_ASSISTANT \<and> tool_calls m \<noteq> []"

definition clm_history_compact :: "tape \<Rightarrow> clm_history \<Rightarrow> cstr option \<Rightarrow> nat \<Rightarrow> clm_compressor option
    \<Rightarrow> (errno + nat) \<times> clm_history \<times> tape" where
  "clm_history_compact t h summary keep_recent cz =
     (case summary of None \<Rightarrow> (Inl EINVAL, h, t)
      | Some sm \<Rightarrow>
        if keep_recent = 0 then (Inl EINVAL, h, t)
        else let ns = first_nonsys h in
        if ns = length h then (Inr 0, h, t)
        else
          let cutp = nth_from_end (\<lambda>m. role m = CLM_ROLE_USER) h ns keep_recent (length h) 0 in
          if cutp \<noteq> None \<and> cutp \<noteq> Some ns then fold_range t h ns (the cutp) sm cz
          else
            let mission = find (\<lambda>j. role (h ! j) = CLM_ROLE_USER) [ns..<length h];
                start = (case mission of Some i \<Rightarrow> Suc i | None \<Rightarrow> ns) in
            if start = length h then (Inr 0, h, t)
            else case nth_from_end is_head h start keep_recent (length h) 0 of
                None \<Rightarrow> (Inr 0, h, t)
              | Some c \<Rightarrow> if c = start then (Inr 0, h, t) else fold_range t h start c sm cz)"

section \<open>Superseding stale results\<close>

text \<open>The forward walk up to the head of the current batch.\<close>

fun supersede_walk :: "tape \<Rightarrow> cstr \<Rightarrow> cstr \<Rightarrow> clm_history \<Rightarrow> nat \<Rightarrow> (errno + nat) \<times> clm_history \<times> tape" where
  "supersede_walk t name stub [] stubbed = (Inr stubbed, [], t)"
| "supersede_walk t name stub (m # ms) stubbed =
     (if role m \<noteq> CLM_ROLE_TOOL \<or> tool_name m \<noteq> Some name
         \<or> (\<not> content_compressed m \<and> map_option c_str (content m) = Some stub) then
        (let (r, ms', t') = supersede_walk t name stub ms stubbed in (r, m # ms', t'))
      else case message_set_content t m (Some stub) None of
          (Inl e, _, t1) \<Rightarrow> (Inl ENOMEM, m # ms, t1)
        | (Inr _, m', t1) \<Rightarrow>
            let (r, ms', t') = supersede_walk t1 name stub ms (stubbed + 1) in (r, drop_attachments m' # ms', t'))"

text \<open>The index of the assistant message that opened the current batch; the length when there is none.\<close>

definition batch_head :: "clm_history \<Rightarrow> nat" where
  "batch_head h = (case find (\<lambda>j. is_head (h ! j)) (rev [0..<length h]) of Some i \<Rightarrow> i | None \<Rightarrow> length h)"

definition clm_history_supersede_tool :: "tape \<Rightarrow> clm_history \<Rightarrow> cstr option \<Rightarrow> cstr option
    \<Rightarrow> (errno + nat) \<times> clm_history \<times> tape" where
  "clm_history_supersede_tool t h name stub =
     (case (name, stub) of
        (Some n, Some s) \<Rightarrow>
          let b = batch_head h; (r, h', t') = supersede_walk t n (c_str s) (take b h) 0 in (r, h' @ drop b h, t')
      | _ \<Rightarrow> (Inl EINVAL, h, t))"

section \<open>Repair of dangling calls\<close>

abbreviation is_tool :: "clm_message \<Rightarrow> bool" where
  "is_tool m \<equiv> role m = CLM_ROLE_TOOL"

definition tool_result_present :: "clm_history \<Rightarrow> cstr option \<Rightarrow> bool" where
  "tool_result_present ms i = (i \<noteq> None \<and> list_ex (\<lambda>m. tool_call_id m = i) (takeWhile is_tool ms))"

text \<open>The first tool result for an id in the messages after the insertion point: what is before it, the
  result, and what is after it.\<close>

fun tool_result_later :: "clm_history \<Rightarrow> cstr option \<Rightarrow> (clm_history \<times> clm_message \<times> clm_history) option" where
  "tool_result_later [] i = None"
| "tool_result_later (m # ms) i =
     (if i = None then None
      else if is_tool m \<and> tool_call_id m = i then Some ([], m, ms)
      else map_option (\<lambda>(a, r, b). (m # a, r, b)) (tool_result_later ms i))"

definition missing_text :: cstr where
  "missing_text = lit ''[tool result missing: session ended before this tool call finished]''"

text \<open>
  The loop over the calls of one assistant message. \<open>run\<close> are the tool results that directly follow it,
  \<open>ins\<close> what was inserted after them so far and \<open>after\<close> the rest of the history; \<^verbatim>\<open>batch_first\<close> is the first
  message after the assistant message when the loop starts, so insertions are visible to the presence
  check only behind a result that was already there.
\<close>

fun repair_calls :: "tape \<Rightarrow> clm_tool_call list \<Rightarrow> clm_history \<Rightarrow> clm_history \<Rightarrow> clm_history \<Rightarrow> nat
    \<Rightarrow> (errno + nat) \<times> clm_history \<times> clm_history \<times> tape" where
  "repair_calls t [] run ins after repaired = (Inr repaired, ins, after, t)"
| "repair_calls t (tc # tcs) run ins after repaired =
     (if tool_result_present (if run = [] then after else run @ ins @ after) (tc_id tc) then
        repair_calls t tcs run ins after repaired
      else case tool_result_later after (tc_id tc) of
          Some (a, late, b) \<Rightarrow> repair_calls t tcs run (ins @ [late]) (a @ b) (repaired + 1)
        | None \<Rightarrow>
          case make_tool_message t (tc_id tc) (tc_name tc) (Some missing_text) None of
            (None, t1) \<Rightarrow> (Inl ENOMEM, ins, after, t1)
          | (Some synth, t1) \<Rightarrow> repair_calls t1 tcs run (ins @ [synth]) after (repaired + 1))"

lemma tool_result_later_length: "tool_result_later ms i = Some (a, r, b) \<Longrightarrow> length ms = Suc (length (a @ b))"
  by (induction ms arbitrary: a) (auto split: if_splits)

lemma repair_calls_length: "repair_calls t tcs run ins after n = (r, ins', after', t') \<Longrightarrow> length after' \<le> length after"
proof (induction t tcs run ins after n rule: repair_calls.induct)
  case (2 t tc tcs run ins after n)
  then show ?case by (fastforce split: if_splits option.splits prod.splits dest: tool_result_later_length)
qed simp

text \<open>
  The loop over the history. The results behind a repaired message (and the ones just inserted) are tool
  messages, which the loop passes over; it goes on with what follows them.
\<close>

function repair_from :: "tape \<Rightarrow> clm_history \<Rightarrow> nat \<Rightarrow> (errno + nat) \<times> clm_history \<times> tape" where
  "repair_from t [] repaired = (Inr repaired, [], t)"
| "repair_from t (m # rest) repaired =
     (if \<not> is_head m then (let (r, h, t') = repair_from t rest repaired in (r, m # h, t'))
      else
        let run = takeWhile is_tool rest;
            (r, ins, after, t1) = repair_calls t (tool_calls m) run [] (dropWhile is_tool rest) repaired in
        case r of Inl e \<Rightarrow> (Inl e, m # run @ ins @ after, t1)
        | Inr n \<Rightarrow> let (r', h', t') = repair_from t1 after n in (r', m # run @ ins @ h', t'))"
  by pat_completeness auto
termination
proof (relation "measure (\<lambda>(t, h, n). length h)", goal_cases)
  case (3 t m rest repaired run p r q ins q' after t1 n)
  then have "length after \<le> length (dropWhile is_tool rest)"
    using repair_calls_length by metis
  then show ?case using length_dropWhile_le [of is_tool rest] by (simp add: le_less_trans)
qed simp_all

definition clm_history_repair_dangling_tool_calls :: "tape \<Rightarrow> clm_history \<Rightarrow> (errno + nat) \<times> clm_history \<times> tape" where
  "clm_history_repair_dangling_tool_calls t h = repair_from t h 0"

section \<open>Reading content back\<close>

text \<open>
  The plain text of a stored message, as both serializers obtain it: compressed content goes through the
  compressor's \<^verbatim>\<open>read\<close>. \<open>None\<close> is a message without content, or content that cannot be read back.
\<close>

definition message_plain :: "clm_compressor option \<Rightarrow> clm_message \<Rightarrow> cstr option" where
  "message_plain cz m =
     (case content m of None \<Rightarrow> None
      | Some c \<Rightarrow>
        if content_compressed m then
          (case cz of None \<Rightarrow> None
           | Some z \<Rightarrow> case cz_read z of None \<Rightarrow> None | Some rd \<Rightarrow> rd c)
        else Some c)"

text \<open>What \<^verbatim>\<open>compress.h\<close> documents: \<^verbatim>\<open>read\<close> is the inverse of \<^verbatim>\<open>write\<close>.\<close>

definition lossless :: "clm_compressor option \<Rightarrow> bool" where
  "lossless cz \<longleftrightarrow> (\<forall>z wr x y. cz = Some z \<longrightarrow> cz_write z = Some wr \<longrightarrow> wr x = Some y
     \<longrightarrow> (\<exists>rd. cz_read z = Some rd \<and> rd y = Some x))"

section \<open>Lemmas on storing content\<close>

lemma try_packD:
  assumes "try_pack cz c = Some p"
  shows "length p < length c" "length p \<le> 65535" "lossless cz \<Longrightarrow>
    \<exists>z rd. cz = Some z \<and> cz_read z = Some rd \<and> rd p = Some c"
  using assms by (auto simp: try_pack_def lossless_def split: option.splits if_splits)

lemma cut_back_le: "cut_back c n \<le> n"
  by (induction n) auto

text \<open>The text that is stored, or handed to the compressor: the repaired text cut to 65535 bytes.\<close>

definition stored_text :: "tape \<Rightarrow> byte list \<Rightarrow> byte list" where
  "stored_text t c0 =
     (let c = (case fst (utf8_repair t c0) of Some r \<Rightarrow> r | None \<Rightarrow> c0) in
      take (if length c > 65535 then cut_back c 65535 else length c) c)"

lemma length_stored_text: "length (stored_text t c) \<le> 65535"
  using cut_back_le [of _ 65535] by (auto simp: stored_text_def Let_def min_le_iff_disj)

lemma set_content_cases:
  assumes "message_set_content_len t m (Some c) cz = (r, m', t')"
  obtains "r = Inl ENOMEM" "m' = m"
  | p where "r = Inr ()" "try_pack cz (stored_text t c) = Some p"
      "m' = m\<lparr>content := Some p, content_len := word_of_nat (length p), content_compressed := True\<rparr>"
  | "r = Inr ()" "try_pack cz (stored_text t c) = None"
      "m' = m\<lparr>content := Some (stored_text t c), content_len := word_of_nat (length (stored_text t c)),
        content_compressed := False\<rparr>"
proof -
  have len: "length (stored_text t c) = (let d = (case fst (utf8_repair t c) of Some r \<Rightarrow> r | None \<Rightarrow> c) in
      if length d > 65535 then cut_back d 65535 else length d)"
    using cut_back_le [of "case fst (utf8_repair t c) of Some r \<Rightarrow> r | None \<Rightarrow> c" 65535]
    by (auto simp: stored_text_def Let_def min_def)
  show thesis
    using assms that len
    by (auto simp: message_set_content_len_def stored_text_def Let_def split: prod.splits option.splits if_splits)
qed

lemma unat_of_nat_u16: "n \<le> 65535 \<Longrightarrow> unat (word_of_nat n :: u16) = n"
  by (simp add: unat_of_nat take_bit_nat_eq_self)

text \<open>The stored length is the length of the stored bytes: \<^verbatim>\<open>content_len\<close> never wraps.\<close>

definition msg_ok :: "clm_message \<Rightarrow> bool" where
  "msg_ok m \<longleftrightarrow> (case content m of None \<Rightarrow> content_len m = 0 \<and> \<not> content_compressed m
     | Some c \<Rightarrow> length c = unat (content_len m))"

lemma set_content_msg_ok:
  "message_set_content_len t m body cz = (Inr (), m', t') \<Longrightarrow> msg_ok m'"
proof (cases body)
  case None
  then show "message_set_content_len t m body cz = (Inr (), m', t') \<Longrightarrow> msg_ok m'"
    by (auto simp: message_set_content_len_def msg_ok_def)
next
  case (Some c)
  assume "message_set_content_len t m body cz = (Inr (), m', t')"
  then show "msg_ok m'" unfolding Some
    by (cases rule: set_content_cases)
      (auto simp: msg_ok_def unat_of_nat_u16 length_stored_text dest: try_packD)
qed

lemma set_content_frame:
  assumes "message_set_content_len t m body cz = (r, m', t')"
  shows "role m' = role m \<and> tool_calls m' = tool_calls m \<and> tool_call_id m' = tool_call_id m
    \<and> tool_name m' = tool_name m \<and> attachments m' = attachments m \<and> (r = Inl ENOMEM \<and> m' = m \<or> r = Inr ())"
proof (cases body)
  case None
  then show ?thesis using assms by (auto simp: message_set_content_len_def)
next
  case (Some c)
  show ?thesis using assms unfolding Some by (cases rule: set_content_cases) auto
qed

lemma cut_back_spec: "cut_back c n = 0 \<or> \<not> c ! cut_back c n AND 0xC0 = 0x80"
  by (induction n) auto

lemma cut_back_ge: "k \<le> n \<Longrightarrow> \<not> c ! k AND 0xC0 = 0x80 \<Longrightarrow> k \<le> cut_back c n"
  by (induction n) (auto simp: le_Suc_eq)

lemma cut_back_text:
  assumes "utf8_text c" "n < length c"
  shows "utf8_text (take (cut_back c n) c)" "n \<le> cut_back c n + 3"
proof -
  have *: "b AND 0xC0 = 0x80 \<longleftrightarrow> Utf8.cont b" for b by (simp add: byte_masks cont_def)
  have "cut_back c n < length c" using cut_back_le [of c n] assms(2) by simp
  then show "utf8_text (take (cut_back c n) c)"
    using cut_back_spec [of c n] utf8_text_take [OF assms(1), of "cut_back c n"] by (auto simp: *)
  obtain k where "k \<le> n" "n \<le> k + 3" "\<not> Utf8.cont (c ! k)" using utf8_text_lead_near [OF assms] by blast
  then show "n \<le> cut_back c n + 3" using cut_back_ge [of k n c] by (auto simp: *)
qed

lemma stored_text_text:
  assumes "utf8_text c \<or> fst (alloc t)"
  shows "utf8_text (stored_text t c)"
    "stored_text t c = take (length (stored_text t c)) (utf8_subst c)"
    "if length (utf8_subst c) \<le> 65535 then stored_text t c = utf8_subst c else 65532 \<le> length (stored_text t c)"
proof -
  have rep: "(case fst (utf8_repair t c) of Some r \<Rightarrow> r | None \<Rightarrow> c) = utf8_subst c"
    using assms by (auto simp: utf8_repair_def utf8_bad_iff utf8_subst_id split: prod.splits)
  then have st: "stored_text t c = take (if length (utf8_subst c) > 65535 then cut_back (utf8_subst c) 65535
      else length (utf8_subst c)) (utf8_subst c)" by (simp add: stored_text_def Let_def)
  then show "utf8_text (stored_text t c)"
    using cut_back_text(1) [OF utf8_subst_text, of "65535" c] utf8_subst_text [of c] by auto
  show "stored_text t c = take (length (stored_text t c)) (utf8_subst c)" by (auto simp: st min_def)
  show "if length (utf8_subst c) \<le> 65535 then stored_text t c = utf8_subst c else 65532 \<le> length (stored_text t c)"
    using cut_back_text(2) [OF utf8_subst_text, of "65535" c] cut_back_le [of "utf8_subst c" 65535]
    by (auto simp: st min_def)
qed


text \<open>Evaluation of a store without failing allocations and without a compressor.\<close>

lemma store_short:
  assumes "length (utf8_subst c) \<le> 65535"
  shows "message_set_content_len [] m (Some c) None = (Inr (), m\<lparr>content := Some (utf8_subst c),
    content_len := word_of_nat (length (utf8_subst c)), content_compressed := False\<rparr>, [])"
proof -
  have "(case fst (utf8_repair [] c) of Some r \<Rightarrow> r | None \<Rightarrow> c) = utf8_subst c" "snd (utf8_repair [] c) = []"
    by (auto simp: utf8_repair_def utf8_subst_id)
  then show ?thesis using assms
    by (auto simp: message_set_content_len_def try_pack_def Let_def split: prod.splits)
qed

definition blank_message :: "clm_role \<Rightarrow> clm_message" where
  "blank_message r = \<lparr>role = r, content = None, content_len = 0, content_compressed = False,
     tool_call_id = None, tool_name = None, tool_calls = [], attachments = []\<rparr>"

lemmas store_eval = message_set_content_def store_short c_str_def utf8_subst.simps utf8_seq_def utf8_need_def
  blank_message_def clm_message_create_def Let_def


end
