(* ===== verification/History_Compact.thy ===== *)
theory History_Compact
  imports History
begin

text \<open>
  Correctness of compaction and of superseding: what a fold keeps, that it never separates a tool result
  from its call, that it makes progress, and that a failed or refused fold leaves the history alone.
\<close>

section \<open>Histories a provider accepts\<close>

text \<open>
  Every provider rejects a tool result that does not follow the assistant message with its call, and a
  call without a result in the run of tool messages behind it. \<open>paired ids h\<close> says that every tool message of
  \<open>h\<close> belongs to the head of its run, \<open>ids\<close> being the calls of the message before \<open>h\<close>.
\<close>

fun paired :: "cstr option list \<Rightarrow> clm_history \<Rightarrow> bool" where
  "paired ids [] = True"
| "paired ids (m # ms) =
     (if is_tool m then tool_call_id m \<in> set ids \<and> paired ids ms
      else paired (if is_head m then map tc_id (tool_calls m) else []) ms)"

fun answered :: "clm_history \<Rightarrow> bool" where
  "answered [] = True"
| "answered (m # ms) =
     ((is_head m \<longrightarrow> list_all (\<lambda>tc. tc_id tc \<noteq> None \<longrightarrow> tool_result_present ms (tc_id tc)) (tool_calls m))
      \<and> answered ms)"

definition wire_ok :: "clm_history \<Rightarrow> bool" where
  "wire_ok h \<longleftrightarrow> paired [] h \<and> answered h"

text \<open>A place where a history can be cut: its end, or before a message that is no tool result.\<close>

definition no_tool_first :: "clm_history \<Rightarrow> bool" where
  "no_tool_first h \<longleftrightarrow> (case h of [] \<Rightarrow> True | m # _ \<Rightarrow> \<not> is_tool m)"

lemma no_tool_first_simps [simp]: "no_tool_first []" "no_tool_first (m # h) \<longleftrightarrow> \<not> is_tool m"
  by (simp_all add: no_tool_first_def)

lemma cut_point_no_tool: "is_cut_point m \<Longrightarrow> \<not> is_tool m"
  by (auto simp: is_cut_point_def)

lemma paired_append:
  "no_tool_first ys \<Longrightarrow> paired ids (xs @ ys) \<longleftrightarrow> paired ids xs \<and> paired [] ys"
proof (induction xs arbitrary: ids)
  case Nil
  then show ?case by (cases ys) auto
qed auto

lemma takeWhile_tool_append: "no_tool_first ys \<Longrightarrow> takeWhile is_tool (xs @ ys) = takeWhile is_tool xs"
  by (induction xs) (auto simp: no_tool_first_def split: list.splits)

lemma present_append: "no_tool_first ys \<Longrightarrow> tool_result_present (xs @ ys) i \<longleftrightarrow> tool_result_present xs i"
  by (simp add: tool_result_present_def takeWhile_tool_append)

lemma answered_append: "no_tool_first ys \<Longrightarrow> answered (xs @ ys) \<longleftrightarrow> answered xs \<and> answered ys"
  by (induction xs) (auto simp: present_append)

lemma wire_ok_append: "no_tool_first ys \<Longrightarrow> wire_ok (xs @ ys) \<longleftrightarrow> wire_ok xs \<and> wire_ok ys"
  by (auto simp: wire_ok_def paired_append answered_append)

lemma wire_ok_user: "role m = CLM_ROLE_USER \<Longrightarrow> wire_ok [m]"
  by (simp add: wire_ok_def is_head_def)

lemma systems_wire_ok: "\<forall>m \<in> set h. role m = CLM_ROLE_SYSTEM \<Longrightarrow> wire_ok h"
proof -
  have "\<forall>m \<in> set h. role m = CLM_ROLE_SYSTEM \<Longrightarrow> paired ids h \<and> answered h" for ids
    by (induction h arbitrary: ids) (auto simp: is_head_def)
  then show "\<forall>m \<in> set h. role m = CLM_ROLE_SYSTEM \<Longrightarrow> wire_ok h" by (simp add: wire_ok_def)
qed

text \<open>Replacing a middle part by a user message keeps a history valid when both cuts are clean.\<close>

lemma wire_ok_fold:
  assumes "wire_ok (pre @ mid @ post)" "wire_ok pre" "no_tool_first post" "role s = CLM_ROLE_USER"
  shows "wire_ok (pre @ [s] @ post)"
proof -
  have "wire_ok post" using assms(1,3) wire_ok_append [of post "pre @ mid"] by simp
  then have "wire_ok ([s] @ post)" using assms(3,4) by (simp only: wire_ok_append wire_ok_user)
  then show ?thesis using assms(2,4) wire_ok_append [of "[s] @ post" pre] by simp
qed

section \<open>The fold\<close>

lemma fold_range_cases:
  assumes "fold_range t h start c sm cz = (r, h', t')"
  obtains "r = Inl ENOMEM" "h' = h"
  | s t1 t2 where "r = Inr (c - start)" "h' = take start h @ [s] @ drop c h" "role s = CLM_ROLE_USER" "tool_calls s = []"
      "message_set_content t1 (blank_message CLM_ROLE_USER) (Some sm) cz = (Inr (), s, t2)"
proof -
  obtain o1 t1 where cr: "clm_message_create t CLM_ROLE_USER = (o1, t1)" by fastforce
  show thesis
  proof (cases o1)
    case None
    then show ?thesis using assms that(1) cr by (simp add: fold_range_def)
  next
    case (Some m)
    then have m: "m = blank_message CLM_ROLE_USER"
      using cr by (auto simp: clm_message_create_def blank_message_def Let_def split: prod.splits if_splits)
    obtain r2 s t2 where sc: "message_set_content t1 m (Some sm) cz = (r2, s, t2)" using prod_cases3 by blast
    have fr: "role s = role m" "tool_calls s = tool_calls m" "r2 = Inl ENOMEM \<and> s = m \<or> r2 = Inr ()"
      using set_content_frame sc by (auto simp: message_set_content_def)
    then have us: "role s = CLM_ROLE_USER" "tool_calls s = []" by (simp_all add: m blank_message_def)
    show ?thesis
      using fr(3)
    proof
      assume "r2 = Inl ENOMEM \<and> s = m"
      then show ?thesis using assms that(1) cr Some sc by (simp add: fold_range_def)
    next
      assume r2: "r2 = Inr ()"
      then have "r = Inr (c - start)" "h' = take start h @ [s] @ drop c h"
        using assms cr Some sc by (simp_all add: fold_range_def)
      then show ?thesis using that(2) us sc m r2 by blast
    qed
  qed
qed

text \<open>Size of the new message.\<close>

lemma summary_bytes:
  assumes "message_set_content t m (Some sm) cz = (Inr (), s, t')" "utf8_text (c_str sm)" "tool_calls m = []"
  shows "message_bytes s \<le> length (c_str sm) + 32"
proof -
  have sc: "message_set_content_len t m (Some (c_str sm)) cz = (Inr (), s, t')"
    using assms(1) by (simp add: message_set_content_def)
  have st: "length (stored_text t (c_str sm)) \<le> length (c_str sm)"
    using stored_text_text(2) [of "c_str sm" t] assms(2) utf8_subst_id [of "c_str sm"]
    by (metis (no_types, lifting) length_take min.cobounded1 utf8_bad_iff)
  have "unat (content_len s) \<le> length (c_str sm)"
    using sc
  proof (cases rule: set_content_cases)
    case (2 p)
    then show ?thesis using try_packD(1,2) [OF 2(2)] st by (simp add: unat_of_nat_u16)
  next
    case 3
    then show ?thesis using length_stored_text [of t "c_str sm"] st by (simp add: unat_of_nat_u16)
  qed simp
  moreover have "tool_calls s = []" using set_content_frame [OF sc] assms(3) by simp
  ultimately show ?thesis by (simp add: message_bytes_def)
qed

section \<open>The backward walks\<close>

abbreviation total_bytes :: "clm_history \<Rightarrow> nat" where
  "total_bytes h \<equiv> sum_list (map message_bytes h)"

definition cut_at :: "clm_history \<Rightarrow> nat \<Rightarrow> nat \<Rightarrow> bool" where
  "cut_at h lo c \<longleftrightarrow> lo \<le> c \<and> c < length h \<and> is_cut_point (h ! c)"

lemma total_bytes_drop: "i < length h \<Longrightarrow> total_bytes (drop i h) = message_bytes (h ! i) + total_bytes (drop (Suc i) h)"
  by (simp add: Cons_nth_drop_Suc [symmetric])

lemma within_walk_spec:
  assumes "within_walk h lo kb kt i bytes turns c nw = (c', nw')" "i \<le> length h"
    and "bytes = total_bytes (drop i h)"
    and "\<And>k. c = Some k \<Longrightarrow> cut_at h lo k \<and> total_bytes (drop k h) \<le> kb"
    and "\<And>k. nw = Some k \<Longrightarrow> cut_at h lo k \<and> (\<forall>j. k < j \<longrightarrow> \<not> cut_at h lo j)"
    and "nw = None \<Longrightarrow> \<forall>j \<ge> i. \<not> cut_at h lo j" "nw = None \<Longrightarrow> c = None"
  shows "(\<forall>k. c' = Some k \<longrightarrow> cut_at h lo k \<and> total_bytes (drop k h) \<le> kb)
    \<and> (\<forall>k. nw' = Some k \<longrightarrow> cut_at h lo k \<and> (\<forall>j. k < j \<longrightarrow> \<not> cut_at h lo j))
    \<and> (nw' = None \<longrightarrow> c' = None)"
  using assms
proof (induction i arbitrary: bytes turns c nw)
  case 0
  then show ?case by simp
next
  case (Suc i)
  show ?case
  proof (cases "Suc i \<le> lo")
    case True
    then show ?thesis using Suc.prems by simp
  next
    case lo: False
    let ?b = "bytes + message_bytes (h ! i)"
    have b: "?b = total_bytes (drop i h)" using Suc.prems(2,3) by (simp add: total_bytes_drop)
    have at: "cut_at h lo i \<longleftrightarrow> is_cut_point (h ! i)" using lo Suc.prems(2) by (auto simp: cut_at_def)
    show ?thesis
    proof (cases "is_cut_point (h ! i)")
      case False
      have "within_walk h lo kb kt i ?b turns c nw = (c', nw')"
        using Suc.prems(1) lo False by (simp add: Let_def)
      moreover have "\<forall>j \<ge> i. \<not> cut_at h lo j" if "nw = None"
        using Suc.prems(6) [OF that] at False by (metis Suc_leI le_eq_less_or_eq)
      ultimately show ?thesis using Suc.prems(2,4,5,7) b by (intro Suc.IH [of ?b turns c nw]) auto
    next
      case True
      let ?nw = "if nw = None then Some i else nw"
      have nw: "cut_at h lo k \<and> (\<forall>j. k < j \<longrightarrow> \<not> cut_at h lo j)" if "?nw = Some k" for k
        using that Suc.prems(5,6) at True by (auto split: if_splits)
      show ?thesis
      proof (cases "?b > kb")
        case big: True
        then have "c' = c" "nw' = ?nw" using Suc.prems(1) lo True by (simp_all add: Let_def)
        then show ?thesis using Suc.prems(4) nw by auto
      next
        case small: False
        obtain u where "within_walk h lo kb kt i ?b u (Some i) ?nw = (c', nw')"
          using Suc.prems(1) lo True small by (auto simp: Let_def split: if_splits)
        then show ?thesis
          using Suc.prems(2) b small nw at True by (intro Suc.IH [of ?b u "Some i" ?nw]) (auto split: if_splits)
      qed
    qed
  qed
qed

lemma within_walk_top:
  assumes "within_walk h lo kb kt (length h) 0 0 None None = (c, nw)"
  shows "c = Some k \<Longrightarrow> cut_at h lo k \<and> total_bytes (drop k h) \<le> kb"
    and "nw = Some k \<Longrightarrow> cut_at h lo k \<and> (\<forall>j. k < j \<longrightarrow> \<not> cut_at h lo j)"
    and "nw = None \<Longrightarrow> c = None"
  using within_walk_spec [OF assms] by (auto simp: cut_at_def)

lemma within_walk_turns: "within_walk h lo kb kt i bytes turns c nw = within_walk h lo kb kt' i bytes turns' c nw"
  by (induction i arbitrary: bytes turns turns' c nw) (auto simp: Let_def)

lemma nth_from_end_spec:
  assumes "nth_from_end P h lo k i seen = Some c" "i \<le> length h" "seen = length (filter P (drop i h))"
  shows "lo \<le> c \<and> c < i \<and> P (h ! c) \<and> length (filter P (drop c h)) = k"
  using assms
proof (induction i arbitrary: seen)
  case (Suc i)
  have "drop i h = h ! i # drop (Suc i) h" using Suc.prems(2) by (simp add: Cons_nth_drop_Suc)
  then show ?case using Suc by (auto split: if_splits simp: less_Suc_eq)
qed simp

lemma find_index: "find P [a..<b] = Some i \<Longrightarrow> a \<le> i \<and> i < b \<and> P i"
  by (auto simp: find_Some_iff)

section \<open>Folding within a byte budget\<close>

lemma message_bytes_ge: "32 \<le> message_bytes m"
  by (simp add: message_bytes_def)

lemma within_never_all:
  assumes "ns < length h" "total_bytes (drop ns h) \<le> kb" "kb \<le> total_bytes (drop ns h) div 2"
  shows False
  using assms message_bytes_ge [of "h ! ns"] total_bytes_drop [OF assms(1)] by linarith

definition kept_budget :: "clm_history \<Rightarrow> nat \<Rightarrow> nat" where
  "kept_budget h kb = min kb (total_bytes (drop (first_nonsys h) h) div 2)"

lemma compact_within_cases:
  assumes "clm_history_compact_within t h (Some sm) kb kt cz = (r, h', t')"
  obtains "h' = h" "r = Inr 0 \<or> r = Inl ENOMEM"
  | c s t1 t2 where "first_nonsys h < c" "cut_at h (first_nonsys h) c" "r = Inr (c - first_nonsys h)"
      "h' = take (first_nonsys h) h @ [s] @ drop c h" "role s = CLM_ROLE_USER"
      "message_set_content t1 (blank_message CLM_ROLE_USER) (Some sm) cz = (Inr (), s, t2)"
      "length (c_str sm) + 32 < total_bytes (take (c - first_nonsys h) (drop (first_nonsys h) h))"
      "total_bytes (drop c h) \<le> kept_budget h kb \<or> (\<forall>j > c. \<not> cut_at h (first_nonsys h) j)"
proof -
  let ?ns = "first_nonsys h"
  let ?kb = "if kb > total_bytes (drop ?ns h) div 2 then total_bytes (drop ?ns h) div 2 else kb"
  have kb: "?kb = kept_budget h kb" by (auto simp: kept_budget_def)
  show thesis
  proof (cases "?ns = length h")
    case True
    then show ?thesis using assms that(1) by (simp add: clm_history_compact_within_def Let_def)
  next
    case False
    then have ns: "?ns < length h" by (simp add: first_nonsys_def le_neq_implies_less length_takeWhile_le)
    obtain c0 nw where w: "within_walk h ?ns ?kb kt (length h) 0 0 None None = (c0, nw)" by fastforce
    have c0: "c0 \<noteq> Some ?ns"
      using within_walk_top(1) [OF w, of ?ns] within_never_all [OF ns, of ?kb] by (auto split: if_splits)
    let ?c2 = "if c0 = None then nw else c0"
    have def: "(r, h', t') = (case ?c2 of None \<Rightarrow> (Inr 0, h, t) | Some c \<Rightarrow>
        if c = ?ns then (Inr 0, h, t)
        else if total_bytes (take (c - ?ns) (drop ?ns h)) \<le> length (c_str sm) + 32 then (Inr 0, h, t)
        else fold_range t h ?ns c sm cz)"
      using assms [symmetric] w c0 False unfolding clm_history_compact_within_def Let_def
      by (cases c0) simp_all
    show ?thesis
    proof (cases ?c2)
      case None
      then show ?thesis using def that(1) by (simp only: option.case) simp
    next
      case (Some c)
      have c: "cut_at h ?ns c" "total_bytes (drop c h) \<le> ?kb \<or> (\<forall>j > c. \<not> cut_at h ?ns j)"
        using Some within_walk_top(1,2) [OF w, of c] by (auto split: if_splits)
      then have "?ns \<le> c" by (simp add: cut_at_def)
      show ?thesis
      proof (cases "c = ?ns \<or> total_bytes (take (c - ?ns) (drop ?ns h)) \<le> length (c_str sm) + 32")
        case True
        then show ?thesis using def that(1) Some by (auto simp: Let_def split: if_splits)
      next
        case big: False
        then have "fold_range t h ?ns c sm cz = (r, h', t')" using def Some by simp
        then show ?thesis
        proof (cases rule: fold_range_cases)
          case 1 then show ?thesis using that(1) by simp
        next
          case (2 s t1 t2)
          then show ?thesis using that(2) [of c s t1 t2] c big \<open>?ns \<le> c\<close> kb by auto
        qed
      qed
    qed
  qed
qed

lemma first_nonsys_split:
  "\<forall>m \<in> set (take (first_nonsys h) h). role m = CLM_ROLE_SYSTEM"
  unfolding first_nonsys_def by (metis set_takeWhileD takeWhile_eq_take)

lemma split_at_two: "a \<le> c \<Longrightarrow> h = take a h @ take (c - a) (drop a h) @ drop c h"
  by (simp add: take_drop_append3)

lemma total_bytes_split: "a \<le> c \<Longrightarrow> total_bytes h
    = total_bytes (take a h) + total_bytes (take (c - a) (drop a h)) + total_bytes (drop c h)"
  by (subst split_at_two [of a c h]) simp_all

text \<open>(functional). A fold within a byte budget replaces whole old exchanges by the summary: the system prologue
  stays verbatim, so does a tail that starts at a user turn or an exchange head, what is between becomes one
  user message, the return value counts the folded messages, and the tail is within the budget and within
  half of what was there, or it is just the newest exchange. Otherwise nothing changed.\<close>

theorem compact_within_shape:
  assumes "clm_history_compact_within t h (Some sm) kb kt cz = (r, h', t')"
  shows "if \<exists>k > 0. r = Inr k
    then \<exists>pre mid post s. h = pre @ mid @ post \<and> h' = pre @ [s] @ post \<and> r = Inr (length mid)
      \<and> pre = takeWhile (\<lambda>m. role m = CLM_ROLE_SYSTEM) h \<and> role s = CLM_ROLE_USER
      \<and> post \<noteq> [] \<and> is_cut_point (hd post)
      \<and> (total_bytes post \<le> min kb (total_bytes (mid @ post) div 2) \<or> (\<forall>m \<in> set (tl post). \<not> is_cut_point m))
    else h' = h \<and> (r = Inr 0 \<or> r = Inl ENOMEM)"
  using assms
proof (cases rule: compact_within_cases)
  case 1
  then show ?thesis by auto
next
  case (2 c s t1 t2)
  let ?ns = "first_nonsys h"
  let ?pre = "take ?ns h" and ?mid = "take (c - ?ns) (drop ?ns h)" and ?post = "drop c h"
  have c: "?ns \<le> c" "c < length h" "is_cut_point (h ! c)" using 2(2) by (auto simp: cut_at_def)
  have "drop ?ns h = ?mid @ ?post" using c(1) by (metis append_take_drop_id drop_drop le_add_diff_inverse2)
  moreover have "\<forall>m \<in> set (tl ?post). \<not> is_cut_point m" if "\<forall>j > c. \<not> cut_at h ?ns j"
  proof
    fix m assume "m \<in> set (tl ?post)"
    then obtain j where "j < length h - Suc c" "m = h ! (Suc c + j)"
      by (auto simp: drop_Suc [symmetric] tl_drop in_set_conv_nth simp flip: drop_Suc)
    then show "\<not> is_cut_point m" using that [rule_format, of "Suc c + j"] c by (auto simp: cut_at_def)
  qed
  ultimately have bud: "total_bytes ?post \<le> min kb (total_bytes (?mid @ ?post) div 2)
      \<or> (\<forall>m \<in> set (tl ?post). \<not> is_cut_point m)"
    using 2(8) unfolding kept_budget_def by metis
  have "hd ?post = h ! c" "?post \<noteq> []" using c by (simp_all add: hd_drop_conv_nth)
  then have head: "is_cut_point (hd ?post)" "?post \<noteq> []" using c(3) by simp_all
  have r: "r = Inr (length ?mid)" using 2(3) c by simp
  have pre: "?pre = takeWhile (\<lambda>m. role m = CLM_ROLE_SYSTEM) h"
    by (simp add: first_nonsys_def flip: takeWhile_eq_take)
  have A: "h = ?pre @ ?mid @ ?post \<and> h' = ?pre @ [s] @ ?post \<and> r = Inr (length ?mid)
      \<and> ?pre = takeWhile (\<lambda>m. role m = CLM_ROLE_SYSTEM) h \<and> role s = CLM_ROLE_USER
      \<and> ?post \<noteq> [] \<and> is_cut_point (hd ?post)
      \<and> (total_bytes ?post \<le> min kb (total_bytes (?mid @ ?post) div 2) \<or> (\<forall>m \<in> set (tl ?post). \<not> is_cut_point m))"
    by (intro conjI split_at_two c(1) 2(4,5) head r pre bud)
  have pos: "\<exists>k > 0. r = Inr k" using 2(1,3) by simp
  show ?thesis unfolding if_P [OF pos] by (intro exI) (rule A)
qed

text \<open>A small conversation for the witnesses: two user turns, the first with an answer.\<close>

definition text_message :: "clm_role \<Rightarrow> string \<Rightarrow> clm_message" where
  "text_message r s = (blank_message r)\<lparr>content := Some (lit s), content_len := word_of_nat (length s)\<rparr>"

definition sample_history :: clm_history where
  "sample_history = [text_message CLM_ROLE_SYSTEM ''s'', text_message CLM_ROLE_USER ''a'',
     text_message CLM_ROLE_ASSISTANT ''b'', text_message CLM_ROLE_USER ''c'']"

lemmas compact_eval = clm_history_compact_within_def clm_history_compact_def first_nonsys_def message_bytes_def
  is_cut_point_def fold_range_def next_cut_def text_message_def store_eval

lemma sample_compact_within:
  "clm_history_compact_within [] sample_history (Some (lit ''z'')) 40 1 None
    = (Inr 2, [text_message CLM_ROLE_SYSTEM ''s'', text_message CLM_ROLE_USER ''z'', text_message CLM_ROLE_USER ''c''], [])"
  by (simp add: sample_history_def compact_eval)

theorem compact_within_shape_witness:
  "if \<exists>k > 0. (Inr 2 :: errno + nat) = Inr k
    then \<exists>pre mid post s. sample_history = pre @ mid @ post
      \<and> [text_message CLM_ROLE_SYSTEM ''s'', text_message CLM_ROLE_USER ''z'', text_message CLM_ROLE_USER ''c''] = pre @ [s] @ post
      \<and> (Inr 2 :: errno + nat) = Inr (length mid)
      \<and> pre = takeWhile (\<lambda>m. role m = CLM_ROLE_SYSTEM) sample_history \<and> role s = CLM_ROLE_USER
      \<and> post \<noteq> [] \<and> is_cut_point (hd post)
      \<and> (total_bytes post \<le> min 40 (total_bytes (mid @ post) div 2) \<or> (\<forall>m \<in> set (tl post). \<not> is_cut_point m))
    else False"
  using compact_within_shape [OF sample_compact_within] by simp

text \<open>C33 (liveness). A positive return means the history shrank: with a summary of valid UTF-8 the bytes after the
  fold are strictly fewer, so a caller that folds until it fits cannot loop.\<close>

theorem compact_within_shrinks:
  assumes "clm_history_compact_within t h (Some sm) kb kt cz = (Inr k, h', t')" "k > 0" "utf8_text (c_str sm)"
  shows "total_bytes h' < total_bytes h"
  using assms(1)
proof (cases rule: compact_within_cases)
  case 1
  then show ?thesis using assms(2) by simp
next
  case (2 c s t1 t2)
  have "message_bytes s \<le> length (c_str sm) + 32"
    using summary_bytes [OF 2(6) assms(3)] by (simp add: blank_message_def)
  then show ?thesis using 2(1,4,7) total_bytes_split [of "first_nonsys h" c h] by simp
qed

theorem compact_within_shrinks_witness:
  "total_bytes [text_message CLM_ROLE_SYSTEM ''s'', text_message CLM_ROLE_USER ''z'', text_message CLM_ROLE_USER ''c'']
    < total_bytes sample_history"
proof -
  have "c_str (lit ''z'') = utf8_enc 0x7A @ []" by (simp add: c_str_def utf8_enc_def nb_def)
  then have "utf8_text (c_str (lit ''z''))" using utf8_text_enc [of "0x7A" "[]"] by (simp only: utf8_text_Nil scalar_def) simp
  then show ?thesis using compact_within_shrinks [OF sample_compact_within] by simp
qed

text \<open>(error). The shrink check counts the bytes of the summary as given, but storing it replaces each byte that is not
  valid UTF-8 by three: with such a summary a positive return can leave the history larger.\<close>

theorem compact_within_can_grow:
  "\<exists>h sm k h'. clm_history_compact_within [] h (Some sm) 40 1 None = (Inr k, h', []) \<and> k > 0
     \<and> total_bytes h < total_bytes h'"
proof (intro exI conjI)
  let ?s = "(blank_message CLM_ROLE_USER)\<lparr>content := Some [0xEF, 0xBF, 0xBD], content_len := 3\<rparr>"
  show "clm_history_compact_within [] [text_message CLM_ROLE_USER ''ab'', text_message CLM_ROLE_USER ''c''] (Some [0xFF]) 40 1 None
    = (Inr 1, [?s, text_message CLM_ROLE_USER ''c''], [])" by (simp add: compact_eval)
  show "(0 :: nat) < 1" by simp
  show "total_bytes [text_message CLM_ROLE_USER ''ab'', text_message CLM_ROLE_USER ''c'']
    < total_bytes [?s, text_message CLM_ROLE_USER ''c'']" by (simp add: compact_eval)
qed

text \<open>(equivalence). The parameter \<^verbatim>\<open>keep_min_turns\<close> has no effect: the only test that reads it also asks for
  more bytes than the budget, which the test before it has excluded.\<close>

theorem compact_within_min_turns_unused:
  "clm_history_compact_within t h summary kb kt cz = clm_history_compact_within t h summary kb kt' cz"
proof -
  have "within_walk h ns b kt (length h) 0 0 None None = within_walk h ns b kt' (length h) 0 0 None None" for ns b
    by (rule within_walk_turns)
  then show ?thesis by (simp only: clm_history_compact_within_def)
qed

section \<open>Folding by turns\<close>

lemma find_upt_cases:
  obtains "find P [a..<b] = None" "\<forall>j < b. a \<le> j \<longrightarrow> \<not> P j"
  | i where "find P [a..<b] = Some i" "a \<le> i" "i < b" "P i"
proof (cases "find P [a..<b]")
  case None
  moreover from None have "\<forall>j < b. a \<le> j \<longrightarrow> \<not> P j" by (simp add: find_None_iff)
  ultimately show thesis by (rule that(1))
next
  case (Some i)
  then show thesis using that(2) [OF Some] find_index [OF Some] by blast
qed

lemma compact_cases:
  assumes "clm_history_compact t h (Some sm) keep cz = (r, h', t')"
  obtains "h' = h" "r = Inr 0 \<or> r = Inl ENOMEM \<or> (keep = 0 \<and> r = Inl EINVAL)"
  | c s where "first_nonsys h < c" "c < length h" "role (h ! c) = CLM_ROLE_USER" "r = Inr (c - first_nonsys h)"
      "h' = take (first_nonsys h) h @ [s] @ drop c h" "role s = CLM_ROLE_USER"
      "length (filter (\<lambda>m. role m = CLM_ROLE_USER) (drop c h)) = keep"
  | c s start where "start < c" "c < length h" "is_head (h ! c)" "r = Inr (c - start)"
      "h' = take start h @ [s] @ drop c h" "role s = CLM_ROLE_USER"
      "length (filter is_head (drop c h)) = keep"
      "(start = first_nonsys h \<and> (\<forall>j < length h. first_nonsys h \<le> j \<longrightarrow> role (h ! j) \<noteq> CLM_ROLE_USER))
        \<or> (start > 0 \<and> role (h ! (start - 1)) = CLM_ROLE_USER)"
proof -
  let ?ns = "first_nonsys h" and ?u = "\<lambda>m. role m = CLM_ROLE_USER"
  let ?mission = "find (\<lambda>j. role (h ! j) = CLM_ROLE_USER) [?ns..<length h]"
  let ?start = "case ?mission of Some i \<Rightarrow> Suc i | None \<Rightarrow> ?ns"
  have ns: "?ns \<le> length h" by (simp add: first_nonsys_def length_takeWhile_le)
  have start: "?start \<le> length h" "(?start = ?ns \<and> (\<forall>j < length h. ?ns \<le> j \<longrightarrow> role (h ! j) \<noteq> CLM_ROLE_USER))
      \<or> (?start > 0 \<and> role (h ! (?start - 1)) = CLM_ROLE_USER)"
    using ns by (cases rule: find_upt_cases [of "\<lambda>j. role (h ! j) = CLM_ROLE_USER" ?ns "length h"], simp_all)+
  consider "keep = 0" | "keep \<noteq> 0" "?ns = length h" | "keep \<noteq> 0" "?ns \<noteq> length h" by blast
  then show thesis
  proof cases
    case 1 then show ?thesis using assms that(1) by (simp add: clm_history_compact_def)
  next
    case 2 then show ?thesis using assms that(1) by (simp add: clm_history_compact_def)
  next
    case go: 3
    let ?cut = "nth_from_end ?u h ?ns keep (length h) 0"
    show ?thesis
    proof (cases "?cut \<noteq> None \<and> ?cut \<noteq> Some ?ns")
      case True
      then obtain c where c: "?cut = Some c" "c \<noteq> ?ns" by auto
      have sp: "?ns \<le> c" "c < length h" "?u (h ! c)" "length (filter ?u (drop c h)) = keep"
        using nth_from_end_spec [OF c(1)] by auto
      have "fold_range t h ?ns c sm cz = (r, h', t')"
        using assms go c by (simp add: clm_history_compact_def)
      then show ?thesis
      proof (cases rule: fold_range_cases)
        case 1 then show ?thesis using that(1) by simp
      next
        case (2 s t1 t2)
        then show ?thesis using that(2) [of c s] sp c(2) by auto
      qed
    next
      case False
      have eq: "(r, h', t') = (if ?start = length h then (Inr 0, h, t)
          else case nth_from_end is_head h ?start keep (length h) 0 of
              None \<Rightarrow> (Inr 0, h, t)
            | Some c \<Rightarrow> if c = ?start then (Inr 0, h, t) else fold_range t h ?start c sm cz)"
        using assms [symmetric] go unfolding clm_history_compact_def Let_def if_not_P [OF False] by simp
      show ?thesis
      proof (cases "nth_from_end is_head h ?start keep (length h) 0")
        case None
        then show ?thesis using that(1) eq by (auto split: if_splits)
      next
        case (Some c)
        have sp: "?start \<le> c" "c < length h" "is_head (h ! c)" "length (filter is_head (drop c h)) = keep"
          using nth_from_end_spec [OF Some] by auto
        show ?thesis
        proof (cases "c = ?start \<or> ?start = length h")
          case True
          then show ?thesis using that(1) eq Some by (auto split: if_splits)
        next
          case False
          then have "fold_range t h ?start c sm cz = (r, h', t')" using eq Some by simp
          then show ?thesis
          proof (cases rule: fold_range_cases)
            case 1 then show ?thesis using that(1) by simp
          next
            case (2 s t1 t2)
            then show ?thesis using that(3) [of ?start c s] sp False start by auto
          qed
        qed
      qed
    qed
  qed
qed

section \<open>What every fold promises\<close>

text \<open>A middle part was replaced by one user message, between a system prologue or a user message and a cut point.\<close>

definition folded :: "clm_history \<Rightarrow> errno + nat \<Rightarrow> clm_history \<Rightarrow> bool" where
  "folded h r h' \<longleftrightarrow>
     (\<exists>pre mid post s. h = pre @ mid @ post \<and> h' = pre @ [s] @ post \<and> r = Inr (length mid) \<and> mid \<noteq> []
      \<and> post \<noteq> [] \<and> is_cut_point (hd post) \<and> role s = CLM_ROLE_USER
      \<and> ((\<forall>m \<in> set pre. role m = CLM_ROLE_SYSTEM) \<or> (pre \<noteq> [] \<and> role (last pre) = CLM_ROLE_USER)))"

text \<open>The contract both compactions satisfy, and what their callers rely on.\<close>

locale history_fold =
  fixes fold_op :: "tape \<Rightarrow> clm_history \<Rightarrow> cstr \<Rightarrow> (errno + nat) \<times> clm_history \<times> tape"
  assumes fold_shape: "fold_op t h sm = (r, h', t') \<Longrightarrow>
    (h' = h \<and> (r = Inr 0 \<or> (\<exists>e. r = Inl e))) \<or>
    folded h r h'"
begin

lemma fold_wire_ok:
  assumes "fold_op t h sm = (r, h', t')" "wire_ok h"
  shows "wire_ok h'"
  using fold_shape [OF assms(1)]
proof
  assume "h' = h \<and> (r = Inr 0 \<or> (\<exists>e. r = Inl e))"
  then show ?thesis using assms(2) by simp
next
  assume "folded h r h'"
  then obtain pre mid post s where f: "h = pre @ mid @ post" "h' = pre @ [s] @ post" "post \<noteq> []"
    "is_cut_point (hd post)" "role s = CLM_ROLE_USER"
    "(\<forall>m \<in> set pre. role m = CLM_ROLE_SYSTEM) \<or> (pre \<noteq> [] \<and> role (last pre) = CLM_ROLE_USER)" unfolding folded_def by blast
  have "no_tool_first post" using f(3,4) cut_point_no_tool by (cases post) auto
  moreover have "wire_ok pre"
    using f(6)
  proof
    assume u: "pre \<noteq> [] \<and> role (last pre) = CLM_ROLE_USER"
    then obtain ps u where pu: "pre = ps @ [u]" "role u = CLM_ROLE_USER" by (metis append_butlast_last_id)
    then have "wire_ok (ps @ u # mid @ post)" using assms(2) f(1) by simp
    then have "wire_ok ps" using wire_ok_append [of "u # mid @ post" ps] pu(2) by simp
    then show ?thesis using pu wire_ok_append [of "[u]" ps] wire_ok_user [of u] by simp
  qed (rule systems_wire_ok)
  ultimately show ?thesis using wire_ok_fold [of pre mid post s] assms(2) f by simp
qed

lemma fold_count:
  assumes "fold_op t h sm = (Inr k, h', t')" "k > 0"
  shows "length h' + k = length h + 1"
  using fold_shape [OF assms(1)] assms(2) by (auto simp: folded_def)

lemma fold_no_progress:
  assumes "fold_op t h sm = (r, h', t')" "\<not> (\<exists>k > 0. r = Inr k)"
  shows "h' = h"
  using fold_shape [OF assms(1)] assms(2) by (auto simp: folded_def)

end

lemma last_take_user: "0 < n \<Longrightarrow> n \<le> length h \<Longrightarrow> last (take n h) = h ! (n - 1)"
  by (cases n) (simp_all add: take_Suc_conv_app_nth)

lemma fold_split:
  assumes "a < c" "c < length h" "is_cut_point (h ! c)" "role s = CLM_ROLE_USER"
    "(\<forall>m \<in> set (take a h). role m = CLM_ROLE_SYSTEM) \<or> (a > 0 \<and> role (h ! (a - 1)) = CLM_ROLE_USER)"
  shows "folded h (Inr (c - a)) (take a h @ [s] @ drop c h)"
  unfolding folded_def
proof (intro exI conjI)
  show "h = take a h @ take (c - a) (drop a h) @ drop c h" using assms(1) by (intro split_at_two) simp
  show "take a h @ [s] @ drop c h = take a h @ [s] @ drop c h" by (rule refl)
  show "(\<forall>m \<in> set (take a h). role m = CLM_ROLE_SYSTEM) \<or> (take a h \<noteq> [] \<and> role (last (take a h)) = CLM_ROLE_USER)"
    using assms(1,2,5) by (auto simp: last_take_user)
qed (use assms in \<open>simp_all add: hd_drop_conv_nth\<close>)

interpretation within: history_fold "\<lambda>t h sm. clm_history_compact_within t h (Some sm) kb kt cz" for kb kt cz
proof
  fix t h sm r h' t'
  assume "clm_history_compact_within t h (Some sm) kb kt cz = (r, h', t')"
  then show "(h' = h \<and> (r = Inr 0 \<or> (\<exists>e. r = Inl e))) \<or>
    folded h r h'"
  proof (cases rule: compact_within_cases)
    case (2 c s t1 t2)
    then show ?thesis using fold_split [of "first_nonsys h" c h s] first_nonsys_split [of h]
      by (simp add: cut_at_def)
  qed auto
qed

interpretation turns: history_fold "\<lambda>t h sm. clm_history_compact t h (Some sm) keep cz" for keep cz
proof
  fix t h sm r h' t'
  assume "clm_history_compact t h (Some sm) keep cz = (r, h', t')"
  then show "(h' = h \<and> (r = Inr 0 \<or> (\<exists>e. r = Inl e))) \<or>
    folded h r h'"
  proof (cases rule: compact_cases)
    case (2 c s)
    then show ?thesis using fold_split [of "first_nonsys h" c h s] first_nonsys_split [of h]
      by (simp add: is_cut_point_def)
  next
    case (3 c s start)
    then show ?thesis using fold_split [of start c h s] first_nonsys_split [of h]
      by (auto simp: is_cut_point_def is_head_def)
  qed auto
qed

text \<open>C28 (invariant). Compaction never produces a history a provider rejects: if every tool result followed its call
  and every call had its result, both still hold after either kind of fold, for every summary, budget,
  compressor and pattern of failing allocations.\<close>

theorem compact_keeps_wire_ok:
  assumes "wire_ok h"
  shows "wire_ok (fst (snd (clm_history_compact_within t h (Some sm) kb kt cz)))
    \<and> wire_ok (fst (snd (clm_history_compact t h (Some sm) keep cz)))"
  using within.fold_wire_ok [OF _ assms, of t sm kb kt cz] turns.fold_wire_ok [OF _ assms, of t sm keep cz]
  by (metis prod.collapse)

definition exchange :: "string \<Rightarrow> clm_history" where
  "exchange i = [(blank_message CLM_ROLE_ASSISTANT)\<lparr>tool_calls := [\<lparr>tc_id = Some (lit i), tc_name = Some (lit ''sh''), tc_args = None\<rparr>]\<rparr>,
     (text_message CLM_ROLE_TOOL ''out'')\<lparr>tool_call_id := Some (lit i), tool_name := Some (lit ''sh'')\<rparr>]"

definition agent_run :: clm_history where
  "agent_run = text_message CLM_ROLE_USER ''go'' # exchange ''1'' @ exchange ''2'' @ exchange ''3''"

lemmas wire_eval = wire_ok_def is_head_def tool_result_present_def exchange_def agent_run_def text_message_def blank_message_def

theorem compact_keeps_wire_ok_witness:
  "wire_ok (fst (snd (clm_history_compact_within [] agent_run (Some (lit ''z'')) 200 1 None)))
    \<and> wire_ok (fst (snd (clm_history_compact [] agent_run (Some (lit ''z'')) 1 None)))"
  by (rule compact_keeps_wire_ok) (simp add: wire_eval)

text \<open>(functional). Compaction by turns keeps the last \<^verbatim>\<open>keep_recent\<close> user turns behind the summary; when the history has
  no user boundary to cut at, it keeps the last \<^verbatim>\<open>keep_recent\<close> tool exchanges and everything up to the first user
  message (the mission). Otherwise the history is unchanged.\<close>

theorem compact_shape:
  assumes "clm_history_compact t h (Some sm) keep cz = (r, h', t')"
  shows "if \<exists>k > 0. r = Inr k
    then \<exists>a c s. a < c \<and> c < length h \<and> r = Inr (c - a) \<and> h' = take a h @ [s] @ drop c h \<and> role s = CLM_ROLE_USER
      \<and> (a = first_nonsys h \<and> role (h ! c) = CLM_ROLE_USER \<and> length (filter (\<lambda>m. role m = CLM_ROLE_USER) (drop c h)) = keep
        \<or> is_head (h ! c) \<and> length (filter is_head (drop c h)) = keep
          \<and> (a > 0 \<and> role (h ! (a - 1)) = CLM_ROLE_USER
            \<or> a = first_nonsys h \<and> (\<forall>j < length h. a \<le> j \<longrightarrow> role (h ! j) \<noteq> CLM_ROLE_USER)))
    else h' = h \<and> (r = Inr 0 \<or> r = Inl ENOMEM \<or> keep = 0 \<and> r = Inl EINVAL)"
  using assms
proof (cases rule: compact_cases)
  case 1
  then show ?thesis by auto
next
  case (2 c s)
  then have pos: "\<exists>k > 0. r = Inr k" by simp
  show ?thesis unfolding if_P [OF pos] using 2 by blast
next
  case (3 c s start)
  then have pos: "\<exists>k > 0. r = Inr k" by simp
  show ?thesis unfolding if_P [OF pos] using 3 by blast
qed

lemma agent_run_compact:
  "clm_history_compact [] agent_run (Some (lit ''z'')) 1 None
    = (Inr 4, text_message CLM_ROLE_USER ''go'' # text_message CLM_ROLE_USER ''z'' # exchange ''3'', [])"
  by (simp add: agent_run_def exchange_def compact_eval is_head_def)

theorem compact_shape_witness:
  "if \<exists>k > 0. (Inr 4 :: errno + nat) = Inr k
    then \<exists>a c s. a < c \<and> c < length agent_run \<and> (Inr 4 :: errno + nat) = Inr (c - a)
      \<and> text_message CLM_ROLE_USER ''go'' # text_message CLM_ROLE_USER ''z'' # exchange ''3''
        = take a agent_run @ [s] @ drop c agent_run \<and> role s = CLM_ROLE_USER
      \<and> (a = first_nonsys agent_run \<and> role (agent_run ! c) = CLM_ROLE_USER
          \<and> length (filter (\<lambda>m. role m = CLM_ROLE_USER) (drop c agent_run)) = 1
        \<or> is_head (agent_run ! c) \<and> length (filter is_head (drop c agent_run)) = 1
          \<and> (a > 0 \<and> role (agent_run ! (a - 1)) = CLM_ROLE_USER
            \<or> a = first_nonsys agent_run \<and> (\<forall>j < length agent_run. a \<le> j \<longrightarrow> role (agent_run ! j) \<noteq> CLM_ROLE_USER)))
    else False"
  using compact_shape [OF agent_run_compact] by simp

end
