(* ===== verification/History_Repair.thy ===== *)
theory History_Repair
  imports History_Compact "HOL-Library.Multiset"
begin

text \<open>
  Correctness of the two operations that rewrite a history in place: superseding stale tool results, and the
  repair of a history left in the middle of a tool batch.
\<close>

section \<open>What the wire sees of a message\<close>

definition skeleton :: "clm_message \<Rightarrow> clm_role \<times> cstr option \<times> clm_tool_call list" where
  "skeleton m = (role m, tool_call_id m, tool_calls m)"

lemma skeleton_eqD:
  assumes "skeleton m = skeleton m'"
  shows "role m = role m'" "tool_call_id m = tool_call_id m'" "tool_calls m = tool_calls m'" "is_head m = is_head m'"
  using assms by (simp_all add: skeleton_def is_head_def)

lemma skeleton_takeWhile:
  "map skeleton h = map skeleton h' \<Longrightarrow> map skeleton (takeWhile is_tool h) = map skeleton (takeWhile is_tool h')"
proof (induction h arbitrary: h')
  case (Cons m h)
  then obtain m' hs where h': "h' = m' # hs" "skeleton m = skeleton m'" "map skeleton h = map skeleton hs" by auto
  show ?case using Cons.IH [OF h'(3)] skeleton_eqD(1) [OF h'(2)] h'(1,2) by simp
qed simp

lemma skeleton_present:
  assumes "map skeleton h = map skeleton h'"
  shows "tool_result_present h i = tool_result_present h' i"
proof -
  have *: "list_ex (\<lambda>m. tool_call_id m = i) xs = (i \<in> (fst \<circ> snd) ` set (map skeleton xs))" for xs
    by (force simp: list_ex_iff skeleton_def)
  show ?thesis unfolding tool_result_present_def * skeleton_takeWhile [OF assms] ..
qed

lemma skeleton_wire_ok:
  assumes "map skeleton h = map skeleton h'"
  shows "wire_ok h = wire_ok h'"
proof -
  have "map skeleton h = map skeleton h' \<Longrightarrow> paired ids h = paired ids h' \<and> answered h = answered h'" for ids
  proof (induction h arbitrary: h' ids)
    case (Cons m h)
    then obtain m' hs where h': "h' = m' # hs" "skeleton m = skeleton m'" "map skeleton h = map skeleton hs" by auto
    then show ?case
      using Cons.IH [OF h'(3)] skeleton_eqD [OF h'(2)] skeleton_present [OF h'(3)] by simp
  qed simp
  then show ?thesis using assms by (simp add: wire_ok_def)
qed

section \<open>Superseding\<close>

definition stale :: "cstr \<Rightarrow> cstr \<Rightarrow> clm_message \<Rightarrow> bool" where
  "stale name stub m \<longleftrightarrow> is_tool m \<and> tool_name m = Some name
     \<and> \<not> (\<not> content_compressed m \<and> map_option c_str (content m) = Some stub)"

definition restub :: "cstr \<Rightarrow> clm_message \<Rightarrow> clm_message" where
  "restub stub m = m\<lparr>content := Some stub, content_len := word_of_nat (length stub), content_compressed := False,
     attachments := []\<rparr>"

lemma supersede_walk_step:
  "supersede_walk t name stub (m # ms) n =
     (if \<not> stale name stub m then
        (let (r, ms', t') = supersede_walk t name stub ms n in (r, m # ms', t'))
      else case message_set_content t m (Some stub) None of
          (Inl e, _, t1) \<Rightarrow> (Inl ENOMEM, m # ms, t1)
        | (Inr _, m', t1) \<Rightarrow>
            let (r, ms', t') = supersede_walk t1 name stub ms (n + 1) in (r, drop_attachments m' # ms', t'))"
  by (simp add: stale_def)

lemma supersede_walk_skeleton:
  "supersede_walk t name stub h n = (r, h', t') \<Longrightarrow> map skeleton h' = map skeleton h"
proof (induction h arbitrary: t n r h' t')
  case (Cons m ms)
  obtain rc m' t1 where sc: "message_set_content t m (Some stub) None = (rc, m', t1)" using prod_cases3 by blast
  have "skeleton (drop_attachments m') = skeleton m"
    using set_content_frame sc by (simp add: skeleton_def drop_attachments_def message_set_content_def)
  then show ?case using Cons sc
    by (auto simp: supersede_walk_step Let_def simp del: supersede_walk.simps split: if_splits sum.splits prod.splits)
qed simp

lemma supersede_walk_eq:
  assumes "utf8_text stub" "length stub \<le> 65535" "0 \<notin> set stub"
  shows "supersede_walk [] name stub h n = (Inr (n + length (filter (stale name stub) h)),
     map (\<lambda>m. if stale name stub m then restub stub m else m) h, [])"
proof (induction h arbitrary: n)
  case (Cons m ms)
  have "utf8_subst stub = stub" using assms(1) by (simp add: utf8_bad_iff utf8_subst_id)
  then have "message_set_content [] m (Some stub) None = (Inr (), m\<lparr>content := Some stub,
      content_len := word_of_nat (length stub), content_compressed := False\<rparr>, [])"
    using assms(2,3) by (simp add: message_set_content_def c_str_id store_short)
  then show ?case using Cons.IH
    by (simp add: supersede_walk_step drop_attachments_def restub_def del: supersede_walk.simps)
qed simp

lemma batch_head_skeleton:
  assumes "map skeleton h = map skeleton h'"
  shows "batch_head h = batch_head h'"
proof -
  have len: "length h = length h'" using assms map_eq_imp_length_eq by blast
  have "is_head (h ! j) = is_head (h' ! j)" if "j < length h" for j
    using that assms len by (metis nth_map skeleton_eqD(4))
  then have "find (\<lambda>j. is_head (h ! j)) (rev [0..<length h]) = find (\<lambda>j. is_head (h' ! j)) (rev [0..<length h'])"
    unfolding len by (intro find_cong) auto
  then show ?thesis unfolding batch_head_def len by simp
qed

lemma batch_head_le: "batch_head h \<le> length h"
  by (auto simp: batch_head_def find_Some_iff rev_nth split: option.splits)

text \<open>(functional). Superseding stubs exactly the stale results of the tool that precede the current batch, drops
  their images, counts them, and leaves every other message, and the whole current batch, as it is.\<close>

theorem supersede_exact:
  assumes "utf8_text stub" "length stub \<le> 65535" "0 \<notin> set stub"
  shows "clm_history_supersede_tool [] h (Some name) (Some stub) =
    (Inr (length (filter (stale name stub) (take (batch_head h) h))),
     map (\<lambda>m. if stale name stub m then restub stub m else m) (take (batch_head h) h) @ drop (batch_head h) h, [])"
  using supersede_walk_eq [OF assms] assms(3) by (simp add: clm_history_supersede_tool_def c_str_id Let_def)

lemma utf8_text_stub: "utf8_text (lit ''[old]'')"
  by (rule ascii_text) simp

theorem supersede_exact_witness:
  "clm_history_supersede_tool [] agent_run (Some (lit ''sh'')) (Some (lit ''[old]'')) =
    (Inr (length (filter (stale (lit ''sh'') (lit ''[old]'')) (take (batch_head agent_run) agent_run))),
     map (\<lambda>m. if stale (lit ''sh'') (lit ''[old]'') m then restub (lit ''[old]'') m else m) (take (batch_head agent_run) agent_run)
       @ drop (batch_head agent_run) agent_run, [])"
  by (rule supersede_exact [OF utf8_text_stub]) simp_all

text \<open>(invariant). Superseding, complete or cut short by a failed allocation, never changes which calls and results the
  history has: a valid history stays valid.\<close>

theorem supersede_keeps_wire_ok:
  assumes "wire_ok h"
  shows "wire_ok (fst (snd (clm_history_supersede_tool t h name stub)))"
proof (cases "name = None \<or> stub = None")
  case True
  then show ?thesis using assms by (auto simp: clm_history_supersede_tool_def split: option.splits)
next
  case False
  then obtain n s where ns: "name = Some n" "stub = Some s" by auto
  obtain r h' t' where w: "supersede_walk t n (c_str s) (take (batch_head h) h) 0 = (r, h', t')" using prod_cases3 by blast
  have "map skeleton (h' @ drop (batch_head h) h) = map skeleton h"
    unfolding map_append supersede_walk_skeleton [OF w] by (metis append_take_drop_id map_append)
  then have "wire_ok (h' @ drop (batch_head h) h)" using assms skeleton_wire_ok by metis
  then show ?thesis using w ns by (simp add: clm_history_supersede_tool_def Let_def)
qed

theorem supersede_keeps_wire_ok_witness:
  "wire_ok (fst (snd (clm_history_supersede_tool [True, False] agent_run (Some (lit ''sh'')) (Some (lit ''[old]'')))))"
  by (rule supersede_keeps_wire_ok) (simp add: wire_eval)

section \<open>The repair of dangling calls\<close>

text \<open>A synthetic result: a tool message that says that the result is missing.\<close>

definition synthetic :: "clm_message \<Rightarrow> bool" where
  "synthetic m \<longleftrightarrow> is_tool m \<and> content m = Some missing_text \<and> \<not> content_compressed m \<and> tool_calls m = []"

lemma missing_text_stored: "stored_text t missing_text = missing_text"
proof -
  have u: "utf8_text missing_text" unfolding missing_text_def by (rule ascii_text) simp
  then have "utf8_subst missing_text = missing_text" by (simp add: utf8_bad_iff utf8_subst_id)
  moreover have "length missing_text \<le> 65535" by (simp add: missing_text_def)
  ultimately show ?thesis using stored_text_text(3) [of missing_text t] u by simp
qed

lemma make_synthetic:
  assumes "make_tool_message t i nm (Some missing_text) None = (Some m, t')"
  shows "synthetic m" "tool_call_id m = i"
proof -
  obtain t1 m' where sc: "message_set_content_len t1 ((blank_message CLM_ROLE_TOOL)\<lparr>tool_call_id := i, tool_name := nm\<rparr>)
      (Some missing_text) None = (Inr (), m, t')"
    using assms by (auto simp: make_tool_message_def clm_message_create_def blank_message_def Let_def
      split: prod.splits if_splits sum.splits)
  then show "tool_call_id m = i" using set_content_frame [OF sc] by simp
  have "is_tool m" "tool_calls m = []" using set_content_frame [OF sc] by (simp_all add: blank_message_def)
  moreover have "content m = Some missing_text" "\<not> content_compressed m"
    using sc by (cases rule: set_content_cases; simp add: missing_text_stored try_pack_def)+
  ultimately show "synthetic m" by (simp add: synthetic_def)
qed

lemma tool_result_laterD:
  "tool_result_later ms i = Some (a, r, b) \<Longrightarrow> ms = a @ r # b \<and> is_tool r \<and> tool_call_id r = i \<and> i \<noteq> None"
  by (induction ms arbitrary: a) (auto split: if_splits)

lemma repair_calls_cases [case_names nocalls present late nomem synth]:
  assumes "repair_calls t tcs run ins after n = (r, ins', after', t')"
  obtains "tcs = []" "r = Inr n" "ins' = ins" "after' = after" "t' = t"
  | tc rest where "tcs = tc # rest" "tool_result_present (if run = [] then after else run @ ins @ after) (tc_id tc)"
      "repair_calls t rest run ins after n = (r, ins', after', t')"
  | tc rest a l b where "tcs = tc # rest" "after = a @ l # b" "is_tool l" "tool_call_id l = tc_id tc"
      "repair_calls t rest run (ins @ [l]) (a @ b) (n + 1) = (r, ins', after', t')"
  | e where "r = Inl e" "ins' = ins" "after' = after"
  | tc rest s t1 where "tcs = tc # rest" "synthetic s" "tool_call_id s = tc_id tc"
      "repair_calls t1 rest run (ins @ [s]) after (n + 1) = (r, ins', after', t')"
proof (cases tcs)
  case Nil
  then show thesis using assms that(1) by simp
next
  case (Cons tc rest)
  let ?v = "if run = [] then after else run @ ins @ after"
  show thesis
  proof (cases "tool_result_present ?v (tc_id tc)")
    case True
    then show ?thesis using assms Cons that(2) by simp
  next
    case np: False
    show ?thesis
    proof (cases "tool_result_later after (tc_id tc)")
      case (Some abl)
      then obtain a l b where l: "tool_result_later after (tc_id tc) = Some (a, l, b)" by (cases abl) auto
      then have "repair_calls t rest run (ins @ [l]) (a @ b) (n + 1) = (r, ins', after', t')"
        using assms np unfolding Cons by simp
      then show ?thesis using tool_result_laterD [OF l] Cons that(3) by blast
    next
      case None
      obtain o1 t1 where mk: "make_tool_message t (tc_id tc) (tc_name tc) (Some missing_text) None = (o1, t1)" by fastforce
      show ?thesis
      proof (cases o1)
        case o1: None
        then show ?thesis using assms Cons np None mk that(4) [of ENOMEM] by simp
      next
        case (Some s)
        then show ?thesis using assms Cons np None mk that(5) [of tc rest s t1] make_synthetic [of t] by simp
      qed
    qed
  qed
qed

definition is_result :: "cstr option \<Rightarrow> clm_history \<Rightarrow> bool" where
  "is_result i ms \<longleftrightarrow> i \<in> tool_call_id ` set ms"

lemma present_run:
  assumes "no_tool_first after" "list_all is_tool (run @ ins)"
    "tool_result_present (if run = [] then after else run @ ins @ after) i"
  shows "is_result i (run @ ins)"
proof (cases "run = []")
  case True
  then show ?thesis using assms(1,3) by (cases after) (auto simp: tool_result_present_def)
next
  case False
  have "tool_result_present (run @ ins) i" using False assms(1,3) present_append [of after "run @ ins"] by simp
  moreover have "takeWhile is_tool (run @ ins) = run @ ins"
    unfolding takeWhile_eq_all_conv using assms(2) by (simp add: list_all_iff)
  ultimately show ?thesis by (auto simp: tool_result_present_def is_result_def list_ex_iff)
qed

lemma no_tool_first_remove: "no_tool_first (a @ l # b) \<Longrightarrow> is_tool l \<Longrightarrow> no_tool_first (a @ b)"
  by (cases a) auto

lemma repair_calls_answers:
  assumes "repair_calls t tcs run ins after n = (Inr k, ins', after', t')"
    "no_tool_first after" "list_all is_tool (run @ ins)"
  shows "list_all is_tool ins' \<and> no_tool_first after' \<and> set ins \<subseteq> set ins'
    \<and> (\<forall>tc \<in> set tcs. tc_id tc \<noteq> None \<longrightarrow> is_result (tc_id tc) (run @ ins'))"
  using assms
proof (induction tcs arbitrary: t ins after n)
  case Nil
  then show ?case by simp
next
  case (Cons tc0 tcs)
  from Cons.prems(1) show ?case
  proof (cases rule: repair_calls_cases)
    case (present tc rest)
    then have "is_result (tc_id tc0) (run @ ins)" using present_run [OF Cons.prems(2,3)] by simp
    then show ?thesis using present Cons.IH [of t ins after n] Cons.prems(2,3) by (auto simp: is_result_def)
  next
    case (late tc rest a l b)
    then have "list_all is_tool ins' \<and> no_tool_first after' \<and> set (ins @ [l]) \<subseteq> set ins'
        \<and> (\<forall>tc \<in> set tcs. tc_id tc \<noteq> None \<longrightarrow> is_result (tc_id tc) (run @ ins'))"
      using Cons.IH [of t "ins @ [l]" "a @ b" "n + 1"] Cons.prems(2,3) no_tool_first_remove [of a l b] by simp
    moreover from this have "is_result (tc_id tc0) (run @ ins')" using late(1,4) by (force simp: is_result_def)
    ultimately show ?thesis by simp
  next
    case (synth tc rest s t1)
    then have "list_all is_tool ins' \<and> no_tool_first after' \<and> set (ins @ [s]) \<subseteq> set ins'
        \<and> (\<forall>tc \<in> set tcs. tc_id tc \<noteq> None \<longrightarrow> is_result (tc_id tc) (run @ ins'))"
      using Cons.IH [of t1 "ins @ [s]" after "n + 1"] Cons.prems(2,3) by (simp add: synthetic_def)
    moreover from this have "is_result (tc_id tc0) (run @ ins')" using synth(1,3) by (force simp: is_result_def)
    ultimately show ?thesis by simp
  qed simp_all
qed

lemma repair_calls_first:
  "repair_calls t tcs run ins after n = (r, ins', after', t') \<Longrightarrow> no_tool_first after \<Longrightarrow> no_tool_first after'"
proof (induction tcs arbitrary: t ins after n)
  case (Cons tc0 tcs)
  from Cons.prems(1) show ?case
    by (cases rule: repair_calls_cases) (use Cons no_tool_first_remove in \<open>blast+\<close>)
qed simp

lemma repair_calls_keeps:
  assumes "repair_calls t tcs run ins after n = (r, ins', after', t')"
  shows "(\<exists>S. mset ins' + mset after' = mset ins + mset after + S \<and> (\<forall>m \<in># S. synthetic m))
    \<and> filter (\<lambda>m. \<not> is_tool m) after' = filter (\<lambda>m. \<not> is_tool m) after
    \<and> (list_all is_tool ins \<longrightarrow> list_all is_tool ins')"
  using assms
proof (induction tcs arbitrary: t ins after n)
  case Nil
  then show ?case by auto
next
  case (Cons tc0 tcs)
  from Cons.prems show ?case
  proof (cases rule: repair_calls_cases)
    case (present tc rest)
    then show ?thesis using Cons.IH [of t ins after n] by simp
  next
    case (late tc rest a l b)
    then show ?thesis using Cons.IH [of t "ins @ [l]" "a @ b" "n + 1"] by simp
  next
    case (nomem e)
    then show ?thesis by auto
  next
    case (synth tc rest s t1)
    then have "(\<exists>S. mset ins' + mset after' = mset (ins @ [s]) + mset after + S \<and> (\<forall>m \<in># S. synthetic m))
        \<and> filter (\<lambda>m. \<not> is_tool m) after' = filter (\<lambda>m. \<not> is_tool m) after
        \<and> (list_all is_tool (ins @ [s]) \<longrightarrow> list_all is_tool ins')"
      using Cons.IH [of t1 "ins @ [s]" after "n + 1"] by simp
    then obtain S where S: "mset ins' + mset after' = mset ins + mset after + add_mset s S" "\<forall>m \<in># S. synthetic m"
      and rest: "filter (\<lambda>m. \<not> is_tool m) after' = filter (\<lambda>m. \<not> is_tool m) after"
        "list_all is_tool (ins @ [s]) \<longrightarrow> list_all is_tool ins'" by auto
    have "\<forall>m \<in># add_mset s S. synthetic m" using S(2) synth(2) by simp
    then show ?thesis using S(1) rest synth(2) unfolding synthetic_def by auto
  qed simp
qed

text \<open>One step of the loop over the history.\<close>

lemma repair_from_cases [case_names empty skip nomem head]:
  assumes "repair_from t h n = (r, h', t')"
  obtains "h = []" "r = Inr n" "h' = []" "t' = t"
  | m rest hs where "h = m # rest" "\<not> is_head m" "repair_from t rest n = (r, hs, t')" "h' = m # hs"
  | m rest e ins after t1 where "h = m # rest" "is_head m" "r = Inl e"
      "repair_calls t (tool_calls m) (takeWhile is_tool rest) [] (dropWhile is_tool rest) n = (Inl e, ins, after, t1)"
      "h' = m # takeWhile is_tool rest @ ins @ after"
  | m rest k ins after t1 hs where "h = m # rest" "is_head m"
      "repair_calls t (tool_calls m) (takeWhile is_tool rest) [] (dropWhile is_tool rest) n = (Inr k, ins, after, t1)"
      "repair_from t1 after k = (r, hs, t')" "h' = m # takeWhile is_tool rest @ ins @ hs"
proof (cases h)
  case Nil
  then show thesis using assms that(1) by simp
next
  case (Cons m rest)
  show thesis
  proof (cases "is_head m")
    case False
    then show ?thesis using assms Cons that(2) by (auto split: prod.splits)
  next
    case True
    obtain r1 ins after t1 where rc: "repair_calls t (tool_calls m) (takeWhile is_tool rest) []
        (dropWhile is_tool rest) n = (r1, ins, after, t1)" using prod_cases4 by blast
    show ?thesis
    proof (cases r1)
      case (Inl e)
      then show ?thesis using assms Cons True rc that(3) by auto
    next
      case (Inr k)
      obtain r2 hs t2 where "repair_from t1 after k = (r2, hs, t2)" using prod_cases3 by blast
      then show ?thesis using assms Cons True rc Inr that(4) by auto
    qed
  qed
qed

lemma no_tool_first_dropWhile [simp]: "no_tool_first (dropWhile is_tool h)"
  by (induction h) auto

lemma all_takeWhile_tool [simp]: "list_all is_tool (takeWhile is_tool h)"
  by (auto simp: list_all_iff dest: set_takeWhileD)

lemma repair_from_first: "repair_from t h n = (r, h', t') \<Longrightarrow> no_tool_first h \<Longrightarrow> no_tool_first h'"
  by (erule repair_from_cases) auto

lemma answered_tools: "list_all is_tool xs \<Longrightarrow> answered xs"
  by (induction xs) (auto simp: is_head_def)

lemma present_tools: "list_all is_tool xs \<Longrightarrow> tool_result_present xs i \<longleftrightarrow> i \<noteq> None \<and> is_result i xs"
proof -
  assume "list_all is_tool xs"
  then have "takeWhile is_tool xs = xs" unfolding takeWhile_eq_all_conv by (simp add: list_all_iff)
  then show ?thesis unfolding tool_result_present_def by (auto simp only: is_result_def list_ex_iff)
qed

lemma repair_from_answered: "repair_from t h n = (Inr k, h', t') \<Longrightarrow> answered h'"
proof (induction h arbitrary: t n h' rule: length_induct)
  case (1 h)
  from "1.prems" show ?case
  proof (cases rule: repair_from_cases)
    case (skip m rest hs)
    then have "answered hs" using "1.IH" [rule_format, of rest] by fastforce
    then show ?thesis using skip(2,4) by simp
  next
    case (head m rest k' ins after t1 hs)
    let ?run = "takeWhile is_tool rest"
    have rc: "list_all is_tool ins" "no_tool_first after"
      "\<forall>tc \<in> set (tool_calls m). tc_id tc \<noteq> None \<longrightarrow> is_result (tc_id tc) (?run @ ins)"
      using repair_calls_answers [OF head(3)] by simp_all
    have "length after < length h"
      using repair_calls_length [OF head(3)] length_dropWhile_le [of is_tool rest] head(1) by simp
    then have hs: "answered hs" using "1.IH" head(4) by blast
    have first: "no_tool_first hs" using repair_from_first [OF head(4) rc(2)] .
    have tools: "list_all is_tool (?run @ ins)" using rc(1) by simp
    have "answered ((?run @ ins) @ hs)" using answered_append [OF first] answered_tools [OF tools] hs by blast
    moreover have "tool_result_present ((?run @ ins) @ hs) (tc_id tc)" if "tc \<in> set (tool_calls m)" "tc_id tc \<noteq> None" for tc
      using rc(3) that present_append [OF first] present_tools [OF tools] by blast
    ultimately show ?thesis using head(5) by (simp add: list_all_iff)
  qed simp_all
qed

lemma repair_from_keeps:
  "repair_from t h n = (r, h', t') \<Longrightarrow> (\<exists>S. mset h' = mset h + S \<and> (\<forall>m \<in># S. synthetic m))
    \<and> filter (\<lambda>m. \<not> is_tool m) h' = filter (\<lambda>m. \<not> is_tool m) h"
proof (induction h arbitrary: t n r h' rule: length_induct)
  case (1 h)
  have run: "filter (\<lambda>m. \<not> is_tool m) xs = []" if "list_all is_tool xs" for xs
    using that by (simp add: filter_empty_conv list_all_iff)
  have split: "mset rest = mset (takeWhile is_tool rest) + mset (dropWhile is_tool rest)"
    "filter (\<lambda>m. \<not> is_tool m) rest = filter (\<lambda>m. \<not> is_tool m) (dropWhile is_tool rest)" for rest
    by (metis mset_append takeWhile_dropWhile_id, metis (no_types, lifting) append.left_neutral all_takeWhile_tool filter_append run takeWhile_dropWhile_id)
  from "1.prems" show ?case
  proof (cases rule: repair_from_cases)
    case (skip m rest hs)
    then show ?thesis using "1.IH" by simp
  next
    case (nomem m rest e ins after t1)
    obtain S where "mset ins + mset after = mset (dropWhile is_tool rest) + S" "\<forall>m \<in># S. synthetic m"
      "filter (\<lambda>m. \<not> is_tool m) after = filter (\<lambda>m. \<not> is_tool m) (dropWhile is_tool rest)" "list_all is_tool ins"
      using repair_calls_keeps [OF nomem(4)] by auto
    then show ?thesis using nomem(1,5) split [of rest] run by auto
  next
    case (head m rest k' ins after t1 hs)
    obtain S where S: "mset ins + mset after = mset (dropWhile is_tool rest) + S" "\<forall>m \<in># S. synthetic m"
      "filter (\<lambda>m. \<not> is_tool m) after = filter (\<lambda>m. \<not> is_tool m) (dropWhile is_tool rest)" "list_all is_tool ins"
      using repair_calls_keeps [OF head(3)] by auto
    have "length after < length h"
      using repair_calls_length [OF head(3)] length_dropWhile_le [of is_tool rest] head(1) by simp
    then obtain S' where S': "mset hs = mset after + S'" "\<forall>m \<in># S'. synthetic m"
      "filter (\<lambda>m. \<not> is_tool m) hs = filter (\<lambda>m. \<not> is_tool m) after"
      using "1.IH" head(4) by blast
    have "mset h' = mset h + (S + S')" using head(1,5) S(1) S'(1) split(1) [of rest] by simp
    moreover have "\<forall>m \<in># S + S'. synthetic m" using S(2) S'(2) by auto
    ultimately show ?thesis using head(1,5) S(3,4) S'(3) split(2) [of rest] run by auto
  qed simp_all
qed

lemma paired_remove: "paired ids (a @ l # b) \<Longrightarrow> is_tool l \<Longrightarrow> paired ids (a @ b)"
  by (induction a arbitrary: ids) (auto split: if_splits)

lemma repair_calls_paired:
  assumes "repair_calls t tcs run ins after n = (r, ins', after', t')" "set tcs \<subseteq> T"
    "paired [] after" "tool_call_id ` set ins \<subseteq> tc_id ` T"
  shows "paired [] after' \<and> tool_call_id ` set ins' \<subseteq> tc_id ` T"
  using assms
proof (induction tcs arbitrary: t ins after n)
  case (Cons tc0 tcs)
  from Cons.prems(1) show ?case
  proof (cases rule: repair_calls_cases)
    case (present tc rest)
    then show ?thesis using Cons.IH [of t ins after n] Cons.prems(2,3,4) by auto
  next
    case (late tc rest a l b)
    then have "paired [] (a @ b)" using Cons.prems(3) paired_remove by blast
    then show ?thesis using late Cons.IH [of t "ins @ [l]" "a @ b" "n + 1"] Cons.prems(2,4) by auto
  next
    case (nomem e)
    then show ?thesis using Cons.prems by simp
  next
    case (synth tc rest s t1)
    then show ?thesis using Cons.IH [of t1 "ins @ [s]" after "n + 1"] Cons.prems(2,3,4) by auto
  qed simp
qed simp

lemma paired_run: "list_all is_tool xs \<Longrightarrow> paired ids xs \<longleftrightarrow> tool_call_id ` set xs \<subseteq> set ids"
  by (induction xs) auto

lemma repair_from_paired: "repair_from t h n = (r, h', t') \<Longrightarrow> paired ids h \<Longrightarrow> paired ids h'"
proof (induction h arbitrary: t n r h' ids rule: length_induct)
  case (1 h)
  have head_paired: "paired ids (m # takeWhile is_tool rest @ ins @ hs)"
    if "paired ids (m # rest)" "is_head m" "list_all is_tool ins" "no_tool_first hs" "paired [] hs"
      "tool_call_id ` set ins \<subseteq> tc_id ` set (tool_calls m)" for m rest ins hs
  proof -
    let ?ids = "map tc_id (tool_calls m)" and ?run = "takeWhile is_tool rest"
    have m: "\<not> is_tool m" using that(2) by (simp add: is_head_def)
    have "paired ?ids (?run @ dropWhile is_tool rest)" using that(1,2) m by simp
    then have "paired ?ids ?run" by (simp only: paired_append no_tool_first_dropWhile)
    then have "paired ?ids (?run @ ins)" using that(3,6) by (simp add: paired_run image_Un)
    then have "paired ?ids ((?run @ ins) @ hs)" using that(4,5) by (simp only: paired_append)
    then show ?thesis using that(2) m by simp
  qed
  have rest_paired: "paired [] (dropWhile is_tool rest)" if "paired ids (m # rest)" "is_head m" for m rest
  proof -
    have "paired (map tc_id (tool_calls m)) (takeWhile is_tool rest @ dropWhile is_tool rest)"
      using that by (simp add: is_head_def)
    then show ?thesis by (simp only: paired_append no_tool_first_dropWhile)
  qed
  from "1.prems"(1) show ?case
  proof (cases rule: repair_from_cases)
    case (skip m rest hs)
    then show ?thesis using "1.IH" [rule_format, of rest t n r hs] "1.prems"(2) by (auto split: if_splits)
  next
    case (nomem m rest e ins after t1)
    have P: "paired ids (m # rest)" using "1.prems"(2) nomem(1) by blast
    have tools: "list_all is_tool ins" using repair_calls_keeps [OF nomem(4)] by simp
    have first: "no_tool_first after" using repair_calls_first [OF nomem(4)] by simp
    have "paired [] after \<and> tool_call_id ` set ins \<subseteq> tc_id ` set (tool_calls m)"
      using repair_calls_paired [OF nomem(4) order_refl rest_paired [OF P nomem(2)]] by simp
    then show ?thesis unfolding nomem(5) using head_paired [OF P nomem(2) tools first] by blast
  next
    case (head m rest k' ins after t1 hs)
    have rc: "list_all is_tool ins" "no_tool_first after" using repair_calls_answers [OF head(3)] by simp_all
    have P: "paired ids (m # rest)" using "1.prems"(2) head(1) by blast
    have pc: "paired [] after \<and> tool_call_id ` set ins \<subseteq> tc_id ` set (tool_calls m)"
      using repair_calls_paired [OF head(3) order_refl rest_paired [OF P head(2)]] by simp
    have "length after < length h"
      using repair_calls_length [OF head(3)] length_dropWhile_le [of is_tool rest] head(1) by simp
    then have "paired [] hs" using "1.IH" head(4) pc by blast
    then show ?thesis unfolding head(5)
      using head_paired [OF P head(2) rc(1) repair_from_first [OF head(4) rc(2)]] pc by blast
  qed (use "1.prems" in simp_all)
qed

lemma repair_calls_noop:
  assumes "\<forall>tc \<in> set tcs. tool_result_present (if run = [] then after else run @ ins @ after) (tc_id tc)"
  shows "repair_calls t tcs run ins after n = (Inr n, ins, after, t)"
  using assms by (induction tcs) auto

lemma repair_from_noop:
  assumes "answered h" "\<forall>m \<in> set h. \<forall>tc \<in> set (tool_calls m). tc_id tc \<noteq> None"
  shows "repair_from t h n = (Inr n, h, t)"
  using assms
proof (induction h rule: length_induct)
  case (1 h)
  show ?case
  proof (cases h)
    case (Cons m rest)
    let ?run = "takeWhile is_tool rest" and ?after = "dropWhile is_tool rest"
    have IH: "repair_from t xs n = (Inr n, xs, t)" if "length xs < length h" "answered xs" "set xs \<subseteq> set h" for xs
      using "1.IH" that "1.prems"(2) by blast
    show ?thesis
    proof (cases "is_head m")
      case False
      have "repair_from t rest n = (Inr n, rest, t)" by (rule IH) (use Cons "1.prems"(1) in auto)
      then show ?thesis using Cons False by simp
    next
      case True
      have pr: "tool_result_present rest (tc_id tc)" if "tc \<in> set (tool_calls m)" for tc
        using "1.prems" that True Cons by (auto simp: list_all_iff)
      moreover have "?run \<noteq> []"
        using pr [of "hd (tool_calls m)"] True by (auto simp: is_head_def tool_result_present_def)
      ultimately have "repair_calls t (tool_calls m) ?run [] ?after n = (Inr n, [], ?after, t)"
        by (intro repair_calls_noop) simp
      moreover have "repair_from t ?after n = (Inr n, ?after, t)"
      proof (rule IH)
        show "length ?after < length h" using Cons by (simp add: le_imp_less_Suc length_dropWhile_le)
        have "answered (?run @ ?after)" using "1.prems"(1) Cons by simp
        then show "answered ?after" by (simp only: answered_append no_tool_first_dropWhile)
        show "set ?after \<subseteq> set h" using Cons by (auto dest: set_dropWhileD)
      qed
      ultimately show ?thesis using Cons True by simp
    qed
  qed simp
qed

text \<open>C27 (functional). After a successful repair every call with an id has its result in the run of tool messages right
  behind it, and if no tool result was orphaned before, none is after: the history is one a provider accepts.\<close>

theorem repair_makes_wire_ok:
  assumes "clm_history_repair_dangling_tool_calls t h = (Inr n, h', t')"
  shows "answered h' \<and> (paired [] h \<longrightarrow> wire_ok h')"
  using assms repair_from_answered repair_from_paired
  unfolding clm_history_repair_dangling_tool_calls_def wire_ok_def by blast

text \<open>A call without its result, a call whose result came late, and a result in place.\<close>

definition dangling :: clm_history where
  "dangling = [text_message CLM_ROLE_USER ''go'', hd (exchange ''1''), text_message CLM_ROLE_USER ''hm'',
     (text_message CLM_ROLE_TOOL ''out'')\<lparr>tool_call_id := Some (lit ''1'')\<rparr>, hd (exchange ''2'')]"

definition synth_message :: "string \<Rightarrow> clm_message" where
  "synth_message i = (blank_message CLM_ROLE_TOOL)\<lparr>content := Some missing_text, content_len := word_of_nat (length missing_text),
     tool_call_id := Some (lit i), tool_name := Some (lit ''sh'')\<rparr>"

lemma make_missing:
  "make_tool_message [] i nm (Some missing_text) None = (Some ((blank_message CLM_ROLE_TOOL)\<lparr>content := Some missing_text,
     content_len := word_of_nat (length missing_text), tool_call_id := i, tool_name := nm\<rparr>), [])"
proof -
  have "utf8_text missing_text" unfolding missing_text_def by (rule ascii_text) simp
  then have "utf8_subst missing_text = missing_text" by (simp add: utf8_bad_iff utf8_subst_id)
  moreover have "length missing_text \<le> 65535" by (simp add: missing_text_def)
  ultimately have "message_set_content_len [] m (Some missing_text) None = (Inr (), m\<lparr>content := Some missing_text,
      content_len := word_of_nat (length missing_text), content_compressed := False\<rparr>, [])" for m
    using store_short [of missing_text m] by simp
  then show ?thesis
    by (simp add: make_tool_message_def clm_message_create_def opt_strdup_def blank_message_def Let_def split: option.splits)
qed

lemmas repair_eval = clm_history_repair_dangling_tool_calls_def make_missing synth_message_def wire_eval

lemma dangling_repaired:
  "clm_history_repair_dangling_tool_calls [] dangling =
    (Inr 2, [text_message CLM_ROLE_USER ''go'', hd (exchange ''1''),
       (text_message CLM_ROLE_TOOL ''out'')\<lparr>tool_call_id := Some (lit ''1'')\<rparr>, text_message CLM_ROLE_USER ''hm'',
       hd (exchange ''2''), synth_message ''2''], [])"
  by (simp add: dangling_def repair_eval)

theorem repair_makes_wire_ok_witness:
  "answered [text_message CLM_ROLE_USER ''go'', hd (exchange ''1''),
       (text_message CLM_ROLE_TOOL ''out'')\<lparr>tool_call_id := Some (lit ''1'')\<rparr>, text_message CLM_ROLE_USER ''hm'',
       hd (exchange ''2''), synth_message ''2'']"
  using repair_makes_wire_ok [OF dangling_repaired] by blast

text \<open>(safety). Repair loses nothing, also when it runs out of memory half way: every message is still there once, what was
  added are only results that say they are missing, and everything but tool results keeps its order.\<close>

theorem repair_loses_nothing:
  assumes "clm_history_repair_dangling_tool_calls t h = (r, h', t')"
  shows "\<exists>S. mset h' = mset h + S \<and> (\<forall>m \<in># S. synthetic m)
    \<and> filter (\<lambda>m. \<not> is_tool m) h' = filter (\<lambda>m. \<not> is_tool m) h"
  using repair_from_keeps assms unfolding clm_history_repair_dangling_tool_calls_def by blast

theorem repair_loses_nothing_witness:
  "\<exists>S. mset [text_message CLM_ROLE_USER ''go'', hd (exchange ''1''),
       (text_message CLM_ROLE_TOOL ''out'')\<lparr>tool_call_id := Some (lit ''1'')\<rparr>, text_message CLM_ROLE_USER ''hm'',
       hd (exchange ''2''), synth_message ''2''] = mset dangling + S \<and> (\<forall>m \<in># S. synthetic m)"
  using repair_loses_nothing [OF dangling_repaired] by blast

text \<open>(functional). A history in which every call is answered is left alone: repair returns 0 and allocates nothing.\<close>

theorem repair_noop:
  assumes "answered h" "\<forall>m \<in> set h. \<forall>tc \<in> set (tool_calls m). tc_id tc \<noteq> None"
  shows "clm_history_repair_dangling_tool_calls t h = (Inr 0, h, t)"
  using repair_from_noop [OF assms] unfolding clm_history_repair_dangling_tool_calls_def .

theorem repair_noop_witness:
  "clm_history_repair_dangling_tool_calls [False] agent_run = (Inr 0, agent_run, [False])"
  by (rule repair_noop) (simp_all add: wire_eval)

text \<open>(error). The late result is looked up by id alone: when a call id is used again in a later exchange, the repair of the
  first call takes the result away from the second, which is then reported as missing although it had finished.\<close>

theorem repair_takes_result_of_reused_id:
  "clm_history_repair_dangling_tool_calls []
     [hd (exchange ''1''), text_message CLM_ROLE_USER ''hm'', hd (exchange ''1''), exchange ''1'' ! 1]
   = (Inr 2, [hd (exchange ''1''), exchange ''1'' ! 1, text_message CLM_ROLE_USER ''hm'', hd (exchange ''1''), synth_message ''1''], [])"
  by (simp add: repair_eval)

end
