(* ===== verification/Cjson.thy ===== *)
theory Cjson
  imports Clm_Prelude
begin

text \<open>
  The cJSON library is a dependency of the program, not part of it. Its functions are a record of
  operations the models take as an argument; the laws the program relies on, which cJSON documents, are
  the locale \<open>cjson_laws\<close>. Plain JSON trees satisfy them. Every \<^verbatim>\<open>cJSON_Create\<close> call can fail to
  allocate, which consumes one outcome of the tape.
\<close>

section \<open>The operations\<close>

record 'j cjson_api =
  cj_object :: 'j
  cj_array :: 'j
  cj_null :: 'j
  cj_string :: "cstr \<Rightarrow> 'j"
  cj_add :: "'j \<Rightarrow> cstr \<Rightarrow> 'j \<Rightarrow> 'j"
  cj_push :: "'j \<Rightarrow> 'j \<Rightarrow> 'j"
  cj_delete :: "'j \<Rightarrow> cstr \<Rightarrow> 'j"
  cj_get :: "'j \<Rightarrow> cstr \<Rightarrow> 'j option"
  cj_items :: "'j \<Rightarrow> 'j list"
  cj_string_value :: "'j \<Rightarrow> cstr option"
  cj_is_object :: "'j \<Rightarrow> bool"
  cj_is_array :: "'j \<Rightarrow> bool"
  cj_is_string :: "'j \<Rightarrow> bool"
  cj_get_ci :: "'j \<Rightarrow> cstr \<Rightarrow> 'j option"
  cj_put :: "'j \<Rightarrow> cstr \<Rightarrow> 'j \<Rightarrow> 'j"
  cj_is_number :: "'j \<Rightarrow> bool"
  cj_trunc :: "'j \<Rightarrow> int"
  cj_parse :: "cstr \<Rightarrow> 'j option"
  cj_print :: "'j \<Rightarrow> cstr option"

text \<open>
  \<open>cj_get_ci\<close> is the lookup that ignores case. \<open>cj_put\<close> is the object after its item under a key was changed in
  place, through a pointer to that item. \<open>cj_trunc\<close> is the value of a number without its fraction, what a C
  conversion to an integer type starts from.
\<close>

text \<open>\<^verbatim>\<open>cJSON_Create...\<close>: a new item, or NULL.\<close>

definition cj_create :: "tape \<Rightarrow> 'j \<Rightarrow> 'j option \<times> tape" where
  "cj_create t j = (let (ok, t') = alloc t in (if ok then Some j else None, t'))"

text \<open>\<^verbatim>\<open>cJSON_AddStringToObject\<close>: the object with the string added, or NULL.\<close>

definition cj_add_string :: "'j cjson_api \<Rightarrow> tape \<Rightarrow> 'j \<Rightarrow> cstr \<Rightarrow> cstr \<Rightarrow> 'j option \<times> tape" where
  "cj_add_string J t ob k s = cj_create t (cj_add J ob k (cj_string J (c_str s)))"

text \<open>\<^verbatim>\<open>cJSON_AddItemToObject(obj, key, item)\<close> with an item that may be NULL, which adds nothing.\<close>

definition cj_add_opt :: "'j cjson_api \<Rightarrow> 'j \<Rightarrow> cstr \<Rightarrow> 'j option \<Rightarrow> 'j" where
  "cj_add_opt J ob k v = (case v of None \<Rightarrow> ob | Some x \<Rightarrow> cj_add J ob k x)"

text \<open>\<^verbatim>\<open>cJSON_GetStringValue(cJSON_GetObjectItemCaseSensitive(obj, key))\<close>\<close>

definition cj_get_string :: "'j cjson_api \<Rightarrow> 'j \<Rightarrow> cstr \<Rightarrow> cstr option" where
  "cj_get_string J ob k = Option.bind (cj_get J ob k) (cj_string_value J)"

section \<open>The laws\<close>

locale cjson_laws =
  fixes J :: "'j cjson_api"
  assumes get_empty: "cj_get J (cj_object J) k = None"
    and get_add_same: "cj_is_object J ob \<Longrightarrow> cj_get J ob k = None \<Longrightarrow> cj_get J (cj_add J ob k v) k = Some v"
    and get_add_other: "cj_is_object J ob \<Longrightarrow> k \<noteq> k' \<Longrightarrow> cj_get J (cj_add J ob k v) k' = cj_get J ob k'"
    and delete_none: "cj_is_object J ob \<Longrightarrow> cj_get J ob k = None \<Longrightarrow> cj_delete J ob k = ob"
    and delete_add: "cj_is_object J ob \<Longrightarrow> cj_get J ob k = None \<Longrightarrow> cj_delete J (cj_add J ob k v) k = ob"
    and get_delete_other: "cj_is_object J ob \<Longrightarrow> k \<noteq> k' \<Longrightarrow> cj_get J (cj_delete J ob k) k' = cj_get J ob k'"
    and is_object_delete: "cj_is_object J (cj_delete J ob k) = cj_is_object J ob"
    and is_object_empty: "cj_is_object J (cj_object J)"
    and is_object_add: "cj_is_object J (cj_add J ob k v) = cj_is_object J ob"
    and is_array_empty: "cj_is_array J (cj_array J)"
    and is_array_push: "cj_is_array J (cj_push J a x) = cj_is_array J a"
    and items_empty: "cj_items J (cj_array J) = []"
    and items_push: "cj_is_array J a \<Longrightarrow> cj_items J (cj_push J a x) = cj_items J a @ [x]"
    and string_value: "cj_string_value J (cj_string J s) = Some s"
    and is_string_string: "cj_is_string J (cj_string J s)"
    and get_put_same: "cj_get J ob k \<noteq> None \<Longrightarrow> cj_get J (cj_put J ob k v) k = Some v"
    and get_put_other: "k \<noteq> k' \<Longrightarrow> cj_get J (cj_put J ob k v) k' = cj_get J ob k'"
    and is_object_put: "cj_is_object J (cj_put J ob k v) = cj_is_object J ob"
    and get_object: "cj_get J ob k \<noteq> None \<Longrightarrow> cj_is_object J ob"
    and get_ci: "cj_get J ob k \<noteq> None \<Longrightarrow> cj_get_ci J ob k \<noteq> None"
    and get_ci_object: "cj_get_ci J ob k \<noteq> None \<Longrightarrow> cj_is_object J ob"
begin

lemmas object_laws = get_empty get_add_same get_add_other is_object_empty is_object_add

lemmas array_laws = is_array_empty is_array_push items_empty items_push

lemma items_foldl: "cj_is_array J a \<Longrightarrow> cj_items J (foldl (cj_push J) a xs) = cj_items J a @ xs"
  by (induction xs arbitrary: a) (simp_all add: array_laws)

lemma is_array_foldl: "cj_is_array J (foldl (cj_push J) a xs) = cj_is_array J a"
  by (induction xs arbitrary: a) (simp_all add: array_laws)

lemma add_string_ok: "cj_add_string J [] ob k s = (Some (cj_add J ob k (cj_string J (c_str s))), [])"
  by (simp add: cj_add_string_def cj_create_def)

end

section \<open>JSON trees satisfy the laws\<close>

datatype json = JNull | JNumber int | JString cstr | JArray "json list" | JObject "(cstr \<times> json) list"

definition to_lower :: "byte \<Rightarrow> byte" where
  "to_lower b = (if 0x41 \<le> b \<and> b \<le> 0x5A then b + 0x20 else b)"

fun put_first :: "cstr \<Rightarrow> json \<Rightarrow> (cstr \<times> json) list \<Rightarrow> (cstr \<times> json) list" where
  "put_first k v [] = []"
| "put_first k v ((k', w) # kvs) = (if k' = k then (k, v) # kvs else (k', w) # put_first k v kvs)"

lemma map_of_put_first:
  "map_of (put_first k v kvs) k' = (if k' = k \<and> map_of kvs k \<noteq> None then Some v else map_of kvs k')"
  by (induction k v kvs rule: put_first.induct) auto

lemma map_of_ci: "map_of kvs k \<noteq> None \<Longrightarrow> map_of (map (\<lambda>(k, v). (map to_lower k, v)) kvs) (map to_lower k) \<noteq> None"
  by (induction kvs) (auto split: if_splits)

text \<open>The trees come without a parser and a printer: no law is about them.\<close>

definition json_api :: "json cjson_api" where
  "json_api = \<lparr>cj_object = JObject [], cj_array = JArray [], cj_null = JNull, cj_string = JString,
     cj_add = (\<lambda>ob k v. case ob of JObject kvs \<Rightarrow> JObject (kvs @ [(k, v)]) | j \<Rightarrow> j),
     cj_push = (\<lambda>a x. case a of JArray xs \<Rightarrow> JArray (xs @ [x]) | j \<Rightarrow> j),
     cj_delete = (\<lambda>ob k. case ob of
        JObject kvs \<Rightarrow> JObject (takeWhile (\<lambda>kv. fst kv \<noteq> k) kvs @ drop 1 (dropWhile (\<lambda>kv. fst kv \<noteq> k) kvs)) | j \<Rightarrow> j),
     cj_get = (\<lambda>ob k. case ob of JObject kvs \<Rightarrow> map_of kvs k | _ \<Rightarrow> None),
     cj_items = (\<lambda>a. case a of JArray xs \<Rightarrow> xs | _ \<Rightarrow> []),
     cj_string_value = (\<lambda>j. case j of JString s \<Rightarrow> Some s | _ \<Rightarrow> None),
     cj_is_object = (\<lambda>j. case j of JObject _ \<Rightarrow> True | _ \<Rightarrow> False),
     cj_is_array = (\<lambda>j. case j of JArray _ \<Rightarrow> True | _ \<Rightarrow> False),
     cj_is_string = (\<lambda>j. case j of JString _ \<Rightarrow> True | _ \<Rightarrow> False),
     cj_get_ci = (\<lambda>ob k. case ob of JObject kvs \<Rightarrow> map_of (map (\<lambda>(k, v). (map to_lower k, v)) kvs) (map to_lower k) | _ \<Rightarrow> None),
     cj_put = (\<lambda>ob k v. case ob of JObject kvs \<Rightarrow> JObject (put_first k v kvs) | j \<Rightarrow> j),
     cj_is_number = (\<lambda>j. case j of JNumber _ \<Rightarrow> True | _ \<Rightarrow> False),
     cj_trunc = (\<lambda>j. case j of JNumber n \<Rightarrow> n | _ \<Rightarrow> 0),
     cj_parse = (\<lambda>s. None), cj_print = (\<lambda>j. None)\<rparr>"

lemma map_of_append_absent: "map_of kvs k = None \<Longrightarrow> map_of (kvs @ [(k, v)]) k = Some v"
  by (simp add: map_add_def)

lemma delete_absent: "map_of kvs k = None \<Longrightarrow>
  takeWhile (\<lambda>kv. fst kv \<noteq> k) (kvs @ xs) = kvs @ takeWhile (\<lambda>kv. fst kv \<noteq> k) xs
  \<and> dropWhile (\<lambda>kv. fst kv \<noteq> k) (kvs @ xs) = dropWhile (\<lambda>kv. fst kv \<noteq> k) xs"
  by (induction kvs) (auto split: if_splits)

lemma map_of_delete_other: "k \<noteq> k' \<Longrightarrow>
  map_of (takeWhile (\<lambda>kv. fst kv \<noteq> k) kvs @ drop (Suc 0) (dropWhile (\<lambda>kv. fst kv \<noteq> k) kvs)) k' = map_of kvs k'"
  by (induction kvs) auto

interpretation json: cjson_laws json_api
proof
  show "cj_is_object json_api ob \<Longrightarrow> cj_get json_api ob k = None \<Longrightarrow>
      cj_get json_api (cj_add json_api ob k v) k = Some v" for ob k v
    by (cases ob) (auto simp: json_api_def map_add_def)
  show "cj_is_object json_api ob \<Longrightarrow> k \<noteq> k' \<Longrightarrow> cj_get json_api (cj_add json_api ob k v) k' = cj_get json_api ob k'"
    for ob k k' v by (cases ob) (auto simp: json_api_def map_add_def split: option.splits)
  show "cj_is_object json_api ob \<Longrightarrow> cj_get json_api ob k = None \<Longrightarrow> cj_delete json_api ob k = ob" for ob k
  proof (cases ob)
    case (JObject kvs)
    assume "cj_get json_api ob k = None"
    then have "takeWhile (\<lambda>kv. fst kv \<noteq> k) kvs = kvs" "dropWhile (\<lambda>kv. fst kv \<noteq> k) kvs = []"
      using delete_absent [of kvs k "[]"] JObject by (simp_all only: append_Nil2 takeWhile.simps dropWhile.simps) (simp_all add: json_api_def)
    then show ?thesis unfolding JObject json_api_def by (simp only: cjson_api.simps json.case) simp
  qed (auto simp: json_api_def)
  show "cj_is_object json_api ob \<Longrightarrow> cj_get json_api ob k = None \<Longrightarrow> cj_delete json_api (cj_add json_api ob k v) k = ob"
    for ob k v using delete_absent [of _ k "[(k, v)]"] by (cases ob) (auto simp: json_api_def)
  show "cj_is_object json_api ob \<Longrightarrow> k \<noteq> k' \<Longrightarrow> cj_get json_api (cj_delete json_api ob k) k' = cj_get json_api ob k'"
    for ob k k' by (cases ob) (auto simp: json_api_def map_of_delete_other simp del: map_of_append)
  show "cj_get json_api ob k \<noteq> None \<Longrightarrow> cj_get json_api (cj_put json_api ob k v) k = Some v" for ob k v
    by (cases ob) (simp_all add: json_api_def map_of_put_first)
  show "k \<noteq> k' \<Longrightarrow> cj_get json_api (cj_put json_api ob k v) k' = cj_get json_api ob k'" for ob k k' v
    by (cases ob) (simp_all add: json_api_def map_of_put_first)
  show "cj_get json_api ob k \<noteq> None \<Longrightarrow> cj_get_ci json_api ob k \<noteq> None" for ob k
    using map_of_ci by (cases ob) (simp_all add: json_api_def)
  show "cj_get json_api ob k \<noteq> None \<Longrightarrow> cj_is_object json_api ob" "cj_get_ci json_api ob k \<noteq> None \<Longrightarrow> cj_is_object json_api ob" for ob k
    by (cases ob; simp add: json_api_def)+
  show "cj_is_array json_api a \<Longrightarrow> cj_items json_api (cj_push json_api a x) = cj_items json_api a @ [x]" for a x
    by (cases a) (simp_all add: json_api_def)
qed (simp_all add: json_api_def split: json.split)

end
