(* ===== verification/History_Json.thy ===== *)
theory History_Json
  imports History Cjson Base64
begin

text \<open>
  Messages as JSON: the request format of \<^verbatim>\<open>clm_history_to_json\<close> (with images as data URLs) and the lossless
  format of the session log, \<^verbatim>\<open>clm_message_to_json_full\<close> and its inverse \<^verbatim>\<open>clm_message_from_json\<close>.
  A serializer returns the tree, or \<open>None\<close> for the C function's NULL.
\<close>

section \<open>The request format\<close>

text \<open>Sequencing of steps that may return NULL and consume allocations.\<close>

definition obind :: "'a option \<times> tape \<Rightarrow> ('a \<Rightarrow> tape \<Rightarrow> 'b option \<times> tape) \<Rightarrow> 'b option \<times> tape" where
  "obind x f = (case x of (None, t) \<Rightarrow> (None, t) | (Some a, t) \<Rightarrow> f a t)"

lemma obind_simps [simp]: "obind (None, t) f = (None, t)" "obind (Some a, t) f = f a t"
  by (simp_all add: obind_def)

definition attachment_part :: "'j cjson_api \<Rightarrow> tape \<Rightarrow> clm_attachment \<Rightarrow> 'j option \<times> tape" where
  "attachment_part J t a =
     (let (part, t1) = cj_create t (cj_object J);
          (iu, t2) = cj_create t1 (cj_object J);
          (ok, t3) = alloc t2 in
      case (part, iu) of
        (Some p, Some u) \<Rightarrow>
          if \<not> ok then (None, t3)
          else obind (cj_add_string J t3 u (lit ''url'')
                 (lit ''data:'' @ media_type a @ lit '';base64,'' @ clm_base64_encode (at_data a)))
               (\<lambda>u' t4. obind (cj_add_string J t4 p (lit ''type'') (lit ''image_url''))
               (\<lambda>p' t5. (Some (cj_add J p' (lit ''image_url'') u'), t5)))
      | _ \<Rightarrow> (None, t3))"

fun attachment_parts :: "'j cjson_api \<Rightarrow> tape \<Rightarrow> 'j \<Rightarrow> clm_attachment list \<Rightarrow> 'j option \<times> tape" where
  "attachment_parts J t parts [] = (Some parts, t)"
| "attachment_parts J t parts (a # as) =
     obind (attachment_part J t a) (\<lambda>ip t1. attachment_parts J t1 (cj_push J parts ip) as)"

text \<open>The content becomes an array of parts: the text, then one part per image.\<close>

definition content_to_parts :: "'j cjson_api \<Rightarrow> tape \<Rightarrow> 'j \<Rightarrow> clm_message \<Rightarrow> 'j option \<times> tape" where
  "content_to_parts J t msg m =
     obind (cj_create t (cj_array J)) (\<lambda>parts t1.
       let txt = cj_get_string J msg (lit ''content'') in
       obind (case txt of
           Some (c # cs) \<Rightarrow>
             obind (cj_create t1 (cj_object J)) (\<lambda>tp t2.
             obind (cj_add_string J t2 tp (lit ''type'') (lit ''text'')) (\<lambda>tp t3.
             obind (cj_add_string J t3 tp (lit ''text'') (c # cs)) (\<lambda>tp t4. (Some (cj_push J parts tp), t4))))
         | _ \<Rightarrow> (Some parts, t1))
       (\<lambda>parts t5. obind (attachment_parts J t5 parts (attachments m))
       (\<lambda>parts t6. (Some (cj_add J (cj_delete J msg (lit ''content'')) (lit ''content'') parts), t6))))"

definition clm_tool_call_to_json :: "'j cjson_api \<Rightarrow> tape \<Rightarrow> clm_tool_call \<Rightarrow> 'j option \<times> tape" where
  "clm_tool_call_to_json J t tc =
     obind (cj_create t (cj_object J)) (\<lambda>call t1.
       let (jid, t2) = (case tc_id tc of None \<Rightarrow> (None, t1) | Some i \<Rightarrow> cj_create t1 (cj_string J (c_str i)));
           call = cj_add_opt J call (lit ''id'') jid;
           (jty, t3) = cj_create t2 (cj_string J (lit ''function''));
           call = cj_add_opt J call (lit ''type'') jty in
       obind (cj_create t3 (cj_object J)) (\<lambda>func t4.
         let (jname, t5) = (case tc_name tc of None \<Rightarrow> (None, t4) | Some n \<Rightarrow> cj_create t4 (cj_string J (c_str n)));
             func = cj_add_opt J func (lit ''name'') jname;
             (jargs, t6) = (case tc_args tc of None \<Rightarrow> (None, t5) | Some a \<Rightarrow> cj_create t5 (cj_string J (c_str a)));
             func = cj_add_opt J func (lit ''arguments'') jargs in
         (Some (cj_add J call (lit ''function'') func), t6)))"

fun tool_calls_to_json :: "'j cjson_api \<Rightarrow> tape \<Rightarrow> 'j \<Rightarrow> clm_tool_call list \<Rightarrow> 'j option \<times> tape" where
  "tool_calls_to_json J t arr [] = (Some arr, t)"
| "tool_calls_to_json J t arr (tc # tcs) =
     obind (clm_tool_call_to_json J t tc) (\<lambda>j t1. tool_calls_to_json J t1 (cj_push J arr j) tcs)"

definition role_to_str :: "clm_role \<Rightarrow> cstr" where
  "role_to_str r = (case r of CLM_ROLE_SYSTEM \<Rightarrow> lit ''system'' | CLM_ROLE_USER \<Rightarrow> lit ''user''
     | CLM_ROLE_ASSISTANT \<Rightarrow> lit ''assistant'' | CLM_ROLE_TOOL \<Rightarrow> lit ''tool'')"

definition clm_message_to_json :: "'j cjson_api \<Rightarrow> tape \<Rightarrow> clm_message \<Rightarrow> clm_compressor option \<Rightarrow> 'j option \<times> tape" where
  "clm_message_to_json J t m cz =
     obind (cj_create t (cj_object J)) (\<lambda>msg t1.
     obind (cj_create t1 (cj_string J (role_to_str (role m)))) (\<lambda>jrole t2.
     let msg = cj_add J msg (lit ''role'') jrole in
     obind (if content m \<noteq> None then
              (case message_plain cz m of None \<Rightarrow> (None, t2)
               | Some plain \<Rightarrow> obind (cj_create t2 (cj_string J (c_str plain)))
                   (\<lambda>jc t3. (Some (cj_add J msg (lit ''content'') jc), t3)))
            else if role m = CLM_ROLE_ASSISTANT then
              (let (jn, t3) = cj_create t2 (cj_null J) in (Some (cj_add_opt J msg (lit ''content'') jn), t3))
            else (Some msg, t2))
     (\<lambda>msg t3. obind (if attachments m \<noteq> [] then content_to_parts J t3 msg m else (Some msg, t3))
     (\<lambda>msg t4. obind (case (role m, tool_call_id m) of
              (CLM_ROLE_TOOL, Some i) \<Rightarrow> obind (cj_create t4 (cj_string J (c_str i)))
                (\<lambda>j t5. (Some (cj_add J msg (lit ''tool_call_id'') j), t5))
            | _ \<Rightarrow> (Some msg, t4))
     (\<lambda>msg t5. if role m = CLM_ROLE_ASSISTANT \<and> tool_calls m \<noteq> [] then
          obind (cj_create t5 (cj_array J)) (\<lambda>arr t6.
          obind (tool_calls_to_json J t6 arr (tool_calls m)) (\<lambda>arr t7.
            (Some (cj_add J msg (lit ''tool_calls'') arr), t7)))
        else (Some msg, t5))))))"

fun messages_to_json :: "'j cjson_api \<Rightarrow> tape \<Rightarrow> 'j \<Rightarrow> clm_history \<Rightarrow> clm_compressor option \<Rightarrow> 'j option \<times> tape" where
  "messages_to_json J t arr [] cz = (Some arr, t)"
| "messages_to_json J t arr (m # ms) cz =
     obind (clm_message_to_json J t m cz) (\<lambda>j t1. messages_to_json J t1 (cj_push J arr j) ms cz)"

definition clm_history_to_json :: "'j cjson_api \<Rightarrow> tape \<Rightarrow> clm_history \<Rightarrow> clm_compressor option \<Rightarrow> 'j option \<times> tape" where
  "clm_history_to_json J t h cz = obind (cj_create t (cj_array J)) (\<lambda>arr t1. messages_to_json J t1 arr h cz)"

section \<open>The session-log format\<close>

text \<open>\<^verbatim>\<open>if (s && cJSON_AddStringToObject(obj, key, s) == NULL) return NULL;\<close>\<close>

definition add_opt_string :: "'j cjson_api \<Rightarrow> tape \<Rightarrow> 'j \<Rightarrow> cstr \<Rightarrow> cstr option \<Rightarrow> 'j option \<times> tape" where
  "add_opt_string J t ob k s = (case s of None \<Rightarrow> (Some ob, t) | Some x \<Rightarrow> cj_add_string J t ob k x)"

fun calls_to_json_full :: "'j cjson_api \<Rightarrow> tape \<Rightarrow> 'j \<Rightarrow> clm_tool_call list \<Rightarrow> 'j option \<times> tape" where
  "calls_to_json_full J t arr [] = (Some arr, t)"
| "calls_to_json_full J t arr (tc # tcs) =
     obind (cj_create t (cj_object J)) (\<lambda>jtc t1.
     obind (add_opt_string J t1 jtc (lit ''id'') (tc_id tc)) (\<lambda>jtc t2.
     obind (add_opt_string J t2 jtc (lit ''name'') (tc_name tc)) (\<lambda>jtc t3.
     obind (add_opt_string J t3 jtc (lit ''args'') (tc_args tc)) (\<lambda>jtc t4.
       calls_to_json_full J t4 (cj_push J arr jtc) tcs))))"

definition clm_message_to_json_full :: "'j cjson_api \<Rightarrow> tape \<Rightarrow> clm_message \<Rightarrow> clm_compressor option \<Rightarrow> 'j option \<times> tape" where
  "clm_message_to_json_full J t m cz =
     obind (cj_create t (cj_object J)) (\<lambda>msg t1.
     obind (cj_add_string J t1 msg (lit ''role'') (role_to_str (role m))) (\<lambda>msg t2.
     obind (if content m \<noteq> None then
              (case message_plain cz m of None \<Rightarrow> (None, t2)
               | Some plain \<Rightarrow> cj_add_string J t2 msg (lit ''content'') plain)
            else (Some msg, t2)) (\<lambda>msg t3.
     obind (add_opt_string J t3 msg (lit ''tool_call_id'') (tool_call_id m)) (\<lambda>msg t4.
     obind (add_opt_string J t4 msg (lit ''tool_name'') (tool_name m)) (\<lambda>msg t5.
       if tool_calls m \<noteq> [] then
         obind (cj_create t5 (cj_array J)) (\<lambda>arr t6.
         obind (calls_to_json_full J t6 arr (tool_calls m)) (\<lambda>arr t7.
           (Some (cj_add J msg (lit ''tool_calls'') arr), t7)))
       else (Some msg, t5))))))"

definition role_from_str :: "cstr option \<Rightarrow> errno + clm_role" where
  "role_from_str s =
     (case s of None \<Rightarrow> Inl EINVAL
      | Some x \<Rightarrow> if x = lit ''system'' then Inr CLM_ROLE_SYSTEM
         else if x = lit ''user'' then Inr CLM_ROLE_USER
         else if x = lit ''assistant'' then Inr CLM_ROLE_ASSISTANT
         else if x = lit ''tool'' then Inr CLM_ROLE_TOOL
         else Inl EINVAL)"

text \<open>The loop over the calls: the message with the calls added, or the error that makes the caller remove it.\<close>

fun calls_from_json :: "'j cjson_api \<Rightarrow> tape \<Rightarrow> clm_message \<Rightarrow> 'j list \<Rightarrow> (errno + clm_message) \<times> tape" where
  "calls_from_json J t m [] = (Inr m, t)"
| "calls_from_json J t m (jtc # js) =
     (if \<not> cj_is_object J jtc then (Inl EINVAL, t)
      else case clm_message_add_tool_call t m (cj_get_string J jtc (lit ''id''))
             (cj_get_string J jtc (lit ''name'')) (cj_get_string J jtc (lit ''args'')) of
          (False, _, t1) \<Rightarrow> (Inl ENOMEM, t1)
        | (True, m', t1) \<Rightarrow> calls_from_json J t1 m' js)"

definition added :: "bool \<times> clm_history \<times> tape \<Rightarrow> (errno + unit) \<times> clm_history \<times> tape" where
  "added x = (case x of (ok, h, t) \<Rightarrow> (if ok then Inr () else Inl ENOMEM, h, t))"

definition clm_message_from_json :: "'j cjson_api \<Rightarrow> tape \<Rightarrow> clm_history \<Rightarrow> 'j option \<Rightarrow> clm_compressor option
    \<Rightarrow> (errno + unit) \<times> clm_history \<times> tape" where
  "clm_message_from_json J t h jobj cz =
     (case jobj of None \<Rightarrow> (Inl EINVAL, h, t)
      | Some ob \<Rightarrow>
      if \<not> cj_is_object J ob then (Inl EINVAL, h, t)
      else case role_from_str (cj_get_string J ob (lit ''role'')) of
        Inl e \<Rightarrow> (Inl EINVAL, h, t)
      | Inr r \<Rightarrow>
      let jcontent = cj_get J ob (lit ''content'') in
      if jcontent \<noteq> None \<and> \<not> cj_is_string J (the jcontent) then (Inl EINVAL, h, t)
      else let txt = Option.bind jcontent (cj_string_value J) in
      case r of
        CLM_ROLE_SYSTEM \<Rightarrow> added (clm_history_add_system t h txt cz)
      | CLM_ROLE_USER \<Rightarrow> added (clm_history_add_user t h txt cz)
      | CLM_ROLE_TOOL \<Rightarrow> added (clm_history_add_tool_result t h (cj_get_string J ob (lit ''tool_call_id''))
          (cj_get_string J ob (lit ''tool_name'')) (map_option c_str txt) cz)
      | CLM_ROLE_ASSISTANT \<Rightarrow>
        (case cj_get J ob (lit ''tool_calls'') of
           None \<Rightarrow> added (clm_history_add_assistant_text t h txt cz)
         | Some jtcs \<Rightarrow>
           if \<not> cj_is_array J jtcs then (Inl EINVAL, h, t)
           else case clm_message_create t CLM_ROLE_ASSISTANT of
             (None, t1) \<Rightarrow> (Inl ENOMEM, h, t1)
           | (Some m, t1) \<Rightarrow>
             case (if txt \<noteq> None then message_set_content t1 m txt cz else (Inr (), m, t1)) of
               (Inl e, _, t2) \<Rightarrow> (Inl ENOMEM, h, t2)
             | (Inr _, m', t2) \<Rightarrow>
               case calls_from_json J t2 m' (cj_items J jtcs) of
                 (Inl e, t3) \<Rightarrow> (Inl e, h, t3)
               | (Inr m'', t3) \<Rightarrow> (Inr (), h @ [m''], t3)))"

section \<open>The round trip through the session log\<close>

definition no_nul :: "cstr option \<Rightarrow> bool" where
  "no_nul s \<longleftrightarrow> (case s of None \<Rightarrow> True | Some x \<Rightarrow> 0 \<notin> set x)"

lemma no_nul_c_str [simp]: "no_nul s \<Longrightarrow> map_option c_str s = s"
  by (cases s) (simp_all add: no_nul_def c_str_id)

text \<open>A message the log can represent: readable text, C strings, and the fields its role uses.\<close>

definition loggable :: "clm_compressor option \<Rightarrow> clm_message \<Rightarrow> bool" where
  "loggable cz m \<longleftrightarrow>
     (content m \<noteq> None \<longrightarrow> (case message_plain cz m of None \<Rightarrow> False
        | Some s \<Rightarrow> utf8_text s \<and> length s \<le> 65535 \<and> 0 \<notin> set s))
     \<and> no_nul (tool_call_id m) \<and> no_nul (tool_name m)
     \<and> list_all (\<lambda>tc. no_nul (tc_id tc) \<and> no_nul (tc_name tc) \<and> no_nul (tc_args tc)) (tool_calls m)
     \<and> (role m \<noteq> CLM_ROLE_TOOL \<longrightarrow> tool_call_id m = None \<and> tool_name m = None)
     \<and> (role m \<noteq> CLM_ROLE_ASSISTANT \<longrightarrow> tool_calls m = [])"

definition same_message :: "clm_compressor option \<Rightarrow> clm_message \<Rightarrow> clm_message \<Rightarrow> bool" where
  "same_message cz m m' \<longleftrightarrow> role m' = role m \<and> message_plain cz m' = message_plain cz m
     \<and> tool_call_id m' = tool_call_id m \<and> tool_name m' = tool_name m \<and> tool_calls m' = tool_calls m"

lemma store_total: "\<exists>m'. message_set_content_len [] m body cz = (Inr (), m', [])"
  by (cases body) (auto simp: message_set_content_len_def utf8_repair_def Let_def split: option.splits)

lemma plain_none: "content m = None \<Longrightarrow> message_plain cz m = None"
  by (simp add: message_plain_def)

lemma plain_calls [simp]: "message_plain cz (m\<lparr>tool_calls := tcs\<rparr>) = message_plain cz m"
  by (cases "content m") (simp_all add: message_plain_def)

lemma store_plain:
  assumes "lossless cz" "\<And>s. body = Some s \<Longrightarrow> utf8_text s \<and> length s \<le> 65535"
  shows "\<exists>m'. message_set_content_len [] m body cz = (Inr (), m', []) \<and> message_plain cz m' = body
    \<and> role m' = role m \<and> tool_call_id m' = tool_call_id m \<and> tool_name m' = tool_name m \<and> tool_calls m' = tool_calls m"
proof -
  obtain m' where m': "message_set_content_len [] m body cz = (Inr (), m', [])" using store_total by blast
  have "message_plain cz m' = body"
  proof (cases body)
    case None
    then show ?thesis using m' by (auto simp: message_set_content_len_def message_plain_def)
  next
    case (Some s)
    have "utf8_subst s = s" using assms(2) [OF Some] by (simp add: utf8_bad_iff utf8_subst_id)
    then have "stored_text [] s = s" using stored_text_text(3) [of s "[]"] assms(2) [OF Some] by simp
    with m' show ?thesis unfolding Some
      by (cases rule: set_content_cases) (use try_packD(3) [OF _ assms(1)] in \<open>fastforce simp: message_plain_def\<close>)+
  qed
  then show ?thesis using m' set_content_frame [OF m'] by blast
qed

lemma create_ok [simp]: "cj_create [] j = (Some j, [])"
  by (simp add: cj_create_def)

lemma add_opt_string_ok [simp]:
  "add_opt_string J [] ob k s = (Some (cj_add_opt J ob k (map_option (\<lambda>x. cj_string J (c_str x)) s)), [])"
  by (cases s) (simp_all add: add_opt_string_def cj_add_string_def cj_add_opt_def)

definition str_tree :: "'j cjson_api \<Rightarrow> cstr option \<Rightarrow> 'j option" where
  "str_tree J s = map_option (\<lambda>x. cj_string J (c_str x)) s"

definition call_tree :: "'j cjson_api \<Rightarrow> clm_tool_call \<Rightarrow> 'j" where
  "call_tree J tc = cj_add_opt J (cj_add_opt J (cj_add_opt J (cj_object J) (lit ''id'') (str_tree J (tc_id tc)))
     (lit ''name'') (str_tree J (tc_name tc))) (lit ''args'') (str_tree J (tc_args tc))"

definition full_tree :: "'j cjson_api \<Rightarrow> clm_message \<Rightarrow> cstr option \<Rightarrow> 'j" where
  "full_tree J m p =
     cj_add_opt J (cj_add_opt J (cj_add_opt J (cj_add_opt J (cj_add J (cj_object J)
       (lit ''role'') (cj_string J (role_to_str (role m))))
       (lit ''content'') (str_tree J p)) (lit ''tool_call_id'') (str_tree J (tool_call_id m)))
       (lit ''tool_name'') (str_tree J (tool_name m)))
       (lit ''tool_calls'') (if tool_calls m = [] then None
          else Some (foldl (cj_push J) (cj_array J) (map (call_tree J) (tool_calls m))))"

lemma calls_to_json_full_ok:
  "calls_to_json_full J [] arr tcs = (Some (foldl (cj_push J) arr (map (call_tree J) tcs)), [])"
  by (induction tcs arbitrary: arr) (simp_all add: call_tree_def str_tree_def)

lemma c_str_role [simp]: "c_str (role_to_str r) = role_to_str r"
  by (rule c_str_id) (simp add: role_to_str_def split: clm_role.split)

lemma to_json_full_ok:
  assumes "content m \<noteq> None \<Longrightarrow> message_plain cz m \<noteq> None"
  shows "clm_message_to_json_full J [] m cz = (Some (full_tree J m (message_plain cz m)), [])"
proof -
  have body: "(if content m \<noteq> None then (case message_plain cz m of None \<Rightarrow> (None, [])
        | Some plain \<Rightarrow> cj_add_string J [] msg (lit ''content'') plain) else (Some msg, []))
      = (Some (cj_add_opt J msg (lit ''content'') (str_tree J (message_plain cz m))), [])" for msg
    using assms plain_none [of m cz]
    by (cases "content m") (auto simp: cj_add_opt_def str_tree_def cj_add_string_def split: option.splits)
  have add: "cj_add_string J [] ob k s = (Some (cj_add J ob k (cj_string J (c_str s))), [])" for ob k s
    by (simp add: cj_add_string_def)
  show ?thesis
    unfolding clm_message_to_json_full_def full_tree_def
    by (cases "tool_calls m = []")
      (simp_all only: create_ok obind_simps add body add_opt_string_ok calls_to_json_full_ok c_str_role
        str_tree_def [symmetric] if_True if_False simp_thms, simp_all add: cj_add_opt_def)
qed

text \<open>Reading the trees back needs the laws of the library.\<close>

context cjson_laws
begin

lemma is_object_add_opt [simp]: "cj_is_object J (cj_add_opt J ob k v) = cj_is_object J ob"
  by (cases v) (simp_all add: cj_add_opt_def object_laws)

lemma get_add_opt:
  assumes "cj_is_object J ob" "cj_get J ob k = None"
  shows "cj_get J (cj_add_opt J ob k v) k' = (if k' = k then v else cj_get J ob k')"
  using assms by (cases v) (auto simp: cj_add_opt_def object_laws)

lemma string_of_tree: "Option.bind (str_tree J s) (cj_string_value J) = map_option c_str s"
  by (cases s) (simp_all add: str_tree_def string_value)

lemma get_call_tree:
  "cj_is_object J (call_tree J tc)"
  "cj_get_string J (call_tree J tc) (lit ''id'') = map_option c_str (tc_id tc)"
  "cj_get_string J (call_tree J tc) (lit ''name'') = map_option c_str (tc_name tc)"
  "cj_get_string J (call_tree J tc) (lit ''args'') = map_option c_str (tc_args tc)"
  by (simp_all add: cj_get_string_def call_tree_def get_add_opt object_laws string_of_tree)

lemma calls_from_json_ok:
  assumes "role m = CLM_ROLE_ASSISTANT" "list_all (\<lambda>tc. no_nul (tc_id tc) \<and> no_nul (tc_name tc) \<and> no_nul (tc_args tc)) tcs"
  shows "calls_from_json J [] m (map (call_tree J) tcs) = (Inr (m\<lparr>tool_calls := tool_calls m @ tcs\<rparr>), [])"
  using assms
proof (induction tcs arbitrary: m)
  case (Cons tc tcs)
  have "clm_message_add_tool_call [] m (tc_id tc) (tc_name tc) (tc_args tc)
      = (True, m\<lparr>tool_calls := tool_calls m @ [tc]\<rparr>, [])"
    using Cons.prems(1) by (simp add: clm_message_add_tool_call_def opt_strdup_def Let_def split: option.splits)
  then show ?case using Cons.prems Cons.IH [of "m\<lparr>tool_calls := tool_calls m @ [tc]\<rparr>"]
    by (simp add: get_call_tree del: lit_Cons)
qed simp

lemma get_full_tree:
  "cj_is_object J (full_tree J m p)"
  "cj_get J (full_tree J m p) (lit ''role'') = Some (cj_string J (role_to_str (role m)))"
  "cj_get J (full_tree J m p) (lit ''content'') = str_tree J p"
  "cj_get J (full_tree J m p) (lit ''tool_call_id'') = str_tree J (tool_call_id m)"
  "cj_get J (full_tree J m p) (lit ''tool_name'') = str_tree J (tool_name m)"
  "cj_get J (full_tree J m p) (lit ''tool_calls'') = (if tool_calls m = [] then None
     else Some (foldl (cj_push J) (cj_array J) (map (call_tree J) (tool_calls m))))"
  by (simp_all add: full_tree_def get_add_opt object_laws)

lemma role_round_trip: "role_from_str (Some (role_to_str r)) = Inr r"
  by (cases r) (simp_all add: role_from_str_def role_to_str_def)

lemma opt_strdup_nofail: "opt_strdup [] s = (True, [])"
  by (cases s) (simp_all add: opt_strdup_def)

lemma create_nofail: "clm_message_create [] r = (Some (blank_message r), [])"
  by (simp add: clm_message_create_def blank_message_def)

lemma history_add_plain:
  assumes "lossless cz" "\<And>s. body = Some s \<Longrightarrow> utf8_text s \<and> length s \<le> 65535" "no_nul body"
  shows "\<exists>m'. history_add r [] h body cz = (True, h @ [m'], []) \<and> role m' = r \<and> message_plain cz m' = body
    \<and> tool_call_id m' = None \<and> tool_name m' = None \<and> tool_calls m' = []"
  using store_plain [OF assms(1), where m = "blank_message r" and body = body] assms(2,3)
  by (auto simp: history_add_def create_nofail message_set_content_def blank_message_def)

lemma from_json_full:
  assumes "lossless cz" "loggable cz m"
  shows "\<exists>m'. clm_message_from_json J [] h (Some (full_tree J m (message_plain cz m))) cz = (Inr (), h @ [m'], [])
    \<and> same_message cz m m'"
proof -
  let ?p = "message_plain cz m" and ?j = "full_tree J m (message_plain cz m)"
  have p: "\<And>s. ?p = Some s \<Longrightarrow> utf8_text s \<and> length s \<le> 65535" "no_nul ?p"
    using assms(2) plain_none [of m cz] by (auto simp: loggable_def no_nul_def split: option.splits)
  have jc: "Option.bind (cj_get J ?j (lit ''content'')) (cj_string_value J) = ?p"
    "(cj_get J ?j (lit ''content'') \<noteq> None \<and> \<not> cj_is_string J (the (cj_get J ?j (lit ''content'')))) = False"
    using p(2) unfolding get_full_tree string_of_tree
    by (cases ?p; simp add: str_tree_def is_string_string no_nul_def c_str_id)+
  have role: "role_from_str (cj_get_string J ?j (lit ''role'')) = Inr (role m)"
    by (simp add: cj_get_string_def get_full_tree string_value role_round_trip del: lit_Cons)
  have strs: "cj_get_string J ?j (lit ''tool_call_id'') = tool_call_id m" "cj_get_string J ?j (lit ''tool_name'') = tool_name m"
    using assms(2) by (simp_all add: cj_get_string_def get_full_tree string_of_tree loggable_def del: lit_Cons)
  have frm: "clm_message_from_json J [] h (Some ?j) cz = (case role m of
        CLM_ROLE_SYSTEM \<Rightarrow> added (clm_history_add_system [] h ?p cz)
      | CLM_ROLE_USER \<Rightarrow> added (clm_history_add_user [] h ?p cz)
      | CLM_ROLE_TOOL \<Rightarrow> added (clm_history_add_tool_result [] h (tool_call_id m) (tool_name m) (map_option c_str ?p) cz)
      | CLM_ROLE_ASSISTANT \<Rightarrow>
        (case cj_get J ?j (lit ''tool_calls'') of
           None \<Rightarrow> added (clm_history_add_assistant_text [] h ?p cz)
         | Some jtcs \<Rightarrow>
           if \<not> cj_is_array J jtcs then (Inl EINVAL, h, [])
           else case clm_message_create [] CLM_ROLE_ASSISTANT of
             (None, t1) \<Rightarrow> (Inl ENOMEM, h, t1)
           | (Some m, t1) \<Rightarrow>
             case (if ?p \<noteq> None then message_set_content t1 m ?p cz else (Inr (), m, t1)) of
               (Inl e, _, t2) \<Rightarrow> (Inl ENOMEM, h, t2)
             | (Inr _, m', t2) \<Rightarrow>
               case calls_from_json J t2 m' (cj_items J jtcs) of
                 (Inl e, t3) \<Rightarrow> (Inl e, h, t3)
               | (Inr m'', t3) \<Rightarrow> (Inr (), h @ [m''], t3)))"
    unfolding clm_message_from_json_def Let_def jc option.case role sum.case strs if_False
    by (simp only: get_full_tree(1) not_True_eq_False if_False)
  note unf = frm added_def same_message_def
    clm_history_add_system_def clm_history_add_user_def clm_history_add_assistant_text_def
  show ?thesis
  proof (cases "role m")
    case CLM_ROLE_SYSTEM
    then show ?thesis using history_add_plain [OF assms(1) p, of CLM_ROLE_SYSTEM h] assms(2)
      by (auto simp: unf loggable_def simp del: lit_Cons)
  next
    case CLM_ROLE_USER
    then show ?thesis using history_add_plain [OF assms(1) p, of CLM_ROLE_USER h] assms(2)
      by (auto simp: unf loggable_def simp del: lit_Cons)
  next
    case CLM_ROLE_TOOL
    let ?m0 = "(blank_message CLM_ROLE_TOOL)\<lparr>tool_call_id := tool_call_id m, tool_name := tool_name m\<rparr>"
    obtain m' where m': "message_set_content_len [] ?m0 ?p cz = (Inr (), m', [])" "message_plain cz m' = ?p"
      "role m' = role ?m0" "tool_call_id m' = tool_call_id ?m0" "tool_name m' = tool_name ?m0" "tool_calls m' = tool_calls ?m0"
      using store_plain [OF assms(1) p(1), where m = ?m0] by blast
    have "clm_history_add_tool_result [] h (tool_call_id m) (tool_name m) ?p cz = (True, h @ [m'], [])"
      using m'(1) by (simp add: clm_history_add_tool_result_def make_tool_message_def create_nofail opt_strdup_nofail Let_def)
    then show ?thesis using CLM_ROLE_TOOL m' p(2) assms(2) by (auto simp: unf loggable_def blank_message_def simp del: lit_Cons)
  next
    case CLM_ROLE_ASSISTANT
    show ?thesis
    proof (cases "tool_calls m = []")
      case True
      then show ?thesis using history_add_plain [OF assms(1) p, of CLM_ROLE_ASSISTANT h] assms(2) CLM_ROLE_ASSISTANT
        by (auto simp: unf get_full_tree(6) loggable_def simp del: lit_Cons)
    next
      case False
      let ?m0 = "blank_message CLM_ROLE_ASSISTANT"
      have blank: "message_plain cz ?m0 = None" "role ?m0 = CLM_ROLE_ASSISTANT" "tool_call_id ?m0 = None"
        "tool_name ?m0 = None" "tool_calls ?m0 = []"
        by (simp_all add: blank_message_def message_plain_def)
      have "message_set_content [] ?m0 ?p cz = message_set_content_len [] ?m0 ?p cz"
        using p(2) by (simp add: message_set_content_def)
      then obtain m' where m': "(if ?p \<noteq> None then message_set_content [] ?m0 ?p cz else (Inr (), ?m0, [])) = (Inr (), m', [])"
        "message_plain cz m' = ?p" "role m' = role ?m0" "tool_call_id m' = None" "tool_name m' = None" "tool_calls m' = []"
        using store_plain [OF assms(1) p(1), where m = ?m0 and body = ?p] blank by (cases ?p) auto
      have "calls_from_json J [] m' (map (call_tree J) (tool_calls m)) = (Inr (m'\<lparr>tool_calls := tool_calls m\<rparr>), [])"
        using calls_from_json_ok [of m' "tool_calls m"] m'(3,6) assms(2) by (simp add: loggable_def blank_message_def)
      moreover have "cj_items J (foldl (cj_push J) (cj_array J) (map (call_tree J) (tool_calls m)))
          = map (call_tree J) (tool_calls m)" by (simp add: items_foldl array_laws)
      ultimately have "clm_message_from_json J [] h (Some ?j) cz = (Inr (), h @ [m'\<lparr>tool_calls := tool_calls m\<rparr>], [])"
        using CLM_ROLE_ASSISTANT False m'(1)
        by (simp add: frm get_full_tree(6) create_nofail is_array_foldl array_laws del: lit_Cons)
      moreover have "same_message cz m (m'\<lparr>tool_calls := tool_calls m\<rparr>)"
        using m' CLM_ROLE_ASSISTANT assms(2) by (simp add: same_message_def loggable_def blank_message_def)
      ultimately show ?thesis by blast
    qed
  qed
qed

end



section \<open>What a provider sees\<close>

lemma obind_SomeE:
  assumes "obind x f = (Some y, t')" obtains a t1 where "x = (Some a, t1)" "f a t1 = (Some y, t')"
  using assms by (auto simp: obind_def split: prod.splits option.splits)

lemma create_SomeD: "cj_create t x = (Some y, t') \<Longrightarrow> y = x"
  by (auto simp: cj_create_def Let_def split: prod.splits if_splits)

lemma obind_inv:
  assumes "obind x f = (Some y, t')" "\<And>a t1. x = (Some a, t1) \<Longrightarrow> P a" "\<And>a t1. P a \<Longrightarrow> f a t1 = (Some y, t') \<Longrightarrow> Q y"
  shows "Q y"
  using assms by (elim obind_SomeE) blast

definition has_role :: "'j cjson_api \<Rightarrow> clm_role \<Rightarrow> 'j \<Rightarrow> bool" where
  "has_role J r j \<longleftrightarrow> cj_is_object J j \<and> cj_get J j (lit ''role'') = Some (cj_string J (role_to_str r))"

context cjson_laws
begin

lemma has_role_add: "has_role J r j \<Longrightarrow> k \<noteq> lit ''role'' \<Longrightarrow> has_role J r (cj_add J j k v)"
  by (simp add: has_role_def object_laws del: lit_Cons)

lemma has_role_delete: "has_role J r j \<Longrightarrow> k \<noteq> lit ''role'' \<Longrightarrow> has_role J r (cj_delete J j k)"
  by (simp add: has_role_def get_delete_other is_object_delete del: lit_Cons)

lemma parts_has_role: "content_to_parts J t msg m = (Some j, t') \<Longrightarrow> has_role J r msg \<Longrightarrow> has_role J r j"
  unfolding content_to_parts_def Let_def
  by (elim obind_SomeE) (auto intro!: has_role_add has_role_delete)

lemma message_to_json_role:
  assumes "clm_message_to_json J t m cz = (Some j, t')"
  shows "has_role J (role m) j"
proof -
  let ?H = "has_role J (role m)"
  have keys: "lit ''content'' \<noteq> lit ''role''" "lit ''tool_call_id'' \<noteq> lit ''role''" "lit ''tool_calls'' \<noteq> lit ''role''" by simp_all
  have fresh: "?H (cj_add J (cj_object J) (lit ''role'') (cj_string J (role_to_str (role m))))"
    by (simp add: has_role_def object_laws)
  have opt: "?H (cj_add_opt J msg (lit ''content'') v)" if "?H msg" for msg v
    using that has_role_add keys(1) by (cases v) (simp_all add: cj_add_opt_def del: lit_Cons)
  show ?thesis
    using assms unfolding clm_message_to_json_def Let_def
  proof (rule obind_inv [where P = "\<lambda>a. a = cj_object J"], goal_cases)
    case (2 msg t1)
    show ?case
      using 2(2)
    proof (rule obind_inv [where P = "\<lambda>a. a = cj_string J (role_to_str (role m))"], goal_cases)
      case inner: (2 jrole t2)
      let ?msg = "cj_add J msg (lit ''role'') jrole"
      have H0: "?H ?msg" using fresh 2(1) inner(1) by simp
      show ?case
        using inner(2)
      proof (rule obind_inv [where P = ?H], goal_cases)
        case (1 a t3)
        then show ?case using H0 has_role_add keys(1) opt
          by (auto split: if_splits option.splits prod.splits elim!: obind_SomeE simp del: lit_Cons)
      next
        case (2 msg3 t3)
        show ?case
          using 2(2)
        proof (rule obind_inv [where P = ?H], goal_cases)
          case (1 a t4)
          then show ?case using 2(1) parts_has_role by (auto split: if_splits simp del: lit_Cons)
        next
          case inner4: (2 msg4 t4)
          show ?case
            using inner4(2)
          proof (rule obind_inv [where P = ?H], goal_cases)
            case (1 a t5)
            then show ?case using inner4(1) has_role_add keys(2)
              by (auto split: clm_role.splits option.splits elim!: obind_SomeE simp del: lit_Cons)
          next
            case (2 msg5 t5)
            then show ?case using has_role_add keys(3)
              by (auto split: if_splits elim!: obind_SomeE simp del: lit_Cons)
          qed
        qed
      qed
    qed (auto dest: create_SomeD)
  qed (auto dest: create_SomeD)
qed

lemma messages_to_json_roles:
  assumes "messages_to_json J t arr h cz = (Some j, t')" "cj_is_array J arr"
  shows "cj_is_array J j \<and> (\<exists>js. cj_items J j = cj_items J arr @ js \<and> list_all2 (\<lambda>m x. has_role J (role m) x) h js)"
  using assms
proof (induction h arbitrary: t arr)
  case (Cons m h)
  obtain x t1 where x: "clm_message_to_json J t m cz = (Some x, t1)"
    "messages_to_json J t1 (cj_push J arr x) h cz = (Some j, t')"
    using Cons.prems(1) by (auto elim: obind_SomeE)
  then show ?case using Cons.IH [OF x(2)] Cons.prems(2) message_to_json_role [OF x(1)] by (auto simp: array_laws)
qed simp

lemma role_of: "has_role J r x \<Longrightarrow> cj_get_string J x (lit ''role'') = Some (role_to_str r)"
  by (simp add: has_role_def cj_get_string_def string_value del: lit_Cons)

end

text \<open>(functional). The request carries the whole conversation in order: whenever serialization succeeds, the messages
  array has one object per message of the history, each with that message's role.\<close>

theorem history_json_order:
  assumes "cjson_laws J" "clm_history_to_json J t h cz = (Some j, t')"
  shows "map (\<lambda>x. cj_get_string J x (lit ''role'')) (cj_items J j) = map (\<lambda>m. Some (role_to_str (role m))) h"
proof -
  obtain t1 where "messages_to_json J t1 (cj_array J) h cz = (Some j, t')"
    using assms(2) unfolding clm_history_to_json_def by (elim obind_SomeE) (auto dest: create_SomeD)
  then obtain js where "cj_items J j = js" "list_all2 (\<lambda>m x. has_role J (role m) x) h js"
    using cjson_laws.messages_to_json_roles [OF assms(1)] cjson_laws.array_laws [OF assms(1)] by fastforce
  then show ?thesis using cjson_laws.role_of [OF assms(1)]
    by (auto simp: list_all2_conv_all_nth intro!: nth_equalityI simp del: lit_Cons)
qed

theorem history_json_order_witness:
  "map (\<lambda>x. cj_get_string json_api x (lit ''role''))
      (cj_items json_api (the (fst (clm_history_to_json json_api [] [blank_message CLM_ROLE_USER, blank_message CLM_ROLE_ASSISTANT] None))))
    = map (\<lambda>m. Some (role_to_str (role m))) [blank_message CLM_ROLE_USER, blank_message CLM_ROLE_ASSISTANT]"
proof (rule history_json_order)
  show "cjson_laws json_api" by (rule json.cjson_laws_axioms)
  show "clm_history_to_json json_api [] [blank_message CLM_ROLE_USER, blank_message CLM_ROLE_ASSISTANT] None
    = (Some (the (fst (clm_history_to_json json_api [] [blank_message CLM_ROLE_USER, blank_message CLM_ROLE_ASSISTANT] None))), [])"
    by (simp add: clm_history_to_json_def clm_message_to_json_def blank_message_def)
qed

lemma encode_no_nul: "0 \<notin> set (clm_base64_encode d)"
proof -
  have nz: "0 \<notin> set b64_tab" by (simp add: b64_tab_def)
  have tab: "tab_at v s \<noteq> 0" for v s
  proof -
    have "unat (sextet v s) < length b64_tab" using sextet_less [of v s] by (simp add: b64_tab_def)
    then show ?thesis using nz unfolding tab_at_def by (metis nth_mem)
  qed
  show ?thesis by (induction d rule: clm_base64_encode.induct) (auto simp: clm_base64_encode.simps Let_def tab tab [symmetric])
qed

context cjson_laws
begin

lemma attachment_part_ok:
  assumes "0 \<notin> set (media_type a)"
  shows "\<exists>j iu. attachment_part J [] a = (Some j, []) \<and> cj_get_string J j (lit ''type'') = Some (lit ''image_url'')
    \<and> cj_get J j (lit ''image_url'') = Some iu
    \<and> cj_get_string J iu (lit ''url'')
      = Some (lit ''data:'' @ media_type a @ lit '';base64,'' @ clm_base64_encode (at_data a))"
proof -
  let ?url = "lit ''data:'' @ media_type a @ lit '';base64,'' @ clm_base64_encode (at_data a)"
  let ?iu = "cj_add J (cj_object J) (lit ''url'') (cj_string J ?url)"
  let ?p = "cj_add J (cj_object J) (lit ''type'') (cj_string J (lit ''image_url''))"
  have url: "c_str ?url = ?url" using assms encode_no_nul by (intro c_str_id) simp
  have ty: "c_str (lit ''image_url'') = lit ''image_url''" by (rule c_str_id) simp
  have "attachment_part J [] a = (Some (cj_add J ?p (lit ''image_url'') ?iu), [])"
    unfolding attachment_part_def cj_add_string_def url ty by (simp del: lit_Cons)
  moreover have "lit ''image_url'' \<noteq> lit ''type''" by simp
  ultimately show ?thesis
    by (simp add: cj_get_string_def object_laws string_value del: lit_Cons)
qed

end

text \<open>(roundtrip). An attached image goes out as a data URL that carries its media type and from which the exact bytes
  decode again.\<close>

theorem attachment_url_carries_image:
  assumes "cjson_laws J" "0 \<notin> set (media_type a)"
  shows "\<exists>j iu b64. attachment_part J [] a = (Some j, []) \<and> cj_get_string J j (lit ''type'') = Some (lit ''image_url'')
    \<and> cj_get J j (lit ''image_url'') = Some iu
    \<and> cj_get_string J iu (lit ''url'') = Some (lit ''data:'' @ media_type a @ lit '';base64,'' @ b64)
    \<and> clm_base64_decode b64 = Inr (at_data a)"
  using cjson_laws.attachment_part_ok [OF assms] decode_encode_iff [of "clm_base64_encode (at_data a)" "at_data a"] by blast

theorem attachment_url_carries_image_witness:
  "\<exists>j iu b64. attachment_part json_api [] \<lparr>media_type = lit ''image/png'', at_data = [1, 2, 3]\<rparr> = (Some j, [])
    \<and> cj_get_string json_api j (lit ''type'') = Some (lit ''image_url'')
    \<and> cj_get json_api j (lit ''image_url'') = Some iu
    \<and> cj_get_string json_api iu (lit ''url'')
      = Some (lit ''data:'' @ media_type \<lparr>media_type = lit ''image/png'', at_data = [1, 2, 3]\<rparr> @ lit '';base64,'' @ b64)
    \<and> clm_base64_decode b64 = Inr (at_data \<lparr>media_type = lit ''image/png'', at_data = [1, 2, 3]\<rparr>)"
  by (rule attachment_url_carries_image [OF json.cjson_laws_axioms]) simp

end
