(* ===== verification/Tool_Output.thy ===== *)
theory Tool_Output
  imports Utf8 Text_Clean
begin

text \<open>
  What becomes of the bytes a tool returns, in \<^verbatim>\<open>libclm/tools.c\<close>: the scan for binary data, the token
  estimate, and the cut that keeps a head and a tail of output that is too long. Buffers are byte lists; an
  index into one is a number. A buffer handed over with a length need not end in NUL: where the code looks at
  the byte behind it, that byte is the parameter \<open>past\<close>.
\<close>

section \<open>Numbers in messages\<close>

text \<open>The decimal digits of \<^verbatim>\<open>%zu\<close> and \<^verbatim>\<open>%llu\<close>.\<close>

fun dec :: "nat \<Rightarrow> cstr" where
  "dec n = (if n < 10 then [word_of_nat (48 + n)] else dec (n div 10) @ [word_of_nat (48 + n mod 10)])"

declare dec.simps [simp del]

text \<open>The same for a signed number.\<close>

definition idec :: "int \<Rightarrow> cstr" where
  "idec x = (if x < 0 then 0x2D # dec (nat (- x)) else dec (nat x))"

text \<open>\<^verbatim>\<open>snprintf\<close> into a buffer of \<open>n\<close> bytes keeps what fits before the terminating NUL.\<close>

definition snprintf :: "nat \<Rightarrow> cstr \<Rightarrow> cstr" where
  "snprintf n s = take (n - 1) s"

section \<open>Binary data\<close>

function find_binary_from :: "byte list \<Rightarrow> nat \<Rightarrow> nat" where
  "find_binary_from d i =
     (if i < length d then
        let b = d ! i in
        if b = 0 then i
        else if b < 0x80 then find_binary_from d (i + 1)
        else
          let need = (if b AND 0xE0 = 0xC0 then Some 1 else if b AND 0xF0 = 0xE0 then Some 2
                      else if b AND 0xF8 = 0xF0 then Some 3 else None) in
          case need of None \<Rightarrow> i
          | Some n \<Rightarrow>
              if i + n \<ge> length d then i
              else if \<not> list_all (\<lambda>k. d ! (i + k) AND 0xC0 = 0x80) [1..<Suc n] then i
              else find_binary_from d (i + n + 1)
      else length d)"
  by pat_completeness auto
termination
  by (relation "measure (\<lambda>(d, i). length d - i)") auto

declare find_binary_from.simps [simp del]

definition find_binary_offset :: "byte list \<Rightarrow> nat" where
  "find_binary_offset d = find_binary_from d 0"

section \<open>Token estimates\<close>

definition is_space :: "byte \<Rightarrow> bool" where
  "is_space b \<longleftrightarrow> b = 0x20 \<or> b = 0x09 \<or> b = 0x0A \<or> b = 0x0D \<or> b = 0x0B \<or> b = 0x0C"

definition byte_cost :: "byte \<Rightarrow> nat \<Rightarrow> nat" where
  "byte_cost b wordlen =
     (if b \<ge> 0x30 \<and> b \<le> 0x39 then 12
      else if wordlen \<ge> 32 then 8
      else if b \<ge> 0x80 then 5
      else if (b \<ge> 0x61 \<and> b \<le> 0x7A) \<or> (b \<ge> 0x41 \<and> b \<le> 0x5A) then 3
      else 6)"

definition word_cost :: "byte list \<Rightarrow> nat" where
  "word_cost w = 3 + sum_list (map (\<lambda>b. byte_cost b (length w)) w)"

text \<open>Where the white space at \<open>i\<close> ends, and where the word at \<open>i\<close> ends.\<close>

definition skip_space :: "byte list \<Rightarrow> nat \<Rightarrow> nat" where
  "skip_space d i = i + length (takeWhile is_space (drop i d))"

definition skip_word :: "byte list \<Rightarrow> nat \<Rightarrow> nat" where
  "skip_word d i = i + length (takeWhile (\<lambda>b. \<not> is_space b) (drop i d))"

lemma skip_bounds:
  "i \<le> skip_space d i" "i \<le> skip_word d i" "i \<le> length d \<Longrightarrow> skip_space d i \<le> length d"
  "i \<le> length d \<Longrightarrow> skip_word d i \<le> length d"
  using length_takeWhile_le [of is_space "drop i d"] length_takeWhile_le [of "\<lambda>b. \<not> is_space b" "drop i d"]
  by (auto simp: skip_space_def skip_word_def)

lemma skip_progress: "i < length d \<Longrightarrow> i < skip_word d (skip_space d i)"
proof -
  assume i: "i < length d"
  show ?thesis
  proof (cases "is_space (d ! i)")
    case True
    then have "i < skip_space d i" using i by (simp add: skip_space_def Cons_nth_drop_Suc [symmetric])
    then show ?thesis using skip_bounds(2) [of "skip_space d i" d] by simp
  next
    case False
    then show ?thesis using i by (simp add: skip_space_def skip_word_def Cons_nth_drop_Suc [symmetric])
  qed
qed

function est_from :: "byte list \<Rightarrow> nat \<Rightarrow> nat \<Rightarrow> nat" where
  "est_from d i c =
     (if i < length d then
        let i' = skip_space d i; j = skip_word d i' in
        est_from d j (if j > i' then c + word_cost (take (j - i') (drop i' d)) else c)
      else c)"
  by pat_completeness auto
termination
  by (relation "measure (\<lambda>(d, i, c). length d - i)") (auto simp: skip_progress diff_less_mono2)

declare est_from.simps [simp del]

definition est_tokens :: "byte list \<Rightarrow> nat" where
  "est_tokens d = (est_from d 0 0 + 11) div 12"

section \<open>Head and tail\<close>

fun utf8_floor :: "byte list \<Rightarrow> nat \<Rightarrow> nat" where
  "utf8_floor d 0 = 0"
| "utf8_floor d (Suc n) = (if Suc n < length d \<and> d ! Suc n AND 0xC0 = 0x80 then utf8_floor d n else Suc n)"

text \<open>One word fills the budget: how far into it the head reaches.\<close>

function head_word :: "byte list \<Rightarrow> nat \<Rightarrow> nat \<Rightarrow> nat \<Rightarrow> nat \<Rightarrow> nat \<Rightarrow> nat \<Rightarrow> nat" where
  "head_word d k maxbytes budget wl cost e =
     (if e < k \<and> e < maxbytes \<and> cost + byte_cost (d ! e) wl \<le> budget
      then head_word d k maxbytes budget wl (cost + byte_cost (d ! e) wl) (e + 1) else e)"
  by pat_completeness auto
termination
  by (relation "measure (\<lambda>(d, k, m, b, wl, c, e). k - e)") auto

declare head_word.simps [simp del]

text \<open>The word loop of \<^verbatim>\<open>fit_head\<close>: \<open>Inl\<close> is a return inside the first word, \<open>Inr\<close> the index after the last whole word.\<close>

function head_loop :: "byte list \<Rightarrow> nat \<Rightarrow> nat \<Rightarrow> nat \<Rightarrow> nat \<Rightarrow> nat + nat" where
  "head_loop d budget maxbytes i cost =
     (if i < length d then
        let j = skip_space d i; k = skip_word d j; c = word_cost (take (k - j) (drop j d)) in
        if k > maxbytes \<or> cost + c > budget then
          (if i = 0 then Inl (utf8_floor d (head_word d k maxbytes budget (k - j) (cost + 3) j)) else Inr i)
        else head_loop d budget maxbytes k (cost + c)
      else Inr i)"
  by pat_completeness auto
termination
  by (relation "measure (\<lambda>(d, b, m, i, c). length d - i)") (auto simp: skip_progress diff_less_mono2)

declare head_loop.simps [simp del]

text \<open>\<^verbatim>\<open>for (p = end; p > end / 2; p--) if (d[p - 1] == '\n') return p; return end;\<close>\<close>

fun newline_back :: "byte list \<Rightarrow> nat \<Rightarrow> nat \<Rightarrow> nat" where
  "newline_back d e 0 = e"
| "newline_back d e (Suc p) = (if Suc p \<le> e div 2 then e else if d ! p = 0x0A then Suc p else newline_back d e p)"

definition fit_head :: "byte list \<Rightarrow> nat \<Rightarrow> nat \<Rightarrow> nat" where
  "fit_head d budget maxbytes =
     (case head_loop d budget maxbytes 0 0 of Inl e \<Rightarrow> e | Inr e \<Rightarrow> newline_back d e e)"

text \<open>Where the white space before \<open>i\<close> begins, and where the word before \<open>i\<close> begins.\<close>

fun back_space :: "byte list \<Rightarrow> nat \<Rightarrow> nat" where
  "back_space d 0 = 0"
| "back_space d (Suc i) = (if is_space (d ! i) then back_space d i else Suc i)"

fun back_word :: "byte list \<Rightarrow> nat \<Rightarrow> nat" where
  "back_word d 0 = 0"
| "back_word d (Suc i) = (if \<not> is_space (d ! i) then back_word d i else Suc i)"

lemma back_le: "back_space d i \<le> i" "back_word d i \<le> i"
  by (induction i) auto

lemma back_progress: "0 < i \<Longrightarrow> back_word d (back_space d i) < i"
  using back_le(1) [of d "i - 1"] back_le(2) [of d "i - 1"] back_le(2) [of d "back_space d (i - 1)"]
  by (cases i) (auto simp: le_imp_less_Suc)

fun tail_word :: "byte list \<Rightarrow> nat \<Rightarrow> nat \<Rightarrow> nat \<Rightarrow> nat \<Rightarrow> nat \<Rightarrow> nat \<Rightarrow> nat" where
  "tail_word d k maxbytes budget wl cost 0 = 0"
| "tail_word d k maxbytes budget wl cost (Suc s) =
     (if Suc s > k \<and> length d - Suc s < maxbytes \<and> cost + byte_cost (d ! s) wl \<le> budget
      then tail_word d k maxbytes budget wl (cost + byte_cost (d ! s) wl) s else Suc s)"

text \<open>\<^verbatim>\<open>while (start > k && (d[start] & 0xC0) == 0x80) start--;\<close> the first test may look behind the buffer.\<close>

fun tail_floor :: "byte list \<Rightarrow> byte \<Rightarrow> nat \<Rightarrow> nat \<Rightarrow> nat" where
  "tail_floor d past k 0 = 0"
| "tail_floor d past k (Suc s) =
     (if Suc s > k \<and> (if Suc s < length d then d ! Suc s else past) AND 0xC0 = 0x80 then tail_floor d past k s else Suc s)"

function tail_loop :: "byte list \<Rightarrow> byte \<Rightarrow> nat \<Rightarrow> nat \<Rightarrow> nat \<Rightarrow> nat \<Rightarrow> nat + nat" where
  "tail_loop d past budget maxbytes i cost =
     (if i > 0 then
        let j = back_space d i; k = back_word d j; c = word_cost (take (j - k) (drop k d)) in
        if length d - k > maxbytes \<or> cost + c > budget then
          (if i = length d then Inl (tail_floor d past k (tail_word d k maxbytes budget (j - k) (cost + 3) j)) else Inr i)
        else tail_loop d past budget maxbytes k (cost + c)
      else Inr i)"
  by pat_completeness auto
termination
  by (relation "measure (\<lambda>(d, p, b, m, i, c). i)") (auto simp: back_progress)

declare tail_loop.simps [simp del]

text \<open>\<^verbatim>\<open>for (p = start; p < start + (len - start) / 2; p++) if (d[p] == '\n') return p + 1; return start;\<close>\<close>

definition newline_forward :: "byte list \<Rightarrow> nat \<Rightarrow> nat" where
  "newline_forward d s =
     (case find (\<lambda>p. d ! p = 0x0A) [s..<s + (length d - s) div 2] of Some p \<Rightarrow> p + 1 | None \<Rightarrow> s)"

definition fit_tail :: "byte list \<Rightarrow> byte \<Rightarrow> nat \<Rightarrow> nat \<Rightarrow> nat" where
  "fit_tail d past budget maxbytes =
     (case tail_loop d past budget maxbytes (length d) 0 of Inl s \<Rightarrow> s | Inr s \<Rightarrow> newline_forward d s)"

section \<open>The cut\<close>

definition count_nl :: "byte list \<Rightarrow> nat" where
  "count_nl d = length (filter (\<lambda>b. b = 0x0A) d)"

definition count_lines :: "byte list \<Rightarrow> nat" where
  "count_lines d = count_nl d + (if d \<noteq> [] \<and> last d \<noteq> 0x0A then 1 else 0)"

text \<open>The marker line between head and tail; \<open>path\<close> is where the spool saved the output (empty if nowhere).\<close>

definition cut_marker :: "byte list \<Rightarrow> nat \<Rightarrow> nat \<Rightarrow> nat \<Rightarrow> cstr \<Rightarrow> cstr" where
  "cut_marker d head tail toks path =
     (let lines = count_lines d;
          fst_line = count_nl (take head d) + 1;
          lst_line = (if tail > head then count_nl (take (tail - 1) d) + 1 else fst_line);
          place = (if fst_line = lst_line then lit ''inside line '' @ dec fst_line
                   else lit ''lines '' @ dec fst_line @ lit ''-'' @ dec lst_line);
          left = est_tokens (take (tail - head) (drop head d)) in
      snprintf 1024
        ((if head > 0 \<and> d ! (head - 1) \<noteq> 0x0A then [0x0A] else [])
         @ lit ''[output cut: about '' @ dec left @ lit '' of '' @ dec toks @ lit '' tokens left out, ''
         @ snprintf 64 place @ lit '' of '' @ dec lines @ lit '', '' @ dec (length d) @ lit '' bytes in all. ''
         @ (if path \<noteq> [] then lit ''Full output: '' else lit ''The full output was not saved.'') @ path
         @ (if path \<noteq> [] then lit ''; read parts of it with read_file offset and limit, or grep it.'' else [])
         @ [0x5D, 0x0A]))"

text \<open>Head and tail offsets for output that is over the cap.\<close>

definition cut_budget :: "nat \<Rightarrow> nat" where
  "cut_budget cap = (let tok_cap = (if cap div 4 > 0 then cap div 4 else 1) in
     (if tok_cap > 128 then tok_cap - 128 else tok_cap div 2) * 12)"

definition cut_room :: "nat \<Rightarrow> nat" where
  "cut_room cap = (if cap > 1024 then cap - 1024 else cap div 2)"

definition cut_head :: "nat \<Rightarrow> byte list \<Rightarrow> nat" where
  "cut_head cap d = fit_head d (cut_budget cap * 2 div 3) (cut_room cap * 2 div 3)"

definition cut_tail :: "nat \<Rightarrow> byte list \<Rightarrow> byte \<Rightarrow> nat" where
  "cut_tail cap d past = cut_head cap d
     + fit_tail (drop (cut_head cap d) d) past (cut_budget cap - cut_budget cap * 2 div 3) (cut_room cap - cut_room cap * 2 div 3)"

text \<open>
  \<^verbatim>\<open>cut_output\<close> for an output cap: \<open>spool\<close> is what the spool callback returns for the output (the path it
  wrote, or \<open>None\<close> if there is no spool or it failed). \<open>None\<close> is a failed allocation.
\<close>

definition cut_output :: "tape \<Rightarrow> nat \<Rightarrow> (byte list \<Rightarrow> cstr option) \<Rightarrow> byte \<Rightarrow> byte list \<Rightarrow> byte list option \<times> tape" where
  "cut_output t cap spool past d =
     (let tok_cap = (if cap div 4 > 0 then cap div 4 else 1);
          toks = est_tokens d;
          (ok, t') = alloc t in
      if length d \<le> cap \<and> toks \<le> tok_cap then (if ok then Some d else None, t')
      else
        let path = (case spool d of None \<Rightarrow> [] | Some p \<Rightarrow> p);
            head = cut_head cap d; tail = cut_tail cap d past in
        (if ok then Some (take head d @ cut_marker d head tail toks path @ drop tail d) else None, t'))"

definition fail_wrap :: "tape \<Rightarrow> cstr option \<Rightarrow> cstr option \<times> tape" where
  "fail_wrap t msg =
     (let (ok, t') = alloc t in
      (if ok then Some (lit ''[tool failed: '' @ (case msg of None \<Rightarrow> [] | Some m \<Rightarrow> m) @ lit '']'') else None, t'))"

text \<open>
  The text a completed call records: the first half of \<^verbatim>\<open>inv_finalize\<close>. The warning is printed into 96 bytes
  and its length clamped to 96, so a longer one would include the terminating NUL.
\<close>

definition binary_warning :: "nat \<Rightarrow> nat \<Rightarrow> cstr" where
  "binary_warning off len =
     (let s = lit ''[tool output contained binary data at byte offset '' @ dec off @ lit '' of '' @ dec len
            @ lit ''; not displayed]'' in
      if length s < 96 then s else take 95 s @ [0])"

definition tool_text :: "tape \<Rightarrow> nat \<Rightarrow> (byte list \<Rightarrow> cstr option) \<Rightarrow> byte \<Rightarrow> byte list \<Rightarrow> byte list \<times> tape" where
  "tool_text t cap spool past d =
     (let off = find_binary_offset d;
          effective = (if off < length d then binary_warning off (length d) else d);
          past' = (if off < length d then 0 else past) in
      case cut_output t cap spool past' effective of
        (Some c, t') \<Rightarrow> (case clm_clean_text (Some c) (length c) of (c', n) \<Rightarrow> take n (the c'), t')
      | (None, t') \<Rightarrow> (effective, t'))"

section \<open>Where the cut falls\<close>

lemma space_ascii: "is_space b \<Longrightarrow> unat b < 128"
  by (auto simp: is_space_def)

lemma cont_mask: "b AND 0xC0 = 0x80 \<longleftrightarrow> cont b"
  by (simp add: byte_masks cont_def)

lemma space_not_cont: "is_space b \<Longrightarrow> \<not> cont b"
  using space_ascii [of b] by (auto simp: cont_def)

lemma skip_word_end: "j \<le> length d \<Longrightarrow> skip_word d j < length d \<Longrightarrow> is_space (d ! skip_word d j)"
proof -
  assume a: "j \<le> length d" "skip_word d j < length d"
  let ?w = "takeWhile (\<lambda>b. \<not> is_space b) (drop j d)"
  have "length ?w < length (drop j d)" using a by (simp add: skip_word_def)
  then have "\<not> \<not> is_space (drop j d ! length ?w)" by (rule nth_length_takeWhile)
  then show ?thesis using a(1) by (simp add: skip_word_def)
qed

lemma skip_word_boundary: "j \<le> length d \<Longrightarrow> boundary d (skip_word d j)"
  using skip_word_end space_not_cont by (fastforce simp: boundary_def)

lemma utf8_floor_le: "utf8_floor d n \<le> n"
  by (induction n) auto

lemma utf8_floor_boundary: "utf8_text d \<Longrightarrow> boundary d (utf8_floor d n)"
  by (induction n) (auto simp: boundary_0 cont_mask, auto simp: boundary_def cont_mask)

lemma head_word_bounds: "e \<le> head_word d k m b wl c e \<and> head_word d k m b wl c e \<le> max e (min k m)"
proof (induction d k m b wl c e rule: head_word.induct)
  case (1 d k m b wl c e)
  then show ?case by (subst (1 2) head_word.simps) (auto simp: Let_def split: if_splits)
qed

lemma newline_back_spec: "p \<le> e \<Longrightarrow> newline_back d e p = e \<or> (0 < newline_back d e p \<and> newline_back d e p \<le> p \<and> d ! (newline_back d e p - 1) = 0x0A)"
  by (induction p) auto

lemma newline_back_le: "newline_back d e e \<le> e"
  using newline_back_spec [of e e d] by auto

lemma head_loop_spec:
  assumes "i \<le> length d" "i = 0 \<or> (i \<le> maxbytes \<and> boundary d i)"
  shows "case head_loop d budget maxbytes i cost of
      Inl e \<Rightarrow> (\<exists>e'. e = utf8_floor d e' \<and> e' \<le> length d \<and> e' \<le> max maxbytes (skip_space d 0))
    | Inr e \<Rightarrow> e \<le> length d \<and> (e = 0 \<or> (e \<le> maxbytes \<and> boundary d e))"
  using assms
proof (induction d budget maxbytes i cost rule: head_loop.induct)
  case (1 d budget maxbytes i cost)
  let ?j = "skip_space d i"
  let ?k = "skip_word d ?j"
  let ?c = "word_cost (take (?k - ?j) (drop ?j d))"
  have jk: "?j \<le> length d" "?k \<le> length d" "?j \<le> ?k" using "1.prems"(1) skip_bounds by auto
  show ?case
  proof (cases "i < length d")
    case False
    then show ?thesis using "1.prems" by (subst head_loop.simps) simp
  next
    case il: True
    show ?thesis
    proof (cases "?k > maxbytes \<or> cost + ?c > budget")
      case True
      let ?e = "head_word d ?k maxbytes budget (?k - ?j) (cost + 3) ?j"
      have "?e \<le> max ?j (min ?k maxbytes)" using head_word_bounds by blast
      then have "i = 0 \<Longrightarrow> ?e \<le> length d \<and> ?e \<le> max maxbytes (skip_space d 0)" using jk by auto
      then show ?thesis using il True "1.prems" by (subst head_loop.simps) (auto simp: Let_def)
    next
      case False
      have "boundary d ?k" using jk(1) skip_word_boundary by blast
      then show ?thesis using il False jk "1.IH" [OF il refl refl refl False]
        by (subst head_loop.simps) (simp add: Let_def)
    qed
  qed
qed

lemma fit_head_spec:
  "fit_head d budget maxbytes \<le> length d"
  "fit_head d budget maxbytes \<le> max maxbytes (skip_space d 0)"
  "utf8_text d \<Longrightarrow> boundary d (fit_head d budget maxbytes)"
proof -
  have sp: "case head_loop d budget maxbytes 0 0 of
      Inl e \<Rightarrow> (\<exists>e'. e = utf8_floor d e' \<and> e' \<le> length d \<and> e' \<le> max maxbytes (skip_space d 0))
    | Inr e \<Rightarrow> e \<le> length d \<and> (e = 0 \<or> (e \<le> maxbytes \<and> boundary d e))"
    by (rule head_loop_spec) simp_all
  have "fit_head d budget maxbytes \<le> length d \<and> fit_head d budget maxbytes \<le> max maxbytes (skip_space d 0)"
  proof (cases "head_loop d budget maxbytes 0 0")
    case (Inl e)
    then obtain e' where "e = utf8_floor d e'" "e' \<le> length d" "e' \<le> max maxbytes (skip_space d 0)" using sp by auto
    then show ?thesis
      using Inl utf8_floor_le [of d e'] by (simp add: fit_head_def)
  next
    case (Inr e)
    then have "e \<le> length d" "e \<le> max maxbytes (skip_space d 0)" using sp by auto
    then show ?thesis
      using Inr newline_back_le [of d e] by (simp add: fit_head_def)
  qed
  then show "fit_head d budget maxbytes \<le> length d" "fit_head d budget maxbytes \<le> max maxbytes (skip_space d 0)" by simp_all
  assume u: "utf8_text d"
  show "boundary d (fit_head d budget maxbytes)"
  proof (cases "head_loop d budget maxbytes 0 0")
    case (Inl e)
    then show ?thesis using sp utf8_floor_boundary [OF u] by (auto simp: fit_head_def)
  next
    case (Inr e)
    then have e: "e \<le> length d" "boundary d e" using sp boundary_0 [OF u] by auto
    consider "newline_back d e e = e" | "0 < newline_back d e e" "newline_back d e e \<le> e" "d ! (newline_back d e e - 1) = 0x0A"
      using newline_back_spec [of e e d] by auto
    then show ?thesis
    proof cases
      case 1 then show ?thesis using Inr e by (simp add: fit_head_def)
    next
      case 2
      then have "boundary d (Suc (newline_back d e e - 1))" using e(1) by (intro boundary_after_ascii [OF u]) auto
      then show ?thesis using Inr 2 by (simp add: fit_head_def)
    qed
  qed
qed

lemma back_word_boundary: "utf8_text d \<Longrightarrow> j \<le> length d \<Longrightarrow> boundary d (back_word d j)"
proof (induction j)
  case (Suc j)
  then show ?case using boundary_after_ascii [of d j] space_ascii [of "d ! j"] by auto
qed (simp add: boundary_0)

lemma tail_word_bounds:
  "k \<le> s \<Longrightarrow> k \<le> tail_word d k m b wl c s \<and> tail_word d k m b wl c s \<le> s"
  by (induction s arbitrary: c) (auto simp: le_Suc_eq)

lemma tail_word_size:
  "s \<le> length d \<Longrightarrow> length d - tail_word d k m b wl c s \<le> max m (length d - s)"
proof (induction s arbitrary: c)
  case (Suc s)
  show ?case
  proof (cases "Suc s > k \<and> length d - Suc s < m \<and> c + byte_cost (d ! s) wl \<le> b")
    case True
    then have "length d - tail_word d k m b wl (c + byte_cost (d ! s) wl) s \<le> max m (length d - s)"
      using Suc by simp
    moreover have "length d - s \<le> m" using True Suc.prems by linarith
    ultimately show ?thesis using True by simp
  qed auto
qed simp

lemma tail_floor_bounds: "k \<le> s \<Longrightarrow> k \<le> tail_floor d past k s \<and> tail_floor d past k s \<le> s"
  by (induction s) auto

lemma tail_floor_boundary:
  assumes "boundary d k" "k \<le> s" "s \<le> length d"
  shows "boundary d (tail_floor d past k s)"
  using assms(2,3)
proof (induction s)
  case 0
  then show ?case using assms(1) by simp
next
  case (Suc s)
  show ?case
  proof (cases "Suc s > k")
    case False
    then show ?thesis using Suc.prems assms(1) by (simp add: not_less_eq_eq le_antisym)
  next
    case True
    then show ?thesis using Suc by (auto simp: boundary_def cont_mask)
  qed
qed

lemma tail_loop_spec:
  assumes "i \<le> length d" "i = length d \<or> (length d - i \<le> maxbytes \<and> boundary d i)" "utf8_text d"
  shows "case tail_loop d past budget maxbytes i cost of
      Inl s \<Rightarrow> s \<le> length d \<and> boundary d s \<and> (\<exists>s'. s = tail_floor d past (back_word d (back_space d (length d))) s'
          \<and> s' \<le> length d \<and> length d - s' \<le> max maxbytes (length d - back_space d (length d)))
    | Inr s \<Rightarrow> s \<le> length d \<and> boundary d s \<and> length d - s \<le> maxbytes"
  using assms
proof (induction d past budget maxbytes i cost rule: tail_loop.induct)
  case (1 d past budget maxbytes i cost)
  let ?j = "back_space d i"
  let ?k = "back_word d ?j"
  let ?c = "word_cost (take (?j - ?k) (drop ?k d))"
  have jk: "?j \<le> i" "?k \<le> ?j" using back_le by auto
  have bk: "boundary d ?k" using back_word_boundary [OF "1.prems"(3)] jk "1.prems"(1) by simp
  show ?case
  proof (cases "0 < i")
    case False
    then show ?thesis using "1.prems" boundary_0 by (subst tail_loop.simps) auto
  next
    case il: True
    show ?thesis
    proof (cases "length d - ?k > maxbytes \<or> cost + ?c > budget")
      case True
      let ?w = "tail_word d ?k maxbytes budget (?j - ?k) (cost + 3) ?j"
      have w: "?k \<le> ?w" "?w \<le> ?j" "length d - ?w \<le> max maxbytes (length d - ?j)"
        using tail_word_bounds [OF jk(2)] tail_word_size [of ?j d] jk(1) "1.prems"(1) by auto
      have fl: "tail_floor d past ?k ?w \<le> ?w" "boundary d (tail_floor d past ?k ?w)"
        using tail_floor_bounds [OF w(1)] tail_floor_boundary [OF bk w(1)] w(2) jk(1) "1.prems"(1) by auto
      show ?thesis
      proof (cases "i = length d")
        case top: True
        have "tail_loop d past budget maxbytes i cost = Inl (tail_floor d past ?k ?w)"
          using il True top by (subst tail_loop.simps) (simp add: Let_def)
        then show ?thesis using fl w top jk by auto
      next
        case False
        then show ?thesis using il True "1.prems" by (subst tail_loop.simps) (auto simp: Let_def)
      qed
    next
      case False
      have "?k \<le> length d" using jk "1.prems"(1) by simp
      then show ?thesis using il False bk "1.IH" [OF il refl refl refl False] "1.prems"(3)
        by (subst tail_loop.simps) (simp add: Let_def)
    qed
  qed
qed

lemma tail_loop_le: "i \<le> length d \<Longrightarrow> (case tail_loop d past budget maxbytes i cost of Inl s \<Rightarrow> s | Inr s \<Rightarrow> s) \<le> length d"
proof (induction d past budget maxbytes i cost rule: tail_loop.induct)
  case (1 d past budget maxbytes i cost)
  let ?j = "back_space d i"
  let ?k = "back_word d ?j"
  have jk: "?j \<le> i" "?k \<le> ?j" using back_le by auto
  have "tail_floor d past ?k (tail_word d ?k maxbytes budget (?j - ?k) (cost + 3) ?j) \<le> length d"
    using tail_word_bounds [OF jk(2)] tail_floor_bounds jk "1.prems" by (meson order_trans)
  then show ?case using 1 jk by (subst tail_loop.simps) (auto simp: Let_def)
qed

lemma newline_forward_spec:
  "s \<le> length d \<Longrightarrow> s \<le> newline_forward d s \<and> newline_forward d s \<le> length d
    \<and> (newline_forward d s = s \<or> (0 < newline_forward d s \<and> d ! (newline_forward d s - 1) = 0x0A))"
proof (cases "find (\<lambda>p. d ! p = 0x0A) [s..<s + (length d - s) div 2]")
  case (Some p)
  assume "s \<le> length d"
  moreover have "s \<le> p" "p < s + (length d - s) div 2" "d ! p = 0x0A" using Some by (auto simp: find_Some_iff)
  ultimately show ?thesis using Some by (auto simp: newline_forward_def)
qed (simp add: newline_forward_def)

lemma fit_tail_le: "fit_tail d past budget maxbytes \<le> length d"
  using tail_loop_le [of "length d" d past budget maxbytes 0] newline_forward_spec [of _ d]
  unfolding fit_tail_def by (auto split: sum.splits)

lemma tail_floor_step: "tail_floor d past k s < s \<Longrightarrow> tail_floor d past k s < j \<Longrightarrow> j \<le> s \<Longrightarrow>
    (if j < length d then cont (d ! j) else cont past)"
  by (induction s) (auto simp: cont_mask le_Suc_eq split: if_splits)

lemma tail_floor_near:
  assumes "utf8_text d" "\<not> cont past" "s \<le> length d" "k \<le> s"
  shows "s \<le> tail_floor d past k s + 3"
proof (cases "s = length d \<or> \<not> tail_floor d past k s < s")
  case True
  then show ?thesis using tail_floor_step [of d past k s s] tail_floor_bounds [OF assms(4), of d past] assms(2) by fastforce
next
  case False
  then have "s < length d" using assms(3) by simp
  then obtain j where "j \<le> s" "s \<le> j + 3" "\<not> cont (d ! j)" using utf8_text_lead_near [OF assms(1)] by blast
  moreover have "j < length d" using \<open>j \<le> s\<close> \<open>s < length d\<close> by simp
  ultimately have "\<not> tail_floor d past k s < j" using tail_floor_step [of d past k s j] False by auto
  then show ?thesis using \<open>s \<le> j + 3\<close> by simp
qed

lemma fit_tail_text:
  assumes "utf8_text d"
  shows "boundary d (fit_tail d past budget maxbytes)"
    "\<not> cont past \<Longrightarrow> length d - fit_tail d past budget maxbytes \<le> max maxbytes (length d - back_space d (length d)) + 3"
proof -
  let ?s = "tail_loop d past budget maxbytes (length d) 0"
  have sp: "case ?s of
      Inl s \<Rightarrow> s \<le> length d \<and> boundary d s \<and> (\<exists>s'. s = tail_floor d past (back_word d (back_space d (length d))) s'
          \<and> s' \<le> length d \<and> length d - s' \<le> max maxbytes (length d - back_space d (length d)))
    | Inr s \<Rightarrow> s \<le> length d \<and> boundary d s \<and> length d - s \<le> maxbytes"
    by (rule tail_loop_spec) (simp_all add: assms)
  show "boundary d (fit_tail d past budget maxbytes)"
  proof (cases ?s)
    case (Inl s)
    then show ?thesis using sp by (simp add: fit_tail_def)
  next
    case (Inr s)
    then have s: "s \<le> length d" "boundary d s" using sp by auto
    note nf = newline_forward_spec [OF s(1)]
    show ?thesis
    proof (cases "newline_forward d s = s")
      case True then show ?thesis using Inr s by (simp add: fit_tail_def)
    next
      case False
      then have "boundary d (Suc (newline_forward d s - 1))" using nf by (intro boundary_after_ascii [OF assms]) auto
      then show ?thesis using Inr nf False by (simp add: fit_tail_def)
    qed
  qed
  assume past: "\<not> cont past"
  show "length d - fit_tail d past budget maxbytes \<le> max maxbytes (length d - back_space d (length d)) + 3"
  proof (cases ?s)
    case (Inl s)
    let ?k = "back_word d (back_space d (length d))"
    obtain s' where s': "s = tail_floor d past ?k s'" "s' \<le> length d"
      "length d - s' \<le> max maxbytes (length d - back_space d (length d))" using sp Inl by auto
    have "s' \<le> s + 3"
    proof (cases "?k \<le> s'")
      case True then show ?thesis using tail_floor_near [OF assms past s'(2) True] s'(1) by simp
    next
      case False then show ?thesis using s'(1) by (cases s') auto
    qed
    then show ?thesis using s' Inl by (simp add: fit_tail_def)
  next
    case (Inr s)
    then show ?thesis using sp newline_forward_spec [of s d] by (auto simp: fit_tail_def)
  qed
qed

lemma cut_order: "cut_head cap d \<le> cut_tail cap d past" "cut_tail cap d past \<le> length d"
  using fit_tail_le [of "drop (cut_head cap d) d"] fit_head_spec(1) [of d]
  by (simp_all add: cut_tail_def cut_head_def) (metis add.commute le_diff_conv2)

lemma length_marker: "length (cut_marker d head tail toks path) \<le> 1023"
  unfolding cut_marker_def snprintf_def Let_def length_take by (rule min.coboundedI2) simp

lemma cut_output_long:
  assumes "cut_output t cap spool past d = (Some out, t')"
    "\<not> (length d \<le> cap \<and> est_tokens d \<le> max (cap div 4) 1)"
  shows "out = take (cut_head cap d) d @ cut_marker d (cut_head cap d) (cut_tail cap d past) (est_tokens d)
      (case spool d of None \<Rightarrow> [] | Some p \<Rightarrow> p) @ drop (cut_tail cap d past) d"
proof -
  have "\<not> (length d \<le> cap \<and> est_tokens d \<le> (if cap div 4 > 0 then cap div 4 else 1))"
    using assms(2) by (auto split: if_splits)
  note n = if_not_P [OF this]
  obtain ok t1 where a: "alloc t = (ok, t1)" by fastforce
  show ?thesis using assms(1) unfolding cut_output_def Let_def a prod.case n by (cases ok) simp_all
qed

lemma cut_output_short:
  assumes "cut_output t cap spool past d = (Some out, t')"
    "length d \<le> cap \<and> est_tokens d \<le> max (cap div 4) 1"
  shows "out = d"
proof -
  have "length d \<le> cap \<and> est_tokens d \<le> (if cap div 4 > 0 then cap div 4 else 1)"
    using assms(2) by (auto split: if_splits)
  note n = if_P [OF this]
  obtain ok t1 where a: "alloc t = (ok, t1)" by fastforce
  show ?thesis using assms(1) unfolding cut_output_def Let_def a prod.case n by (cases ok) simp_all
qed


lemma cut_output_succeeds: "\<exists>out. cut_output [] cap spool past d = (Some out, [])"
  unfolding cut_output_def Let_def alloc.simps prod.case by (simp only: if_True split: if_split) blast


text \<open>
  How long the result is: over a cap of more than 1024 bytes the two parts and the marker stay within two
  bytes of the cap, when the output does not begin or end with a long run of white space.
\<close>

lemma back_space_drop: "back_space d (h + i) \<le> h + back_space (drop h d) i" if "h + i \<le> length d"
  using that
proof (induction i)
  case 0
  then show ?case using back_le(1) [of d h] by simp
qed simp

lemma back_space_rev: "n \<le> length d \<Longrightarrow> n - back_space d n = length (takeWhile is_space (rev (take n d)))"
proof (induction n)
  case (Suc n)
  then have "take (Suc n) d = take n d @ [d ! n]" by (simp add: take_Suc_conv_app_nth)
  then show ?case using Suc back_le(1) [of d n] by (auto simp: Suc_diff_le)
qed simp

lemma trailing_space_drop:
  assumes "h \<le> length d"
  shows "length (drop h d) - back_space (drop h d) (length (drop h d)) \<le> length (takeWhile is_space (rev d))"
  using back_space_drop [of h "length d - h" d] back_space_rev [of "length d" d] assms by simp

lemma cut_sizes:
  assumes "utf8_text d" "\<not> cont past"
  shows "cut_head cap d \<le> max (cut_room cap * 2 div 3) (length (takeWhile is_space d))"
    "length d - cut_tail cap d past
      \<le> max (cut_room cap - cut_room cap * 2 div 3) (length (takeWhile is_space (rev d))) + 3"
proof -
  let ?h = "cut_head cap d"
  show "?h \<le> max (cut_room cap * 2 div 3) (length (takeWhile is_space d))"
    using fit_head_spec(2) [of d] by (simp add: cut_head_def skip_space_def)
  have "utf8_text (drop ?h d)"
    using fit_head_spec(3) [OF assms(1)] utf8_text_drop [OF assms(1)] by (simp add: cut_head_def)
  note b = fit_tail_text(2) [OF this assms(2), of "cut_budget cap - cut_budget cap * 2 div 3" "cut_room cap - cut_room cap * 2 div 3"]
  have "?h \<le> length d" using fit_head_spec(1) by (simp add: cut_head_def)
  note tr = trailing_space_drop [OF this]
  show "length d - cut_tail cap d past
      \<le> max (cut_room cap - cut_room cap * 2 div 3) (length (takeWhile is_space (rev d))) + 3"
    using order_trans [OF b add_right_mono [OF max.mono [OF order_refl tr]]] by (simp add: cut_tail_def)
qed

text \<open>(bounds). With a cap of more than 1024 bytes, valid text that neither begins nor ends with more white space than a
  third of the room is cut to at most two bytes over the cap, whatever its length.\<close>

theorem cut_output_bound:
  assumes "cut_output t cap spool past d = (Some out, t')" "1024 < cap" "utf8_text d" "\<not> cont past"
    "3 * length (takeWhile is_space d) \<le> cap - 1024" "3 * length (takeWhile is_space (rev d)) \<le> cap - 1024"
  shows "length out \<le> cap + 2"
proof (cases "length d \<le> cap \<and> est_tokens d \<le> max (cap div 4) 1")
  case True
  then have "out = d" using cut_output_short [OF assms(1)] by blast
  then show ?thesis using True by simp
next
  case False
  have room: "cut_room cap = cap - 1024" using assms(2) by (simp add: cut_room_def)
  have third: "b \<le> r * 2 div 3 \<and> b \<le> r - r * 2 div 3" if "3 * b \<le> r" for b r :: nat using that by linarith
  have h: "cut_head cap d \<le> (cap - 1024) * 2 div 3"
    using cut_sizes(1) [OF assms(3,4), of cap] third [OF assms(5)] unfolding room by (simp only: max.absorb1)
  have t: "length d - cut_tail cap d past \<le> (cap - 1024) - (cap - 1024) * 2 div 3 + 3"
    using cut_sizes(2) [OF assms(3,4), of cap] third [OF assms(6)] unfolding room by (simp only: max.absorb1)
  note out = cut_output_long [OF assms(1) False]
  have "length out \<le> cut_head cap d + 1023 + (length d - cut_tail cap d past)"
    unfolding out using length_marker [of d "cut_head cap d" "cut_tail cap d past" "est_tokens d"]
    by (simp only: length_append length_take length_drop) (simp add: add_mono)
  also have "\<dots> \<le> (cap - 1024) * 2 div 3 + 1023 + ((cap - 1024) - (cap - 1024) * 2 div 3 + 3)"
    using h t by (intro add_mono order_refl)
  also have "\<dots> = cap + 2" using assms(2) by linarith
  finally show ?thesis .
qed

theorem cut_output_bound_witness:
  "\<exists>out. cut_output [] 2000 (\<lambda>_. None) 0 (replicate 3000 0x61) = (Some out, []) \<and> length out \<le> 2002"
proof -
  obtain out where o: "cut_output [] 2000 (\<lambda>_. None) 0 (replicate 3000 0x61) = (Some out, [])"
    using cut_output_succeeds by blast
  have "length out \<le> 2000 + 2"
  proof (rule cut_output_bound [OF o])
    show "utf8_text (replicate 3000 0x61)" by (rule ascii_text) (simp add: list_all_iff)
  qed (simp_all add: cont_def is_space_def takeWhile_replicate)
  then show ?thesis using o by auto
qed

text \<open>(error). White space is not counted by the budget of the head: output that is all white space and over the
  cap comes back whole, with the marker behind it, however long it is.\<close>

theorem cut_output_blank:
  assumes "cut_output t cap spool past (replicate n 0x20) = (Some out, t')" "cap < n"
  shows "n \<le> length out"
proof -
  let ?d = "replicate n 0x20 :: byte list"
  have sp: "skip_space ?d 0 = n" "skip_word ?d n = n" by (simp_all add: skip_space_def skip_word_def is_space_def takeWhile_replicate)
  have "cut_room cap * 2 div 3 \<le> cap" by (simp add: cut_room_def) linarith
  then have "cut_room cap * 2 div 3 < n" using assms(2) by simp
  then have "cut_head cap ?d = utf8_floor ?d n" using assms(2)
    unfolding cut_head_def fit_head_def by (subst head_loop.simps) (simp add: Let_def sp head_word.simps)
  then have h: "cut_head cap ?d = n" using assms(2) by (cases n) auto
  have "out = take (cut_head cap ?d) ?d @ cut_marker ?d (cut_head cap ?d) (cut_tail cap ?d past) (est_tokens ?d)
      (case spool ?d of None \<Rightarrow> [] | Some p \<Rightarrow> p) @ drop (cut_tail cap ?d past) ?d"
    by (rule cut_output_long [OF assms(1)]) (use assms(2) in simp)
  then show ?thesis unfolding h by simp
qed

theorem cut_output_blank_witness:
  "\<exists>out. cut_output [] 16 (\<lambda>_. None) 0 (replicate 40 0x20) = (Some out, []) \<and> 40 \<le> length out"
proof -
  obtain out where o: "cut_output [] 16 (\<lambda>_. None) 0 (replicate 40 0x20) = (Some out, [])"
    using cut_output_succeeds by blast
  have "40 \<le> length out" by (rule cut_output_blank [OF o]) simp
  then show ?thesis using o by auto
qed

section \<open>The scan for binary data\<close>

lemma lead_need:
  fixes b :: byte
  shows "(if b AND 0xE0 = 0xC0 then Some 1 else if b AND 0xF0 = 0xE0 then Some 2 else if b AND 0xF8 = 0xF0 then Some 3 else None)
    = (if 192 \<le> unat b \<and> unat b < 224 then Some (1 :: nat) else if 224 \<le> unat b \<and> unat b < 240 then Some 2
       else if 240 \<le> unat b \<and> unat b < 248 then Some 3 else None)"
  unfolding byte_masks by (rule refl)

lemma find_binary_lead:
  assumes "i < length d" "d ! i \<noteq> 0" "128 \<le> unat (d ! i)"
    "(if 192 \<le> unat (d ! i) \<and> unat (d ! i) < 224 then Some (1 :: nat) else if 224 \<le> unat (d ! i) \<and> unat (d ! i) < 240 then Some 2
       else if 240 \<le> unat (d ! i) \<and> unat (d ! i) < 248 then Some 3 else None) = Some n"
    "i + n < length d" "\<And>k. 0 < k \<Longrightarrow> k \<le> n \<Longrightarrow> cont (d ! (i + k))"
  shows "find_binary_from d i = find_binary_from d (i + n + 1)"
proof -
  have nle: "\<not> length d \<le> i + n" "\<not> d ! i < 0x80" using assms(3,5) by (simp_all add: special_bytes)
  have "list_all (\<lambda>k. cont (d ! (i + k))) [1..<Suc n]" using assms(6) by (auto simp: list_all_iff simp del: upt_Suc)
  then show ?thesis using assms(1,2) nle
    by (subst find_binary_from.simps) (simp only: Let_def lead_need assms(4) option.case if_True if_False cont_mask not_True_eq_False)
qed

lemma lead_byte:
  assumes "scalar c" "128 \<le> c"
  shows "128 \<le> unat (utf8_enc c ! 0)"
    "(let b = unat (utf8_enc c ! 0) in if 192 \<le> b \<and> b < 224 then Some (1 :: nat) else if 224 \<le> b \<and> b < 240 then Some 2
       else if 240 \<le> b \<and> b < 248 then Some 3 else None) = Some (length (utf8_enc c) - 1)"
proof -
  have top: "c < 1114112" using assms(1) by (auto simp: scalar_def)
  have d: "c < 2048 \<Longrightarrow> c div 64 < 32" "c < 65536 \<Longrightarrow> c div 4096 < 16" "c div 262144 < 8"
    using top by linarith+
  consider "c < 2048" | "2048 \<le> c" "c < 65536" | "65536 \<le> c" by linarith
  then show "128 \<le> unat (utf8_enc c ! 0)" by cases (use assms d in \<open>simp_all add: utf8_enc_def\<close>)
  consider "c < 2048" | "2048 \<le> c" "c < 65536" | "65536 \<le> c" by linarith
  then show "(let b = unat (utf8_enc c ! 0) in if 192 \<le> b \<and> b < 224 then Some (1 :: nat) else if 224 \<le> b \<and> b < 240 then Some 2
       else if 240 \<le> b \<and> b < 248 then Some 3 else None) = Some (length (utf8_enc c) - 1)"
    by cases (use assms d in \<open>simp_all add: utf8_enc_def Let_def\<close>)
qed

lemma find_binary_step:
  assumes "scalar c" "c \<noteq> 0"
  shows "find_binary_from (p @ utf8_enc c @ r) (length p) = find_binary_from (p @ utf8_enc c @ r) (length p + length (utf8_enc c))"
proof (cases "c < 128")
  case True
  then have u: "unat (nb c) = c" by simp
  then have "nb c \<noteq> 0" using assms(2) by (metis unat_0)
  then have z: "(p @ nb c # r) ! length p \<noteq> 0" "(p @ nb c # r) ! length p < 0x80" using True u by (simp_all add: special_bytes)
  show ?thesis using enc_1 [OF True] z
    by (subst find_binary_from.simps) (simp only: Let_def if_True if_False append.simps length_append length_Cons, simp)
next
  case False
  let ?e = "utf8_enc c" and ?d = "p @ utf8_enc c @ r"
  have l: "0 < length ?e" by simp
  then have n0: "?d ! length p = ?e ! 0" by (simp add: nth_append)
  note lead = lead_byte [OF assms(1)]
  have "find_binary_from ?d (length p) = find_binary_from ?d (length p + (length ?e - 1) + 1)"
  proof (rule find_binary_lead)
    show "128 \<le> unat (?d ! length p)" using False lead(1) n0 by simp
    then show "?d ! length p \<noteq> 0" by auto
    show "(if 192 \<le> unat (?d ! length p) \<and> unat (?d ! length p) < 224 then Some (1 :: nat)
       else if 224 \<le> unat (?d ! length p) \<and> unat (?d ! length p) < 240 then Some 2
       else if 240 \<le> unat (?d ! length p) \<and> unat (?d ! length p) < 248 then Some 3 else None) = Some (length ?e - 1)"
      unfolding n0 using lead(2) False by (simp only: Let_def not_less)
    show "cont (?d ! (length p + k))" if "0 < k" "k \<le> length ?e - 1" for k
    proof -
      have "k < length ?e" using that l by linarith
      then show ?thesis using enc_tail_cont [of k c] that(1) by (simp add: nth_append)
    qed
    show "length p < length ?d" by simp
    show "length p + (length ?e - 1) < length ?d" using l unfolding length_append by linarith
  qed
  then show ?thesis using l by (simp add: Suc_leI)
qed

lemma enc_no_nul: "scalar c \<Longrightarrow> c \<noteq> 0 \<Longrightarrow> 0 \<notin> set (utf8_enc c)"
proof
  assume c: "scalar c" "c \<noteq> 0" and "0 \<in> set (utf8_enc c)"
  then obtain k where k: "k < length (utf8_enc c)" "utf8_enc c ! k = 0" by (metis in_set_conv_nth)
  show False
  proof (cases k)
    case 0
    have "unat (utf8_enc c ! 0) \<noteq> 0" using c by (auto simp: utf8_enc_def scalar_def)
    then show False using k 0 by simp
  next
    case (Suc n)
    then have "cont (utf8_enc c ! k)" using enc_tail_cont k(1) by simp
    then show False using k(2) by (simp add: cont_def)
  qed
qed

lemma find_binary_append:
  "utf8_text s \<Longrightarrow> find_binary_from (p @ s) (length p) = length p + length (takeWhile (\<lambda>b. b \<noteq> 0) s)"
proof -
  have "list_all scalar cs \<Longrightarrow> find_binary_from (p @ concat (map utf8_enc cs)) (length p)
      = length p + length (takeWhile (\<lambda>b. b \<noteq> 0) (concat (map utf8_enc cs)))" for cs
  proof (induction cs arbitrary: p)
    case Nil
    then show ?case by (simp add: find_binary_from.simps)
  next
    case (Cons c cs)
    show ?case
    proof (cases "c = 0")
      case True
      then show ?thesis by (subst find_binary_from.simps) (simp add: enc_1 nth_append nb_def)
    next
      case False
      then have "b \<noteq> 0" if "b \<in> set (utf8_enc c)" for b using enc_no_nul Cons.prems that by force
      then have "takeWhile (\<lambda>b. b \<noteq> 0) (utf8_enc c @ s) = utf8_enc c @ takeWhile (\<lambda>b. b \<noteq> 0) s" for s
        by simp
      then show ?thesis using find_binary_step [of c p] False Cons by (simp flip: append_assoc length_append)
    qed
  qed
  then show "utf8_text s \<Longrightarrow> ?thesis" by (auto simp: utf8_text_def)
qed

text \<open>(functional). In valid UTF-8 text the scan stops at the first NUL byte and nowhere else: output is called binary
  exactly when it holds one.\<close>

theorem find_binary_text:
  assumes "utf8_text d"
  shows "find_binary_offset d = length (c_str d)"
  using find_binary_append [OF assms, of "[]"] by (simp add: find_binary_offset_def c_str_def)

theorem find_binary_text_witness:
  "find_binary_offset [0xE2, 0x82, 0xAC, 0x61] = length (c_str [0xE2, 0x82, 0xAC, 0x61])"
proof (rule find_binary_text)
  have "[0xE2, 0x82, 0xAC, 0x61] = utf8_enc 0x20AC @ utf8_enc 0x61 @ []" by (simp add: utf8_enc_def nb_def)
  then show "utf8_text [0xE2, 0x82, 0xAC, 0x61]"
    using utf8_text_enc [of "0x20AC", OF _ utf8_text_enc [of "0x61", OF _ utf8_text_Nil]] by (simp add: scalar_def)
qed

end
