(* ===== verification/Tool_Registry.thy ===== *)
theory Tool_Registry
  imports History Cjson
begin

text \<open>
  The registered tools of an agent, in \<^verbatim>\<open>libclm/tools.c\<close>: registration, lookup, removal and the schema sent to
  the model. Tool nodes live in a heap \<open>nodes\<close> (an entry \<open>None\<close> is freed memory); \<open>registry\<close> is the list
  \<^verbatim>\<open>agent->tools\<close> of the nodes that are linked. A node is unlinked when its tool is removed, and freed when no
  call refers to it any more. The calls out of the core (callbacks of tools, hooks and frontend) are recorded in
  \<open>trace\<close>; \<open>fault\<close> is set when code touches freed memory.
\<close>

section \<open>Nodes\<close>

text \<open>A tool call is named by its batch and its index there.\<close>

type_synonym iref = "nat \<times> nat"

datatype clm_tool_outcome = CLM_TOOL_OK | CLM_TOOL_FAILED | CLM_TOOL_TIMEDOUT

datatype event =
    Tool_detached nat
  | Completed iref
  | Tool_begin iref
  | Hook iref nat
  | Ask_permission iref
  | Invoke iref
  | Cancel_call iref
  | Tool_result iref clm_tool_outcome "byte list"
  | Batch_progress nat nat nat
  | Message_added clm_message
  | Chain_reset
  | Notice cstr
  | Tools_done nat "errno option"

record clm_tool =
  t_name :: cstr
  t_description :: "cstr option"
  params_schema :: "cstr option"
  t_detach :: bool
  t_output_cap :: nat
  t_timeout_ms :: nat
  t_flags :: u32
  remembered :: bool
  remember_allow :: bool
  removed :: bool
  inflight :: nat

text \<open>What a caller registers; callbacks are there or NULL.\<close>

record clm_tool_def =
  d_name :: "cstr option"
  d_description :: "cstr option"
  d_params_schema :: "cstr option"
  d_invoke :: bool
  d_detach :: bool
  d_output_cap :: nat
  d_timeout_ms :: nat
  d_flags :: u32

definition CLM_TOOL_TIMEOUT_OVERRIDABLE :: u32 where "CLM_TOOL_TIMEOUT_OVERRIDABLE = 1"
definition CLM_TOOL_OUTPUT_CAP_OVERRIDABLE :: u32 where "CLM_TOOL_OUTPUT_CAP_OVERRIDABLE = 2"
definition CLM_TOOL_NO_PROMPT :: u32 where "CLM_TOOL_NO_PROMPT = 4"
definition CLM_TOOL_HIDDEN :: u32 where "CLM_TOOL_HIDDEN = 8"
definition CLM_TOOL_VISION :: u32 where "CLM_TOOL_VISION = 16"

abbreviation has_flag :: "clm_tool \<Rightarrow> u32 \<Rightarrow> bool" where
  "has_flag t f \<equiv> t_flags t AND f \<noteq> 0"

record tool_registry =
  nodes :: "clm_tool option list"
  registry :: "nat list"
  tool_count :: nat
  mem :: tape
  trace :: "event list"
  fault :: bool

definition emit :: "event \<Rightarrow> 'a tool_registry_scheme \<Rightarrow> 'a tool_registry_scheme" where
  "emit e R = R\<lparr>trace := trace R @ [e]\<rparr>"

definition bad :: "'a tool_registry_scheme \<Rightarrow> 'a tool_registry_scheme" where
  "bad R = R\<lparr>fault := True\<rparr>"

text \<open>A node behind a pointer; \<open>None\<close> when it was freed.\<close>

definition node :: "'a tool_registry_scheme \<Rightarrow> nat \<Rightarrow> clm_tool option" where
  "node R n = (if n < length (nodes R) then nodes R ! n else None)"

definition upd_node :: "nat \<Rightarrow> (clm_tool \<Rightarrow> clm_tool) \<Rightarrow> 'a tool_registry_scheme \<Rightarrow> 'a tool_registry_scheme" where
  "upd_node n f R = (case node R n of None \<Rightarrow> bad R | Some t \<Rightarrow> R\<lparr>nodes := (nodes R)[n := Some (f t)]\<rparr>)"

section \<open>Registration\<close>

definition matches :: "'a tool_registry_scheme \<Rightarrow> cstr \<Rightarrow> nat \<Rightarrow> bool" where
  "matches R name n \<longleftrightarrow> (case node R n of None \<Rightarrow> False | Some t \<Rightarrow> \<not> removed t \<and> t_name t = name)"

definition find_tool :: "'a tool_registry_scheme \<Rightarrow> cstr \<Rightarrow> nat option" where
  "find_tool R name = find (matches R name) (registry R)"

definition clm_tool_add :: "clm_tool_def option \<Rightarrow> 'a tool_registry_scheme \<Rightarrow> (errno + unit) \<times> 'a tool_registry_scheme" where
  "clm_tool_add def0 R =
     (case def0 of None \<Rightarrow> (Inl EINVAL, R)
      | Some d \<Rightarrow> case d_name d of None \<Rightarrow> (Inl EINVAL, R)
      | Some nm \<Rightarrow>
        if \<not> d_invoke d then (Inl EINVAL, R)
        else if find_tool R nm \<noteq> None then (Inl EEXIST, R)
        else let (ok, t0) = alloc (mem R) in
        if \<not> ok then (Inl ENOMEM, R\<lparr>mem := t0\<rparr>)
        else let (ok1, t1) = alloc t0;
                 (ok2, t2) = opt_strdup t1 (d_description d);
                 (ok3, t3) = opt_strdup t2 (d_params_schema d) in
        if \<not> ok1 \<or> \<not> ok2 \<or> \<not> ok3 then (Inl ENOMEM, R\<lparr>mem := t3\<rparr>)
        else (Inr (), R\<lparr>
            nodes := nodes R @ [Some \<lparr>t_name = nm, t_description = d_description d, params_schema = d_params_schema d,
              t_detach = d_detach d, t_output_cap = d_output_cap d, t_timeout_ms = d_timeout_ms d, t_flags = d_flags d,
              remembered = False, remember_allow = False, removed = False, inflight = 0\<rparr>],
            registry := registry R @ [length (nodes R)], tool_count := tool_count R + 1, mem := t3\<rparr>))"

text \<open>The detach callback of a tool runs once.\<close>

definition tool_detach :: "nat \<Rightarrow> 'a tool_registry_scheme \<Rightarrow> 'a tool_registry_scheme" where
  "tool_detach n R =
     (case node R n of None \<Rightarrow> bad R
      | Some t \<Rightarrow> if \<not> t_detach t then R else upd_node n (\<lambda>t. t\<lparr>t_detach := False\<rparr>) (emit (Tool_detached n) R))"

definition tool_node_free :: "nat \<Rightarrow> 'a tool_registry_scheme \<Rightarrow> 'a tool_registry_scheme" where
  "tool_node_free n R = (let R' = tool_detach n R in R'\<lparr>nodes := (nodes R')[n := None]\<rparr>)"

definition clm_tool_remove :: "cstr option \<Rightarrow> 'a tool_registry_scheme \<Rightarrow> (errno + unit) \<times> 'a tool_registry_scheme" where
  "clm_tool_remove name0 R =
     (case name0 of None \<Rightarrow> (Inl EINVAL, R)
      | Some name \<Rightarrow>
        case find (matches R name) (registry R) of None \<Rightarrow> (Inl ENOENT, R)
        | Some n \<Rightarrow>
          let R1 = tool_detach n R;
              R2 = R1\<lparr>registry := remove1 n (registry R1), tool_count := tool_count R1 - 1\<rparr> in
          (Inr (), case node R2 n of None \<Rightarrow> bad R2
             | Some t \<Rightarrow> if inflight t = 0 then tool_node_free n R2 else upd_node n (\<lambda>t. t\<lparr>removed := True\<rparr>) R2))"

definition clm_tools_free_registry :: "'a tool_registry_scheme \<Rightarrow> 'a tool_registry_scheme" where
  "clm_tools_free_registry R = foldl (\<lambda>R n. tool_node_free n (R\<lparr>registry := remove1 n (registry R)\<rparr>)) R (registry R)"

text \<open>A call takes and releases its pin on the node of its tool.\<close>

definition pin :: "nat \<Rightarrow> 'a tool_registry_scheme \<Rightarrow> 'a tool_registry_scheme" where
  "pin n R = upd_node n (\<lambda>t. t\<lparr>inflight := inflight t + 1\<rparr>) R"

definition unpin :: "nat \<Rightarrow> 'a tool_registry_scheme \<Rightarrow> 'a tool_registry_scheme" where
  "unpin n R =
     (let R1 = upd_node n (\<lambda>t. t\<lparr>inflight := inflight t - 1\<rparr>) R in
      case node R1 n of None \<Rightarrow> R1
      | Some t \<Rightarrow> if removed t \<and> inflight t = 0 then tool_node_free n R1 else R1)"

section \<open>The schema sent to the model\<close>

definition int_prop :: "'j cjson_api \<Rightarrow> tape \<Rightarrow> cstr \<Rightarrow> 'j option \<times> tape" where
  "int_prop J t desc =
     (case cj_create t (cj_object J) of (None, t1) \<Rightarrow> (None, t1)
      | (Some ob, t1) \<Rightarrow>
        let (ty, t2) = cj_create t1 (cj_string J (lit ''integer''));
            (ds, t3) = cj_create t2 (cj_string J desc) in
        (Some (cj_add_opt J (cj_add_opt J ob (lit ''type'') ty) (lit ''description'') ds), t3))"

definition inject_prop :: "'j cjson_api \<Rightarrow> tape \<Rightarrow> 'j \<Rightarrow> cstr \<Rightarrow> cstr \<Rightarrow> 'j \<times> tape" where
  "inject_prop J t props name desc =
     (if cj_get J props name \<noteq> None then (props, t)
      else let (p, t1) = int_prop J t desc in (cj_add_opt J props name p, t1))"

text \<open>
  The parameters object of a tool: its own schema if it parses to an object with a type, else an empty object.
  \<^verbatim>\<open>properties\<close> is changed in place; when it was missing it is a new object, added before it is filled.
\<close>

definition tool_params :: "'j cjson_api \<Rightarrow> tape \<Rightarrow> clm_tool \<Rightarrow> 'j option \<times> tape" where
  "tool_params J t tool =
     (let (parsed, t0) = (case params_schema tool of None \<Rightarrow> (None, t)
            | Some s \<Rightarrow> let (ok, t') = alloc t in (if ok then cj_parse J s else None, t'));
          (params0, t1) = (case parsed of
              Some p \<Rightarrow> if cj_get_ci J p (lit ''type'') = None then cj_create t0 (cj_object J) else (Some p, t0)
            | None \<Rightarrow> cj_create t0 (cj_object J)) in
      case params0 of None \<Rightarrow> (None, t1)
      | Some params \<Rightarrow>
        let (params, t2) = (if cj_get J params (lit ''type'') = None
               then (let (s, t') = cj_create t1 (cj_string J (lit ''object'')) in (cj_add_opt J params (lit ''type'') s, t'))
               else (params, t1));
            (params1, t3) = (case cj_get J params (lit ''properties'') of Some _ \<Rightarrow> (Some params, t2)
               | None \<Rightarrow> case cj_create t2 (cj_object J) of (None, t') \<Rightarrow> (None, t')
                 | (Some ob, t') \<Rightarrow> (Some (cj_add J params (lit ''properties'') ob), t')) in
        case params1 of None \<Rightarrow> (None, t3)
        | Some params \<Rightarrow>
          let props = the (cj_get J params (lit ''properties''));
              (props, t4) = (if has_flag tool CLM_TOOL_TIMEOUT_OVERRIDABLE
                 then inject_prop J t3 props (lit ''timeout_ms'') (lit ''optional: max milliseconds before this call is aborted'')
                 else (props, t3));
              (props, t5) = (if has_flag tool CLM_TOOL_OUTPUT_CAP_OVERRIDABLE
                 then inject_prop J t4 props (lit ''output_cap'') (lit ''optional: max bytes of output to return'')
                 else (props, t4)) in
          (Some (cj_put J params (lit ''properties'') props), t5))"

definition tool_schema :: "'j cjson_api \<Rightarrow> tape \<Rightarrow> clm_tool \<Rightarrow> 'j option \<times> tape" where
  "tool_schema J t d =
     (case cj_create t (cj_object J) of (None, t1) \<Rightarrow> (None, t1)
      | (Some tool, t1) \<Rightarrow>
        let (ty, t2) = cj_create t1 (cj_string J (lit ''function''));
            tool = cj_add_opt J tool (lit ''type'') ty in
        case cj_create t2 (cj_object J) of (None, t3) \<Rightarrow> (None, t3)
        | (Some func, t3) \<Rightarrow>
          let (nm, t4) = cj_create t3 (cj_string J (t_name d));
              (ds, t5) = cj_create t4 (cj_string J (case t_description d of None \<Rightarrow> [] | Some s \<Rightarrow> s));
              func = cj_add_opt J (cj_add_opt J func (lit ''name'') nm) (lit ''description'') ds in
          case tool_params J t5 d of (None, t6) \<Rightarrow> (None, t6)
          | (Some params, t6) \<Rightarrow> (Some (cj_add J tool (lit ''function'') (cj_add J func (lit ''parameters'') params)), t6))"

text \<open>Whether a tool is shown to the model: \<open>vision\<close> is negative for a model known not to take images.\<close>

definition advertised :: "int \<Rightarrow> clm_tool \<Rightarrow> bool" where
  "advertised vision t \<longleftrightarrow> \<not> (removed t \<or> has_flag t CLM_TOOL_HIDDEN) \<and> \<not> (has_flag t CLM_TOOL_VISION \<and> vision < 0)"

fun schema_loop :: "'j cjson_api \<Rightarrow> int \<Rightarrow> tape \<Rightarrow> 'j \<Rightarrow> clm_tool list \<Rightarrow> 'j \<times> tape" where
  "schema_loop J vision t arr [] = (arr, t)"
| "schema_loop J vision t arr (tool # tools) =
     (if \<not> advertised vision tool then schema_loop J vision t arr tools
      else case tool_schema J t tool of
          (None, t1) \<Rightarrow> schema_loop J vision t1 arr tools
        | (Some sch, t1) \<Rightarrow> schema_loop J vision t1 (cj_push J arr sch) tools)"

definition linked_tools :: "'a tool_registry_scheme \<Rightarrow> clm_tool list" where
  "linked_tools R = List.map_filter (node R) (registry R)"

definition clm_tools_build_schema :: "'j cjson_api \<Rightarrow> int \<Rightarrow> 'a tool_registry_scheme \<Rightarrow> 'j option \<times> tape" where
  "clm_tools_build_schema J vision R =
     (case cj_create (mem R) (cj_array J) of (None, t1) \<Rightarrow> (None, t1)
      | (Some arr, t1) \<Rightarrow> let (a, t2) = schema_loop J vision t1 arr (linked_tools R) in (Some a, t2))"

section \<open>The state of the registry\<close>

text \<open>
  The linked nodes are distinct, alive, not marked removed and have different names; a node that is alive but
  not linked is marked removed and still has a call.
\<close>

definition reg_ok :: "'a tool_registry_scheme \<Rightarrow> bool" where
  "reg_ok R \<longleftrightarrow> distinct (registry R) \<and> tool_count R = length (registry R)
     \<and> (\<forall>n \<in> set (registry R). \<exists>t. node R n = Some t \<and> \<not> removed t)
     \<and> (\<forall>n t. node R n = Some t \<longrightarrow> n \<notin> set (registry R) \<longrightarrow> removed t \<and> 0 < inflight t)
     \<and> inj_on (\<lambda>n. map_option t_name (node R n)) (set (registry R))"

lemma node_len: "node R n = Some t \<Longrightarrow> n < length (nodes R)"
  by (auto simp: node_def split: if_splits)

lemma emit_simps [simp]:
  "node (emit e R) = node R" "registry (emit e R) = registry R" "tool_count (emit e R) = tool_count R"
  "fault (emit e R) = fault R" "nodes (emit e R) = nodes R" "trace (emit e R) = trace R @ [e]" "mem (emit e R) = mem R"
  by (auto simp: emit_def node_def)

lemma node_links [simp]: "node (R\<lparr>registry := l\<rparr>) = node R" "node (R\<lparr>tool_count := c\<rparr>) = node R"
  "node (R\<lparr>trace := tr\<rparr>) = node R" "node (R\<lparr>fault := b\<rparr>) = node R"
  by (auto simp: node_def)

lemma upd_node_simps:
  assumes "node R n = Some t"
  shows "node (upd_node n f R) m = (if m = n then Some (f t) else node R m)" "registry (upd_node n f R) = registry R"
    "tool_count (upd_node n f R) = tool_count R" "fault (upd_node n f R) = fault R" "trace (upd_node n f R) = trace R"
    "length (nodes (upd_node n f R)) = length (nodes R)"
  using assms node_len [OF assms] by (auto simp: upd_node_def node_def nth_list_update)

lemma tool_detach_simps:
  assumes "node R n = Some t"
  shows "node (tool_detach n R) m = (if m = n then Some (t\<lparr>t_detach := False\<rparr>) else node R m)"
    "registry (tool_detach n R) = registry R" "tool_count (tool_detach n R) = tool_count R"
    "fault (tool_detach n R) = fault R" "length (nodes (tool_detach n R)) = length (nodes R)"
  using assms by (auto simp: tool_detach_def upd_node_simps)

lemma tool_node_free_simps:
  assumes "node R n = Some t"
  shows "node (tool_node_free n R) m = (if m = n then None else node R m)" "registry (tool_node_free n R) = registry R"
    "tool_count (tool_node_free n R) = tool_count R" "fault (tool_node_free n R) = fault R"
proof -
  have n: "n < length (nodes (tool_detach n R))" using tool_detach_simps(5) [OF assms] node_len [OF assms] by simp
  show "node (tool_node_free n R) m = (if m = n then None else node R m)"
    using tool_detach_simps(1) [OF assms, of m] n
    by (cases "m = n") (auto simp: tool_node_free_def Let_def node_def nth_list_update split: if_splits)
qed (simp_all add: tool_node_free_def Let_def tool_detach_simps [OF assms])

lemma find_tool_Some:
  assumes "find_tool R name = Some n"
  shows "n \<in> set (registry R)" "\<exists>t. node R n = Some t \<and> \<not> removed t \<and> t_name t = name"
proof -
  obtain i where "i < length (registry R)" "matches R name n" "n = registry R ! i"
    using assms unfolding find_tool_def find_Some_iff by auto
  then show "n \<in> set (registry R)" "\<exists>t. node R n = Some t \<and> \<not> removed t \<and> t_name t = name"
    by (auto simp: matches_def split: option.splits)
qed

lemma find_tool_None: "find_tool R name = None \<longleftrightarrow> (\<forall>n \<in> set (registry R). \<not> matches R name n)"
  by (auto simp: find_tool_def find_None_iff)

lemma find_tool_iff:
  assumes "reg_ok R"
  shows "find_tool R name = Some n \<longleftrightarrow> n \<in> set (registry R) \<and> map_option t_name (node R n) = Some name"
proof
  assume r: "n \<in> set (registry R) \<and> map_option t_name (node R n) = Some name"
  then have m: "matches R name n" using assms by (auto simp: reg_ok_def matches_def split: option.splits)
  then obtain k where k: "find_tool R name = Some k" using r find_tool_None [of R name] by (cases "find_tool R name") auto
  have "map_option t_name (node R k) = Some name" using find_tool_Some(2) [OF k] by auto
  then have "k = n" using find_tool_Some(1) [OF k] r assms unfolding reg_ok_def by (metis inj_onD)
  then show "find_tool R name = Some n" using k by simp
qed (use find_tool_Some in fastforce)

lemma tool_add_cases:
  assumes "clm_tool_add d R = (r, R')"
  obtains (err) e t where "r = Inl e" "R' = R\<lparr>mem := t\<rparr>"
  | (ok) d0 nm t tl where "d = Some d0" "d_name d0 = Some nm" "r = Inr ()" "find_tool R nm = None" "t_name tl = nm" "\<not> removed tl"
      "inflight tl = 0" "\<not> remembered tl"
      "R' = R\<lparr>nodes := nodes R @ [Some tl], registry := registry R @ [length (nodes R)], tool_count := tool_count R + 1, mem := t\<rparr>"
proof -
  have self: "R = R\<lparr>mem := mem R\<rparr>" by simp
  show thesis
  proof (cases d)
    case None
    then show thesis using assms err [of EINVAL "mem R"] self by (simp add: clm_tool_add_def)
  next
    case d: (Some d0)
    show thesis
    proof (cases "d_name d0 = None \<or> \<not> d_invoke d0 \<or> find_tool R (the (d_name d0)) \<noteq> None")
      case True
      then have "(\<exists>e. r = Inl e) \<and> R' = R" using assms d by (auto simp: clm_tool_add_def split: option.splits if_splits)
      then show thesis using err self by metis
    next
      case False
      then obtain nm where nm: "d_name d0 = Some nm" "d_invoke d0" "find_tool R nm = None" by auto
      obtain b0 t0 where a0: "alloc (mem R) = (b0, t0)" by fastforce
      obtain b1 t1 where a1: "alloc t0 = (b1, t1)" by fastforce
      obtain b2 t2 where a2: "opt_strdup t1 (d_description d0) = (b2, t2)" by fastforce
      obtain b3 t3 where a3: "opt_strdup t2 (d_params_schema d0) = (b3, t3)" by fastforce
      note eval = clm_tool_add_def d nm a0 a1 a2 a3 Let_def
      show thesis
      proof (cases "b0 \<and> b1 \<and> b2 \<and> b3")
        case True
        then show thesis using assms by (intro ok [OF d nm(1) _ nm(3)]) (auto simp: eval)
      next
        case False
        then have "(\<exists>e. r = Inl e) \<and> (\<exists>t. R' = R\<lparr>mem := t\<rparr>)" using assms by (auto simp: eval split: if_splits)
        then show thesis using err by blast
      qed
    qed
  qed
qed

lemma node_mem [simp]: "node (R\<lparr>mem := t\<rparr>) = node R" "matches (R\<lparr>mem := t\<rparr>) = matches R"
  "find_tool (R\<lparr>mem := t\<rparr>) = find_tool R" "reg_ok (R\<lparr>mem := t\<rparr>) = reg_ok R"
proof -
  show n: "node (R\<lparr>mem := t\<rparr>) = node R" by (auto simp: node_def)
  show m: "matches (R\<lparr>mem := t\<rparr>) = matches R" by (intro ext) (simp add: matches_def n)
  show "find_tool (R\<lparr>mem := t\<rparr>) = find_tool R" "reg_ok (R\<lparr>mem := t\<rparr>) = reg_ok R" by (auto simp: find_tool_def m reg_ok_def n)
qed

lemma registry_len: "reg_ok R \<Longrightarrow> n \<in> set (registry R) \<Longrightarrow> n < length (nodes R)"
  by (auto simp: reg_ok_def dest!: node_len)

lemma reg_ok_add:
  assumes "reg_ok R" "clm_tool_add d R = (r, R')"
  shows "reg_ok R'"
  using assms(2)
proof (cases rule: tool_add_cases)
  case err
  then show ?thesis using assms(1) by simp
next
  case (ok d0 nm t tl)
  have nd: "node R' m = (if m = length (nodes R) then Some tl else node R m)" for m
    using ok(9) by (auto simp: node_def nth_append)
  have l: "n < length (nodes R)" if "n \<in> set (registry R)" for n using registry_len [OF assms(1) that] .
  have fresh: "map_option t_name (node R n) \<noteq> Some nm" if "n \<in> set (registry R)" for n
    using ok(4) find_tool_iff [OF assms(1), of nm n] that by auto
  have r: "registry R' = registry R @ [length (nodes R)]" "tool_count R' = tool_count R + 1" using ok(9) by simp_all
  show ?thesis unfolding reg_ok_def nd r
  proof (intro conjI)
    show "distinct (registry R @ [length (nodes R)])" using assms(1) l by (auto simp: reg_ok_def)
    show "\<forall>n\<in>set (registry R @ [length (nodes R)]). \<exists>t. (if n = length (nodes R) then Some tl else node R n) = Some t \<and> \<not> removed t"
      using assms(1) ok(6) by (auto simp: reg_ok_def)
    show "\<forall>n t. (if n = length (nodes R) then Some tl else node R n) = Some t \<longrightarrow>
        n \<notin> set (registry R @ [length (nodes R)]) \<longrightarrow> removed t \<and> 0 < inflight t"
      using assms(1) by (auto simp: reg_ok_def)
    have i: "inj_on (\<lambda>n. map_option t_name (node R n)) (set (registry R))" using assms(1) by (simp add: reg_ok_def)
    let ?g = "\<lambda>n. map_option t_name (if n = length (nodes R) then Some tl else node R n)"
    have "inj_on ?g (set (registry R)) = inj_on (\<lambda>n. map_option t_name (node R n)) (set (registry R))"
      by (rule inj_on_cong) (use l in auto)
    moreover have "Some nm \<notin> (\<lambda>n. map_option t_name (node R n)) ` set (registry R)"
    proof
      assume "Some nm \<in> (\<lambda>n. map_option t_name (node R n)) ` set (registry R)"
      then obtain m where "Some nm = map_option t_name (node R m)" "m \<in> set (registry R)" by (rule imageE)
      then show False using fresh [of m] by simp
    qed
    moreover have "length (nodes R) \<notin> set (registry R)" using l by auto
    moreover have "?g ` set (registry R) = (\<lambda>n. map_option t_name (node R n)) ` set (registry R)"
      by (rule image_cong) (use l in auto)
    ultimately show "inj_on ?g (set (registry R @ [length (nodes R)]))" using i ok(5) by simp
  qed (use assms(1) in \<open>simp add: reg_ok_def\<close>)
qed

text \<open>A change to one linked node that keeps its name and mark keeps the registry in order.\<close>

lemma reg_ok_node:
  assumes "reg_ok R" "\<And>m. m \<noteq> n \<Longrightarrow> node R' m = node R m" "registry R' = registry R" "tool_count R' = tool_count R"
    "node R n = Some t" "node R' n = Some t'" "t_name t' = t_name t" "removed t' = removed t" "removed t \<longrightarrow> 0 < inflight t'"
  shows "reg_ok R'"
proof -
  have nm: "map_option t_name (node R' m) = map_option t_name (node R m)" for m using assms(2,5-7) by (cases "m = n") auto
  have rm: "(\<exists>t. node R' m = Some t \<and> \<not> removed t) = (\<exists>t. node R m = Some t \<and> \<not> removed t)" for m
    using assms(2,5,6,8) by (cases "m = n") auto
  show ?thesis unfolding reg_ok_def assms(3,4) nm rm
  proof (intro conjI)
    show "\<forall>n t. node R' n = Some t \<longrightarrow> n \<notin> set (registry R) \<longrightarrow> removed t \<and> 0 < inflight t"
    proof (intro allI impI)
      fix m u assume "node R' m = Some u" "m \<notin> set (registry R)"
      then show "removed u \<and> 0 < inflight u" using assms by (cases "m = n") (auto simp: reg_ok_def)
    qed
  qed (use assms(1) in \<open>simp_all add: reg_ok_def\<close>)
qed

text \<open>Taking a node out of the list, freed or marked removed.\<close>

lemma reg_ok_unlink:
  assumes "reg_ok R" "n \<in> set (registry R)" "\<And>m. m \<noteq> n \<Longrightarrow> node R' m = node R m" "registry R' = remove1 n (registry R)"
    "tool_count R' = tool_count R - 1" "\<And>t. node R' n = Some t \<Longrightarrow> removed t \<and> 0 < inflight t"
  shows "reg_ok R'"
proof -
  have d: "distinct (registry R)" using assms(1) by (simp add: reg_ok_def)
  have s: "set (registry R') = set (registry R) - {n}" using d assms(4) by simp
  have eq: "node R' m = node R m" if "m \<in> set (registry R')" for m using that s assms(3) by auto
  have "inj_on (\<lambda>n. map_option t_name (node R' n)) (set (registry R')) = inj_on (\<lambda>n. map_option t_name (node R n)) (set (registry R'))"
    by (rule inj_on_cong) (simp add: eq)
  moreover have "inj_on (\<lambda>n. map_option t_name (node R n)) (set (registry R'))"
    by (rule inj_on_subset [of _ "set (registry R)"]) (use assms(1) s in \<open>auto simp: reg_ok_def\<close>)
  moreover have "tool_count R' = length (registry R')"
    using assms(1,2,4,5) by (simp add: reg_ok_def length_remove1)
  moreover have "\<forall>m\<in>set (registry R'). \<exists>t. node R' m = Some t \<and> \<not> removed t" using eq assms(1) s by (auto simp: reg_ok_def)
  moreover have "removed t \<and> 0 < inflight t" if "node R' m = Some t" "m \<notin> set (registry R')" for m t
    using that assms(1,3,6) s by (cases "m = n") (auto simp: reg_ok_def)
  ultimately show ?thesis using d assms(4) unfolding reg_ok_def by auto
qed

lemma tool_remove_cases:
  assumes "reg_ok R" "clm_tool_remove nm R = (r, R')"
  obtains (err) e where "r = Inl e" "R' = R" "\<And>name. nm = Some name \<Longrightarrow> find_tool R name = None"
  | (ok) name n t where "nm = Some name" "r = Inr ()" "find_tool R name = Some n" "n \<in> set (registry R)" "node R n = Some t"
      "\<And>m. m \<noteq> n \<Longrightarrow> node R' m = node R m" "registry R' = remove1 n (registry R)" "tool_count R' = tool_count R - 1"
      "fault R' = fault R"
      "node R' n = (if inflight t = 0 then None else Some (t\<lparr>t_detach := False, removed := True\<rparr>))"
proof (cases "nm = None \<or> find_tool R (the nm) = None")
  case True
  then have "(\<exists>e. r = Inl e) \<and> R' = R" using assms(2) by (auto simp: clm_tool_remove_def find_tool_def split: option.splits)
  then obtain e where "r = Inl e" "R' = R" by blast
  then show thesis by (rule err) (use True in auto)
next
  case False
  then obtain name n where nm: "nm = Some name" "find_tool R name = Some n" by auto
  obtain t where t: "node R n = Some t" using find_tool_Some(2) [OF nm(2)] by auto
  define R2 where "R2 = (tool_detach n R)\<lparr>registry := remove1 n (registry R), tool_count := tool_count R - 1\<rparr>"
  have r2: "registry R2 = remove1 n (registry R)" "tool_count R2 = tool_count R - 1" "fault R2 = fault R"
    by (simp_all add: R2_def tool_detach_simps [OF t])
  have n2: "node R2 m = (if m = n then Some (t\<lparr>t_detach := False\<rparr>) else node R m)" for m
    using tool_detach_simps(1) [OF t, of m] by (simp add: R2_def)
  have eq: "r = Inr ()" "R' = (if inflight t = 0 then tool_node_free n R2 else upd_node n (\<lambda>t. t\<lparr>removed := True\<rparr>) R2)"
    using assms(2) nm n2 [of n]
    by (auto simp: clm_tool_remove_def find_tool_def [symmetric] Let_def tool_detach_simps [OF t] R2_def [symmetric, unfolded One_nat_def])
  have n2n: "node R2 n = Some (t\<lparr>t_detach := False\<rparr>)" using n2 by simp
  note sf = tool_node_free_simps [OF n2n] and su = upd_node_simps [OF n2n]
  show thesis
  proof (rule ok [OF nm(1) eq(1) nm(2) find_tool_Some(1) [OF nm(2)] t])
    show "node R' m = node R m" if "m \<noteq> n" for m using eq(2) that n2 [of m] by (auto simp: sf su)
    show "registry R' = remove1 n (registry R)" "tool_count R' = tool_count R - 1" "fault R' = fault R"
      using eq(2) r2 by (auto simp: sf su)
    show "node R' n = (if inflight t = 0 then None else Some (t\<lparr>t_detach := False, removed := True\<rparr>))"
      using eq(2) by (auto simp: sf su)
  qed
qed

lemma reg_ok_remove:
  assumes "reg_ok R" "clm_tool_remove nm R = (r, R')"
  shows "reg_ok R'"
  using assms
proof (cases rule: tool_remove_cases)
  case (ok name n t)
  show ?thesis by (rule reg_ok_unlink [OF assms(1) ok(4,6-8)]) (use ok(10) in \<open>auto split: if_splits\<close>)
qed (use assms in simp)

section \<open>Lookup after registration and removal\<close>

text \<open>C25 (functional). A tool that was registered is found under its name, and was not there before; every other name finds what
  it found before.\<close>

theorem registry_add_find:
  assumes "reg_ok R" "clm_tool_add (Some d) R = (Inr (), R')" "d_name d = Some name"
  shows "find_tool R name = None \<and> find_tool R' name = Some (length (nodes R))
    \<and> (\<forall>other. other \<noteq> name \<longrightarrow> find_tool R' other = find_tool R other)"
  using assms(2)
proof (cases rule: tool_add_cases)
  case (ok d0 nm t tl)
  then have nm: "nm = name" using assms(3) by simp
  note ok' = reg_ok_add [OF assms(1,2)]
  have nd: "node R' m = (if m = length (nodes R) then Some tl else node R m)" for m
    using ok(9) by (auto simp: node_def nth_append)
  have "find_tool R' other = find_tool R other" if "other \<noteq> name" for other
  proof -
    have "find_tool R' other = Some n \<longleftrightarrow> find_tool R other = Some n" for n
      unfolding find_tool_iff [OF assms(1)] find_tool_iff [OF ok'] nd
      using that ok(5,9) nm registry_len [OF assms(1), of n] by auto
    then show ?thesis by (metis not_Some_eq)
  qed
  moreover have "find_tool R' name = Some (length (nodes R))" unfolding find_tool_iff [OF ok'] nd using ok(5,9) nm by simp
  ultimately show ?thesis using ok(4) nm by simp
qed simp

definition empty_registry :: tool_registry where
  "empty_registry = \<lparr>nodes = [], registry = [], tool_count = 0, mem = [], trace = [], fault = False\<rparr>"

definition plain_def :: "cstr \<Rightarrow> clm_tool_def" where
  "plain_def name = \<lparr>d_name = Some name, d_description = None, d_params_schema = None, d_invoke = True, d_detach = False,
     d_output_cap = 0, d_timeout_ms = 0, d_flags = 0\<rparr>"

lemma empty_registry_ok: "reg_ok empty_registry"
  by (simp add: reg_ok_def empty_registry_def node_def)

lemma add_plain: "fst (clm_tool_add (Some (plain_def name)) empty_registry) = Inr ()"
  by (simp add: clm_tool_add_def plain_def_def empty_registry_def find_tool_def Let_def opt_strdup_def)

theorem registry_add_find_witness:
  "find_tool (snd (clm_tool_add (Some (plain_def (lit ''ls''))) empty_registry)) (lit ''ls'') = Some 0"
proof -
  have "clm_tool_add (Some (plain_def (lit ''ls''))) empty_registry
      = (Inr (), snd (clm_tool_add (Some (plain_def (lit ''ls''))) empty_registry))" using add_plain by (metis prod.collapse)
  from registry_add_find [OF empty_registry_ok this] show ?thesis by (simp add: plain_def_def empty_registry_def del: lit_Cons)
qed

text \<open>(safety). A tool that was removed is not found any more and every other name finds what it found before. The node of the
  removed tool is freed exactly when no call is in flight on it; otherwise it stays, marked removed.\<close>

theorem registry_remove_find:
  assumes "reg_ok R" "clm_tool_remove (Some name) R = (Inr (), R')"
  shows "\<exists>n t. find_tool R name = Some n \<and> node R n = Some t \<and> find_tool R' name = None
    \<and> (node R' n = None \<longleftrightarrow> inflight t = 0) \<and> (\<forall>t'. node R' n = Some t' \<longrightarrow> removed t' \<and> inflight t' = inflight t)
    \<and> (\<forall>other. other \<noteq> name \<longrightarrow> find_tool R' other = find_tool R other)"
  using assms
proof (cases rule: tool_remove_cases)
  case (ok nm n t)
  note ok' = reg_ok_remove [OF assms]
  have d: "distinct (registry R)" using assms(1) by (simp add: reg_ok_def)
  have in': "m \<in> set (registry R') \<longleftrightarrow> m \<in> set (registry R) \<and> m \<noteq> n" for m using ok(7) d by auto
  have name: "map_option t_name (node R n) = Some name" using ok(1,3) find_tool_iff [OF assms(1)] by auto
  have same: "find_tool R' other = Some m \<longleftrightarrow> find_tool R other = Some m \<and> m \<noteq> n" for other m
    unfolding find_tool_iff [OF assms(1)] find_tool_iff [OF ok'] in' using ok(6) [of m] by (cases "m = n") simp_all
  have none: "find_tool R' name = None" using same [of name] ok(1,3) by (metis not_Some_eq option.inject)
  have "find_tool R' other = find_tool R other" if "other \<noteq> name" for other
  proof -
    have "find_tool R other \<noteq> Some n" unfolding find_tool_iff [OF assms(1)] using name that by auto
    then show ?thesis using same [of other] by (metis not_Some_eq)
  qed
  then show ?thesis using ok(1,3,5,10) none by (intro exI [of _ n] exI [of _ t]) auto
qed simp

theorem registry_remove_find_witness:
  "let R = snd (clm_tool_add (Some (plain_def (lit ''ls''))) empty_registry) in
     find_tool (snd (clm_tool_remove (Some (lit ''ls'')) R)) (lit ''ls'') = None"
proof -
  let ?R = "snd (clm_tool_add (Some (plain_def (lit ''ls''))) empty_registry)"
  have a: "clm_tool_add (Some (plain_def (lit ''ls''))) empty_registry = (Inr (), ?R)" using add_plain by (metis prod.collapse)
  have r: "reg_ok ?R" by (rule reg_ok_add [OF empty_registry_ok a])
  have "matches ?R (lit ''ls'') 0" "registry ?R = [0]"
    by (simp_all add: clm_tool_add_def plain_def_def empty_registry_def find_tool_def Let_def opt_strdup_def matches_def node_def)
  then have "fst (clm_tool_remove (Some (lit ''ls'')) ?R) = Inr ()" by (simp add: clm_tool_remove_def Let_def del: lit_Cons)
  then have "clm_tool_remove (Some (lit ''ls'')) ?R = (Inr (), snd (clm_tool_remove (Some (lit ''ls'')) ?R))"
    by (metis prod.collapse)
  from registry_remove_find [OF r this] show ?thesis unfolding Let_def by blast
qed

end
