(* ===== verification/Tool_Schema.thy ===== *)
theory Tool_Schema
  imports Tool_Registry
begin

text \<open>What the schema of \<^verbatim>\<open>clm_tools_build_schema\<close> (\<^verbatim>\<open>libclm/tools.c\<close>) tells the model, over the laws of cJSON.\<close>

context cjson_laws
begin

text \<open>A parameters object names a type, as every provider requires.\<close>

lemma tool_params_ok:
  "\<exists>p. tool_params J [] t = (Some p, []) \<and> cj_get J p (lit ''type'') \<noteq> None \<and> cj_get J p (lit ''properties'') \<noteq> None"
proof -
  have create [simp]: "cj_create [] j = (Some j, [])" for j :: 'j by (simp add: cj_create_def)
  have inj: "\<exists>q. inject_prop J [] p a b = (q, [])" for p a b by (auto simp: inject_prop_def int_prop_def Let_def)
  have ne: "lit ''type'' \<noteq> lit ''properties''" by simp
  define P where "P = (case params_schema t of None \<Rightarrow> None | Some s \<Rightarrow> cj_parse J s)"
  define p0 where "p0 = (case P of Some p \<Rightarrow> if cj_get_ci J p (lit ''type'') = None then cj_object J else p | None \<Rightarrow> cj_object J)"
  define p1 where "p1 = (if cj_get J p0 (lit ''type'') = None then cj_add J p0 (lit ''type'') (cj_string J (lit ''object'')) else p0)"
  define p2 where "p2 = (case cj_get J p1 (lit ''properties'') of Some _ \<Rightarrow> p1 | None \<Rightarrow> cj_add J p1 (lit ''properties'') (cj_object J))"
  have ob0: "cj_is_object J p0" using get_ci_object is_object_empty by (auto simp: p0_def split: option.split)
  have ob1: "cj_is_object J p1" using ob0 by (simp add: p1_def is_object_add)
  have ty1: "cj_get J p1 (lit ''type'') \<noteq> None" using get_add_same [OF ob0, of "lit ''type''"] by (simp add: p1_def del: lit_Cons)
  have p2: "cj_get J p2 (lit ''type'') \<noteq> None" "cj_get J p2 (lit ''properties'') \<noteq> None"
    using ty1 get_add_same [OF ob1, of "lit ''properties''"] get_add_other [OF ob1 ne [symmetric]]
    by (auto simp: p2_def simp del: lit_Cons split: option.split)
  define props where "props = the (cj_get J p2 (lit ''properties''))"
  obtain q1 where q1: "(if has_flag t CLM_TOOL_TIMEOUT_OVERRIDABLE
      then inject_prop J [] props (lit ''timeout_ms'') (lit ''optional: max milliseconds before this call is aborted'') else (props, [])) = (q1, [])"
    using inj by (metis (full_types))
  obtain q2 where q2: "(if has_flag t CLM_TOOL_OUTPUT_CAP_OVERRIDABLE
      then inject_prop J [] q1 (lit ''output_cap'') (lit ''optional: max bytes of output to return'') else (q1, [])) = (q2, [])"
    using inj by (metis (full_types))
  have a: "(case params_schema t of None \<Rightarrow> (None, []) | Some s \<Rightarrow> case alloc [] of (ok, t') \<Rightarrow> (if ok then cj_parse J s else None, t')) = (P, [])"
    by (simp add: P_def split: option.split)
  have b: "(case P of Some p \<Rightarrow> if cj_get_ci J p (lit ''type'') = None then cj_create [] (cj_object J) else (Some p, [])
      | None \<Rightarrow> cj_create [] (cj_object J)) = (Some p0, [])" by (simp add: p0_def del: lit_Cons split: option.split)
  have c: "(if cj_get J p0 (lit ''type'') = None then case cj_create [] (cj_string J (lit ''object'')) of (s, t') \<Rightarrow> (cj_add_opt J p0 (lit ''type'') s, t')
      else (p0, [])) = (p1, [])" by (simp add: p1_def cj_add_opt_def del: lit_Cons)
  have d: "(case cj_get J p1 (lit ''properties'') of Some _ \<Rightarrow> (Some p1, [])
      | None \<Rightarrow> case cj_create [] (cj_object J) of (None, t') \<Rightarrow> (None, t') | (Some ob, t') \<Rightarrow> (Some (cj_add J p1 (lit ''properties'') ob), t')) = (Some p2, [])"
    by (simp add: p2_def del: lit_Cons split: option.split)
  have "tool_params J [] t = (Some (cj_put J p2 (lit ''properties'') q2), [])"
    unfolding tool_params_def Let_def a prod.case b option.case c d props_def [symmetric] q1 q2 ..
  moreover have "cj_get J (cj_put J p2 (lit ''properties'') q2) (lit ''type'') \<noteq> None" "cj_get J (cj_put J p2 (lit ''properties'') q2) (lit ''properties'') \<noteq> None"
    using p2 get_put_other [OF ne [symmetric]] get_put_same by auto
  ultimately show ?thesis by blast
qed

definition describes :: "'j \<Rightarrow> clm_tool \<Rightarrow> bool" where
  "describes j t \<longleftrightarrow> cj_get_string J j (lit ''type'') = Some (lit ''function'')
     \<and> (\<exists>f p. cj_get J j (lit ''function'') = Some f \<and> cj_get_string J f (lit ''name'') = Some (t_name t)
          \<and> cj_get J f (lit ''parameters'') = Some p \<and> cj_get J p (lit ''type'') \<noteq> None)"

lemma tool_schema_ok: "\<exists>j. tool_schema J [] t = (Some j, []) \<and> describes j t"
proof -
  have create [simp]: "cj_create [] j = (Some j, [])" for j :: 'j by (simp add: cj_create_def)
  obtain p where p: "tool_params J [] t = (Some p, [])" "cj_get J p (lit ''type'') \<noteq> None" using tool_params_ok by blast
  define f0 where "f0 = cj_add J (cj_object J) (lit ''name'') (cj_string J (t_name t))"
  define f1 where "f1 = cj_add J f0 (lit ''description'') (cj_string J (case t_description t of None \<Rightarrow> [] | Some s \<Rightarrow> s))"
  define f2 where "f2 = cj_add J f1 (lit ''parameters'') p"
  define j0 where "j0 = cj_add J (cj_object J) (lit ''type'') (cj_string J (lit ''function''))"
  have ne: "lit ''description'' \<noteq> lit ''name''" "lit ''parameters'' \<noteq> lit ''name''" "lit ''name'' \<noteq> lit ''parameters''"
    "lit ''description'' \<noteq> lit ''parameters''" "lit ''function'' \<noteq> lit ''type''" "lit ''type'' \<noteq> lit ''function''" by simp_all
  have ob: "cj_is_object J f0" "cj_is_object J f1" "cj_is_object J j0" by (simp_all add: f0_def f1_def j0_def object_laws del: lit_Cons)
  have "cj_get J f2 (lit ''name'') = Some (cj_string J (t_name t))"
    unfolding f2_def get_add_other [OF ob(2) ne(2)] unfolding f1_def get_add_other [OF ob(1) ne(1)] by (simp add: f0_def object_laws del: lit_Cons)
  moreover have "cj_get J f1 (lit ''parameters'') = None"
    unfolding f1_def get_add_other [OF ob(1) ne(4)] unfolding f0_def by (simp add: object_laws ne del: lit_Cons)
  then have "cj_get J f2 (lit ''parameters'') = Some p" unfolding f2_def by (rule get_add_same [OF ob(2)])
  moreover have "cj_get J (cj_add J j0 (lit ''function'') f2) (lit ''function'') = Some f2"
    by (rule get_add_same [OF ob(3)]) (simp add: j0_def object_laws ne del: lit_Cons)
  moreover have "cj_get J (cj_add J j0 (lit ''function'') f2) (lit ''type'') = Some (cj_string J (lit ''function''))"
    unfolding get_add_other [OF ob(3) ne(5)] by (simp add: j0_def object_laws del: lit_Cons)
  ultimately have "describes (cj_add J j0 (lit ''function'') f2) t"
    using p(2) by (simp add: describes_def cj_get_string_def string_value del: lit_Cons)
  moreover have "tool_schema J [] t = (Some (cj_add J j0 (lit ''function'') f2), [])"
    unfolding tool_schema_def by (simp add: p(1) Let_def cj_add_opt_def j0_def f2_def f1_def f0_def del: lit_Cons)
  ultimately show ?thesis by blast
qed

lemma schema_loop_ok:
  assumes "cj_is_array J arr"
  shows "\<exists>a js. schema_loop J vis [] arr ts = (a, []) \<and> cj_items J a = cj_items J arr @ js \<and> list_all2 describes js (filter (advertised vis) ts)"
  using assms
proof (induction ts arbitrary: arr)
  case (Cons t ts)
  show ?case
  proof (cases "advertised vis t")
    case False
    then show ?thesis using Cons by simp
  next
    case True
    obtain j where j: "tool_schema J [] t = (Some j, [])" "describes j t" using tool_schema_ok by blast
    have a: "cj_is_array J (cj_push J arr j)" using Cons.prems by (simp add: array_laws)
    from Cons.IH [OF a] obtain a js where "schema_loop J vis [] (cj_push J arr j) ts = (a, [])"
      "cj_items J a = cj_items J arr @ j # js" "list_all2 describes js (filter (advertised vis) ts)"
      using Cons.prems by (auto simp: array_laws)
    then show ?thesis using True j by (intro exI [of _ a] exI [of _ "j # js"]) simp
  qed
qed simp

end

text \<open>C24 (functional). The schema has one entry for each tool that is shown to the model, in the order of registration and with its
  name: no removed or hidden tool, and no tool for images when the model is known not to take them. Every entry has a
  parameters object with a type, also when the schema of the tool is missing or does not parse.\<close>

theorem schema_lists_tools:
  assumes "cjson_laws J" "mem R = []"
  shows "\<exists>a. clm_tools_build_schema J vis R = (Some a, [])
    \<and> list_all2 (\<lambda>j t. cj_get_string J j (lit ''type'') = Some (lit ''function'')
         \<and> (\<exists>f p. cj_get J j (lit ''function'') = Some f \<and> cj_get_string J f (lit ''name'') = Some (t_name t)
              \<and> cj_get J f (lit ''parameters'') = Some p \<and> cj_get J p (lit ''type'') \<noteq> None))
       (cj_items J a) (filter (advertised vis) (linked_tools R))"
proof -
  have "cj_is_array J (cj_array J)" "cj_items J (cj_array J) = []" using cjson_laws.array_laws [OF assms(1)] by blast+
  with cjson_laws.schema_loop_ok [OF assms(1), of "cj_array J" vis "linked_tools R"] obtain a where
    "schema_loop J vis [] (cj_array J) (linked_tools R) = (a, [])"
    "list_all2 (cjson_laws.describes J) (cj_items J a) (filter (advertised vis) (linked_tools R))" by auto
  then show ?thesis using assms(2) unfolding cjson_laws.describes_def [OF assms(1)]
    by (intro exI [of _ a]) (simp add: clm_tools_build_schema_def cj_create_def del: lit_Cons)
qed

theorem schema_lists_tools_witness:
  "\<exists>a. clm_tools_build_schema json_api 0 (snd (clm_tool_add (Some (plain_def (lit ''ls''))) empty_registry)) = (Some a, [])
     \<and> length (cj_items json_api a) = 1"
proof -
  let ?R = "snd (clm_tool_add (Some (plain_def (lit ''ls''))) empty_registry)"
  have m: "mem ?R = []" and l: "length (filter (advertised 0) (linked_tools ?R)) = 1"
    by (simp_all add: clm_tool_add_def plain_def_def empty_registry_def find_tool_def Let_def opt_strdup_def linked_tools_def map_filter_simps
        node_def advertised_def CLM_TOOL_HIDDEN_def)
  obtain a where "clm_tools_build_schema json_api 0 ?R = (Some a, [])" "length (cj_items json_api a) = length (filter (advertised 0) (linked_tools ?R))"
    using schema_lists_tools [OF json.cjson_laws_axioms m, of 0] by (blast dest: list_all2_lengthD)
  then show ?thesis using l by simp
qed

end
