(* ===== verification/Tool_Dispatch.thy ===== *)
theory Tool_Dispatch
  imports Tool_Registry Tool_Output Ratelimit Image Base64
begin

text \<open>
  The dispatch of tool calls in \<^verbatim>\<open>libclm/tools.c\<close>: a batch of calls, each of which passes the rate limiter, the
  pre_tool hooks and the permission gate before its tool is invoked, and completes once. Batches, hook gates and
  timers are objects of a heap that is freed by the code: touching freed memory sets \<open>fault\<close>.

  The callbacks (a tool's invoke and cancel functions, a hook, the permission prompt) are code outside the core
  that may call back into it before it returns. A call of one ends the function that makes it; what is left to do
  after it returns is a frame on \<open>stack\<close>, and \<open>returns\<close> goes on with the top frame. Whatever the outside does in
  between are actions of their own. The notifications (progress, results, messages, notices, and
  \<^verbatim>\<open>clm_agent_tools_done\<close>, which ends the batch) are entries of \<open>trace\<close> and do not call back.
\<close>

section \<open>State\<close>

record clm_tool_invocation =
  i_tool :: "nat option"
  inv_id :: "cstr option"
  inv_name :: "cstr option"
  inv_args :: "cstr option"
  output_cap :: nat
  timeout_ms :: nat
  timer :: bool
  timed_out :: bool
  completed :: bool
  cancel :: bool
  awaiting_perm :: bool
  gate :: "nat option"
  gate_next :: nat
  force_ask :: bool
  ask_reason :: "cstr option"
  rl_timer :: bool

record clm_tool_batch =
  invs :: "clm_tool_invocation list"
  pending :: nat
  done_count :: nat
  status :: "errno option"
  detached :: bool

text \<open>What is left of a function whose callback is running: \<^verbatim>\<open>run_invoke\<close>, and the loops of dispatch, cancel and
  detach with the index they go on at.\<close>

datatype frame = In_invoke nat | In_dispatch nat nat | In_cancel nat nat | In_detach nat nat

datatype timer_kind = Timeout | Rl_delay

record agent_tools = tool_registry +
  batches :: "clm_tool_batch option list"
  active_batch :: "nat option"
  gates :: "iref option option list"
  timers :: "(timer_kind \<times> iref) list"
  hist :: clm_history
  tool_rl :: "clm_ratelimit option"
  clock :: "u64 list"
  gate_denials :: nat
  stack :: "frame list"

text \<open>
  The embedder: which callbacks it gives, its hooks, whether it has timers, what it knows of the model, the
  patterns of volatile tools with libc's \<^verbatim>\<open>fnmatch\<close>, the compressor, the spool, and what the conversion of a
  number outside the range of \<^verbatim>\<open>int64_t\<close> gives, which C leaves open.
\<close>

record tool_env =
  has_permission :: bool
  has_notice :: bool
  n_pre_tool_hooks :: nat
  has_timer_set :: bool
  vision :: int
  volatile_tools :: "cstr list"
  fnmatch :: "cstr \<Rightarrow> cstr \<Rightarrow> bool"
  compressor :: "clm_compressor option"
  spool :: "cstr option \<Rightarrow> cstr option \<Rightarrow> byte list \<Rightarrow> cstr option"
  cast_int64 :: "int \<Rightarrow> int"

section \<open>Access to the heap\<close>

definition batch_at :: "agent_tools \<Rightarrow> nat \<Rightarrow> clm_tool_batch option" where
  "batch_at st b = (if b < length (batches st) then batches st ! b else None)"

definition inv_at :: "agent_tools \<Rightarrow> iref \<Rightarrow> clm_tool_invocation option" where
  "inv_at st r = (case batch_at st (fst r) of None \<Rightarrow> None
     | Some bt \<Rightarrow> if snd r < length (invs bt) then Some (invs bt ! snd r) else None)"

definition with_batch :: "nat \<Rightarrow> agent_tools \<Rightarrow> (clm_tool_batch \<Rightarrow> agent_tools) \<Rightarrow> agent_tools" where
  "with_batch b st f = (case batch_at st b of None \<Rightarrow> bad st | Some bt \<Rightarrow> f bt)"

definition with_inv :: "iref \<Rightarrow> agent_tools \<Rightarrow> (clm_tool_invocation \<Rightarrow> agent_tools) \<Rightarrow> agent_tools" where
  "with_inv r st f = (case inv_at st r of None \<Rightarrow> bad st | Some v \<Rightarrow> f v)"

definition upd_batch :: "nat \<Rightarrow> (clm_tool_batch \<Rightarrow> clm_tool_batch) \<Rightarrow> agent_tools \<Rightarrow> agent_tools" where
  "upd_batch b f st = with_batch b st (\<lambda>bt. st\<lparr>batches := (batches st)[b := Some (f bt)]\<rparr>)"

definition upd_inv :: "iref \<Rightarrow> (clm_tool_invocation \<Rightarrow> clm_tool_invocation) \<Rightarrow> agent_tools \<Rightarrow> agent_tools" where
  "upd_inv r f st = with_inv r st (\<lambda>v. upd_batch (fst r) (\<lambda>bt. bt\<lparr>invs := (invs bt)[snd r := f v]\<rparr>) st)"

definition push :: "frame \<Rightarrow> agent_tools \<Rightarrow> agent_tools" where
  "push f st = st\<lparr>stack := f # stack st\<rparr>"

text \<open>An outcome of the host or the allocator.\<close>

definition outcome :: "agent_tools \<Rightarrow> bool \<times> agent_tools" where
  "outcome st = (let (ok, t) = alloc (mem st) in (ok, st\<lparr>mem := t\<rparr>))"

definition read_clock :: "agent_tools \<Rightarrow> u64 \<times> agent_tools" where
  "read_clock st = (case clock st of [] \<Rightarrow> (0, st) | c # cs \<Rightarrow> (c, st\<lparr>clock := cs\<rparr>))"

text \<open>The host's timers: set, which may fail, and cancel.\<close>

definition timer_set :: "timer_kind \<Rightarrow> iref \<Rightarrow> agent_tools \<Rightarrow> bool \<times> agent_tools" where
  "timer_set k r st = (let (ok, st') = outcome st in (ok, if ok then st'\<lparr>timers := timers st' @ [(k, r)]\<rparr> else st'))"

definition timer_cancel :: "timer_kind \<Rightarrow> iref \<Rightarrow> agent_tools \<Rightarrow> agent_tools" where
  "timer_cancel k r st = st\<lparr>timers := filter (\<lambda>x. x \<noteq> (k, r)) (timers st)\<rparr>"

section \<open>Batch teardown\<close>

definition batch_really_free :: "nat \<Rightarrow> agent_tools \<Rightarrow> agent_tools" where
  "batch_really_free b st = with_batch b st (\<lambda>bt. st\<lparr>batches := (batches st)[b := None]\<rparr>)"

definition cancel_timers :: "iref \<Rightarrow> agent_tools \<Rightarrow> agent_tools" where
  "cancel_timers r st = with_inv r st (\<lambda>v.
     let st = (if timer v then upd_inv r (\<lambda>v. v\<lparr>timer := False\<rparr>) (timer_cancel Timeout r st) else st) in
     if rl_timer v then upd_inv r (\<lambda>v. v\<lparr>rl_timer := False\<rparr>) (timer_cancel Rl_delay r st) else st)"

definition batch_finalize :: "nat \<Rightarrow> agent_tools \<Rightarrow> agent_tools" where
  "batch_finalize b st = with_batch b st (\<lambda>bt.
     let st = (if active_batch st = Some b then st\<lparr>active_batch := None\<rparr> else st);
         st = emit (Tools_done b (status bt)) st;
         st = fold (\<lambda>i. cancel_timers (b, i)) [0..<length (invs bt)] st in
     batch_really_free b st)"

text \<open>\<^verbatim>\<open>if (batch->pending > 0) batch->pending--; if (batch->pending == 0) batch_finalize(batch);\<close>\<close>

definition release :: "nat \<Rightarrow> agent_tools \<Rightarrow> agent_tools" where
  "release b st = with_batch b st (\<lambda>bt.
     let st = upd_batch b (\<lambda>bt. bt\<lparr>pending := pending bt - 1\<rparr>) st in
     if pending bt - 1 = 0 then batch_finalize b st else st)"

section \<open>Completion\<close>

definition tool_is_volatile :: "tool_env \<Rightarrow> cstr option \<Rightarrow> bool" where
  "tool_is_volatile E name = (case name of None \<Rightarrow> False | Some n \<Rightarrow> list_ex (\<lambda>pat. fnmatch E pat n) (volatile_tools E))"

text \<open>Older results of a volatile tool become stubs before the new one is recorded.\<close>

definition stub_older :: "tool_env \<Rightarrow> cstr option \<Rightarrow> agent_tools \<Rightarrow> agent_tools" where
  "stub_older E name st =
     (if \<not> tool_is_volatile E name then st
      else let stub = snprintf 128 (lit ''[superseded by newer '' @ (case name of None \<Rightarrow> [] | Some n \<Rightarrow> n) @ lit '']'');
               (r, h, t) = clm_history_supersede_tool (mem st) (hist st) name (Some stub);
               st = st\<lparr>hist := h, mem := t\<rparr> in
           case r of Inr n \<Rightarrow> if n > 0 then emit Chain_reset st else st | Inl _ \<Rightarrow> st)"

definition record_result :: "tool_env \<Rightarrow> nat \<Rightarrow> clm_tool_invocation \<Rightarrow> byte list \<Rightarrow> clm_attachment option \<Rightarrow> agent_tools \<Rightarrow> agent_tools" where
  "record_result E b v out att st =
     (let (ok, h, t) = clm_history_add_tool_result (mem st) (hist st) (inv_id v) (inv_name v) (Some out) (compressor E);
          st = st\<lparr>hist := h, mem := t\<rparr> in
      if \<not> ok then upd_batch b (\<lambda>bt. bt\<lparr>status := Some ENOMEM\<rparr>) st
      else case att of None \<Rightarrow> emit (Message_added (last h)) st
      | Some a \<Rightarrow>
        (case clm_message_add_attachment t (last h) (Some (media_type a)) (Some (at_data a)) (length (at_data a)) of
           (Inl e, m, t') \<Rightarrow> upd_batch b (\<lambda>bt. bt\<lparr>status := Some ENOMEM\<rparr>) (st\<lparr>hist := butlast h @ [m], mem := t'\<rparr>)
         | (Inr _, m, t') \<Rightarrow> emit (Message_added m) (st\<lparr>hist := butlast h @ [m], mem := t'\<rparr>)))"

text \<open>
  \<^verbatim>\<open>inv_finalize\<close>: \<open>past\<close> is the byte behind the content. \<open>Completed\<close> in the trace marks the assignment
  \<^verbatim>\<open>inv->completed = true\<close>.
\<close>

definition inv_finalize :: "tool_env \<Rightarrow> iref \<Rightarrow> byte list \<Rightarrow> byte \<Rightarrow> clm_tool_outcome \<Rightarrow> clm_attachment option
    \<Rightarrow> agent_tools \<Rightarrow> agent_tools" where
  "inv_finalize E r body past oc att st = with_batch (fst r) st (\<lambda>bt. with_inv r st (\<lambda>v.
     let st = emit (Completed r) (upd_inv r (\<lambda>v. v\<lparr>completed := True\<rparr>) st) in
     if detached bt then
       (let st = upd_batch (fst r) (\<lambda>bt. bt\<lparr>pending := pending bt - 1\<rparr>) st in
        if pending bt - 1 = 0 then batch_really_free (fst r) st else st)
     else
       let st = (if timer v then upd_inv r (\<lambda>v. v\<lparr>timer := False\<rparr>) (timer_cancel Timeout r st) else st);
           st = (case i_tool v of None \<Rightarrow> st | Some n \<Rightarrow> unpin n st);
           (out, t) = tool_text (mem st) (output_cap v) (spool E (inv_id v) (inv_name v)) past body;
           st = emit (Tool_result r oc out) (st\<lparr>mem := t\<rparr>);
           st = stub_older E (inv_name v) st;
           st = record_result E (fst r) v out att st;
           st = upd_batch (fst r) (\<lambda>bt. bt\<lparr>done_count := done_count bt + 1\<rparr>) st;
           st = emit (Batch_progress (fst r) (done_count bt + 1) (length (invs bt))) st in
       release (fst r) st))"

definition finalize_timeout :: "tool_env \<Rightarrow> iref \<Rightarrow> agent_tools \<Rightarrow> agent_tools" where
  "finalize_timeout E r st = with_inv r st (\<lambda>v.
     inv_finalize E r (snprintf 80 (lit ''[tool failed: timed out after '' @ dec (timeout_ms v) @ lit '' ms]'')) 0
       CLM_TOOL_TIMEDOUT None st)"

definition clm_tool_complete_buf :: "tool_env \<Rightarrow> iref \<Rightarrow> byte list \<Rightarrow> byte \<Rightarrow> agent_tools \<Rightarrow> agent_tools" where
  "clm_tool_complete_buf E r data past st = with_inv r st (\<lambda>v.
     if completed v then st
     else if timed_out v then finalize_timeout E r st
     else inv_finalize E r data past CLM_TOOL_OK None st)"

definition clm_tool_complete :: "tool_env \<Rightarrow> iref \<Rightarrow> cstr option \<Rightarrow> agent_tools \<Rightarrow> agent_tools" where
  "clm_tool_complete E r s st = clm_tool_complete_buf E r (case s of None \<Rightarrow> [] | Some c \<Rightarrow> c_str c) 0 st"

definition clm_tool_fail :: "tool_env \<Rightarrow> iref \<Rightarrow> cstr option \<Rightarrow> agent_tools \<Rightarrow> agent_tools" where
  "clm_tool_fail E r msg st = with_inv r st (\<lambda>v.
     if completed v then st
     else if timed_out v then finalize_timeout E r st
     else let (wrapped, t) = fail_wrap (mem st) msg in
       inv_finalize E r (case wrapped of Some s \<Rightarrow> s | None \<Rightarrow> lit ''[tool failed]'') 0 CLM_TOOL_FAILED None (st\<lparr>mem := t\<rparr>))"

definition clm_tool_complete_image :: "tool_env \<Rightarrow> iref \<Rightarrow> cstr option \<Rightarrow> cstr option \<Rightarrow> byte list option \<Rightarrow> agent_tools \<Rightarrow> agent_tools" where
  "clm_tool_complete_image E r txt0 mt data st = with_batch (fst r) st (\<lambda>bt. with_inv r st (\<lambda>v.
     if completed v then st
     else case (mt, data) of
       (Some m, Some (d # ds)) \<Rightarrow>
         let txt = (case txt0 of None \<Rightarrow> [] | Some s \<Rightarrow> c_str s) in
         if timed_out v then finalize_timeout E r st
         else if \<not> detached bt \<and> vision E < 0 then
           (let (ok, st) = outcome st in
            inv_finalize E r (if ok then txt @ 0x0A # lit ''[image omitted: the model does not take images]'' else txt) 0
              CLM_TOOL_OK None st)
         else inv_finalize E r txt 0 CLM_TOOL_OK (Some \<lparr>media_type = m, at_data = d # ds\<rparr>) st
     | _ \<Rightarrow> clm_tool_fail E r (Some (lit ''no image'')) st))"

definition CLM_IMAGE_MAX_BYTES :: nat where "CLM_IMAGE_MAX_BYTES = 5 * 1024 * 1024"

text \<open>Why an image in base64 is refused, or its media type and bytes.\<close>

definition image_of_base64 :: "bool \<Rightarrow> cstr option \<Rightarrow> cstr + cstr \<times> byte list" where
  "image_of_base64 mem_ok b64 =
     (case b64 of None \<Rightarrow> Inl (lit ''no data'') | Some [] \<Rightarrow> Inl (lit ''no data'')
      | Some s \<Rightarrow>
        if length s div 4 * 3 > CLM_IMAGE_MAX_BYTES then Inl (lit ''too large'')
        else if \<not> mem_ok then Inl (lit ''out of memory'')
        else case clm_base64_decode s of Inl _ \<Rightarrow> Inl (lit ''bad base64'')
        | Inr img \<Rightarrow> (case clm_image_sniff (Some img) of
            Some (Inr (mt, _, _)) \<Rightarrow> Inr (lit mt, img)
          | _ \<Rightarrow> Inl (lit ''not a PNG, JPEG, GIF or WebP image'')))"

definition clm_tool_complete_image_base64 :: "tool_env \<Rightarrow> iref \<Rightarrow> cstr option \<Rightarrow> cstr option \<Rightarrow> agent_tools \<Rightarrow> agent_tools" where
  "clm_tool_complete_image_base64 E r txt0 b64 st = with_inv r st (\<lambda>v.
     if completed v then st
     else
       let txt = (case txt0 of None \<Rightarrow> [] | Some s \<Rightarrow> c_str s);
           needs = (case b64 of None \<Rightarrow> False | Some s \<Rightarrow> s \<noteq> [] \<and> \<not> length s div 4 * 3 > CLM_IMAGE_MAX_BYTES);
           (ok, st) = (if needs then outcome st else (True, st)) in
       case image_of_base64 ok b64 of
         Inr (mt, img) \<Rightarrow> clm_tool_complete_image E r (Some txt) (Some mt) (Some img) st
       | Inl why \<Rightarrow>
         let (ok, st) = outcome st in
         clm_tool_complete E r (Some (if ok then txt @ (if txt \<noteq> [] then [0x0A] else []) @ lit ''[image omitted: '' @ why @ lit '']''
           else txt)) st)"

definition on_timeout :: "tool_env \<Rightarrow> iref \<Rightarrow> agent_tools \<Rightarrow> agent_tools" where
  "on_timeout E r st = with_inv r st (\<lambda>v.
     if completed v then st
     else let st = upd_inv r (\<lambda>v. v\<lparr>timed_out := True\<rparr>) st in
       if cancel v then emit (Cancel_call r) st else finalize_timeout E r st)"

definition clm_tool_invocation_set_cancel :: "iref \<Rightarrow> bool \<Rightarrow> agent_tools \<Rightarrow> agent_tools" where
  "clm_tool_invocation_set_cancel r c st = upd_inv r (\<lambda>v. v\<lparr>cancel := c\<rparr>) st"

section \<open>From the rate limiter to the tool\<close>

definition to_int64 :: "tool_env \<Rightarrow> int \<Rightarrow> int" where
  "to_int64 E x = (if - (2 ^ 63) \<le> x \<and> x < 2 ^ 63 then x else cast_int64 E x)"

definition CLM_TOOL_OUTPUT_CAP_DEFAULT :: nat where "CLM_TOOL_OUTPUT_CAP_DEFAULT = 16 * 1024"
definition CLM_TOOL_OUTPUT_CAP_MAX :: nat where "CLM_TOOL_OUTPUT_CAP_MAX = 60 * 1024"
definition CLM_TOOL_TIMEOUT_MAX_MS :: nat where "CLM_TOOL_TIMEOUT_MAX_MS = 600000"

text \<open>A limit that a call may override with a positive number among its arguments.\<close>

definition override :: "tool_env \<Rightarrow> 'j cjson_api \<Rightarrow> 'j \<Rightarrow> cstr \<Rightarrow> nat \<Rightarrow> nat" where
  "override E J a key dflt =
     (case cj_get J a key of None \<Rightarrow> dflt
      | Some v \<Rightarrow> if cj_is_number J v \<and> to_int64 E (cj_trunc J v) > 0 then nat (to_int64 E (cj_trunc J v)) else dflt)"

definition inv_compute_limits :: "tool_env \<Rightarrow> 'j cjson_api \<Rightarrow> clm_tool option \<Rightarrow> cstr option \<Rightarrow> nat \<times> nat" where
  "inv_compute_limits E J tool args =
     (let cap = (case tool of Some t \<Rightarrow> if t_output_cap t \<noteq> 0 then t_output_cap t else CLM_TOOL_OUTPUT_CAP_DEFAULT
                 | None \<Rightarrow> CLM_TOOL_OUTPUT_CAP_DEFAULT);
          to = (case tool of Some t \<Rightarrow> t_timeout_ms t | None \<Rightarrow> 0);
          (cap, to) = (case (tool, Option.bind args (cj_parse J)) of
             (Some t, Some a) \<Rightarrow>
               if cj_is_object J a then
                 (if has_flag t CLM_TOOL_OUTPUT_CAP_OVERRIDABLE then override E J a (lit ''output_cap'') cap else cap,
                  if has_flag t CLM_TOOL_TIMEOUT_OVERRIDABLE then override E J a (lit ''timeout_ms'') to else to)
               else (cap, to)
           | _ \<Rightarrow> (cap, to)) in
      (if cap > CLM_TOOL_OUTPUT_CAP_MAX then CLM_TOOL_OUTPUT_CAP_MAX else cap,
       if to > CLM_TOOL_TIMEOUT_MAX_MS then CLM_TOOL_TIMEOUT_MAX_MS else to))"

text \<open>\<^verbatim>\<open>run_invoke\<close> up to the call of the tool; the frame releases the hold after it.\<close>

definition run_invoke :: "tool_env \<Rightarrow> iref \<Rightarrow> agent_tools \<Rightarrow> agent_tools" where
  "run_invoke E r st = with_inv r st (\<lambda>v.
     let st = (if timeout_ms v > 0 \<and> \<not> timer v \<and> has_timer_set E
               then (let (ok, st) = timer_set Timeout r st in upd_inv r (\<lambda>v. v\<lparr>timer := ok\<rparr>) st) else st);
         st = upd_batch (fst r) (\<lambda>bt. bt\<lparr>pending := pending bt + 1\<rparr>) st in
     case i_tool v of None \<Rightarrow> bad st
     | Some n \<Rightarrow> (case node st n of None \<Rightarrow> bad st
       | Some _ \<Rightarrow> push (In_invoke (fst r)) (emit (Invoke r) st)))"

text \<open>The permission gate: by default a call that nobody allowed is denied.\<close>

definition permission_gate :: "tool_env \<Rightarrow> iref \<Rightarrow> agent_tools \<Rightarrow> agent_tools" where
  "permission_gate E r st = with_inv r st (\<lambda>v.
     case Option.bind (i_tool v) (node st) of None \<Rightarrow> bad st
     | Some t \<Rightarrow>
       if has_flag t CLM_TOOL_NO_PROMPT \<and> \<not> force_ask v then run_invoke E r st
       else if remembered t \<and> (\<not> remember_allow t \<or> \<not> force_ask v) then
         (if remember_allow t then run_invoke E r st else clm_tool_fail E r (Some (lit ''denied by user (remembered)'')) st)
       else if \<not> has_permission E then clm_tool_fail E r (Some (lit ''denied: no permission policy'')) st
       else emit (Ask_permission r) (upd_inv r (\<lambda>v. v\<lparr>awaiting_perm := True\<rparr>) st))"

text \<open>The next hook, or the permission gate after the last one.\<close>

definition gate_run :: "tool_env \<Rightarrow> iref \<Rightarrow> agent_tools \<Rightarrow> agent_tools" where
  "gate_run E r st = with_inv r st (\<lambda>v.
     if gate_next v \<ge> n_pre_tool_hooks E then permission_gate E r st
     else
       let st = upd_inv r (\<lambda>v. v\<lparr>gate_next := gate_next v + 1\<rparr>) st;
           (ok, st) = outcome st in
       if \<not> ok then clm_tool_fail E r (Some (lit ''out of memory'')) st
       else let g = length (gates st);
                st = upd_inv r (\<lambda>v. v\<lparr>gate := Some g\<rparr>) (st\<lparr>gates := gates st @ [Some (Some r)]\<rparr>) in
         emit (Hook r (gate_next v)) st)"

definition dispatch_one :: "tool_env \<Rightarrow> iref \<Rightarrow> agent_tools \<Rightarrow> agent_tools" where
  "dispatch_one E r st = with_inv r st (\<lambda>v.
     let st = emit (Tool_begin r) st in
     if i_tool v = None then clm_tool_fail E r (Some (lit ''unknown tool'')) st else gate_run E r st)"

definition on_rl_timer :: "tool_env \<Rightarrow> iref \<Rightarrow> agent_tools \<Rightarrow> agent_tools" where
  "on_rl_timer E r st = with_inv r st (\<lambda>v.
     let st = (if rl_timer v then upd_inv r (\<lambda>v. v\<lparr>rl_timer := False\<rparr>) (timer_cancel Rl_delay r st) else st);
         (now, st) = read_clock st;
         st = st\<lparr>tool_rl := clm_ratelimit_consume now (tool_rl st) 1\<rparr> in
     dispatch_one E r st)"

section \<open>Answers\<close>

datatype clm_gate_verdict = CLM_GATE_PASS | CLM_GATE_DENY | CLM_GATE_ASK

datatype clm_permission_decision = CLM_PERM_ALLOW_ONCE | CLM_PERM_ALLOW_ALWAYS | CLM_PERM_DENY_ONCE | CLM_PERM_DENY_ALWAYS

definition gate_verdict :: "tool_env \<Rightarrow> iref \<Rightarrow> clm_gate_verdict \<Rightarrow> cstr option \<Rightarrow> agent_tools \<Rightarrow> agent_tools" where
  "gate_verdict E r verdict reason st =
     (case verdict of
        CLM_GATE_DENY \<Rightarrow>
          clm_tool_fail E r (Some (snprintf 512 (lit ''denied by hook: '' @ (case reason of Some s \<Rightarrow> c_str s | None \<Rightarrow> lit ''no reason given''))))
            (st\<lparr>gate_denials := gate_denials st + 1\<rparr>)
      | CLM_GATE_ASK \<Rightarrow> with_inv r st (\<lambda>v.
          let st = upd_inv r (\<lambda>v. v\<lparr>force_ask := True\<rparr>) st in
          if reason \<noteq> None \<and> ask_reason v = None then
            (let (ok, st) = outcome st in gate_run E r (upd_inv r (\<lambda>v. v\<lparr>ask_reason := (if ok then reason else None)\<rparr>) st))
          else gate_run E r st)
      | CLM_GATE_PASS \<Rightarrow>
          gate_run E r (case reason of None \<Rightarrow> st
            | Some s \<Rightarrow> if has_notice E then emit (Notice (snprintf 512 (lit ''allowed by hook: '' @ c_str s))) st else st))"

definition clm_tool_gate_respond :: "tool_env \<Rightarrow> nat \<Rightarrow> clm_gate_verdict \<Rightarrow> cstr option \<Rightarrow> cstr option \<Rightarrow> agent_tools
    \<Rightarrow> (errno + unit) \<times> agent_tools" where
  "clm_tool_gate_respond E g verdict reason args st =
     (if \<not> g < length (gates st) then (Inl EINVAL, bad st)
      else case gates st ! g of None \<Rightarrow> (Inl EINVAL, bad st)
      | Some ref \<Rightarrow>
        let st = st\<lparr>gates := (gates st)[g := None]\<rparr> in
        case ref of None \<Rightarrow> (Inr (), st)
        | Some r \<Rightarrow>
          let st = upd_inv r (\<lambda>v. v\<lparr>gate := None\<rparr>) st in
          case args of None \<Rightarrow> (Inr (), gate_verdict E r verdict reason st)
          | Some a \<Rightarrow>
            let (ok, st) = outcome st in
            if \<not> ok then (Inl ENOMEM, clm_tool_fail E r (Some (lit ''out of memory'')) st)
            else (Inr (), gate_verdict E r verdict reason (upd_inv r (\<lambda>v. v\<lparr>inv_args := Some a\<rparr>) st)))"

definition allows :: "clm_permission_decision \<Rightarrow> bool" where
  "allows d \<longleftrightarrow> d = CLM_PERM_ALLOW_ONCE \<or> d = CLM_PERM_ALLOW_ALWAYS"

definition remembers :: "clm_permission_decision \<Rightarrow> bool" where
  "remembers d \<longleftrightarrow> d = CLM_PERM_ALLOW_ALWAYS \<or> d = CLM_PERM_DENY_ALWAYS"

definition clm_tool_permission_respond :: "tool_env \<Rightarrow> iref \<Rightarrow> clm_permission_decision \<Rightarrow> agent_tools
    \<Rightarrow> (errno + unit) \<times> agent_tools" where
  "clm_tool_permission_respond E r d st =
     (case inv_at st r of None \<Rightarrow> (Inl EINVAL, bad st)
      | Some v \<Rightarrow>
        if \<not> awaiting_perm v then (Inl EINVAL, st)
        else
          let st = upd_inv r (\<lambda>v. v\<lparr>awaiting_perm := False\<rparr>) st;
              st = (if remembers d then
                      (case Option.bind (inv_name v) (find_tool st) of None \<Rightarrow> st
                       | Some n \<Rightarrow> upd_node n (\<lambda>t. t\<lparr>remembered := True, remember_allow := allows d\<rparr>) st)
                    else st) in
          (Inr (), if allows d then run_invoke E r st else clm_tool_fail E r (Some (lit ''denied by user'')) st))"

section \<open>Dispatch\<close>

text \<open>
  The strings of one call of the model's response: its id, name and arguments. \<open>None\<close> stands for the NULL of
  \<^verbatim>\<open>cJSON_GetStringValue\<close> on an item that is there but not a string, which \<^verbatim>\<open>strdup\<close> must not get.
\<close>

definition call_string :: "'j cjson_api \<Rightarrow> 'j option \<Rightarrow> cstr \<Rightarrow> cstr option" where
  "call_string J ob key =
     (case Option.bind ob (\<lambda>x. cj_get J x key) of None \<Rightarrow> Some [] | Some j \<Rightarrow> cj_string_value J j)"

definition call_args :: "'j cjson_api \<Rightarrow> 'j option \<Rightarrow> cstr" where
  "call_args J func =
     (case Option.bind func (\<lambda>x. cj_get J x (lit ''arguments'')) of None \<Rightarrow> lit ''{}''
      | Some a \<Rightarrow>
        if cj_is_string J a then the (cj_string_value J a)
        else (case cj_print J a of None \<Rightarrow> lit ''{}'' | Some s \<Rightarrow> s))"

definition new_invocation :: "nat option \<Rightarrow> cstr option \<Rightarrow> cstr option \<Rightarrow> cstr option \<Rightarrow> nat \<Rightarrow> nat \<Rightarrow> clm_tool_invocation" where
  "new_invocation tool i n a cap to = \<lparr>i_tool = tool, inv_id = i, inv_name = n, inv_args = a, output_cap = cap, timeout_ms = to,
     timer = False, timed_out = False, completed = False, cancel = False, awaiting_perm = False, gate = None, gate_next = 0,
     force_ask = False, ask_reason = None, rl_timer = False\<rparr>"

text \<open>One round of the loop that builds the calls: the call, whether a string could not be copied, and the
  assistant message with the call added.\<close>

definition build_call :: "tool_env \<Rightarrow> 'j cjson_api \<Rightarrow> 'j \<Rightarrow> clm_message \<Rightarrow> agent_tools
    \<Rightarrow> clm_tool_invocation \<times> bool \<times> clm_message \<times> agent_tools" where
  "build_call E J tc amsg st =
     (let func = cj_get J tc (lit ''function'');
          i = call_string J (Some tc) (lit ''id'');
          n = call_string J func (lit ''name'');
          a = call_args J func;
          st = (if i = None \<or> n = None then bad st else st);
          (ok1, st) = outcome st; (ok2, st) = outcome st; (ok3, st) = outcome st;
          i = (if ok1 then i else None); n = (if ok2 then n else None); a = (if ok3 then Some a else None);
          copied = (i \<noteq> None \<and> n \<noteq> None \<and> a \<noteq> None);
          (amsg, st) = (if copied then (let (_, m, t) = clm_message_add_tool_call (mem st) amsg i n a in (m, st\<lparr>mem := t\<rparr>))
                        else (amsg, st));
          tool = find_tool st (case n of Some s \<Rightarrow> s | None \<Rightarrow> []);
          (cap, to) = inv_compute_limits E J (Option.bind tool (node st)) a;
          st = (case tool of None \<Rightarrow> st | Some k \<Rightarrow> pin k st) in
      (new_invocation tool i n a cap to, copied, amsg, st))"

fun build_calls :: "tool_env \<Rightarrow> 'j cjson_api \<Rightarrow> 'j list \<Rightarrow> clm_message \<Rightarrow> agent_tools
    \<Rightarrow> clm_tool_invocation list \<times> bool \<times> clm_message \<times> agent_tools" where
  "build_calls E J [] amsg st = ([], True, amsg, st)"
| "build_calls E J (tc # tcs) amsg st =
     (let (v, ok, amsg, st) = build_call E J tc amsg st;
          (vs, oks, amsg, st) = build_calls E J tcs amsg st in
      (v # vs, ok \<and> oks, amsg, st))"

text \<open>The loop that dispatches the calls, from index \<open>i\<close>.\<close>

definition dispatch_iter :: "tool_env \<Rightarrow> nat \<Rightarrow> nat \<Rightarrow> agent_tools \<Rightarrow> agent_tools" where
  "dispatch_iter E b i st = with_batch b st (\<lambda>bt.
     if i \<ge> length (invs bt) then release b st
     else
       let st = push (In_dispatch b (i + 1)) st;
           (now, st) = read_clock st;
           (allowed, rl) = clm_ratelimit_allow now (tool_rl st) 1;
           st = st\<lparr>tool_rl := rl\<rparr> in
       if allowed \<or> \<not> has_timer_set E then dispatch_one E (b, i) st
       else
         let (now, st) = read_clock st;
             (delay_us, rl) = clm_ratelimit_delay now (tool_rl st) 1;
             (ok, st) = timer_set Rl_delay (b, i) (st\<lparr>tool_rl := rl\<rparr>) in
         if ok then upd_inv (b, i) (\<lambda>v. v\<lparr>rl_timer := True\<rparr>) st
         else
           let (now, st) = read_clock st in
           dispatch_one E (b, i) (st\<lparr>tool_rl := clm_ratelimit_consume now (tool_rl st) 1\<rparr>))"

definition clm_tools_dispatch :: "tool_env \<Rightarrow> 'j cjson_api \<Rightarrow> 'j option \<Rightarrow> agent_tools \<Rightarrow> (errno + unit) \<times> agent_tools" where
  "clm_tools_dispatch E J tcs0 st =
     (case tcs0 of None \<Rightarrow> (Inl EINVAL, st)
      | Some arr \<Rightarrow>
        let tcs = cj_items J arr; n = length tcs in
        if n = 0 then (Inl EINVAL, st)
        else
          let (ok, h, t) = clm_history_add_assistant_tool_calls (mem st) (hist st);
              st = st\<lparr>hist := h, mem := t\<rparr> in
          if \<not> ok then (Inl ENOMEM, st)
          else let (ok1, st) = outcome st in
          if \<not> ok1 then (Inl ENOMEM, st)
          else let (ok2, st) = outcome st in
          if \<not> ok2 then (Inl ENOMEM, st)
          else
            let b = length (batches st);
                st = emit (Batch_progress b 0 n) st;
                (vs, copied, amsg, st) = build_calls E J tcs (last (hist st)) st;
                st = st\<lparr>batches := batches st @ [Some \<lparr>invs = vs, pending = n + 1, done_count = 0,
                         status = (if copied then None else Some ENOMEM), detached = False\<rparr>],
                       active_batch := Some b, hist := butlast (hist st) @ [amsg]\<rparr>;
                st = emit (Message_added amsg) st in
            (Inr (), dispatch_iter E b 0 st))"

section \<open>Cancel and detach\<close>

definition cancelled_text :: cstr where "cancelled_text = lit ''[tool failed: cancelled]''"

definition cancel_iter :: "tool_env \<Rightarrow> nat \<Rightarrow> nat \<Rightarrow> agent_tools \<Rightarrow> agent_tools" where
  "cancel_iter E b i st = with_batch b st (\<lambda>bt.
     if i \<ge> length (invs bt) then release b st
     else
       let st = push (In_cancel b (i + 1)) st; v = invs bt ! i; r = (b, i) in
       if completed v then st
       else if rl_timer v then
         inv_finalize E r cancelled_text 0 CLM_TOOL_FAILED None (upd_inv r (\<lambda>v. v\<lparr>rl_timer := False\<rparr>) (timer_cancel Rl_delay r st))
       else if awaiting_perm v then st
       else case gate v of
         Some g \<Rightarrow> inv_finalize E r cancelled_text 0 CLM_TOOL_FAILED None
           (upd_inv r (\<lambda>v. v\<lparr>gate := None\<rparr>) (st\<lparr>gates := (gates st)[g := Some None]\<rparr>))
       | None \<Rightarrow> if cancel v then emit (Cancel_call r) st else st)"

definition clm_tools_cancel :: "tool_env \<Rightarrow> agent_tools \<Rightarrow> agent_tools" where
  "clm_tools_cancel E st =
     (case active_batch st of None \<Rightarrow> st
      | Some b \<Rightarrow> cancel_iter E b 0 (upd_batch b (\<lambda>bt. bt\<lparr>pending := pending bt + 1\<rparr>) st))"

text \<open>A call that never started is retired where it is parked.\<close>

definition retire :: "iref \<Rightarrow> agent_tools \<Rightarrow> agent_tools" where
  "retire r st = upd_batch (fst r) (\<lambda>bt. bt\<lparr>pending := pending bt - 1\<rparr>)
     (emit (Completed r) (upd_inv r (\<lambda>v. v\<lparr>completed := True\<rparr>) st))"

definition detach_iter :: "nat \<Rightarrow> nat \<Rightarrow> agent_tools \<Rightarrow> agent_tools" where
  "detach_iter b i st = with_batch b st (\<lambda>bt.
     if i \<ge> length (invs bt) then (if pending bt = 0 then batch_really_free b st else st)
     else
       let st = push (In_detach b (i + 1)) st; v = invs bt ! i; r = (b, i) in
       if completed v then st
       else if rl_timer v then retire r (upd_inv r (\<lambda>v. v\<lparr>rl_timer := False\<rparr>) (timer_cancel Rl_delay r st))
       else case gate v of
         Some g \<Rightarrow> retire r (upd_inv r (\<lambda>v. v\<lparr>gate := None\<rparr>) (st\<lparr>gates := (gates st)[g := Some None]\<rparr>))
       | None \<Rightarrow>
         if awaiting_perm v then retire r (upd_inv r (\<lambda>v. v\<lparr>awaiting_perm := False\<rparr>) st)
         else
           let st = (if timer v then upd_inv r (\<lambda>v. v\<lparr>timer := False\<rparr>) (timer_cancel Timeout r st) else st) in
           if cancel v then emit (Cancel_call r) st else st)"

definition clm_tools_detach :: "agent_tools \<Rightarrow> agent_tools" where
  "clm_tools_detach st =
     (let st = fold tool_detach (registry st) st in
      case active_batch st of None \<Rightarrow> st
      | Some b \<Rightarrow> detach_iter b 0 (upd_batch b (\<lambda>bt. bt\<lparr>detached := True\<rparr>) (st\<lparr>active_batch := None\<rparr>)))"

section \<open>Runs\<close>

text \<open>The callback on top of the stack returns.\<close>

definition returns :: "tool_env \<Rightarrow> agent_tools \<Rightarrow> agent_tools" where
  "returns E st =
     (case stack st of [] \<Rightarrow> st
      | f # fs \<Rightarrow>
        let st = st\<lparr>stack := fs\<rparr> in
        case f of In_invoke b \<Rightarrow> release b st
        | In_dispatch b i \<Rightarrow> dispatch_iter E b i st
        | In_cancel b i \<Rightarrow> cancel_iter E b i st
        | In_detach b i \<Rightarrow> detach_iter b i st)"

text \<open>What the code outside the core can do.\<close>

datatype 'j action =
    Ret
  | Complete_buf iref "byte list" byte
  | Complete_image iref "cstr option" "cstr option" "byte list option"
  | Complete_base64 iref "cstr option" "cstr option"
  | Fail iref "cstr option"
  | Set_cancel iref bool
  | Answer_gate nat clm_gate_verdict "cstr option" "cstr option"
  | Answer_permission iref clm_permission_decision
  | Fire_timeout iref
  | Fire_rl_timer iref
  | Add_tool "clm_tool_def option"
  | Remove_tool "cstr option"
  | Dispatch "'j option"
  | Cancel_turn
  | Free_agent

fun act :: "tool_env \<Rightarrow> 'j cjson_api \<Rightarrow> 'j action \<Rightarrow> agent_tools \<Rightarrow> agent_tools" where
  "act E J Ret st = returns E st"
| "act E J (Complete_buf r d p) st = clm_tool_complete_buf E r d p st"
| "act E J (Complete_image r txt mt d) st = clm_tool_complete_image E r txt mt d st"
| "act E J (Complete_base64 r txt b64) st = clm_tool_complete_image_base64 E r txt b64 st"
| "act E J (Fail r msg) st = clm_tool_fail E r msg st"
| "act E J (Set_cancel r c) st = clm_tool_invocation_set_cancel r c st"
| "act E J (Answer_gate g vd reason args) st = snd (clm_tool_gate_respond E g vd reason args st)"
| "act E J (Answer_permission r d) st = snd (clm_tool_permission_respond E r d st)"
| "act E J (Fire_timeout r) st = on_timeout E r (st\<lparr>timers := filter (\<lambda>x. x \<noteq> (Timeout, r)) (timers st)\<rparr>)"
| "act E J (Fire_rl_timer r) st = on_rl_timer E r (st\<lparr>timers := filter (\<lambda>x. x \<noteq> (Rl_delay, r)) (timers st)\<rparr>)"
| "act E J (Add_tool d) st = snd (clm_tool_add d st)"
| "act E J (Remove_tool n) st = snd (clm_tool_remove n st)"
| "act E J (Dispatch tcs) st = snd (clm_tools_dispatch E J tcs st)"
| "act E J Cancel_turn st = clm_tools_cancel E st"
| "act E J Free_agent st = clm_tools_detach st"

end
