(* ===== verification/Tool_Safety.thy ===== *)
theory Tool_Safety
  imports Tool_Dispatch
begin

text \<open>
  What holds of tool dispatch however the tools, hooks, timers and the frontend interleave: no freed memory is
  touched, every call is answered once, and no call is lost. The proof is an invariant of the reachable states,
  stated relative to the call that a function is working on and the hold it has on the batch.
\<close>

section \<open>Which actions the outside may take\<close>

text \<open>
  The contract of the API: a tool reports on a call only between its invocation and its completion, a hook answers a
  gate that is open, a permission request is answered while it is, a timer fires while it is set, and the agent
  dispatches calls when no batch is active. The ids and names of the calls are strings or absent.
\<close>

definition open_call :: "agent_tools \<Rightarrow> iref \<Rightarrow> bool" where
  "open_call st r \<longleftrightarrow> Invoke r \<in> set (trace st) \<and> Completed r \<notin> set (trace st)"

definition asked_call :: "agent_tools \<Rightarrow> iref \<Rightarrow> bool" where
  "asked_call st r \<longleftrightarrow> Ask_permission r \<in> set (trace st) \<and> Invoke r \<notin> set (trace st) \<and> Completed r \<notin> set (trace st)"

definition calls_typed :: "'j cjson_api \<Rightarrow> 'j option \<Rightarrow> bool" where
  "calls_typed J arr \<longleftrightarrow> (case arr of None \<Rightarrow> True
     | Some a \<Rightarrow> list_all (\<lambda>tc. call_string J (Some tc) (lit ''id'') \<noteq> None
         \<and> call_string J (cj_get J tc (lit ''function'')) (lit ''name'') \<noteq> None) (cj_items J a))"

fun enabled :: "'j cjson_api \<Rightarrow> agent_tools \<Rightarrow> 'j action \<Rightarrow> bool" where
  "enabled J st Ret \<longleftrightarrow> stack st \<noteq> []"
| "enabled J st (Complete_buf r d p) \<longleftrightarrow> open_call st r"
| "enabled J st (Complete_image r txt mt d) \<longleftrightarrow> open_call st r"
| "enabled J st (Complete_base64 r txt b64) \<longleftrightarrow> open_call st r"
| "enabled J st (Fail r msg) \<longleftrightarrow> open_call st r"
| "enabled J st (Set_cancel r c) \<longleftrightarrow> open_call st r"
| "enabled J st (Answer_gate g vd reason args) \<longleftrightarrow> g < length (gates st) \<and> gates st ! g \<noteq> None"
| "enabled J st (Answer_permission r d) \<longleftrightarrow> asked_call st r"
| "enabled J st (Fire_timeout r) \<longleftrightarrow> (Timeout, r) \<in> set (timers st)"
| "enabled J st (Fire_rl_timer r) \<longleftrightarrow> (Rl_delay, r) \<in> set (timers st)"
| "enabled J st (Add_tool d) \<longleftrightarrow> True"
| "enabled J st (Remove_tool n) \<longleftrightarrow> True"
| "enabled J st (Dispatch tcs) \<longleftrightarrow> active_batch st = None \<and> calls_typed J tcs"
| "enabled J st Cancel_turn \<longleftrightarrow> True"
| "enabled J st Free_agent \<longleftrightarrow> False"

definition initial :: "clm_history \<Rightarrow> clm_ratelimit option \<Rightarrow> u64 list \<Rightarrow> tape \<Rightarrow> agent_tools" where
  "initial h rl cs t = \<lparr>nodes = [], registry = [], tool_count = 0, mem = t, trace = [], fault = False, batches = [],
     active_batch = None, gates = [], timers = [], hist = h, tool_rl = rl, clock = cs, gate_denials = 0, stack = []\<rparr>"

inductive reachable :: "tool_env \<Rightarrow> 'j cjson_api \<Rightarrow> agent_tools \<Rightarrow> bool" for E J where
  start: "reachable E J (initial h rl cs t)"
| step: "reachable E J st \<Longrightarrow> enabled J st a \<Longrightarrow> reachable E J (act E J a st)"

section \<open>The invariant\<close>

fun key :: "event \<Rightarrow> bool" where
  "key (Completed r) = True"
| "key (Invoke r) = True"
| "key (Ask_permission r) = True"
| "key (Tools_done b s) = True"
| "key (Batch_progress b k n) = True"
| "key _ = False"

definition log :: "agent_tools \<Rightarrow> event list" where
  "log st = filter key (trace st)"

fun frame_batch :: "frame \<Rightarrow> nat option" where
  "frame_batch (In_invoke b) = Some b"
| "frame_batch (In_dispatch b i) = Some b"
| "frame_batch (In_cancel b i) = Some b"
| "frame_batch (In_detach b i) = None"

fun is_dispatch :: "frame \<Rightarrow> bool" where
  "is_dispatch (In_dispatch b i) = True"
| "is_dispatch _ = False"

text \<open>The dispatch loop has not come to a call yet.\<close>

definition waiting :: "frame list \<Rightarrow> iref \<Rightarrow> bool" where
  "waiting fs r \<longleftrightarrow> (\<exists>j \<le> snd r. In_dispatch (fst r) j \<in> set fs)"

definition incomplete :: "clm_tool_batch \<Rightarrow> nat" where
  "incomplete bt = length (filter (\<lambda>v. \<not> completed v) (invs bt))"

definition pins :: "agent_tools \<Rightarrow> nat \<Rightarrow> nat" where
  "pins st n = (case Option.bind (active_batch st) (batch_at st) of None \<Rightarrow> 0
     | Some bt \<Rightarrow> length (filter (\<lambda>v. \<not> completed v \<and> i_tool v = Some n) (invs bt)))"

text \<open>An incomplete call waits for one thing: its turn, the rate limiter, a hook, the frontend or its tool.
  The call in hand waits for nothing.\<close>

definition owners :: "agent_tools \<Rightarrow> iref \<Rightarrow> clm_tool_invocation \<Rightarrow> nat" where
  "owners st r v = of_bool (waiting (stack st) r) + of_bool (rl_timer v) + of_bool (gate v \<noteq> None)
     + of_bool (awaiting_perm v) + of_bool (Invoke r \<in> set (log st))"

definition call_ok :: "iref option \<Rightarrow> agent_tools \<Rightarrow> iref \<Rightarrow> clm_tool_invocation \<Rightarrow> bool" where
  "call_ok H st r v \<longleftrightarrow>
     (completed v \<longleftrightarrow> Completed r \<in> set (log st))
     \<and> (completed v \<longrightarrow> \<not> rl_timer v \<and> gate v = None \<and> \<not> awaiting_perm v \<and> \<not> timer v \<and> \<not> waiting (stack st) r)
     \<and> (\<not> completed v \<longrightarrow> owners st r v = (if H = Some r then 0 else 1))
     \<and> (\<not> completed v \<and> Ask_permission r \<in> set (log st) \<longrightarrow> awaiting_perm v \<or> Invoke r \<in> set (log st) \<or> H = Some r)
     \<and> (\<forall>g. gate v = Some g \<longrightarrow> g < length (gates st) \<and> gates st ! g = Some (Some r))
     \<and> (rl_timer v \<longrightarrow> (Rl_delay, r) \<in> set (timers st))
     \<and> (\<not> completed v \<and> \<not> (Invoke r \<in> set (log st)) \<longrightarrow> \<not> timer v \<and> \<not> timed_out v)
     \<and> (i_tool v = None \<longrightarrow> gate v = None \<and> \<not> awaiting_perm v)"

definition handles_ok :: "agent_tools \<Rightarrow> bool" where
  "handles_ok st \<longleftrightarrow>
     (\<forall>g r. g < length (gates st) \<longrightarrow> gates st ! g = Some (Some r) \<longrightarrow> (\<exists>v. inv_at st r = Some v \<and> gate v = Some g))
     \<and> (\<forall>k r. (k, r) \<in> set (timers st) \<longrightarrow> (\<exists>v. inv_at st r = Some v \<and> (if k = Timeout then timer v else rl_timer v)))
     \<and> (\<forall>r. Invoke r \<in> set (log st) \<or> Ask_permission r \<in> set (log st) \<longrightarrow> Completed r \<in> set (log st) \<or> inv_at st r \<noteq> None)"

text \<open>What the trace says of batches: none is done twice or done while it is alive, and a batch that is done has
  every call completed.\<close>

fun ev_batch :: "event \<Rightarrow> nat" where
  "ev_batch (Completed r) = fst r"
| "ev_batch (Invoke r) = fst r"
| "ev_batch (Ask_permission r) = fst r"
| "ev_batch (Tools_done b s) = b"
| "ev_batch (Batch_progress b k n) = b"
| "ev_batch _ = 0"

fun once :: "event \<Rightarrow> bool" where
  "once (Batch_progress b k n) = False"
| "once (Ask_permission r) = False"
| "once _ = True"

definition trace_ok :: "agent_tools \<Rightarrow> bool" where
  "trace_ok st \<longleftrightarrow> distinct (filter once (log st))
     \<and> (\<forall>e \<in> set (log st). ev_batch e < length (batches st))
     \<and> (\<forall>b s. Tools_done b s \<in> set (log st) \<longrightarrow> batch_at st b = None)
     \<and> (\<forall>b s s'. Tools_done b s \<in> set (log st) \<longrightarrow> Tools_done b s' \<in> set (log st) \<longrightarrow> s = s')
     \<and> (\<forall>b k n. Batch_progress b k n \<in> set (log st) \<longrightarrow>
         (case batch_at st b of Some bt \<Rightarrow> n = length (invs bt) | None \<Rightarrow> \<forall>i < n. Completed (b, i) \<in> set (log st)))"

definition batch_ok :: "nat \<Rightarrow> agent_tools \<Rightarrow> bool" where
  "batch_ok x st \<longleftrightarrow> (case active_batch st of
       None \<Rightarrow> x = 0 \<and> stack st = [] \<and> (\<forall>b. batch_at st b = None)
     | Some b \<Rightarrow> (\<forall>c. batch_at st c \<noteq> None \<longleftrightarrow> c = b) \<and> (\<forall>f \<in> set (stack st). frame_batch f = Some b)
         \<and> length (filter is_dispatch (stack st)) \<le> 1
         \<and> (\<exists>bt. batch_at st b = Some bt \<and> \<not> detached bt \<and> 0 < pending bt
              \<and> pending bt = incomplete bt + length (stack st) + x))"

definition nodes_ok :: "agent_tools \<Rightarrow> bool" where
  "nodes_ok st \<longleftrightarrow> (\<forall>n. case node st n of Some t \<Rightarrow> inflight t = pins st n | None \<Rightarrow> pins st n = 0)"

definition tools_inv :: "iref option \<Rightarrow> nat \<Rightarrow> agent_tools \<Rightarrow> bool" where
  "tools_inv H x st \<longleftrightarrow> \<not> fault st \<and> reg_ok st \<and> batch_ok x st \<and> nodes_ok st
     \<and> (\<forall>r v. inv_at st r = Some v \<longrightarrow> call_ok H st r v) \<and> handles_ok st \<and> trace_ok st
     \<and> (\<forall>r. H = Some r \<longrightarrow> (\<exists>v. inv_at st r = Some v \<and> \<not> completed v))"

section \<open>Frame conditions\<close>

lemma ext_simps [simp]:
  fixes st :: agent_tools
  shows "batches (emit e st) = batches st" "active_batch (emit e st) = active_batch st" "gates (emit e st) = gates st"
    "timers (emit e st) = timers st" "stack (emit e st) = stack st" "hist (emit e st) = hist st"
    "batches (bad st) = batches st" "fault (bad st)"
    "batches (push f st) = batches st" "active_batch (push f st) = active_batch st" "gates (push f st) = gates st"
    "timers (push f st) = timers st" "stack (push f st) = f # stack st" "trace (push f st) = trace st"
    "nodes (push f st) = nodes st" "registry (push f st) = registry st" "tool_count (push f st) = tool_count st"
    "fault (push f st) = fault st" "node (push f st) = node st"
  by (auto simp: emit_def bad_def push_def node_def)

lemma node_ext [simp]:
  fixes st :: agent_tools
  shows "node (st\<lparr>batches := bs\<rparr>) = node st" "node (st\<lparr>gates := gs\<rparr>) = node st" "node (st\<lparr>timers := ts\<rparr>) = node st"
    "node (st\<lparr>stack := fs\<rparr>) = node st" "node (st\<lparr>active_batch := a\<rparr>) = node st"
  by (auto simp: node_def)

lemma log_emit [simp]: "log (emit e st) = log st @ (if key e then [e] else [])"
  by (simp add: log_def)

lemma batch_at_cong: "batches st' = batches st \<Longrightarrow> batch_at st' = batch_at st"
  by (auto simp: batch_at_def)

lemma inv_at_cong: "batches st' = batches st \<Longrightarrow> inv_at st' = inv_at st"
  by (intro ext) (simp only: inv_at_def batch_at_cong [of st' st])

lemma heap_simps [simp]:
  "batch_at (emit e st) = batch_at st" "batch_at (push f st) = batch_at st" "batch_at (st\<lparr>gates := gs\<rparr>) = batch_at st"
  "batch_at (st\<lparr>timers := ts\<rparr>) = batch_at st" "batch_at (st\<lparr>mem := t\<rparr>) = batch_at st" "batch_at (st\<lparr>stack := fs\<rparr>) = batch_at st"
  "batch_at (st\<lparr>clock := cs\<rparr>) = batch_at st" "batch_at (st\<lparr>tool_rl := rl\<rparr>) = batch_at st"
  "batch_at (st\<lparr>active_batch := ab\<rparr>) = batch_at st" "batch_at (st\<lparr>hist := h\<rparr>) = batch_at st" "batch_at (st\<lparr>gate_denials := gd\<rparr>) = batch_at st"
  "inv_at (st\<lparr>active_batch := ab\<rparr>) = inv_at st" "inv_at (st\<lparr>hist := h\<rparr>) = inv_at st" "inv_at (st\<lparr>gate_denials := gd\<rparr>) = inv_at st"
  "inv_at (emit e st) = inv_at st" "inv_at (push f st) = inv_at st" "inv_at (st\<lparr>gates := gs\<rparr>) = inv_at st"
  "inv_at (st\<lparr>timers := ts\<rparr>) = inv_at st" "inv_at (st\<lparr>mem := t\<rparr>) = inv_at st" "inv_at (st\<lparr>stack := fs\<rparr>) = inv_at st"
  "inv_at (st\<lparr>clock := cs\<rparr>) = inv_at st" "inv_at (st\<lparr>tool_rl := rl\<rparr>) = inv_at st"
  by (rule batch_at_cong inv_at_cong; simp)+

lemma log_simps [simp]:
  "log (push f st) = log st" "log (st\<lparr>gates := gs\<rparr>) = log st" "log (st\<lparr>timers := ts\<rparr>) = log st" "log (st\<lparr>mem := t\<rparr>) = log st"
  "log (st\<lparr>stack := fs\<rparr>) = log st" "log (st\<lparr>clock := cs\<rparr>) = log st" "log (st\<lparr>tool_rl := rl\<rparr>) = log st" "log (st\<lparr>batches := bs\<rparr>) = log st"
  by (simp_all add: log_def)

lemma batch_at_upd:
  "batch_at st b = Some bt \<Longrightarrow> batches st' = (batches st)[b := x] \<Longrightarrow> batch_at st' c = (if c = b then x else batch_at st c)"
  by (auto simp: batch_at_def split: if_splits)

lemma inv_at_Some:
  "inv_at st r = Some v \<longleftrightarrow> (\<exists>bt. batch_at st (fst r) = Some bt \<and> snd r < length (invs bt) \<and> v = invs bt ! snd r)"
  by (auto simp: inv_at_def split: option.splits)

lemma inv_at_upd:
  assumes "batch_at st b = Some bt" "batches st' = (batches st)[b := Some bt']" "invs bt' = (invs bt)[i := w]" "i < length (invs bt)"
  shows "inv_at st' r = (if r = (b, i) then Some w else inv_at st r)"
proof -
  note b = batch_at_upd [OF assms(1,2), of "fst r"]
  show ?thesis
  proof (cases "fst r = b")
    case True
    then show ?thesis unfolding inv_at_def b using assms(1,3,4) by (cases r) (simp add: nth_list_update)
  next
    case False
    then show ?thesis unfolding inv_at_def b by (cases r) simp
  qed
qed

text \<open>The state that an update of a call leaves.\<close>

lemma upd_inv_eq:
  "inv_at st r = Some v \<Longrightarrow> batch_at st (fst r) = Some bt \<Longrightarrow>
     upd_inv r f st = st\<lparr>batches := (batches st)[fst r := Some (bt\<lparr>invs := (invs bt)[snd r := f v]\<rparr>)]\<rparr>"
  by (simp add: upd_inv_def with_inv_def upd_batch_def with_batch_def)

lemma upd_batch_eq:
  "batch_at st b = Some bt \<Longrightarrow> upd_batch b f st = st\<lparr>batches := (batches st)[b := Some (f bt)]\<rparr>"
  by (simp add: upd_batch_def with_batch_def)

lemma length_filter_update:
  "i < length xs \<Longrightarrow> length (filter P (xs[i := y])) + of_bool (P (xs ! i)) = length (filter P xs) + of_bool (P y)"
proof (induction xs arbitrary: i)
  case (Cons z xs)
  then show ?case by (cases i) auto
qed simp

text \<open>The invariant does not look at memory, history, clock and the other events.\<close>

lemma parts_cong:
  assumes "batches st' = batches st" "active_batch st' = active_batch st" "stack st' = stack st" "nodes st' = nodes st"
    "registry st' = registry st" "tool_count st' = tool_count st" "log st' = log st"
  shows "batch_ok x st' \<longleftrightarrow> batch_ok x st" "reg_ok st' \<longleftrightarrow> reg_ok st" "nodes_ok st' \<longleftrightarrow> nodes_ok st" "trace_ok st' \<longleftrightarrow> trace_ok st"
proof -
  have n: "node st' = node st" using assms(4) by (auto simp: node_def)
  show "reg_ok st' \<longleftrightarrow> reg_ok st" by (simp add: reg_ok_def n assms)
  have p: "pins st' = pins st" using batch_at_cong [OF assms(1)] by (auto simp: pins_def assms(2))
  show "nodes_ok st' \<longleftrightarrow> nodes_ok st" unfolding nodes_ok_def n p ..
  show "batch_ok x st' \<longleftrightarrow> batch_ok x st" "trace_ok st' \<longleftrightarrow> trace_ok st"
    unfolding batch_ok_def trace_ok_def batch_at_cong [OF assms(1)] assms by (rule refl)+
qed

lemma tools_inv_cong:
  assumes "batches st' = batches st" "active_batch st' = active_batch st" "gates st' = gates st" "timers st' = timers st"
    "stack st' = stack st" "nodes st' = nodes st" "registry st' = registry st" "tool_count st' = tool_count st"
    "fault st' = fault st" "log st' = log st"
  shows "tools_inv H x st' \<longleftrightarrow> tools_inv H x st"
  unfolding tools_inv_def parts_cong [OF assms(1,2,5,6,7,8,10)] call_ok_def handles_ok_def owners_def
    inv_at_cong [OF assms(1)] assms ..

lemma tools_inv_neutral [simp]:
  "tools_inv H x (st\<lparr>mem := t\<rparr>) \<longleftrightarrow> tools_inv H x st" "tools_inv H x (st\<lparr>hist := h\<rparr>) \<longleftrightarrow> tools_inv H x st"
  "tools_inv H x (st\<lparr>hist := h, mem := t\<rparr>) \<longleftrightarrow> tools_inv H x st"
  "tools_inv H x (st\<lparr>clock := c\<rparr>) \<longleftrightarrow> tools_inv H x st" "tools_inv H x (st\<lparr>tool_rl := l\<rparr>) \<longleftrightarrow> tools_inv H x st"
  "tools_inv H x (st\<lparr>gate_denials := d\<rparr>) \<longleftrightarrow> tools_inv H x st" "\<not> key e \<Longrightarrow> tools_inv H x (emit e st) \<longleftrightarrow> tools_inv H x st"
  by (rule tools_inv_cong; simp add: log_def)+

lemma batch_okD:
  assumes "batch_ok x st" "batch_at st b = Some bt"
  shows "active_batch st = Some b" "batch_at st c \<noteq> None \<longleftrightarrow> c = b" "\<not> detached bt" "0 < pending bt"
    "pending bt = incomplete bt + length (stack st) + x" "f \<in> set (stack st) \<Longrightarrow> frame_batch f = Some b"
    "length (filter is_dispatch (stack st)) \<le> 1"
proof -
  obtain a where a: "active_batch st = Some a" using assms by (cases "active_batch st") (auto simp: batch_ok_def)
  then have u: "\<And>c. batch_at st c \<noteq> None \<longleftrightarrow> c = a" using assms(1) by (simp add: batch_ok_def)
  then have "b = a" using assms(2) by (metis option.distinct(1))
  then show "active_batch st = Some b" "batch_at st c \<noteq> None \<longleftrightarrow> c = b" "\<not> detached bt" "0 < pending bt"
    "pending bt = incomplete bt + length (stack st) + x" "f \<in> set (stack st) \<Longrightarrow> frame_batch f = Some b"
    "length (filter is_dispatch (stack st)) \<le> 1"
    using a u assms by (auto simp: batch_ok_def)
qed

lemma batch_okI:
  "active_batch st = Some b \<Longrightarrow> (\<And>c. batch_at st c \<noteq> None \<longleftrightarrow> c = b) \<Longrightarrow> (\<And>f. f \<in> set (stack st) \<Longrightarrow> frame_batch f = Some b) \<Longrightarrow>
    length (filter is_dispatch (stack st)) \<le> 1 \<Longrightarrow> batch_at st b = Some bt \<Longrightarrow> \<not> detached bt \<Longrightarrow> 0 < pending bt \<Longrightarrow> pending bt = incomplete bt + length (stack st) + x \<Longrightarrow> batch_ok x st"
  by (simp add: batch_ok_def)

lemma handles_okD:
  assumes "handles_ok st"
  shows "g < length (gates st) \<Longrightarrow> gates st ! g = Some (Some r) \<Longrightarrow> \<exists>v. inv_at st r = Some v \<and> gate v = Some g"
    "(k, r) \<in> set (timers st) \<Longrightarrow> \<exists>v. inv_at st r = Some v \<and> (if k = Timeout then timer v else rl_timer v)"
    "Invoke r \<in> set (log st) \<or> Ask_permission r \<in> set (log st) \<Longrightarrow> Completed r \<in> set (log st) \<or> inv_at st r \<noteq> None"
  using assms unfolding handles_ok_def by blast+

lemma trace_okD:
  assumes "trace_ok st"
  shows "distinct (filter once (log st))" "e \<in> set (log st) \<Longrightarrow> ev_batch e < length (batches st)"
    "Tools_done b s \<in> set (log st) \<Longrightarrow> batch_at st b = None"
    "Tools_done b s \<in> set (log st) \<Longrightarrow> Tools_done b s' \<in> set (log st) \<Longrightarrow> s = s'"
    "Batch_progress b k n \<in> set (log st) \<Longrightarrow>
         (case batch_at st b of Some bt \<Rightarrow> n = length (invs bt) | None \<Rightarrow> \<forall>i < n. Completed (b, i) \<in> set (log st))"
  using assms unfolding trace_ok_def by blast+

section \<open>A step on one call\<close>

text \<open>A change that concerns the call \<open>r\<close> alone keeps the invariant of all others.\<close>

lemma tools_inv_call:
  assumes inv: "tools_inv H x st"
    and here: "batch_at st (fst r) = Some bt" "snd r < length (invs bt)" "H = None \<or> H = Some r"
    and reg: "fault st' = fault st" "reg_ok st'" "nodes_ok st'" "active_batch st' = active_batch st"
    and batch: "batches st' = (batches st)[fst r := Some bt']" "invs bt' = (invs bt)[snd r := v']" "detached bt' = detached bt"
      "0 < pending bt'" "pending bt' = incomplete bt' + length (stack st') + x'"
    and stck0: "length (filter is_dispatch (stack st')) \<le> length (filter is_dispatch (stack st))"
    and stck: "\<And>f. f \<in> set (stack st') \<Longrightarrow> frame_batch f = Some (fst r)"
      "\<And>r'. r' \<noteq> r \<Longrightarrow> waiting (stack st') r' = waiting (stack st) r'"
    and lg: "log st' = log st @ es" "set es \<subseteq> {Completed r, Invoke r, Ask_permission r}"
      "distinct (filter once es)" "set (filter once es) \<inter> set (log st) = {}"
    and gat: "\<And>g r'. r' \<noteq> r \<Longrightarrow> g < length (gates st') \<and> gates st' ! g = Some (Some r') \<longleftrightarrow> g < length (gates st) \<and> gates st ! g = Some (Some r')"
      "\<And>g. g < length (gates st') \<Longrightarrow> gates st' ! g = Some (Some r) \<Longrightarrow> gate v' = Some g"
    and tim: "\<And>k r'. r' \<noteq> r \<Longrightarrow> (k, r') \<in> set (timers st') \<longleftrightarrow> (k, r') \<in> set (timers st)"
      "\<And>k. (k, r) \<in> set (timers st') \<Longrightarrow> if k = Timeout then timer v' else rl_timer v'"
    and call: "call_ok H' st' r v'" "H' = None \<or> H' = Some r \<and> \<not> completed v'"
  shows "tools_inv H' x' st'"
proof -
  have ia: "inv_at st' r' = (if r' = r then Some v' else inv_at st r')" for r'
    using inv_at_upd [OF here(1) batch(1,2) here(2), of r'] by (cases r) auto
  have ba: "batch_at st' c = (if c = fst r then Some bt' else batch_at st c)" for c
    using batch_at_upd [OF here(1) batch(1)] .
  have ev: "e \<in> set (log st') \<longleftrightarrow> e \<in> set (log st)" if "e \<notin> {Completed r, Invoke r, Ask_permission r}" for e using lg(1,2) that by auto
  have mono: "e \<in> set (log st) \<Longrightarrow> e \<in> set (log st')" for e using lg(1) by simp
  have len: "length (batches st') = length (batches st)" "fst r < length (batches st)"
    using batch(1) here(1) by (auto simp: batch_at_def split: if_splits)
  have I: "batch_ok x st" "handles_ok st" "trace_ok st" "\<not> fault st" "\<And>r v. inv_at st r = Some v \<Longrightarrow> call_ok H st r v"
    using inv by (auto simp: tools_inv_def)
  have "batch_ok x' st'"
  proof (rule batch_okI)
    note d = batch_okD [OF I(1) here(1)]
    show "active_batch st' = Some (fst r)" "batch_at st' (fst r) = Some bt'" using d(1) reg(4) ba by simp_all
    show "batch_at st' c \<noteq> None \<longleftrightarrow> c = fst r" for c using d(2) [of c] ba by simp
  qed (use batch_okD(3,7) [OF I(1) here(1)] batch(3-5) stck(1) stck0 in simp_all)
  moreover have "call_ok H' st' r' v" if "inv_at st' r' = Some v" for r' v
  proof (cases "r' = r")
    case True then show ?thesis using call(1) that ia by simp
  next
    case False
    then have c: "call_ok H st r' v" using that ia I(5) by simp
    have e: "Completed r' \<in> set (log st') \<longleftrightarrow> Completed r' \<in> set (log st)" "Invoke r' \<in> set (log st') \<longleftrightarrow> Invoke r' \<in> set (log st)"
      "Ask_permission r' \<in> set (log st') \<longleftrightarrow> Ask_permission r' \<in> set (log st)" using ev False by auto
    have h: "(H' = Some r') = (H = Some r')" using False here(3) call(2) by auto
    show ?thesis using c unfolding call_ok_def owners_def e h stck(2) [OF False] tim(1) [OF False] gat(1) [OF False] .
  qed
  moreover have "handles_ok st'"
  proof -
    have "\<exists>v. inv_at st' r' = Some v \<and> gate v = Some g" if "g < length (gates st')" "gates st' ! g = Some (Some r')" for g r'
      using that gat(2) gat(1) [of r' g] handles_okD(1) [OF I(2), of g r'] ia [of r'] by (cases "r' = r") simp_all
    moreover have "\<exists>v. inv_at st' r' = Some v \<and> (if k = Timeout then timer v else rl_timer v)" if "(k, r') \<in> set (timers st')" for k r'
      using that tim(2) tim(1) [of r' k] handles_okD(2) [OF I(2), of k r'] ia [of r'] by (cases "r' = r") simp_all
    moreover have "Completed r' \<in> set (log st') \<or> inv_at st' r' \<noteq> None"
      if "Invoke r' \<in> set (log st') \<or> Ask_permission r' \<in> set (log st')" for r'
      using that ev [of "Invoke r'"] ev [of "Ask_permission r'"] mono [of "Completed r'"] handles_okD(3) [OF I(2), of r'] ia [of r']
      by (cases "r' = r") auto
    ultimately show ?thesis unfolding handles_ok_def by blast
  qed
  moreover have "trace_ok st'"
  proof -
    have t: "Tools_done b s \<in> set (log st') \<longleftrightarrow> Tools_done b s \<in> set (log st)"
      "Batch_progress b k n \<in> set (log st') \<longleftrightarrow> Batch_progress b k n \<in> set (log st)" for b s k n using ev by auto
    have "distinct (filter once (log st'))" using trace_okD(1) [OF I(3)] lg(1,3,4) by auto
    moreover have "\<forall>e \<in> set (log st'). ev_batch e < length (batches st')"
      using trace_okD(2) [OF I(3)] lg(1,2) len by auto
    moreover have "batch_at st' b = None" if "Tools_done b s \<in> set (log st')" for b s
      using that t(1) trace_okD(3) [OF I(3), of b s] ba [of b] here(1) by auto
    moreover have "s = s'" if "Tools_done b s \<in> set (log st')" "Tools_done b s' \<in> set (log st')" for b s s'
      using that t(1) trace_okD(4) [OF I(3)] by blast
    moreover have "case batch_at st' b of Some bt \<Rightarrow> n = length (invs bt) | None \<Rightarrow> \<forall>i < n. Completed (b, i) \<in> set (log st')"
      if "Batch_progress b k n \<in> set (log st')" for b k n
      using trace_okD(5) [OF I(3), of b k n] that t(2) ba [of b] here(1) batch(2) mono
      by (cases "b = fst r") (auto split: option.splits)
    ultimately show ?thesis unfolding trace_ok_def by blast
  qed
  ultimately show ?thesis using I(4) reg call(2) ia unfolding tools_inv_def by auto
qed

text \<open>The same for a change that leaves the tool and the completion of the call as they are.\<close>

lemma invs_update_count:
  assumes "i < length (invs bt)" "invs bt' = (invs bt)[i := v']" "P v' = P (invs bt ! i)"
  shows "length (filter P (invs bt')) = length (filter P (invs bt))"
  using length_filter_update [OF assms(1), of P v'] assms(2,3) by simp

lemma pins_batch: "batch_ok x st \<Longrightarrow> batch_at st b = Some bt \<Longrightarrow>
    pins st n = length (filter (\<lambda>v. \<not> completed v \<and> i_tool v = Some n) (invs bt))"
  using batch_okD(1) [of x st b bt] by (simp add: pins_def)

lemma tools_inv_call_keep:
  assumes inv: "tools_inv H x st"
    and here: "batch_at st (fst r) = Some bt" "inv_at st r = Some v" "H = None \<or> H = Some r"
    and reg: "fault st' = fault st" "nodes st' = nodes st" "registry st' = registry st" "tool_count st' = tool_count st"
      "active_batch st' = active_batch st"
    and batch: "batches st' = (batches st)[fst r := Some bt']" "invs bt' = (invs bt)[snd r := v']" "detached bt' = detached bt"
      "pending bt' + length (stack st) + x = pending bt + length (stack st') + x'" "pending bt \<le> pending bt'"
    and core: "i_tool v' = i_tool v" "completed v' = completed v"
    and stck0: "length (filter is_dispatch (stack st')) \<le> length (filter is_dispatch (stack st))"
    and stck: "\<And>f. f \<in> set (stack st') \<Longrightarrow> f \<in> set (stack st) \<or> frame_batch f = Some (fst r)"
      "\<And>r'. r' \<noteq> r \<Longrightarrow> waiting (stack st') r' = waiting (stack st) r'"
    and lg: "log st' = log st @ es" "set es \<subseteq> {Completed r, Invoke r, Ask_permission r}"
      "distinct (filter once es)" "set (filter once es) \<inter> set (log st) = {}"
    and gat: "\<And>g r'. r' \<noteq> r \<Longrightarrow> g < length (gates st') \<and> gates st' ! g = Some (Some r') \<longleftrightarrow> g < length (gates st) \<and> gates st ! g = Some (Some r')"
      "\<And>g. g < length (gates st') \<Longrightarrow> gates st' ! g = Some (Some r) \<Longrightarrow> gate v' = Some g"
    and tim: "\<And>k r'. r' \<noteq> r \<Longrightarrow> (k, r') \<in> set (timers st') \<longleftrightarrow> (k, r') \<in> set (timers st)"
      "\<And>k. (k, r) \<in> set (timers st') \<Longrightarrow> if k = Timeout then timer v' else rl_timer v'"
    and call: "call_ok H' st' r v'" "H' = None \<or> H' = Some r \<and> \<not> completed v'"
  shows "tools_inv H' x' st'"
proof -
  have i: "snd r < length (invs bt)" "v = invs bt ! snd r" using here(1,2) by (auto simp: inv_at_Some)
  have B: "batch_ok x st" and N: "reg_ok st" "nodes_ok st" using inv by (auto simp: tools_inv_def)
  note d = batch_okD [OF B here(1)]
  have nd: "node st' = node st" using reg(2) by (auto simp: node_def)
  have inc: "incomplete bt' = incomplete bt" unfolding incomplete_def by (rule invs_update_count [OF i(1) batch(2)]) (simp add: core i)
  have "batch_at st' (fst r) = Some bt'" using batch_at_upd [OF here(1) batch(1)] by simp
  then have "pins st' n = length (filter (\<lambda>v. \<not> completed v \<and> i_tool v = Some n) (invs bt'))" for n
    using d(1) reg(5) by (simp add: pins_def)
  moreover have "length (filter (\<lambda>v. \<not> completed v \<and> i_tool v = Some n) (invs bt')) = pins st n" for n
    unfolding pins_batch [OF B here(1)] by (rule invs_update_count [OF i(1) batch(2)]) (simp add: core i)
  ultimately have p: "pins st' n = pins st n" for n by simp
  show ?thesis
  proof (rule tools_inv_call [OF inv here(1) i(1) here(3) reg(1) _ _ reg(5) batch(1-3)])
    show "reg_ok st'" using N(1) by (simp add: reg_ok_def nd reg)
    show "nodes_ok st'" using N(2) unfolding nodes_ok_def nd p .
    show "0 < pending bt'" "pending bt' = incomplete bt' + length (stack st') + x'" using batch(4,5) d(4,5) inc by auto
    show "frame_batch f = Some (fst r)" if "f \<in> set (stack st')" for f using stck(1) [OF that] d(6) by blast
  qed (fact stck0 stck(2) lg gat tim call)+
qed

lemma inv_at_batch: "inv_at st r = Some v \<Longrightarrow> \<exists>bt. batch_at st (fst r) = Some bt \<and> snd r < length (invs bt) \<and> v = invs bt ! snd r"
  by (simp add: inv_at_Some)

lemma tools_inv_callD: "tools_inv H x st \<Longrightarrow> inv_at st r = Some v \<Longrightarrow> call_ok H st r v"
  unfolding tools_inv_def by blast

lemma call_okD:
  assumes "call_ok H st r v"
  shows "completed v \<longleftrightarrow> Completed r \<in> set (log st)"
    "\<not> completed v \<Longrightarrow> owners st r v = (if H = Some r then 0 else 1)"
    "\<not> completed v \<Longrightarrow> Ask_permission r \<in> set (log st) \<Longrightarrow> awaiting_perm v \<or> Invoke r \<in> set (log st) \<or> H = Some r"
    "gate v = Some g \<Longrightarrow> g < length (gates st) \<and> gates st ! g = Some (Some r)"
    "rl_timer v \<Longrightarrow> (Rl_delay, r) \<in> set (timers st)"
    "\<not> completed v \<Longrightarrow> Invoke r \<notin> set (log st) \<Longrightarrow> \<not> timer v \<and> \<not> timed_out v"
    "i_tool v = None \<Longrightarrow> gate v = None \<and> \<not> awaiting_perm v"
  using assms unfolding call_ok_def by blast+

text \<open>The call in hand waits for nothing and has nothing set.\<close>

lemma hand_free:
  assumes "call_ok (Some r) st r v" "\<not> completed v"
  shows "\<not> waiting (stack st) r" "\<not> rl_timer v" "gate v = None" "\<not> awaiting_perm v" "Invoke r \<notin> set (log st)" "\<not> timer v" "\<not> timed_out v"
  using call_okD(2,6) [OF assms] by (auto simp: owners_def)

lemma hand_call:
  assumes "tools_inv (Some r) x st"
  obtains v bt where "inv_at st r = Some v" "batch_at st (fst r) = Some bt" "snd r < length (invs bt)" "v = invs bt ! snd r"
    "\<not> completed v" "call_ok (Some r) st r v" "\<not> waiting (stack st) r" "\<not> rl_timer v" "gate v = None" "\<not> awaiting_perm v"
    "Invoke r \<notin> set (log st)" "\<not> timer v" "\<not> timed_out v" "Completed r \<notin> set (log st)"
proof -
  obtain v where v: "inv_at st r = Some v" "\<not> completed v" using assms by (auto simp: tools_inv_def)
  note c = tools_inv_callD [OF assms v(1)]
  show thesis using that inv_at_batch [OF v(1)] v c hand_free [OF c v(2)] call_okD(1) [OF c] by auto
qed

text \<open>No handle refers to the call in hand.\<close>

lemma hand_handles:
  assumes "tools_inv (Some r) x st"
  shows "\<not> (g < length (gates st) \<and> gates st ! g = Some (Some r))" "(k, r) \<notin> set (timers st)"
proof -
  obtain v where v: "inv_at st r = Some v" "gate v = None" "\<not> timer v" "\<not> rl_timer v" using hand_call [OF assms] by metis
  have "handles_ok st" using assms by (simp add: tools_inv_def)
  from handles_okD(1) [OF this, of g r] handles_okD(2) [OF this, of k r] v
  show "\<not> (g < length (gates st) \<and> gates st ! g = Some (Some r))" "(k, r) \<notin> set (timers st)" by (auto split: if_splits)
qed

section \<open>Parking a call\<close>

lemma park_permission:
  assumes "tools_inv (Some r) x st" and tool: "\<And>v. inv_at st r = Some v \<Longrightarrow> i_tool v \<noteq> None"
  shows "tools_inv None x (emit (Ask_permission r) (upd_inv r (\<lambda>v. v\<lparr>awaiting_perm := True\<rparr>) st))"
proof -
  from assms(1) obtain v bt where v: "inv_at st r = Some v" "batch_at st (fst r) = Some bt" "\<not> completed v" "call_ok (Some r) st r v"
    and free: "\<not> waiting (stack st) r" "\<not> rl_timer v" "gate v = None" "\<not> awaiting_perm v" "Invoke r \<notin> set (log st)" "\<not> timer v" "\<not> timed_out v" "Completed r \<notin> set (log st)"
    by (rule hand_call)
  note no = hand_handles [OF assms(1)]
  show ?thesis unfolding upd_inv_eq [OF v(1,2)]
    by (rule tools_inv_call_keep [OF assms(1) v(2,1), where v' = "v\<lparr>awaiting_perm := True\<rparr>" and es = "[Ask_permission r]"
          and bt' = "bt\<lparr>invs := (invs bt)[snd r := v\<lparr>awaiting_perm := True\<rparr>]\<rparr>"])
      (use v free no tool in \<open>auto simp: call_ok_def owners_def log_def\<close>)
qed

lemma park_hook:
  assumes "tools_inv (Some r) x st" and ask: "Ask_permission r \<notin> set (log st)"
    and tool: "\<And>v. inv_at st r = Some v \<Longrightarrow> i_tool v \<noteq> None"
  shows "tools_inv None x (upd_inv r (\<lambda>v. v\<lparr>gate := Some (length (gates st))\<rparr>) (st\<lparr>gates := gates st @ [Some (Some r)]\<rparr>))"
proof -
  from assms(1) obtain v bt where v: "inv_at st r = Some v" "batch_at st (fst r) = Some bt" "\<not> completed v" "call_ok (Some r) st r v"
    and free: "\<not> waiting (stack st) r" "\<not> rl_timer v" "gate v = None" "\<not> awaiting_perm v" "Invoke r \<notin> set (log st)" "\<not> timer v" "\<not> timed_out v" "Completed r \<notin> set (log st)"
    by (rule hand_call)
  note no = hand_handles [OF assms(1)]
  have v': "inv_at (st\<lparr>gates := gates st @ [Some (Some r)]\<rparr>) r = Some v" "batch_at (st\<lparr>gates := gates st @ [Some (Some r)]\<rparr>) (fst r) = Some bt"
    using v(1,2) by simp_all
  show ?thesis unfolding upd_inv_eq [OF v']
    by (rule tools_inv_call_keep [OF assms(1) v(2,1), where v' = "v\<lparr>gate := Some (length (gates st))\<rparr>" and es = "[]"
          and bt' = "bt\<lparr>invs := (invs bt)[snd r := v\<lparr>gate := Some (length (gates st))\<rparr>]\<rparr>"])
      (use v free no ask tool in \<open>auto simp: call_ok_def owners_def log_def nth_append less_Suc_eq\<close>)
qed

lemma park_delay:
  assumes "tools_inv (Some r) x st" and ask: "Ask_permission r \<notin> set (log st)"
  shows "tools_inv None x (upd_inv r (\<lambda>v. v\<lparr>rl_timer := True\<rparr>) (st\<lparr>timers := timers st @ [(Rl_delay, r)]\<rparr>))"
proof -
  from assms(1) obtain v bt where v: "inv_at st r = Some v" "batch_at st (fst r) = Some bt" "\<not> completed v" "call_ok (Some r) st r v"
    and free: "\<not> waiting (stack st) r" "\<not> rl_timer v" "gate v = None" "\<not> awaiting_perm v" "Invoke r \<notin> set (log st)" "\<not> timer v" "\<not> timed_out v" "Completed r \<notin> set (log st)"
    by (rule hand_call)
  note no = hand_handles [OF assms(1)]
  have v': "inv_at (st\<lparr>timers := timers st @ [(Rl_delay, r)]\<rparr>) r = Some v" "batch_at (st\<lparr>timers := timers st @ [(Rl_delay, r)]\<rparr>) (fst r) = Some bt"
    using v(1,2) by simp_all
  show ?thesis unfolding upd_inv_eq [OF v']
    by (rule tools_inv_call_keep [OF assms(1) v(2,1), where v' = "v\<lparr>rl_timer := True\<rparr>" and es = "[]"
          and bt' = "bt\<lparr>invs := (invs bt)[snd r := v\<lparr>rl_timer := True\<rparr>]\<rparr>"])
      (use v free no ask in \<open>auto simp: call_ok_def owners_def\<close>)
qed

section \<open>Taking a call in hand\<close>

lemma owner_is:
  assumes "call_ok None st r v" "\<not> completed v"
  shows "gate v \<noteq> None \<Longrightarrow> \<not> waiting (stack st) r \<and> \<not> rl_timer v \<and> \<not> awaiting_perm v \<and> Invoke r \<notin> set (log st)"
    "awaiting_perm v \<Longrightarrow> \<not> waiting (stack st) r \<and> \<not> rl_timer v \<and> gate v = None \<and> Invoke r \<notin> set (log st)"
    "rl_timer v \<Longrightarrow> \<not> waiting (stack st) r \<and> gate v = None \<and> \<not> awaiting_perm v \<and> Invoke r \<notin> set (log st)"
    "waiting (stack st) r \<Longrightarrow> \<not> rl_timer v \<and> gate v = None \<and> \<not> awaiting_perm v \<and> Invoke r \<notin> set (log st)"
    "Invoke r \<in> set (log st) \<Longrightarrow> \<not> waiting (stack st) r \<and> \<not> rl_timer v \<and> gate v = None \<and> \<not> awaiting_perm v"
  using call_okD(2) [OF assms] by (auto simp: owners_def split: if_splits)

lemma parked_incomplete:
  assumes "call_ok H st r v" "gate v \<noteq> None \<or> awaiting_perm v \<or> rl_timer v \<or> timer v \<or> waiting (stack st) r"
  shows "\<not> completed v"
  using assms by (auto simp: call_ok_def)

lemma take_from_hook:
  assumes "tools_inv None x st" "g < length (gates st)" "gates st ! g = Some (Some r)" "y = None \<or> y = Some None"
  shows "tools_inv (Some r) x (upd_inv r (\<lambda>v. v\<lparr>gate := None\<rparr>) (st\<lparr>gates := (gates st)[g := y]\<rparr>))"
    "Ask_permission r \<notin> set (log st)" "\<exists>v. inv_at st r = Some v \<and> \<not> completed v \<and> i_tool v \<noteq> None"
proof -
  have "handles_ok st" using assms(1) by (simp add: tools_inv_def)
  note h = handles_okD [OF this]
  from h(1) [OF assms(2,3)] obtain v where v: "inv_at st r = Some v" "gate v = Some g" by blast
  note c = tools_inv_callD [OF assms(1) v(1)]
  have nc: "\<not> completed v" using parked_incomplete [OF c] v(2) by simp
  note o = owner_is(1) [OF c nc, unfolded v(2), simplified]
  obtain bt where bt: "batch_at st (fst r) = Some bt" using inv_at_batch [OF v(1)] by blast
  show ask: "Ask_permission r \<notin> set (log st)" using call_okD(3) [OF c nc] o by auto
  show "\<exists>v. inv_at st r = Some v \<and> \<not> completed v \<and> i_tool v \<noteq> None" using v nc call_okD(7) [OF c] by auto
  have tm: "(k, r) \<notin> set (timers st)" for k using h(2) [of k r] v(1) o call_okD(6) [OF c nc] by (auto split: if_splits)
  have un: "g' = g" if "g' < length (gates st)" "gates st ! g' = Some (Some r)" for g' using h(1) [OF that] v by simp
  let ?st = "st\<lparr>gates := (gates st)[g := y]\<rparr>"
  have v': "inv_at ?st r = Some v" "batch_at ?st (fst r) = Some bt" using v(1) bt by simp_all
  show "tools_inv (Some r) x (upd_inv r (\<lambda>v. v\<lparr>gate := None\<rparr>) ?st)" unfolding upd_inv_eq [OF v']
  proof (rule tools_inv_call_keep [OF assms(1) bt v(1), where v' = "v\<lparr>gate := None\<rparr>" and es = "[]"
        and bt' = "bt\<lparr>invs := (invs bt)[snd r := v\<lparr>gate := None\<rparr>]\<rparr>"], goal_cases)
    case (21 g' r')
    then show ?case using assms(2-4) by (cases "g' = g") auto
  next
    case (22 g')
    show ?case
    proof (cases "g' = g")
      case True
      then show ?thesis using 22 assms(2,4) by auto
    next
      case False
      then have "g' = g" using 22 by (intro un) simp_all
      then show ?thesis using False by contradiction
    qed
  next
    case 25
    then show ?case using c nc o by (auto simp: call_ok_def owners_def)
  qed (use nc tm in auto)
qed

lemma take_from_permission:
  assumes "tools_inv None x st" "inv_at st r = Some v" "awaiting_perm v"
  shows "tools_inv (Some r) x (upd_inv r (\<lambda>v. v\<lparr>awaiting_perm := False\<rparr>) st)" "\<not> completed v" "i_tool v \<noteq> None"
proof -
  have "handles_ok st" using assms(1) by (simp add: tools_inv_def)
  note h = handles_okD [OF this]
  note c = tools_inv_callD [OF assms(1,2)]
  show nc: "\<not> completed v" using parked_incomplete [OF c] assms(3) by simp
  note o = owner_is(2) [OF c nc assms(3)]
  obtain bt where bt: "batch_at st (fst r) = Some bt" using inv_at_batch [OF assms(2)] by blast
  show "i_tool v \<noteq> None" using assms(3) call_okD(7) [OF c] by auto
  have tm: "(k, r) \<notin> set (timers st)" for k using h(2) [of k r] assms(2) o call_okD(6) [OF c nc] by (auto split: if_splits)
  have un: "\<not> (g < length (gates st) \<and> gates st ! g = Some (Some r))" for g using h(1) [of g r] assms(2) o by auto
  show "tools_inv (Some r) x (upd_inv r (\<lambda>v. v\<lparr>awaiting_perm := False\<rparr>) st)" unfolding upd_inv_eq [OF assms(2) bt]
    by (rule tools_inv_call_keep [OF assms(1) bt assms(2), where v' = "v\<lparr>awaiting_perm := False\<rparr>" and es = "[]"
          and bt' = "bt\<lparr>invs := (invs bt)[snd r := v\<lparr>awaiting_perm := False\<rparr>]\<rparr>"])
      (use nc o c tm un assms(3) in \<open>auto simp: call_ok_def owners_def\<close>)
qed

lemma take_from_delay:
  assumes "tools_inv None x st" "inv_at st r = Some v" "rl_timer v"
  shows "tools_inv (Some r) x (upd_inv r (\<lambda>v. v\<lparr>rl_timer := False\<rparr>) (st\<lparr>timers := filter (\<lambda>z. z \<noteq> (Rl_delay, r)) (timers st)\<rparr>))"
    "\<not> completed v" "Ask_permission r \<notin> set (log st)"
proof -
  have "handles_ok st" using assms(1) by (simp add: tools_inv_def)
  note h = handles_okD [OF this]
  note c = tools_inv_callD [OF assms(1,2)]
  show nc: "\<not> completed v" using parked_incomplete [OF c] assms(3) by simp
  note o = owner_is(3) [OF c nc assms(3)]
  show "Ask_permission r \<notin> set (log st)" using call_okD(3) [OF c nc] o by auto
  obtain bt where bt: "batch_at st (fst r) = Some bt" using inv_at_batch [OF assms(2)] by blast
  have tm: "(Timeout, r) \<notin> set (timers st)" using h(2) [of Timeout r] assms(2) o call_okD(6) [OF c nc] by auto
  have tm': "k = Timeout" if "k \<noteq> Rl_delay" for k using that by (cases k) auto
  have un: "\<not> (g < length (gates st) \<and> gates st ! g = Some (Some r))" for g using h(1) [of g r] assms(2) o by auto
  let ?st = "st\<lparr>timers := filter (\<lambda>z. z \<noteq> (Rl_delay, r)) (timers st)\<rparr>"
  have v': "inv_at ?st r = Some v" "batch_at ?st (fst r) = Some bt" using assms(2) bt by simp_all
  show "tools_inv (Some r) x (upd_inv r (\<lambda>v. v\<lparr>rl_timer := False\<rparr>) ?st)" unfolding upd_inv_eq [OF v']
    by (rule tools_inv_call_keep [OF assms(1) bt assms(2), where v' = "v\<lparr>rl_timer := False\<rparr>" and es = "[]"
          and bt' = "bt\<lparr>invs := (invs bt)[snd r := v\<lparr>rl_timer := False\<rparr>]\<rparr>"])
      (use nc o c tm tm' un assms(3) in \<open>auto simp: call_ok_def owners_def\<close>)
qed

text \<open>Fields of a call that nothing waits on.\<close>

definition keeps :: "clm_tool_invocation \<Rightarrow> clm_tool_invocation \<Rightarrow> bool" where
  "keeps v w \<longleftrightarrow> completed w = completed v \<and> i_tool w = i_tool v \<and> rl_timer w = rl_timer v \<and> gate w = gate v
     \<and> awaiting_perm w = awaiting_perm v \<and> timer w = timer v"

lemma upd_inv_other:
  assumes "tools_inv H x st" "H = None \<or> H = Some r" "inv_at st r = Some v" "keeps v (f v)"
    "timed_out (f v) \<longrightarrow> timed_out v \<or> Invoke r \<in> set (log st)"
  shows "tools_inv H x (upd_inv r f st)"
proof -
  obtain bt where bt: "batch_at st (fst r) = Some bt" using inv_at_batch [OF assms(3)] by blast
  note c = tools_inv_callD [OF assms(1,3)]
  have "handles_ok st" using assms(1) by (simp add: tools_inv_def)
  note h = handles_okD [OF this]
  have H: "H = None \<or> H = Some r \<and> \<not> completed (f v)" using assms(1-4) by (auto simp: tools_inv_def keeps_def)
  have tm: "(k = Timeout \<longrightarrow> timer v) \<and> (k \<noteq> Timeout \<longrightarrow> rl_timer v)" if "(k, r) \<in> set (timers st)" for k
    using h(2) [OF that] assms(3) by (auto split: if_splits)
  have gt: "gate (f v) = Some g" if "g < length (gates st)" "gates st ! g = Some (Some r)" for g
    using h(1) [OF that] assms(3,4) by (simp add: keeps_def)
  have ok: "call_ok H (st\<lparr>batches := (batches st)[fst r := Some (bt\<lparr>invs := (invs bt)[snd r := f v]\<rparr>)]\<rparr>) r (f v)"
    using c assms(4,5) by (auto simp: call_ok_def keeps_def owners_def)
  show ?thesis unfolding upd_inv_eq [OF assms(3) bt]
    by (rule tools_inv_call_keep [OF assms(1) bt assms(3,2), where v' = "f v" and es = "[]"
          and bt' = "bt\<lparr>invs := (invs bt)[snd r := f v]\<rparr>"])
      (use assms(4) H tm gt ok in \<open>auto simp: keeps_def\<close>)
qed

section \<open>Invoking and completing a call\<close>

text \<open>A call that is not complete keeps the node of its tool alive.\<close>

lemma call_node:
  assumes "tools_inv H x st" "inv_at st r = Some v" "\<not> completed v" "i_tool v = Some n"
  shows "\<exists>t. node st n = Some t \<and> inflight t = pins st n \<and> 0 < pins st n"
proof -
  have B: "batch_ok x st" "nodes_ok st" using assms(1) by (auto simp: tools_inv_def)
  obtain bt where bt: "batch_at st (fst r) = Some bt" "snd r < length (invs bt)" "v = invs bt ! snd r" using inv_at_batch [OF assms(2)] by blast
  have "v \<in> set (filter (\<lambda>v. \<not> completed v \<and> i_tool v = Some n) (invs bt))" using bt assms(3,4) by auto
  then have p: "0 < pins st n" unfolding pins_batch [OF B(1) bt(1)] by (metis length_pos_if_in_set)
  have "case node st n of Some t \<Rightarrow> inflight t = pins st n | None \<Rightarrow> pins st n = 0" using B(2) by (simp add: nodes_ok_def)
  then show ?thesis using p by (cases "node st n") auto
qed

lemma waiting_push [simp]: "waiting (In_invoke b # fs) r = waiting fs r" "waiting (In_cancel b i # fs) r = waiting fs r"
  by (auto simp: waiting_def)

lemma timer_set_cases:
  obtains (ok) t where "timer_set k r st = (True, st\<lparr>mem := t, timers := timers st @ [(k, r)]\<rparr>)"
  | (failed) t where "timer_set k r st = (False, st\<lparr>mem := t\<rparr>)"
  by (cases "alloc (mem st)"; cases "fst (alloc (mem st))") (auto simp: timer_set_def outcome_def Let_def)

lemma upd_inv_simps:
  assumes "inv_at st r = Some v" "batch_at st (fst r) = Some bt"
  shows "batch_at (upd_inv r f st) c = (if c = fst r then Some (bt\<lparr>invs := (invs bt)[snd r := f v]\<rparr>) else batch_at st c)"
    "inv_at (upd_inv r f st) r' = (if r' = r then Some (f v) else inv_at st r')"
    "nodes (upd_inv r f st) = nodes st" "node (upd_inv r f st) = node st" "log (upd_inv r f st) = log st"
    "timers (upd_inv r f st) = timers st" "gates (upd_inv r f st) = gates st" "stack (upd_inv r f st) = stack st"
    "active_batch (upd_inv r f st) = active_batch st" "fault (upd_inv r f st) = fault st" "mem (upd_inv r f st) = mem st"
proof -
  note e = upd_inv_eq [OF assms, of f]
  show "batch_at (upd_inv r f st) c = (if c = fst r then Some (bt\<lparr>invs := (invs bt)[snd r := f v]\<rparr>) else batch_at st c)"
    unfolding e by (rule batch_at_upd [OF assms(2)]) simp
  show "inv_at (upd_inv r f st) r' = (if r' = r then Some (f v) else inv_at st r')"
    unfolding e using inv_at_upd [OF assms(2), of _ "bt\<lparr>invs := (invs bt)[snd r := f v]\<rparr>" "snd r" "f v" r'] assms
    by (simp add: inv_at_Some)
qed (simp_all add: upd_inv_eq [OF assms] node_def log_def)

lemma invoke_call:
  assumes "tools_inv (Some r) x st" "inv_at st r = Some v" "i_tool v \<noteq> None"
  shows "tools_inv None x (run_invoke E r st)" "\<not> fault (run_invoke E r st)"
proof -
  from assms(1) obtain v0 bt where v0: "inv_at st r = Some v0" and bt: "batch_at st (fst r) = Some bt" "snd r < length (invs bt)"
      "v0 = invs bt ! snd r"
    and c0: "\<not> completed v0" "call_ok (Some r) st r v0" and free0: "\<not> waiting (stack st) r" "\<not> rl_timer v0" "gate v0 = None" "\<not> awaiting_perm v0" "Invoke r \<notin> set (log st)" "\<not> timer v0" "\<not> timed_out v0" "Completed r \<notin> set (log st)"
    by (rule hand_call)
  have [simp]: "v0 = v" using v0 assms(2) by simp
  note c = c0 [simplified] and free = free0 [simplified]
  note no = hand_handles [OF assms(1)]
  obtain n where n: "i_tool v = Some n" using assms(3) by auto
  obtain t where nd: "node st n = Some t" using call_node [OF assms(1,2) c(1) n] by blast
  define arm where "arm = (0 < timeout_ms v \<and> \<not> timer v \<and> has_timer_set E)"
  define st1 where "st1 = (if arm then (case timer_set Timeout r st of (ok, st) \<Rightarrow> upd_inv r (\<lambda>v. v\<lparr>timer := ok\<rparr>) st) else st)"
  obtain ok m where st1: "st1 = st\<lparr>mem := m, timers := timers st @ (if ok then [(Timeout, r)] else []),
      batches := (batches st)[fst r := Some (bt\<lparr>invs := (invs bt)[snd r := v\<lparr>timer := ok\<rparr>]\<rparr>)]\<rparr>"
  proof (cases arm)
    case False
    have "v\<lparr>timer := False\<rparr> = v" using free(6) by simp
    then have "(batches st)[fst r := Some (bt\<lparr>invs := (invs bt)[snd r := v\<lparr>timer := False\<rparr>]\<rparr>)] = batches st"
      using bt by (auto simp: batch_at_def list_update_same_conv split: if_splits)
    then show thesis using that [of False "mem st"] False by (simp add: st1_def)
  next
    case True
    show thesis
    proof (cases rule: timer_set_cases [of Timeout r st])
      case (ok t)
      then show thesis using that [of True t] True assms(2) bt(1)
        by (simp add: st1_def upd_inv_eq [where v = v and bt = bt])
    next
      case (failed t)
      then show thesis using that [of False t] True assms(2) bt(1)
        by (simp add: st1_def upd_inv_eq [where v = v and bt = bt])
    qed
  qed
  let ?v = "v\<lparr>timer := ok\<rparr>"
  let ?bt = "bt\<lparr>invs := (invs bt)[snd r := ?v], pending := pending bt + 1\<rparr>"
  let ?st = "push (In_invoke (fst r)) (emit (Invoke r) (st\<lparr>mem := m, timers := timers st @ (if ok then [(Timeout, r)] else []),
      batches := (batches st)[fst r := Some ?bt]\<rparr>))"
  have b1: "batch_at st1 (fst r) = Some (bt\<lparr>invs := (invs bt)[snd r := ?v]\<rparr>)"
    unfolding st1 by (subst batch_at_upd [OF bt(1)]) simp_all
  have n1: "node st1 n = Some t" using nd unfolding st1 by (simp add: node_def)
  have eq: "run_invoke E r st = ?st"
    unfolding run_invoke_def with_inv_def assms(2) option.case Let_def
    unfolding arm_def [symmetric] unfolding st1_def [symmetric] upd_batch_eq [OF b1]
    using n n1 by simp (simp add: st1)
  have "tools_inv None x ?st"
    by (rule tools_inv_call_keep [OF assms(1) bt(1) assms(2), where v' = ?v and es = "[Invoke r]" and bt' = ?bt])
      (use c free no bt in \<open>auto simp: call_ok_def owners_def log_def split: if_splits\<close>)
  then show "tools_inv None x (run_invoke E r st)" unfolding eq .
  then show "\<not> fault (run_invoke E r st)" by (simp add: tools_inv_def)
qed

lemma bad_ext:
  fixes st :: agent_tools
  shows "active_batch (bad st) = active_batch st" "gates (bad st) = gates st" "timers (bad st) = timers st" "stack (bad st) = stack st"
    "log (bad st) = log st"
  by (simp_all add: bad_def log_def)

text \<open>Operations on tool nodes leave the rest of the state alone.\<close>

lemma upd_node_ext [simp]:
  fixes st :: agent_tools
  shows "batches (upd_node n f st) = batches st" "active_batch (upd_node n f st) = active_batch st" "gates (upd_node n f st) = gates st"
    "timers (upd_node n f st) = timers st" "stack (upd_node n f st) = stack st" "log (upd_node n f st) = log st"
  by (auto simp: upd_node_def bad_def log_def split: option.splits)

lemma tool_detach_ext [simp]:
  fixes st :: agent_tools
  shows "batches (tool_detach n st) = batches st" "active_batch (tool_detach n st) = active_batch st" "gates (tool_detach n st) = gates st"
    "timers (tool_detach n st) = timers st" "stack (tool_detach n st) = stack st" "log (tool_detach n st) = log st"
  by (auto simp: tool_detach_def bad_ext split: option.splits)

lemma tool_node_free_ext [simp]:
  fixes st :: agent_tools
  shows "batches (tool_node_free n st) = batches st" "active_batch (tool_node_free n st) = active_batch st" "gates (tool_node_free n st) = gates st"
    "timers (tool_node_free n st) = timers st" "stack (tool_node_free n st) = stack st" "log (tool_node_free n st) = log st"
  using tool_detach_ext [of n st] by (simp_all add: tool_node_free_def Let_def log_def)

lemma unpin_ext [simp]:
  fixes st :: agent_tools
  shows "batches (unpin n st) = batches st" "active_batch (unpin n st) = active_batch st" "gates (unpin n st) = gates st"
    "timers (unpin n st) = timers st" "stack (unpin n st) = stack st" "log (unpin n st) = log st"
  by (auto simp: unpin_def Let_def split: option.splits)

lemma unpin_simps:
  assumes "node st n = Some t" "0 < inflight t"
  shows "node (unpin n st) m = (if m = n then if removed t \<and> inflight t = 1 then None else Some (t\<lparr>inflight := inflight t - 1\<rparr>) else node st m)"
    "registry (unpin n st) = registry st" "tool_count (unpin n st) = tool_count st" "fault (unpin n st) = fault st"
proof -
  define U where "U = upd_node n (\<lambda>t. t\<lparr>inflight := inflight t - 1\<rparr>) st"
  note u = upd_node_simps [OF assms(1), of "\<lambda>t. t\<lparr>inflight := inflight t - 1\<rparr>", folded U_def]
  have nu: "node U n = Some (t\<lparr>inflight := inflight t - 1\<rparr>)" using u(1) by simp
  note fr = tool_node_free_simps [OF nu]
  have e: "unpin n st = (if removed t \<and> inflight t = 1 then tool_node_free n U else U)"
    unfolding unpin_def Let_def U_def [symmetric] nu option.case using assms(2) by auto
  show "node (unpin n st) m = (if m = n then if removed t \<and> inflight t = 1 then None else Some (t\<lparr>inflight := inflight t - 1\<rparr>) else node st m)"
    unfolding e by (auto simp: fr u)
  show "registry (unpin n st) = registry st" "tool_count (unpin n st) = tool_count st" "fault (unpin n st) = fault st"
    unfolding e by (auto simp: fr u)
qed

lemma reg_ok_unpin:
  assumes "reg_ok st" "node st n = Some t" "0 < inflight t"
  shows "reg_ok (unpin n st)"
proof (cases "removed t \<and> inflight t = 1")
  case True
  note s = unpin_simps [OF assms(2,3)]
  have n: "n \<notin> set (registry st)" using assms(1,2) True by (auto simp: reg_ok_def)
  have same: "node (unpin n st) m = node st m" if "m \<in> set (registry st)" for m using that n s(1) by auto
  have nm: "inj_on (\<lambda>n. map_option t_name (node (unpin n' st) n)) (set (registry st))
      = inj_on (\<lambda>n. map_option t_name (node st n)) (set (registry st))" if "n' = n" for n'
    by (rule inj_on_cong) (simp add: same that)
  have z: "removed u \<and> 0 < inflight u" if "node (unpin n st) m = Some u" "m \<notin> set (registry st)" for m u
  proof -
    have "node st m = Some u" using that(1) True by (simp add: s(1) split: if_splits)
    then show ?thesis using that(2) assms(1) by (auto simp: reg_ok_def)
  qed
  show ?thesis unfolding reg_ok_def s(2,3) nm [OF refl]
    using assms(1) same z by (auto simp: reg_ok_def)
next
  case False
  have nz: "removed t \<longrightarrow> 0 < inflight t - 1" using False assms(3) by auto
  show ?thesis
    by (rule reg_ok_node [OF assms(1) _ unpin_simps(2,3) [OF assms(2,3)] assms(2), where t' = "t\<lparr>inflight := inflight t - 1\<rparr>"])
      (use False nz in \<open>auto simp: unpin_simps [OF assms(2,3)]\<close>)
qed

text \<open>The first half of \<^verbatim>\<open>inv_finalize\<close>: the call is complete, its timer and its pin on the tool are gone.\<close>

definition finish_call :: "iref \<Rightarrow> clm_tool_invocation \<Rightarrow> agent_tools \<Rightarrow> agent_tools" where
  "finish_call r v st =
     (let st = emit (Completed r) (upd_inv r (\<lambda>v. v\<lparr>completed := True\<rparr>) st);
          st = (if timer v then upd_inv r (\<lambda>v. v\<lparr>timer := False\<rparr>) (timer_cancel Timeout r st) else st) in
      case i_tool v of None \<Rightarrow> st | Some n \<Rightarrow> unpin n st)"

lemma finish_state:
  assumes "inv_at st r = Some v" "batch_at st (fst r) = Some bt" "(Timeout, r) \<in> set (timers st) \<longrightarrow> timer v"
  shows "finish_call r v st = (case i_tool v of None \<Rightarrow> id | Some n \<Rightarrow> unpin n)
    (st\<lparr>trace := trace st @ [Completed r], timers := filter (\<lambda>z. z \<noteq> (Timeout, r)) (timers st),
       batches := (batches st)[fst r := Some (bt\<lparr>invs := (invs bt)[snd r := v\<lparr>completed := True, timer := False\<rparr>]\<rparr>)]\<rparr>)"
proof -
  let ?st1 = "emit (Completed r) (upd_inv r (\<lambda>v. v\<lparr>completed := True\<rparr>) st)"
  define st1 where "st1 = ?st1"
  have i1: "inv_at st1 r = Some (v\<lparr>completed := True\<rparr>)"
    "batch_at st1 (fst r) = Some (bt\<lparr>invs := (invs bt)[snd r := v\<lparr>completed := True\<rparr>]\<rparr>)"
    by (simp_all add: st1_def upd_inv_simps [OF assms(1,2)])
  have e1: "st1 = st\<lparr>trace := trace st @ [Completed r],
      batches := (batches st)[fst r := Some (bt\<lparr>invs := (invs bt)[snd r := v\<lparr>completed := True\<rparr>]\<rparr>)]\<rparr>"
    unfolding st1_def upd_inv_eq [OF assms(1,2)] emit_def by simp
  show ?thesis
  proof (cases "timer v")
    case True
    have "inv_at (timer_cancel Timeout r st1) r = Some (v\<lparr>completed := True\<rparr>)"
      "batch_at (timer_cancel Timeout r st1) (fst r) = Some (bt\<lparr>invs := (invs bt)[snd r := v\<lparr>completed := True\<rparr>]\<rparr>)"
      using i1 by (simp_all add: timer_cancel_def)
    note e2 = upd_inv_eq [OF this, of "\<lambda>v. v\<lparr>timer := False\<rparr>"]
    show ?thesis unfolding finish_call_def Let_def st1_def [symmetric] e2 using True
      by (simp add: timer_cancel_def e1 split: option.split)
  next
    case False
    then have t: "v\<lparr>completed := True, timer := False\<rparr> = v\<lparr>completed := True\<rparr>" "(Timeout, r) \<notin> set (timers st)" using assms(3) by simp_all
    have "filter (\<lambda>z. z \<noteq> (Timeout, r)) (timers st) = timers st" using t(2) by (auto simp: filter_id_conv)
    then show ?thesis unfolding finish_call_def Let_def st1_def [symmetric] t(1) using False by (simp add: e1 split: option.split)
  qed
qed

lemma complete_call:
  assumes "tools_inv H x st" "H = Some r \<or> H = None \<and> Invoke r \<in> set (log st)" "inv_at st r = Some v" "\<not> completed v"
  shows "tools_inv None (x + 1) (finish_call r v st)"
proof -
  have I: "batch_ok x st" "reg_ok st" "nodes_ok st" "handles_ok st" using assms(1) by (auto simp: tools_inv_def)
  obtain bt where bt: "batch_at st (fst r) = Some bt" "snd r < length (invs bt)" "v = invs bt ! snd r" using inv_at_batch [OF assms(3)] by blast
  note c = tools_inv_callD [OF assms(1,3)] and h = handles_okD [OF I(4)] and d = batch_okD [OF I(1) bt(1)]
  have o: "\<not> waiting (stack st) r" "\<not> rl_timer v" "gate v = None" "\<not> awaiting_perm v"
    using call_okD(2) [OF c assms(4)] assms(2) by (auto simp: owners_def split: if_splits)
  have tv: "(Timeout, r) \<in> set (timers st) \<longrightarrow> timer v" "(Rl_delay, r) \<notin> set (timers st)"
    using h(2) [of Timeout r] h(2) [of Rl_delay r] assms(3) o(2) by auto
  have tk: "(k, r) \<notin> set (timers st)" if "k \<noteq> Timeout" for k using tv(2) that by (cases k) auto
  have gt: "\<not> (g < length (gates st) \<and> gates st ! g = Some (Some r))" for g using h(1) [of g r] assms(3) o(3) by auto
  let ?v = "v\<lparr>completed := True, timer := False\<rparr>"
  let ?bt = "bt\<lparr>invs := (invs bt)[snd r := ?v]\<rparr>"
  define st2 where "st2 = st\<lparr>trace := trace st @ [Completed r], timers := filter (\<lambda>z. z \<noteq> (Timeout, r)) (timers st),
       batches := (batches st)[fst r := Some ?bt]\<rparr>"
  define st3 where "st3 = (case i_tool v of None \<Rightarrow> id | Some n \<Rightarrow> unpin n) st2"
  have eq: "finish_call r v st = st3" unfolding st3_def st2_def by (rule finish_state [OF assms(3) bt(1) tv(1)])
  have f2: "node st2 = node st" "registry st2 = registry st" "tool_count st2 = tool_count st" "fault st2 = fault st" "reg_ok st2"
    using I(2) by (simp_all add: st2_def reg_ok_def node_def)
  have ext: "batches st3 = (batches st)[fst r := Some ?bt]" "active_batch st3 = active_batch st" "gates st3 = gates st"
    "timers st3 = filter (\<lambda>z. z \<noteq> (Timeout, r)) (timers st)" "stack st3 = stack st" "log st3 = log st @ [Completed r]"
    unfolding st3_def by (auto simp: st2_def log_def [of "st\<lparr>trace := _\<rparr>"] split: option.split) (simp_all add: log_def)
  have pin: "\<exists>t. node st n = Some t \<and> inflight t = pins st n \<and> 0 < pins st n" if "i_tool v = Some n" for n
    by (rule call_node [OF assms(1,3,4) that])
  have nd: "fault st3 = fault st \<and> reg_ok st3 \<and> (\<forall>m. i_tool v \<noteq> Some m \<longrightarrow> node st3 m = node st m)
    \<and> (\<forall>n t. i_tool v = Some n \<longrightarrow> node st n = Some t \<longrightarrow>
         node st3 n = (if removed t \<and> inflight t = 1 then None else Some (t\<lparr>inflight := inflight t - 1\<rparr>)))"
  proof (cases "i_tool v")
    case None
    then show ?thesis using f2 by (simp add: st3_def)
  next
    case (Some n)
    then obtain t where t: "node st2 n = Some t" "0 < inflight t" using pin f2(1) by auto
    then show ?thesis using Some f2 unpin_simps [OF t] reg_ok_unpin [OF f2(5) t] by (auto simp: st3_def)
  qed
  have b3: "batch_at st3 (fst r) = Some ?bt" using batch_at_upd [OF bt(1) ext(1)] by simp
  have p: "pins st3 m + of_bool (i_tool v = Some m) = pins st m" for m
    using length_filter_update [OF bt(2), of "\<lambda>v. \<not> completed v \<and> i_tool v = Some m" ?v] bt(3) assms(4)
    by (simp add: pins_def ext(2) d(1) b3 bt(1))
  have inc: "incomplete ?bt + 1 = incomplete bt"
    using length_filter_update [OF bt(2), of "\<lambda>v. \<not> completed v" ?v] bt(3) assms(4) by (simp add: incomplete_def)
  have "nodes_ok st3" unfolding nodes_ok_def
  proof
    fix m
    have m: "case node st m of Some t \<Rightarrow> inflight t = pins st m | None \<Rightarrow> pins st m = 0" using I(3) by (simp add: nodes_ok_def)
    show "case node st3 m of Some t \<Rightarrow> inflight t = pins st3 m | None \<Rightarrow> pins st3 m = 0"
    proof (cases "i_tool v = Some m")
      case False
      then show ?thesis using m nd p [of m] by (auto split: option.splits)
    next
      case True
      then obtain t where t: "node st m = Some t" "inflight t = pins st m" using pin by blast
      then have "node st3 m = (if removed t \<and> inflight t = 1 then None else Some (t\<lparr>inflight := inflight t - 1\<rparr>))" using nd True by blast
      then show ?thesis using t p [of m] True by auto
    qed
  qed
  have "tools_inv None (x + 1) st3"
  proof (rule tools_inv_call [OF assms(1) bt(1,2) _ _ _ \<open>nodes_ok st3\<close> ext(2,1), where v' = ?v and es = "[Completed r]"])
    show "call_ok None st3 r ?v" using c o by (simp add: call_ok_def ext)
  qed (use assms(2) nd d inc ext tk gt o call_okD(1) [OF c] assms(4) in auto)
  then show ?thesis unfolding eq .
qed

section \<open>Holds on the batch\<close>

text \<open>Changes to a batch that leave its calls alone: counters, the status, frames that hold it.\<close>

lemma tools_inv_batch:
  assumes inv: "tools_inv H x st" and here: "batch_at st b = Some bt"
    and same: "fault st' = fault st" "nodes st' = nodes st" "registry st' = registry st" "tool_count st' = tool_count st"
      "active_batch st' = active_batch st" "gates st' = gates st" "timers st' = timers st"
    and lg: "log st' = log st @ es" "\<And>e. e \<in> set es \<Longrightarrow> \<exists>k. e = Batch_progress b k (length (invs bt))"
    and batch: "batches st' = (batches st)[b := Some bt']" "invs bt' = invs bt" "detached bt' = detached bt"
      "0 < pending bt'" "pending bt' = incomplete bt + length (stack st') + x'"
    and stck0: "length (filter is_dispatch (stack st')) \<le> length (filter is_dispatch (stack st))"
    and stck: "\<And>f. f \<in> set (stack st') \<Longrightarrow> f \<in> set (stack st) \<or> frame_batch f = Some b"
      "\<And>r. inv_at st r \<noteq> None \<Longrightarrow> waiting (stack st') r = waiting (stack st) r"
  shows "tools_inv H x' st'"
proof -
  have I: "batch_ok x st" "reg_ok st" "nodes_ok st" "handles_ok st" "trace_ok st" "\<not> fault st" using inv by (auto simp: tools_inv_def)
  note d = batch_okD [OF I(1) here]
  have ba: "batch_at st' c = (if c = b then Some bt' else batch_at st c)" for c using batch_at_upd [OF here batch(1)] .
  have ia: "inv_at st' r = inv_at st r" for r using here batch(2) by (simp add: inv_at_def ba)
  have ev: "e \<in> set (log st') \<longleftrightarrow> e \<in> set (log st)" if "once e \<or> (\<exists>r. e = Ask_permission r)" for e using lg that by force
  have nd: "node st' = node st" using same(2) by (auto simp: node_def)
  have pn: "pins st' n = pins st n" for n using d(1) same(5) batch(2) by (simp add: pins_def ba here)
  have len: "length (batches st') = length (batches st)" "b < length (batches st)"
    using batch(1) here by (auto simp: batch_at_def split: if_splits)
  have "batch_ok x' st'"
  proof (rule batch_okI)
    show "active_batch st' = Some b" "batch_at st' b = Some bt'" using d(1) same(5) ba by simp_all
    show "batch_at st' c \<noteq> None \<longleftrightarrow> c = b" for c using d(2) [of c] ba by simp
    show "frame_batch f = Some b" if "f \<in> set (stack st')" for f using stck(1) [OF that] d(6) by blast
  qed (use d(3,7) batch stck0 in \<open>simp_all add: incomplete_def\<close>)
  moreover have "reg_ok st'" using I(2) by (simp add: reg_ok_def nd same)
  moreover have "nodes_ok st'" using I(3) unfolding nodes_ok_def nd pn .
  moreover have "call_ok H st' r v" if "inv_at st' r = Some v" for r v
  proof -
    have v: "inv_at st r = Some v" using that ia by simp
    then have w: "waiting (stack st') r = waiting (stack st) r" by (intro stck(2)) simp
    show ?thesis using tools_inv_callD [OF inv v] unfolding call_ok_def owners_def w same ev [of "Completed r", simplified]
        ev [of "Invoke r", simplified] ev [of "Ask_permission r", simplified] .
  qed
  moreover have "handles_ok st'" using I(4)
    unfolding handles_ok_def ia same ev [of "Completed r" for r, simplified] ev [of "Invoke r" for r, simplified] ev [of "Ask_permission r" for r, simplified] .
  moreover have "trace_ok st'" unfolding trace_ok_def
  proof (intro conjI allI impI ballI)
    have "filter once es = []" using lg(2) by (fastforce simp: filter_empty_conv)
    then show "distinct (filter once (log st'))" using trace_okD(1) [OF I(5)] lg(1) by simp
    show "ev_batch e < length (batches st')" if "e \<in> set (log st')" for e
      using that trace_okD(2) [OF I(5), of e] lg len by force
    show "batch_at st' c = None" if "Tools_done c s \<in> set (log st')" for c s
      using trace_okD(3) [OF I(5), of c s] that ev [of "Tools_done c s"] ba [of c] here by auto
    show "s = s'" if "Tools_done c s \<in> set (log st')" "Tools_done c s' \<in> set (log st')" for c s s'
      using trace_okD(4) [OF I(5), of c s s'] that ev by simp
    show "case batch_at st' c of Some bt \<Rightarrow> n = length (invs bt) | None \<Rightarrow> \<forall>i < n. Completed (c, i) \<in> set (log st')"
      if "Batch_progress c k n \<in> set (log st')" for c k n
    proof (cases "Batch_progress c k n \<in> set (log st)")
      case True
      then show ?thesis using trace_okD(5) [OF I(5) True] ba [of c] here batch(2) lg(1) by (auto split: option.splits if_splits)
    next
      case False
      then have "c = b" "n = length (invs bt)" using that lg by force+
      then show ?thesis using ba batch(2) by simp
    qed
  qed
  moreover have "\<exists>v. inv_at st' r = Some v \<and> \<not> completed v" if "H = Some r" for r
    using inv that unfolding tools_inv_def ia by blast
  ultimately show ?thesis using I(6) same(1) unfolding tools_inv_def by blast
qed

lemma upd_batch_inv:
  assumes "tools_inv H x st" "batch_at st b = Some bt" "invs (f bt) = invs bt" "detached (f bt) = detached bt"
    "0 < pending (f bt)" "pending (f bt) + x = pending bt + x'"
  shows "tools_inv H x' (upd_batch b f st)"
proof -
  have B: "batch_ok x st" using assms(1) by (simp add: tools_inv_def)
  note d = batch_okD [OF B assms(2)]
  show ?thesis unfolding upd_batch_eq [OF assms(2)]
    by (rule tools_inv_batch [OF assms(1,2), where bt' = "f bt" and es = "[]"]) (use assms d in auto)
qed

text \<open>The last hold ends the batch: nothing refers to it any more.\<close>

lemma cancel_timers_done: "inv_at st r = Some v \<Longrightarrow> \<not> timer v \<Longrightarrow> \<not> rl_timer v \<Longrightarrow> cancel_timers r st = st"
  by (simp add: cancel_timers_def with_inv_def Let_def)

lemma fold_id: "(\<And>i. i \<in> set xs \<Longrightarrow> f i st = st) \<Longrightarrow> fold f xs st = st"
  by (induction xs) auto

definition all_done :: "agent_tools \<Rightarrow> nat \<Rightarrow> clm_tool_batch \<Rightarrow> bool" where
  "all_done st b bt \<longleftrightarrow> (\<forall>i < length (invs bt). completed (invs bt ! i))"

lemma finalize_state:
  assumes "tools_inv None x st" "batch_at st b = Some bt" "all_done st b bt" "batches st' = (batches st)[b := Some bt']" "invs bt' = invs bt"
    "status bt' = status bt" "active_batch st' = active_batch st"
  shows "batch_finalize b st' = st'\<lparr>active_batch := None, trace := trace st' @ [Tools_done b (status bt)], batches := (batches st)[b := None]\<rparr>"
proof -
  have B: "batch_ok x st" using assms(1) by (simp add: tools_inv_def)
  note d = batch_okD [OF B assms(2)]
  have b': "batch_at st' b = Some bt'" using batch_at_upd [OF assms(2,4)] by simp
  let ?st = "emit (Tools_done b (status bt')) (st'\<lparr>active_batch := None\<rparr>)"
  have b1: "batch_at ?st b = Some bt'" using b' by simp
  have "cancel_timers (b, i) ?st = ?st" if "i \<in> set [0..<length (invs bt')]" for i
  proof (rule cancel_timers_done)
    have i: "i < length (invs bt)" using that assms(5) by simp
    then have v: "inv_at st (b, i) = Some (invs bt ! i)" using assms(2) by (simp add: inv_at_def)
    show "inv_at ?st (b, i) = Some (invs bt ! i)" using i b1 assms(5) by (simp add: inv_at_def)
    show "\<not> timer (invs bt ! i)" "\<not> rl_timer (invs bt ! i)"
      using tools_inv_callD [OF assms(1) v] assms(3) i by (auto simp: call_ok_def all_done_def)
  qed
  then have f: "fold (\<lambda>i. cancel_timers (b, i)) [0..<length (invs bt')] ?st = ?st" by (rule fold_id)
  show ?thesis unfolding batch_finalize_def with_batch_def b' option.case Let_def
    using d(1) assms(6,7) f b1 by (simp add: batch_really_free_def with_batch_def assms(4)) (simp add: emit_def)
qed

lemma finalize_inv:
  assumes "tools_inv None x st" "batch_at st b = Some bt" "all_done st b bt" "stack st = []"
    and st': "batches st' = (batches st)[b := None]" "active_batch st' = None" "gates st' = gates st" "timers st' = timers st"
      "stack st' = stack st" "nodes st' = nodes st" "registry st' = registry st" "tool_count st' = tool_count st" "fault st' = fault st"
      "log st' = log st @ [Tools_done b s]"
  shows "tools_inv None 0 st'"
proof -
  have I: "batch_ok x st" "reg_ok st" "nodes_ok st" "handles_ok st" "trace_ok st" "\<not> fault st" using assms(1) by (auto simp: tools_inv_def)
  note d = batch_okD [OF I(1) assms(2)]
  have ba: "batch_at st' c = None" for c using batch_at_upd [OF assms(2) st'(1), of c] d(2) [of c] by auto
  have ia: "inv_at st' r = None" for r by (simp add: inv_at_def ba)
  have nd: "node st' = node st" using st'(6) by (auto simp: node_def)
  have gone: "completed v" "\<not> timer v" "\<not> rl_timer v" "gate v = None" if iv: "inv_at st r = Some v" for r v
  proof -
    obtain bt2 where b2: "batch_at st (fst r) = Some bt2" "snd r < length (invs bt2)" "v = invs bt2 ! snd r" using inv_at_batch [OF iv] by blast
    then have "fst r = b" using d(2) [of "fst r"] by simp
    then show "completed v" using b2 assms(2,3) by (simp add: all_done_def)
    then show "\<not> timer v" "\<not> rl_timer v" "gate v = None" using tools_inv_callD [OF assms(1) iv] by (auto simp: call_ok_def)
  qed
  have "filter (\<lambda>v. \<not> completed v \<and> i_tool v = Some n) (invs bt) = []" for n
    using assms(3) by (auto simp: all_done_def filter_empty_conv in_set_conv_nth)
  then have "pins st n = 0" for n by (simp add: pins_batch [OF I(1) assms(2)])
  moreover have p: "pins st' n = 0" for n by (simp add: pins_def st'(2))
  ultimately have pn: "pins st' n = pins st n" for n by simp
  have "nodes_ok st'" using I(3) unfolding nodes_ok_def nd pn .
  moreover have "batch_ok 0 st'" using assms(4) st'(2,5) ba by (simp add: batch_ok_def)
  moreover have "reg_ok st'" using I(2) by (simp add: reg_ok_def nd st')
  moreover have "handles_ok st'" unfolding handles_ok_def st'
  proof (intro conjI allI impI)
    show "\<exists>v. inv_at st' r = Some v \<and> gate v = Some g" if "g < length (gates st)" "gates st ! g = Some (Some r)" for g r
      using handles_okD(1) [OF I(4) that] gone(4) by fastforce
    show "\<exists>v. inv_at st' r = Some v \<and> (if k = Timeout then timer v else rl_timer v)" if "(k, r) \<in> set (timers st)" for k r
      using handles_okD(2) [OF I(4) that] gone(2,3) by (auto split: if_splits)
    show "Completed r \<in> set (log st @ [Tools_done b s]) \<or> inv_at st' r \<noteq> None"
      if "Invoke r \<in> set (log st @ [Tools_done b s]) \<or> Ask_permission r \<in> set (log st @ [Tools_done b s])" for r
    proof -
      from that have "Invoke r \<in> set (log st) \<or> Ask_permission r \<in> set (log st)" by simp
      from handles_okD(3) [OF I(4) this] show ?thesis
      proof
        assume "inv_at st r \<noteq> None"
        then obtain v where v: "inv_at st r = Some v" by blast
        then show ?thesis using gone(1) [OF v] call_okD(1) [OF tools_inv_callD [OF assms(1) v]] by simp
      qed simp
    qed
  qed
  moreover have "trace_ok st'" unfolding trace_ok_def st'(10)
  proof (intro conjI allI impI ballI)
    have "Tools_done b s' \<notin> set (log st)" for s' using trace_okD(3) [OF I(5), of b s'] assms(2) by auto
    note fresh = this
    then show "distinct (filter once (log st @ [Tools_done b s]))" using trace_okD(1) [OF I(5)] by simp
    have len: "length (batches st') = length (batches st)" "b < length (batches st)"
      using assms(2) st'(1) by (auto simp: batch_at_def split: if_splits)
    show "ev_batch e < length (batches st')" if "e \<in> set (log st @ [Tools_done b s])" for e
      using that trace_okD(2) [OF I(5), of e] len by auto
    show "batch_at st' c = None" for c by (rule ba)
    show "t = t'" if "Tools_done c t \<in> set (log st @ [Tools_done b s])" "Tools_done c t' \<in> set (log st @ [Tools_done b s])" for c t t'
      using that fresh trace_okD(4) [OF I(5), of c t t'] by auto
    show "case batch_at st' c of Some bt \<Rightarrow> n = length (invs bt) | None \<Rightarrow> \<forall>i < n. Completed (c, i) \<in> set (log st @ [Tools_done b s])"
      if "Batch_progress c k n \<in> set (log st @ [Tools_done b s])" for c k n
    proof -
      have p: "Batch_progress c k n \<in> set (log st)" using that by simp
      have "Completed (c, i) \<in> set (log st)" if "i < n" for i
      proof (cases "c = b")
        case True
        then have "n = length (invs bt)" using trace_okD(5) [OF I(5) p] assms(2) by simp
        then have v: "inv_at st (b, i) = Some (invs bt ! i)" using that assms(2) by (simp add: inv_at_def)
        then show ?thesis using gone(1) [OF v] call_okD(1) [OF tools_inv_callD [OF assms(1) v]] True by simp
      next
        case False
        then have "batch_at st c = None" using d(2) [of c] by simp
        then show ?thesis using trace_okD(5) [OF I(5) p] that by simp
      qed
      then show ?thesis using ba by simp
    qed
  qed
  ultimately show ?thesis using I(6) st'(9) ia unfolding tools_inv_def by simp
qed

lemma release_inv:
  assumes "tools_inv None (Suc x) st" "active_batch st = Some b"
  shows "tools_inv None x (release b st)"
proof -
  have B: "batch_ok (Suc x) st" using assms(1) by (simp add: tools_inv_def)
  obtain bt where bt: "batch_at st b = Some bt" using B assms(2) by (auto simp: batch_ok_def)
  note d = batch_okD [OF B bt]
  let ?bt = "bt\<lparr>pending := pending bt - 1\<rparr>"
  have u: "upd_batch b (\<lambda>bt. bt\<lparr>pending := pending bt - 1\<rparr>) st = st\<lparr>batches := (batches st)[b := Some ?bt]\<rparr>"
    by (rule upd_batch_eq [OF bt])
  show ?thesis
  proof (cases "pending bt - 1 = 0")
    case False
    then have "tools_inv None x (upd_batch b (\<lambda>bt. bt\<lparr>pending := pending bt - 1\<rparr>) st)"
      using d(4) by (intro upd_batch_inv [OF assms(1) bt]) auto
    then show ?thesis using False by (simp add: release_def with_batch_def bt)
  next
    case True
    then have z: "incomplete bt = 0" "stack st = []" "x = 0" using d(4,5) by auto
    then have "all_done st b bt" by (auto simp: incomplete_def all_done_def filter_empty_conv)
    note fs = finalize_state [OF assms(1) bt this, of "st\<lparr>batches := (batches st)[b := Some ?bt]\<rparr>" ?bt]
      and fi = finalize_inv [OF assms(1) bt this z(2)]
    have "release b st = batch_finalize b (st\<lparr>batches := (batches st)[b := Some ?bt]\<rparr>)"
      unfolding release_def with_batch_def bt option.case Let_def u if_P [OF True] ..
    also have "\<dots> = st\<lparr>active_batch := None, trace := trace st @ [Tools_done b (status bt)], batches := (batches st)[b := None]\<rparr>"
      by (subst fs) simp_all
    finally have r: "release b st = st\<lparr>active_batch := None, trace := trace st @ [Tools_done b (status bt)], batches := (batches st)[b := None]\<rparr>" .
    show ?thesis unfolding z(3) r by (rule fi [where s = "status bt"]) (simp_all add: log_def)
  qed
qed

section \<open>Completion keeps the invariant\<close>

lemma stub_older_ext [simp]:
  "batches (stub_older E nm st) = batches st" "active_batch (stub_older E nm st) = active_batch st"
  "tools_inv H x (stub_older E nm st) \<longleftrightarrow> tools_inv H x st" "log (stub_older E nm st) = log st"
  by (auto simp: stub_older_def Let_def log_def split: prod.splits sum.splits)

lemma stub_older_at [simp]: "batch_at (stub_older E nm st) = batch_at st"
  by (rule batch_at_cong) simp

lemma record_result_cases:
  obtains (neutral) e h t where "record_result E b v out att st = emit e (st\<lparr>hist := h, mem := t\<rparr>)" "\<not> key e"
  | (failed) h t where "record_result E b v out att st = upd_batch b (\<lambda>bt. bt\<lparr>status := Some ENOMEM\<rparr>) (st\<lparr>hist := h, mem := t\<rparr>)"
proof (cases "clm_history_add_tool_result (mem st) (hist st) (inv_id v) (inv_name v) (Some out) (compressor E)")
  case (fields ok h t)
  note f = fields
  show thesis
  proof (cases "ok \<and> att \<noteq> None")
    case False
    then show thesis using f neutral [where e = "Message_added (last h)" and h = h and t = t] failed [where h = h and t = t]
      by (cases ok) (auto simp: record_result_def)
  next
    case True
    then obtain a where a: "att = Some a" by blast
    obtain r m t' where am: "clm_message_add_attachment t (last h) (Some (media_type a)) (Some (at_data a)) (length (at_data a)) = (r, m, t')"
      by (metis prod_cases3)
    show thesis using f True a am neutral [where e = "Message_added m" and h = "butlast h @ [m]" and t = t'] failed [where h = "butlast h @ [m]" and t = t']
      by (cases r) (auto simp: record_result_def)
  qed
qed

lemma record_result_inv:
  assumes "tools_inv H x st" "batch_at st b = Some bt"
  shows "tools_inv H x (record_result E b v out att st)" "active_batch (record_result E b v out att st) = active_batch st"
    "\<exists>bt'. batch_at (record_result E b v out att st) b = Some bt' \<and> invs bt' = invs bt"
proof -
  have B: "batch_ok x st" using assms(1) by (simp add: tools_inv_def)
  show "tools_inv H x (record_result E b v out att st)"
  proof (cases rule: record_result_cases [of E b v out att st])
    case (neutral e h t)
    then show ?thesis using assms(1) by simp
  next
    case (failed h t)
    show ?thesis unfolding failed
      by (rule upd_batch_inv [where x = x]) (use assms batch_okD(4) [OF B assms(2)] in simp_all)
  qed
  show "active_batch (record_result E b v out att st) = active_batch st"
    "\<exists>bt'. batch_at (record_result E b v out att st) b = Some bt' \<and> invs bt' = invs bt"
    by (cases rule: record_result_cases [of E b v out att st];
        use assms(2) in \<open>simp add: upd_batch_eq [where bt = bt]; subst batch_at_upd [OF assms(2)]; simp\<close>)+
qed

lemma progress_inv:
  assumes "tools_inv H x st" "batch_at st b = Some bt" "n = length (invs bt)"
  shows "tools_inv H x (emit (Batch_progress b k n) (upd_batch b (\<lambda>bt. bt\<lparr>done_count := done_count bt + 1\<rparr>) st))"
proof -
  have B: "batch_ok x st" using assms(1) by (simp add: tools_inv_def)
  note d = batch_okD [OF B assms(2)]
  show ?thesis unfolding upd_batch_eq [OF assms(2)]
    by (rule tools_inv_batch [OF assms(1,2), where bt' = "bt\<lparr>done_count := done_count bt + 1\<rparr>" and es = "[Batch_progress b k n]"])
      (use assms(3) d in \<open>auto simp: log_def\<close>)
qed

lemma inv_finalize_eq:
  assumes "inv_at st r = Some v" "batch_at st (fst r) = Some bt" "\<not> detached bt"
  shows "\<exists>out t. inv_finalize E r body past oc att st =
    release (fst r) (emit (Batch_progress (fst r) (done_count bt + 1) (length (invs bt)))
      (upd_batch (fst r) (\<lambda>bt. bt\<lparr>done_count := done_count bt + 1\<rparr>)
        (record_result E (fst r) v out att (stub_older E (inv_name v)
          (emit (Tool_result r oc out) ((finish_call r v st)\<lparr>mem := t\<rparr>))))))"
proof -
  have f: "(case i_tool v of None \<Rightarrow> st' | Some n \<Rightarrow> unpin n st') = finish_call r v st"
    if "st' = (if timer v then upd_inv r (\<lambda>v. v\<lparr>timer := False\<rparr>) (timer_cancel Timeout r (emit (Completed r) (upd_inv r (\<lambda>v. v\<lparr>completed := True\<rparr>) st)))
      else emit (Completed r) (upd_inv r (\<lambda>v. v\<lparr>completed := True\<rparr>) st))" for st'
    unfolding finish_call_def Let_def that ..
  obtain out t where "tool_text (mem (finish_call r v st)) (output_cap v) (spool E (inv_id v) (inv_name v)) past body = (out, t)"
    by fastforce
  then show ?thesis unfolding inv_finalize_def with_batch_def with_inv_def assms(1,2) option.case Let_def f [OF refl]
    using assms(3) by auto
qed

lemma finish_call_at:
  assumes "tools_inv H x st" "H = Some r \<or> H = None \<and> Invoke r \<in> set (log st)" "inv_at st r = Some v" "\<not> completed v" "batch_at st (fst r) = Some bt"
  shows "active_batch (finish_call r v st) = active_batch st"
    "\<exists>bt'. batch_at (finish_call r v st) (fst r) = Some bt' \<and> length (invs bt') = length (invs bt)"
proof -
  have h: "handles_ok st" using assms(1) by (simp add: tools_inv_def)
  have "(Timeout, r) \<in> set (timers st) \<longrightarrow> timer v" using handles_okD(2) [OF h, of Timeout r] assms(3) by auto
  note e = finish_state [OF assms(3,5) this]
  show "active_batch (finish_call r v st) = active_batch st" unfolding e by (simp split: option.split)
  have "batches (finish_call r v st) = (batches st)[fst r := Some (bt\<lparr>invs := (invs bt)[snd r := v\<lparr>completed := True, timer := False\<rparr>]\<rparr>)]"
    unfolding e by (simp split: option.split)
  from batch_at_upd [OF assms(5) this, of "fst r"]
  show "\<exists>bt'. batch_at (finish_call r v st) (fst r) = Some bt' \<and> length (invs bt') = length (invs bt)" by simp
qed

lemma inv_finalize_inv:
  assumes "tools_inv H x st" "H = Some r \<or> H = None \<and> Invoke r \<in> set (log st)" "inv_at st r = Some v" "\<not> completed v"
  shows "tools_inv None x (inv_finalize E r body past oc att st)"
proof -
  obtain bt where bt: "batch_at st (fst r) = Some bt" using inv_at_batch [OF assms(3)] by blast
  have B: "batch_ok x st" using assms(1) by (simp add: tools_inv_def)
  note d = batch_okD [OF B bt]
  obtain out t where eq: "inv_finalize E r body past oc att st =
    release (fst r) (emit (Batch_progress (fst r) (done_count bt + 1) (length (invs bt)))
      (upd_batch (fst r) (\<lambda>bt. bt\<lparr>done_count := done_count bt + 1\<rparr>)
        (record_result E (fst r) v out att (stub_older E (inv_name v)
          (emit (Tool_result r oc out) ((finish_call r v st)\<lparr>mem := t\<rparr>))))))"
    using inv_finalize_eq [OF assms(3) bt d(3)] by blast
  define st1 where "st1 = stub_older E (inv_name v) (emit (Tool_result r oc out) ((finish_call r v st)\<lparr>mem := t\<rparr>))"
  obtain bt1 where b1: "batch_at st1 (fst r) = Some bt1" "length (invs bt1) = length (invs bt)"
    using finish_call_at(2) [OF assms bt] by (auto simp: st1_def)
  have i1: "tools_inv None (Suc x) st1" "active_batch st1 = Some (fst r)"
    using complete_call [OF assms] finish_call_at(1) [OF assms bt] d(1) by (simp_all add: st1_def)
  define st2 where "st2 = record_result E (fst r) v out att st1"
  obtain bt2 where b2: "batch_at st2 (fst r) = Some bt2" "length (invs bt2) = length (invs bt)"
    using record_result_inv(3) [OF i1(1) b1(1), of E v out att] b1(2) by (auto simp: st2_def)
  have i2: "tools_inv None (Suc x) st2" "active_batch st2 = Some (fst r)"
    using record_result_inv(1,2) [OF i1(1) b1(1)] i1(2) by (simp_all add: st2_def)
  show ?thesis unfolding eq st1_def [symmetric] st2_def [symmetric]
    by (rule release_inv [OF progress_inv [OF i2(1) b2(1) b2(2) [symmetric]]])
      (use i2(2) in \<open>simp add: upd_batch_eq [OF b2(1)]\<close>)
qed

end
