(* ===== verification/Tool_Runs.thy ===== *)
theory Tool_Runs
  imports Tool_Safety
begin

text \<open>
  Every action of the code outside the core keeps the invariant of tool dispatch, so it holds in every reachable
  state; the safety properties of dispatch follow.
\<close>

section \<open>Functions that work on a call\<close>

lemma outcome_eq: "outcome st = (fst (alloc (mem st)), st\<lparr>mem := snd (alloc (mem st))\<rparr>)"
  by (simp add: outcome_def split: prod.split)

lemma maybe_outcome: "\<exists>ok t. (if c then outcome st else (True, st)) = (ok, st\<lparr>mem := t\<rparr>)"
proof (cases c)
  case False
  then show ?thesis by (intro exI [of _ True] exI [of _ "mem st"]) simp
qed (auto simp: outcome_eq)

lemma read_clock_eq: "\<exists>now cs. read_clock st = (now, st\<lparr>clock := cs\<rparr>)"
  by (cases "clock st") (auto simp: read_clock_def intro: exI [of _ "clock st"])

definition on_call :: "iref option \<Rightarrow> iref \<Rightarrow> agent_tools \<Rightarrow> bool" where
  "on_call H r st \<longleftrightarrow> H = Some r \<or> H = None \<and> Invoke r \<in> set (log st)"

lemma finalize_timeout_inv:
  "tools_inv H x st \<Longrightarrow> on_call H r st \<Longrightarrow> inv_at st r = Some v \<Longrightarrow> \<not> completed v \<Longrightarrow> tools_inv None x (finalize_timeout E r st)"
  unfolding finalize_timeout_def with_inv_def on_call_def by (simp add: inv_finalize_inv)

lemma fail_inv:
  assumes "tools_inv H x st" "on_call H r st" "inv_at st r = Some v" "\<not> completed v"
  shows "tools_inv None x (clm_tool_fail E r msg st)"
proof -
  obtain w t where w: "fail_wrap (mem st) msg = (w, t)" by fastforce
  have "tools_inv None x (inv_finalize E r (case w of Some s \<Rightarrow> s | None \<Rightarrow> lit ''[tool failed]'') 0 CLM_TOOL_FAILED None (st\<lparr>mem := t\<rparr>))"
    by (rule inv_finalize_inv [of H _ _ _ v]) (use assms in \<open>simp_all add: on_call_def\<close>)
  then show ?thesis unfolding clm_tool_fail_def with_inv_def w assms(3) option.case prod.case Let_def
    using assms(4) finalize_timeout_inv [OF assms] by simp
qed

lemma permission_gate_inv:
  assumes "tools_inv (Some r) x st" "inv_at st r = Some v" "i_tool v \<noteq> None"
  shows "tools_inv None x (permission_gate E r st)"
proof -
  have nc: "\<not> completed v" using assms(1,2) hand_call by (metis option.inject)
  obtain n where n: "i_tool v = Some n" using assms(3) by blast
  obtain t where t: "node st n = Some t" using call_node [OF assms(1,2) nc n] by blast
  have on: "on_call (Some r) r st" by (simp add: on_call_def)
  note f = fail_inv [OF assms(1) on assms(2) nc, of E] and i = invoke_call(1) [OF assms, of E]
  have p: "tools_inv None x (emit (Ask_permission r) (upd_inv r (\<lambda>v. v\<lparr>awaiting_perm := True\<rparr>) st))"
    by (rule park_permission [OF assms(1)]) (use assms(2,3) in simp)
  show ?thesis unfolding permission_gate_def with_inv_def assms(2) option.case n bind.bind_lunit t
    using f i p by simp
qed

lemma upd_hand:
  assumes "tools_inv (Some r) x st" "inv_at st r = Some v" "keeps v (f v)" "\<not> timed_out (f v)"
  shows "tools_inv (Some r) x (upd_inv r f st)" "inv_at (upd_inv r f st) r = Some (f v)" "log (upd_inv r f st) = log st"
    "gates (upd_inv r f st) = gates st"
proof -
  obtain bt where bt: "batch_at st (fst r) = Some bt" using inv_at_batch [OF assms(2)] by blast
  show "tools_inv (Some r) x (upd_inv r f st)" by (rule upd_inv_other [OF assms(1) _ assms(2)]) (use assms(3,4) in auto)
  show "inv_at (upd_inv r f st) r = Some (f v)" "log (upd_inv r f st) = log st" "gates (upd_inv r f st) = gates st"
    by (simp_all add: upd_inv_simps [OF assms(2) bt])
qed

lemma hand_not_timed: "tools_inv (Some r) x st \<Longrightarrow> inv_at st r = Some v \<Longrightarrow> \<not> completed v \<and> \<not> timed_out v"
  by (metis hand_call option.inject)

lemma gate_run_inv:
  assumes "tools_inv (Some r) x st" "inv_at st r = Some v" "i_tool v \<noteq> None" "Ask_permission r \<notin> set (log st)"
  shows "tools_inv None x (gate_run E r st)"
proof (cases "gate_next v \<ge> n_pre_tool_hooks E")
  case True
  then show ?thesis using permission_gate_inv [OF assms(1-3)] by (simp add: gate_run_def with_inv_def assms(2))
next
  case False
  let ?f = "\<lambda>v. v\<lparr>gate_next := gate_next v + 1\<rparr>"
  note nt = hand_not_timed [OF assms(1,2)]
  define st1 where "st1 = (upd_inv r ?f st)\<lparr>mem := snd (alloc (mem (upd_inv r ?f st)))\<rparr>"
  have i: "tools_inv (Some r) x st1" "inv_at st1 r = Some (?f v)" "log st1 = log st" "gates st1 = gates st"
    using upd_hand [OF assms(1,2), of ?f] nt by (simp_all add: st1_def keeps_def)
  have on: "on_call (Some r) r st1" by (simp add: on_call_def)
  have f: "tools_inv None x (clm_tool_fail E r msg st1)" for msg
    by (rule fail_inv [OF i(1) on i(2)]) (use nt in simp)
  have p: "tools_inv None x (emit (Hook r k) (upd_inv r (\<lambda>v. v\<lparr>gate := Some (length (gates st1))\<rparr>) (st1\<lparr>gates := gates st1 @ [Some (Some r)]\<rparr>)))" for k
    using park_hook [OF i(1)] i(2,3) assms(3,4) by simp
  show ?thesis unfolding gate_run_def with_inv_def assms(2) option.case Let_def outcome_eq prod.case st1_def [symmetric]
    using False f p by simp
qed

lemma dispatch_one_inv:
  assumes "tools_inv (Some r) x st" "Ask_permission r \<notin> set (log st)"
  shows "tools_inv None x (dispatch_one E r st)"
proof -
  obtain v where v: "inv_at st r = Some v" "\<not> completed v" using hand_call [OF assms(1)] by metis
  have i: "tools_inv (Some r) x (emit (Tool_begin r) st)" using assms(1) by simp
  have on: "on_call (Some r) r (emit (Tool_begin r) st)" by (simp add: on_call_def)
  have f: "tools_inv None x (clm_tool_fail E r msg (emit (Tool_begin r) st))" for msg
    by (rule fail_inv [OF i on]) (use v in simp_all)
  have g: "i_tool v \<noteq> None \<Longrightarrow> tools_inv None x (gate_run E r (emit (Tool_begin r) st))"
    by (rule gate_run_inv [OF i]) (use v assms(2) in simp_all)
  show ?thesis using f g v(1) by (simp add: dispatch_one_def with_inv_def Let_def)
qed

lemma gate_verdict_inv:
  assumes "tools_inv (Some r) x st" "inv_at st r = Some v" "i_tool v \<noteq> None" "Ask_permission r \<notin> set (log st)"
  shows "tools_inv None x (gate_verdict E r vd reason st)"
proof (cases vd)
  case CLM_GATE_PASS
  have "tools_inv None x (gate_run E r (emit (Notice n) st))" for n
    by (rule gate_run_inv [of r x _ v]) (use assms in simp_all)
  then show ?thesis using CLM_GATE_PASS gate_run_inv [OF assms] by (auto simp: gate_verdict_def split: option.split)
next
  case CLM_GATE_DENY
  have on: "on_call (Some r) r (st\<lparr>gate_denials := d\<rparr>)" for d by (simp add: on_call_def)
  show ?thesis unfolding gate_verdict_def CLM_GATE_DENY clm_gate_verdict.case
    by (rule fail_inv [OF _ on, where v = v]) (use assms hand_not_timed [OF assms(1,2)] in simp_all)
next
  case CLM_GATE_ASK
  note nt = hand_not_timed [OF assms(1,2)]
  let ?f = "\<lambda>v. v\<lparr>force_ask := True\<rparr>"
  note a = upd_hand [OF assms(1,2), of ?f]
  define st1 where "st1 = (upd_inv r ?f st)\<lparr>mem := snd (alloc (mem (upd_inv r ?f st)))\<rparr>"
  have i: "tools_inv (Some r) x st1" "inv_at st1 r = Some (?f v)" "log st1 = log st"
    using a nt by (simp_all add: st1_def keeps_def)
  note b = upd_hand [OF i(1,2), of "\<lambda>v. v\<lparr>ask_reason := y\<rparr>" for y]
  have g1: "tools_inv None x (gate_run E r (upd_inv r ?f st))"
    by (rule gate_run_inv [of r x _ "?f v"]) (use a nt assms in \<open>simp_all add: keeps_def\<close>)
  have g2: "tools_inv None x (gate_run E r (upd_inv r (\<lambda>v. v\<lparr>ask_reason := y\<rparr>) st1))" for y
    by (rule gate_run_inv [of r x _ "(?f v)\<lparr>ask_reason := y\<rparr>"]) (use b [of y] i nt assms in \<open>simp_all add: keeps_def\<close>)
  show ?thesis unfolding gate_verdict_def CLM_GATE_ASK clm_gate_verdict.case with_inv_def assms(2) option.case Let_def
      outcome_eq prod.case st1_def [symmetric] using g1 g2 by simp
qed

section \<open>Actions on one call\<close>

lemma open_call_inv:
  assumes "tools_inv None x st" "open_call st r"
  obtains v where "inv_at st r = Some v" "\<not> completed v" "on_call None r st"
proof -
  have k: "Invoke r \<in> set (log st)" "Completed r \<notin> set (log st)" using assms(2) by (auto simp: open_call_def log_def)
  have "handles_ok st" using assms(1) by (simp add: tools_inv_def)
  then obtain v where v: "inv_at st r = Some v" using handles_okD(3) [of st r] k by blast
  then show thesis using that k call_okD(1) [OF tools_inv_callD [OF assms(1) v]] by (auto simp: on_call_def)
qed

lemma complete_buf_inv:
  assumes "tools_inv H x st" "on_call H r st" "inv_at st r = Some v" "\<not> completed v"
  shows "tools_inv None x (clm_tool_complete_buf E r d p st)"
  unfolding clm_tool_complete_buf_def with_inv_def assms(3) option.case
  using assms finalize_timeout_inv [OF assms] by (simp add: on_call_def inv_finalize_inv [OF assms(1) _ assms(3)])

lemma complete_image_inv:
  assumes "tools_inv H x st" "on_call H r st" "inv_at st r = Some v" "\<not> completed v"
  shows "tools_inv None x (clm_tool_complete_image E r txt mt d st)"
proof -
  obtain bt where bt: "batch_at st (fst r) = Some bt" using inv_at_batch [OF assms(3)] by blast
  have f: "tools_inv None x (inv_finalize E r body p oc att (st\<lparr>mem := m\<rparr>))" for body p oc att m
    by (rule inv_finalize_inv [of H _ _ _ v]) (use assms in \<open>simp_all add: on_call_def\<close>)
  have g: "tools_inv None x (inv_finalize E r body p oc att st)" for body p oc att using f [of _ _ _ _ "mem st"] by simp
  show ?thesis unfolding clm_tool_complete_image_def with_batch_def with_inv_def bt assms(3) option.case Let_def outcome_eq prod.case
    using assms(4) finalize_timeout_inv [OF assms] fail_inv [OF assms] f g
    by (auto split: option.split list.split)
qed

lemma complete_base64_inv:
  assumes "tools_inv H x st" "on_call H r st" "inv_at st r = Some v" "\<not> completed v"
  shows "tools_inv None x (clm_tool_complete_image_base64 E r txt b64 st)"
proof -
  have c: "tools_inv None x (clm_tool_complete_buf E r d p (st\<lparr>mem := m\<rparr>))" for d p m
    by (rule complete_buf_inv [of H]) (use assms in \<open>simp_all add: on_call_def\<close>)
  have i: "tools_inv None x (clm_tool_complete_image E r a b d (st\<lparr>mem := m\<rparr>))" for a b d m
    by (rule complete_image_inv [of H]) (use assms in \<open>simp_all add: on_call_def\<close>)
  have c': "tools_inv None x (clm_tool_complete_buf E r d p st)" "tools_inv None x (clm_tool_complete_image E r a b d' st)" for a b d d' p
    using c [of d p "mem st"] i [of a b d' "mem st"] by simp_all
  obtain ok t where o: "(if case b64 of None \<Rightarrow> False | Some s \<Rightarrow> s \<noteq> [] \<and> \<not> length s div 4 * 3 > CLM_IMAGE_MAX_BYTES
      then outcome st else (True, st)) = (ok, st\<lparr>mem := t\<rparr>)"
    using maybe_outcome [of _ st] by meson
  show ?thesis unfolding clm_tool_complete_image_base64_def with_inv_def assms(3) option.case Let_def o prod.case outcome_eq
    using assms(4) c i c' by (auto simp: clm_tool_complete_def split: sum.split prod.split)
qed

lemma on_timeout_inv:
  assumes "tools_inv None x st" "(Timeout, r) \<in> set (timers st)"
  shows "tools_inv None x (on_timeout E r (st\<lparr>timers := filter (\<lambda>z. z \<noteq> (Timeout, r)) (timers st)\<rparr>))"
proof -
  have h: "handles_ok st" using assms(1) by (simp add: tools_inv_def)
  obtain v where v: "inv_at st r = Some v" "timer v" using handles_okD(2) [OF h assms(2)] by auto
  note c = tools_inv_callD [OF assms(1) v(1)]
  have nc: "\<not> completed v" using c v(2) by (auto simp: call_ok_def)
  have iv: "Invoke r \<in> set (log st)" using call_okD(6) [OF c nc] v(2) by blast
  obtain bt where bt: "batch_at st (fst r) = Some bt" "snd r < length (invs bt)" "v = invs bt ! snd r" using inv_at_batch [OF v(1)] by blast
  define st1 where "st1 = st\<lparr>timers := filter (\<lambda>z. z \<noteq> (Timeout, r)) (timers st)\<rparr>"
  have same: "(batches st)[fst r := Some (bt\<lparr>invs := (invs bt)[snd r := v]\<rparr>)] = batches st"
    using bt by (auto simp: batch_at_def list_update_same_conv split: if_splits)
  have gt: "gate v = Some g" if "g < length (gates st)" "gates st ! g = Some (Some r)" for g
    using handles_okD(1) [OF h that] v(1) by simp
  have tm: "rl_timer v" if "(k, r) \<in> set (timers st)" "k \<noteq> Timeout" for k
    using handles_okD(2) [OF h that(1)] that(2) v(1) by simp
  have i1: "tools_inv None x st1"
  proof (rule tools_inv_call_keep [OF assms(1) bt(1) v(1), where v' = v and es = "[]" and bt' = "bt\<lparr>invs := (invs bt)[snd r := v]\<rparr>"], goal_cases)
    case (22 g)
    then show ?case by (intro gt) (simp_all add: st1_def)
  next
    case (24 k)
    then show ?case using tm [of k] by (auto simp: st1_def)
  next
    case 25
    then show ?case using c by (auto simp: st1_def call_ok_def owners_def)
  qed (use same in \<open>auto simp: st1_def\<close>)
  have s1: "inv_at st1 r = Some v" "log st1 = log st" "batch_at st1 (fst r) = Some bt" using v bt by (simp_all add: st1_def)
  let ?f = "\<lambda>v. v\<lparr>timed_out := True\<rparr>"
  have i2: "tools_inv None x (upd_inv r ?f st1)"
    by (rule upd_inv_other [OF i1 _ s1(1)]) (use iv s1 in \<open>simp_all add: keeps_def\<close>)
  have s2: "inv_at (upd_inv r ?f st1) r = Some (?f v)" "log (upd_inv r ?f st1) = log st"
    using s1 by (simp_all add: upd_inv_simps [OF s1(1,3)])
  have "tools_inv None x (finalize_timeout E r (upd_inv r ?f st1))"
    by (rule finalize_timeout_inv [OF i2 _ s2(1)]) (use nc iv s2 in \<open>simp_all add: on_call_def\<close>)
  then show ?thesis unfolding on_timeout_def st1_def [symmetric] with_inv_def s1(1) option.case Let_def using nc i2 by simp
qed

lemma on_rl_timer_inv:
  assumes "tools_inv None x st" "(Rl_delay, r) \<in> set (timers st)"
  shows "tools_inv None x (on_rl_timer E r (st\<lparr>timers := filter (\<lambda>z. z \<noteq> (Rl_delay, r)) (timers st)\<rparr>))"
proof -
  have h: "handles_ok st" using assms(1) by (simp add: tools_inv_def)
  obtain v where v: "inv_at st r = Some v" "rl_timer v" using handles_okD(2) [OF h assms(2)] by auto
  obtain bt where bt: "batch_at st (fst r) = Some bt" using inv_at_batch [OF v(1)] by blast
  note t = take_from_delay [OF assms(1) v]
  let ?st = "st\<lparr>timers := filter (\<lambda>z. z \<noteq> (Rl_delay, r)) (timers st)\<rparr>"
  have s: "inv_at ?st r = Some v" "batch_at ?st (fst r) = Some bt" "timer_cancel Rl_delay r ?st = ?st" using v bt by (simp_all add: timer_cancel_def)
  define st1 where "st1 = upd_inv r (\<lambda>v. v\<lparr>rl_timer := False\<rparr>) ?st"
  obtain now cs where cl: "read_clock st1 = (now, st1\<lparr>clock := cs\<rparr>)" using read_clock_eq by blast
  have l: "log st1 = log st" by (simp add: st1_def upd_inv_simps [OF s(1,2)])
  have "tools_inv None x (dispatch_one E r (st1\<lparr>clock := cs, tool_rl := rl\<rparr>))" for rl
    by (rule dispatch_one_inv) (use t(1,3) l in \<open>simp_all add: st1_def\<close>)
  then show ?thesis unfolding on_rl_timer_def with_inv_def s(1,3) option.case Let_def
    using v(2) cl by (simp add: st1_def [symmetric])
qed

lemma gate_respond_inv:
  assumes "tools_inv None x st" "g < length (gates st)" "gates st ! g \<noteq> None"
  shows "tools_inv None x (snd (clm_tool_gate_respond E g vd reason args st))"
proof (cases "gates st ! g = Some None")
  case True
  have gx: "(gates st)[g := None] ! k = Some (Some r) \<longleftrightarrow> gates st ! k = Some (Some r)" for k r
    using True assms(2) by (cases "k = g") auto
  have ok: "call_ok None (st\<lparr>gates := (gates st)[g := None]\<rparr>) r v" if "call_ok None st r v" for r v
    using that unfolding call_ok_def owners_def by (simp add: gx)
  have h: "handles_ok (st\<lparr>gates := (gates st)[g := None]\<rparr>)"
    using assms(1) unfolding tools_inv_def handles_ok_def by (simp add: gx)
  have "batch_ok x (st\<lparr>gates := (gates st)[g := None]\<rparr>) \<longleftrightarrow> batch_ok x st" "reg_ok (st\<lparr>gates := (gates st)[g := None]\<rparr>) \<longleftrightarrow> reg_ok st"
    "nodes_ok (st\<lparr>gates := (gates st)[g := None]\<rparr>) \<longleftrightarrow> nodes_ok st" "trace_ok (st\<lparr>gates := (gates st)[g := None]\<rparr>) \<longleftrightarrow> trace_ok st"
    by (rule parts_cong; simp)+
  then have "tools_inv None x (st\<lparr>gates := (gates st)[g := None]\<rparr>)" using assms(1) ok h unfolding tools_inv_def by simp
  then show ?thesis using True assms(2) by (simp add: clm_tool_gate_respond_def)
next
  case False
  then obtain r where r: "gates st ! g = Some (Some r)" using assms(3) by (metis not_None_eq)
  note t = take_from_hook [OF assms(1,2) r, of None, simplified]
  obtain v where v: "inv_at st r = Some v" "\<not> completed v" "i_tool v \<noteq> None" using t(3) by auto
  obtain bt where bt: "batch_at st (fst r) = Some bt" using inv_at_batch [OF v(1)] by blast
  let ?st = "st\<lparr>gates := (gates st)[g := None]\<rparr>"
  have s: "inv_at ?st r = Some v" "batch_at ?st (fst r) = Some bt" using v bt by simp_all
  define st1 where "st1 = upd_inv r (\<lambda>v. v\<lparr>gate := None\<rparr>) ?st"
  have s1: "inv_at st1 r = Some (v\<lparr>gate := None\<rparr>)" "log st1 = log st" "tools_inv (Some r) x st1"
    using t(1) by (simp_all add: st1_def upd_inv_simps [OF s])
  have g1: "tools_inv None x (gate_verdict E r vd reason st1)"
    by (rule gate_verdict_inv [OF s1(3,1)]) (use v t(2) s1(2) in simp_all)
  define st2 where "st2 = st1\<lparr>mem := snd (alloc (mem st1))\<rparr>"
  have s2: "inv_at st2 r = Some (v\<lparr>gate := None\<rparr>)" "log st2 = log st" "tools_inv (Some r) x st2" using s1 by (simp_all add: st2_def)
  have f2: "tools_inv None x (clm_tool_fail E r m st2)" for m
    by (rule fail_inv [OF s2(3) _ s2(1)]) (use v in \<open>simp_all add: on_call_def\<close>)
  note nt = hand_not_timed [OF s2(3,1)]
  note u = upd_hand [OF s2(3,1), of "\<lambda>v. v\<lparr>inv_args := y\<rparr>" for y]
  have g2: "tools_inv None x (gate_verdict E r vd reason (upd_inv r (\<lambda>v. v\<lparr>inv_args := y\<rparr>) st2))" for y
    by (rule gate_verdict_inv [of r x _ "v\<lparr>gate := None, inv_args := y\<rparr>"])
      (use u [of y] v t(2) s2 nt in \<open>simp_all add: keeps_def\<close>)
  show ?thesis unfolding clm_tool_gate_respond_def r option.case Let_def st1_def [symmetric] outcome_eq prod.case st2_def [symmetric]
    using assms(2) g1 f2 g2 by (simp split: option.split)
qed

section \<open>Actions on the registry\<close>

lemma tools_inv_nodes:
  assumes "tools_inv H x st" "batches st' = batches st" "active_batch st' = active_batch st" "gates st' = gates st" "timers st' = timers st"
    "stack st' = stack st" "fault st' = fault st" "log st' = log st" "reg_ok st'"
    "\<And>n. (case node st' n of Some t \<Rightarrow> inflight t = pins st n | None \<Rightarrow> pins st n = 0)"
  shows "tools_inv H x st'"
proof -
  have p: "pins st' = pins st" using batch_at_cong [OF assms(2)] by (auto simp: pins_def assms(3))
  have b: "batch_ok x st' \<longleftrightarrow> batch_ok x st" "trace_ok st' \<longleftrightarrow> trace_ok st"
    unfolding batch_ok_def trace_ok_def batch_at_cong [OF assms(2)] assms(2,3,6,8) by (rule refl)+
  have n: "nodes_ok st'" unfolding nodes_ok_def p using assms(10) by blast
  have c: "call_ok H st' r v \<longleftrightarrow> call_ok H st r v" for r v unfolding call_ok_def owners_def assms(4-8) ..
  have h: "handles_ok st' \<longleftrightarrow> handles_ok st" unfolding handles_ok_def inv_at_cong [OF assms(2)] assms(4-8) ..
  show ?thesis using assms(1) unfolding tools_inv_def b c h inv_at_cong [OF assms(2)] assms(7) using n assms(9)
    by (elim conjE, intro conjI) assumption+
qed

lemma nodes_okD: "tools_inv H x st \<Longrightarrow> case node st n of Some t \<Rightarrow> inflight t = pins st n | None \<Rightarrow> pins st n = 0"
  by (simp add: tools_inv_def nodes_ok_def)

lemma remember_inv:
  assumes "tools_inv H x st" "node st n = Some t"
  shows "tools_inv H x (upd_node n (\<lambda>t. t\<lparr>remembered := a, remember_allow := b\<rparr>) st)"
proof (rule tools_inv_nodes [OF assms(1)])
  note u = upd_node_simps [OF assms(2), of "\<lambda>t. t\<lparr>remembered := a, remember_allow := b\<rparr>"]
  have r: "reg_ok st" using assms(1) by (simp add: tools_inv_def)
  then have "removed t \<longrightarrow> 0 < inflight t" using assms(2) unfolding reg_ok_def by (metis option.inject)
  then show "reg_ok (upd_node n (\<lambda>t. t\<lparr>remembered := a, remember_allow := b\<rparr>) st)"
    by (intro reg_ok_node [OF r _ u(2,3) assms(2), where t' = "t\<lparr>remembered := a, remember_allow := b\<rparr>"]) (simp_all add: u)
  show "case node (upd_node n (\<lambda>t. t\<lparr>remembered := a, remember_allow := b\<rparr>) st) m of Some t \<Rightarrow> inflight t = pins st m | None \<Rightarrow> pins st m = 0" for m
    using nodes_okD [OF assms(1), of m] assms(2) by (auto simp: u split: option.splits)
qed (simp_all add: upd_node_simps [OF assms(2)])

lemma permission_respond_inv:
  assumes "tools_inv None x st" "asked_call st r"
  shows "tools_inv None x (snd (clm_tool_permission_respond E r d st))"
proof -
  have k: "Ask_permission r \<in> set (log st)" "Invoke r \<notin> set (log st)" "Completed r \<notin> set (log st)"
    using assms(2) by (auto simp: asked_call_def log_def)
  have "handles_ok st" using assms(1) by (simp add: tools_inv_def)
  then obtain v where v: "inv_at st r = Some v" using handles_okD(3) [of st r] k by blast
  note c = tools_inv_callD [OF assms(1) v]
  have nc: "\<not> completed v" using call_okD(1) [OF c] k by simp
  have a: "awaiting_perm v" using call_okD(3) [OF c nc k(1)] k(2) by simp
  obtain bt where bt: "batch_at st (fst r) = Some bt" using inv_at_batch [OF v] by blast
  note t = take_from_permission [OF assms(1) v a]
  define st1 where "st1 = upd_inv r (\<lambda>v. v\<lparr>awaiting_perm := False\<rparr>) st"
  have s1: "inv_at st1 r = Some (v\<lparr>awaiting_perm := False\<rparr>)" "tools_inv (Some r) x st1"
    using t(1) by (simp_all add: st1_def upd_inv_simps [OF v bt])
  define st2 where "st2 = (if remembers d then
      (case Option.bind (inv_name v) (find_tool st1) of None \<Rightarrow> st1
       | Some n \<Rightarrow> upd_node n (\<lambda>t. t\<lparr>remembered := True, remember_allow := allows d\<rparr>) st1) else st1)"
  have "tools_inv (Some r) x st2 \<and> inv_at st2 r = Some (v\<lparr>awaiting_perm := False\<rparr>)"
  proof (cases "Option.bind (inv_name v) (find_tool st1)")
    case None
    then show ?thesis using s1 by (simp add: st2_def)
  next
    case (Some n)
    then obtain nm where "find_tool st1 nm = Some n" by (cases "inv_name v") auto
    then obtain tl where tl: "node st1 n = Some tl" using find_tool_Some(2) by blast
    have "inv_at (upd_node n f st1) = inv_at st1" for f by (rule inv_at_cong) simp
    then show ?thesis using s1 remember_inv [OF s1(2) tl] Some by (simp add: st2_def)
  qed
  then have s2: "tools_inv (Some r) x st2" "inv_at st2 r = Some (v\<lparr>awaiting_perm := False\<rparr>)" by auto
  have f: "tools_inv None x (clm_tool_fail E r m st2)" for m
    by (rule fail_inv [OF s2(1) _ s2(2)]) (use nc in \<open>simp_all add: on_call_def\<close>)
  have i: "tools_inv None x (run_invoke E r st2)" by (rule invoke_call(1) [OF s2]) (use t(3) in simp)
  show ?thesis unfolding clm_tool_permission_respond_def v option.case Let_def st1_def [symmetric] st2_def [symmetric]
    using a f i by simp
qed

lemma add_tool_inv:
  assumes "tools_inv H x st"
  shows "tools_inv H x (snd (clm_tool_add d st))"
proof -
  have r: "reg_ok st" using assms by (simp add: tools_inv_def)
  obtain res st' where eq: "clm_tool_add d st = (res, st')" by fastforce
  from eq show ?thesis
  proof (cases rule: tool_add_cases)
    case (err e t)
    then show ?thesis using assms eq by simp
  next
    case (ok d0 nm t tl)
    have "tools_inv H x st'"
    proof (rule tools_inv_nodes [OF assms])
      show "reg_ok st'" by (rule reg_ok_add [OF r eq])
      have "node st (length (nodes st)) = None" by (simp add: node_def)
      then have "pins st (length (nodes st)) = 0" using nodes_okD [OF assms, of "length (nodes st)"] by simp
      moreover have "node st' m = (if m = length (nodes st) then Some tl else node st m)" for m
        using ok(9) by (auto simp: node_def nth_append)
      ultimately show "case node st' m of Some t \<Rightarrow> inflight t = pins st m | None \<Rightarrow> pins st m = 0" for m
        using nodes_okD [OF assms, of m] ok(7) by (cases "m = length (nodes st)") (simp_all split: option.splits)
    qed (use ok(9) in \<open>simp_all add: log_def\<close>)
    then show ?thesis using eq by simp
  qed
qed

lemma tool_remove_ext:
  fixes st :: agent_tools
  shows "batches (snd (clm_tool_remove nm st)) = batches st" "active_batch (snd (clm_tool_remove nm st)) = active_batch st"
    "gates (snd (clm_tool_remove nm st)) = gates st" "timers (snd (clm_tool_remove nm st)) = timers st"
    "stack (snd (clm_tool_remove nm st)) = stack st" "log (snd (clm_tool_remove nm st)) = log st"
proof -
  have [simp]: "log (R\<lparr>registry := a, tool_count := c\<rparr>) = log R" for R :: agent_tools and a c by (simp add: log_def)
  show "batches (snd (clm_tool_remove nm st)) = batches st" "active_batch (snd (clm_tool_remove nm st)) = active_batch st"
    "gates (snd (clm_tool_remove nm st)) = gates st" "timers (snd (clm_tool_remove nm st)) = timers st"
    "stack (snd (clm_tool_remove nm st)) = stack st" "log (snd (clm_tool_remove nm st)) = log st"
    by (simp_all add: clm_tool_remove_def Let_def bad_ext split: option.split)
qed

lemma remove_tool_inv:
  assumes "tools_inv H x st"
  shows "tools_inv H x (snd (clm_tool_remove nm st))"
proof -
  have r: "reg_ok st" using assms by (simp add: tools_inv_def)
  obtain res st' where eq: "clm_tool_remove nm st = (res, st')" by fastforce
  have snd: "snd (clm_tool_remove nm st) = st'" by (simp add: eq)
  from r eq show ?thesis
  proof (cases rule: tool_remove_cases)
    case (err e)
    then show ?thesis using assms eq by simp
  next
    case (ok name n t)
    have "tools_inv H x st'"
    proof (rule tools_inv_nodes [OF assms])
      show "reg_ok st'" by (rule reg_ok_remove [OF r eq])
      show "case node st' m of Some t \<Rightarrow> inflight t = pins st m | None \<Rightarrow> pins st m = 0" for m
        using nodes_okD [OF assms, of m] ok(5,6,10) by (cases "m = n") (simp_all split: option.splits)
    qed (use tool_remove_ext [of nm st] ok(9) in \<open>simp_all add: snd\<close>)
    then show ?thesis using snd by simp
  qed
qed

section \<open>Frames\<close>

lemma active_batch_at:
  assumes "tools_inv H x st" "active_batch st = Some b"
  obtains bt where "batch_at st b = Some bt"
  using assms by (auto simp: tools_inv_def batch_ok_def)

lemma frame_active:
  assumes "tools_inv H x st" "f \<in> set (stack st)"
  obtains b bt where "active_batch st = Some b" "frame_batch f = Some b" "batch_at st b = Some bt"
  using assms by (cases "active_batch st") (auto simp: tools_inv_def batch_ok_def)

lemma same_batch: "batch_at st b = Some bt \<Longrightarrow> (batches st)[b := Some bt] = batches st"
  by (auto simp: batch_at_def list_update_same_conv split: if_splits)

text \<open>A frame that only holds the batch goes on and off the stack in exchange for a hold in hand.\<close>

lemma stack_inv:
  assumes "tools_inv H x st" "batch_at st b = Some bt" "length (stack st) + x = length fs + x'"
    "length (filter is_dispatch fs) \<le> length (filter is_dispatch (stack st))"
    "\<And>f. f \<in> set fs \<Longrightarrow> f \<in> set (stack st) \<or> frame_batch f = Some b"
    "\<And>r. inv_at st r \<noteq> None \<Longrightarrow> waiting fs r = waiting (stack st) r"
  shows "tools_inv H x' (st\<lparr>stack := fs\<rparr>)"
proof -
  have B: "batch_ok x st" using assms(1) by (simp add: tools_inv_def)
  note d = batch_okD [OF B assms(2)]
  show ?thesis
    by (rule tools_inv_batch [OF assms(1,2), where bt' = bt and es = "[]"]) (use assms d same_batch [OF assms(2)] in auto)
qed

lemma pop_hold:
  assumes "tools_inv None 0 st" "stack st = f # fs" "\<not> is_dispatch f"
  shows "tools_inv None 1 (st\<lparr>stack := fs\<rparr>)" "active_batch st = frame_batch f"
proof -
  obtain b bt where b: "active_batch st = Some b" "frame_batch f = Some b" "batch_at st b = Some bt"
    using frame_active [OF assms(1), of f] assms(2) by auto
  then show "active_batch st = frame_batch f" by simp
  have "waiting (f # fs) r = waiting fs r" for r using assms(3) by (cases f) (auto simp: waiting_def)
  then show "tools_inv None 1 (st\<lparr>stack := fs\<rparr>)" by (intro stack_inv [OF assms(1) b(3)]) (use assms(2,3) in auto)
qed

lemma push_hold:
  assumes "tools_inv None 1 st" "active_batch st = Some b"
  shows "tools_inv None 0 (push (In_cancel b i) st)"
proof -
  obtain bt where bt: "batch_at st b = Some bt" using active_batch_at [OF assms] .
  show ?thesis unfolding push_def by (rule stack_inv [OF assms(1) bt]) auto
qed

section \<open>Dispatch\<close>

lemma waiting_Cons: "waiting (In_dispatch b i # fs) r \<longleftrightarrow> fst r = b \<and> i \<le> snd r \<or> waiting fs r"
  by (auto simp: waiting_def)

lemma no_dispatch_waiting: "filter is_dispatch fs = [] \<Longrightarrow> \<not> waiting fs r"
  by (force simp: waiting_def filter_empty_conv)

text \<open>The loop turns to its next call: it comes in hand.\<close>

lemma take_next:
  assumes "tools_inv None 0 st" "stack st = In_dispatch b i # fs" "batch_at st b = Some bt" "i < length (invs bt)"
  shows "tools_inv (Some (b, i)) 0 (st\<lparr>stack := In_dispatch b (i + 1) # fs\<rparr>)" "Ask_permission (b, i) \<notin> set (log st)"
proof -
  have I: "batch_ok 0 st" "handles_ok st" using assms(1) by (auto simp: tools_inv_def)
  note d = batch_okD [OF I(1) assms(3)]
  have nd: "\<not> waiting fs r" for r using d(7) assms(2) by (intro no_dispatch_waiting) simp
  let ?v = "invs bt ! i"
  have v: "inv_at st (b, i) = Some ?v" using assms(3,4) by (simp add: inv_at_def)
  note c = tools_inv_callD [OF assms(1) v]
  have w: "waiting (stack st) (b, i)" using assms(2) by (simp add: waiting_Cons)
  have nc: "\<not> completed ?v" using parked_incomplete [OF c] w by simp
  note o = owner_is(4) [OF c nc w]
  show "Ask_permission (b, i) \<notin> set (log st)" using call_okD(3) [OF c nc] o by auto
  have gt: "gate ?v = Some g" if "g < length (gates st)" "gates st ! g = Some (Some (b, i))" for g
    using handles_okD(1) [OF I(2) that] v by simp
  have tm: "if k = Timeout then timer ?v else rl_timer ?v" if "(k, (b, i)) \<in> set (timers st)" for k
    using handles_okD(2) [OF I(2) that] v by simp
  let ?st = "st\<lparr>stack := In_dispatch b (i + 1) # fs\<rparr>"
  have ok: "call_ok (Some (b, i)) ?st (b, i) ?v" using c nc o w nd by (auto simp: call_ok_def owners_def waiting_Cons)
  have fb: "frame_batch f = Some b" if "f \<in> set fs" for f using d(6) [of f] that assms(2) by simp
  have wt: "waiting (stack ?st) r' = waiting (stack st) r'" if "r' \<noteq> (b, i)" for r'
    using that nd assms(2) by (cases r') (auto simp: waiting_Cons)
  show "tools_inv (Some (b, i)) 0 ?st"
  proof (rule tools_inv_call_keep [OF assms(1), where r = "(b, i)" and bt = bt and v = ?v and v' = ?v and es = "[]" and bt' = bt], goal_cases)
    case (17 f)
    then show ?case using fb assms(2) by auto
  qed (use assms(2-4) v nc ok gt tm wt same_batch [OF assms(3)] in auto)
qed

lemma dispatch_iter_inv:
  assumes "tools_inv None 0 st" "stack st = In_dispatch b i # fs"
  shows "tools_inv None 0 (dispatch_iter E b i (st\<lparr>stack := fs\<rparr>))"
proof -
  have I: "batch_ok 0 st" using assms(1) by (simp add: tools_inv_def)
  obtain b' bt where "active_batch st = Some b'" "frame_batch (In_dispatch b i) = Some b'" "batch_at st b' = Some bt"
    using frame_active [OF assms(1), of "In_dispatch b i"] assms(2) by auto
  then have ab: "active_batch st = Some b" and bt: "batch_at st b = Some bt" by auto
  note d = batch_okD [OF I bt]
  have b1: "batch_at (st\<lparr>stack := fs\<rparr>) b = Some bt" using bt by simp
  show ?thesis
  proof (cases "i \<ge> length (invs bt)")
    case True
    have "waiting fs r = waiting (stack st) r" if ia: "inv_at st r \<noteq> None" for r
    proof -
      obtain v where "inv_at st r = Some v" using ia by blast
      then obtain bt2 where b2: "batch_at st (fst r) = Some bt2" "snd r < length (invs bt2)" using inv_at_batch by blast
      then have "fst r = b" using d(2) [of "fst r"] by simp
      then show ?thesis using b2 bt True assms(2) by (simp add: waiting_Cons)
    qed
    then have "tools_inv None 1 (st\<lparr>stack := fs\<rparr>)"
      by (intro stack_inv [OF assms(1) bt]) (use assms(2) in auto)
    then have "tools_inv None 0 (release b (st\<lparr>stack := fs\<rparr>))" by (intro release_inv) (use ab in simp_all)
    then show ?thesis using True b1 by (simp add: dispatch_iter_def with_batch_def)
  next
    case False
    then have il: "i < length (invs bt)" by simp
    note t = take_next [OF assms bt il]
    let ?r = "(b, i)"
    define st1 where "st1 = push (In_dispatch b (i + 1)) (st\<lparr>stack := fs\<rparr>)"
    have s1: "tools_inv (Some ?r) 0 st1" "log st1 = log st" using t(1) by (simp_all add: st1_def push_def)
    obtain now cs where c1: "read_clock st1 = (now, st1\<lparr>clock := cs\<rparr>)" using read_clock_eq by blast
    obtain ok rl where rl: "clm_ratelimit_allow now (tool_rl st1) 1 = (ok, rl)" by fastforce
    define st2 where "st2 = st1\<lparr>clock := cs, tool_rl := rl\<rparr>"
    have s2: "tools_inv (Some ?r) 0 st2" "log st2 = log st" using s1 by (simp_all add: st2_def)
    have g2: "tools_inv None 0 (dispatch_one E ?r st2)" by (rule dispatch_one_inv [OF s2(1)]) (use s2(2) t(2) in simp)
    obtain now' cs' where c2: "read_clock st2 = (now', st2\<lparr>clock := cs'\<rparr>)" using read_clock_eq by blast
    obtain dl rl' where rl2: "clm_ratelimit_delay now' rl 1 = (dl, rl')" by fastforce
    define st3 where "st3 = st2\<lparr>clock := cs', tool_rl := rl'\<rparr>"
    have s3: "tools_inv (Some ?r) 0 st3" "log st3 = log st" using s2 by (simp_all add: st3_def)
    have st2_rl: "tool_rl st2 = rl" by (simp add: st2_def)
    have "tools_inv None 0 (case timer_set Rl_delay ?r st3 of (ok, st4) \<Rightarrow>
        if ok then upd_inv ?r (\<lambda>v. v\<lparr>rl_timer := True\<rparr>) st4
        else (case read_clock st4 of (now, st5) \<Rightarrow> dispatch_one E ?r (st5\<lparr>tool_rl := clm_ratelimit_consume now (tool_rl st5) 1\<rparr>)))"
    proof (cases rule: timer_set_cases [of Rl_delay ?r st3])
      case (ok t4)
      have "tools_inv None 0 (upd_inv ?r (\<lambda>v. v\<lparr>rl_timer := True\<rparr>) (st3\<lparr>mem := t4, timers := timers (st3\<lparr>mem := t4\<rparr>) @ [(Rl_delay, ?r)]\<rparr>))"
        by (rule park_delay) (use s3 t(2) in simp_all)
      then show ?thesis using ok by simp
    next
      case (failed t4)
      obtain now5 cs5 where c5: "read_clock (st3\<lparr>mem := t4\<rparr>) = (now5, st3\<lparr>mem := t4, clock := cs5\<rparr>)" using read_clock_eq by blast
      have "tools_inv None 0 (dispatch_one E ?r (st3\<lparr>mem := t4, clock := cs5, tool_rl := l\<rparr>))" for l
        by (rule dispatch_one_inv) (use s3 t(2) in simp_all)
      then show ?thesis using failed c5 by simp
    qed
    then show ?thesis unfolding dispatch_iter_def with_batch_def b1 option.case Let_def st1_def [symmetric] c1 prod.case
      using False g2 by (simp add: rl st2_def [symmetric] c2 st2_rl rl2 st3_def [symmetric])
  qed
qed

text \<open>Building the calls of a batch pins their tools.\<close>

definition fresh_call :: "clm_tool_invocation \<Rightarrow> bool" where
  "fresh_call v \<longleftrightarrow> \<not> completed v \<and> \<not> timer v \<and> \<not> timed_out v \<and> \<not> awaiting_perm v \<and> gate v = None \<and> \<not> rl_timer v"

definition uses :: "clm_tool_invocation list \<Rightarrow> nat \<Rightarrow> nat" where
  "uses vs n = length (filter (\<lambda>v. i_tool v = Some n) vs)"

definition built :: "agent_tools \<Rightarrow> clm_tool_invocation list \<Rightarrow> agent_tools \<Rightarrow> bool" where
  "built st vs st' \<longleftrightarrow> list_all fresh_call vs \<and> fault st' = fault st \<and> reg_ok st' \<and> batches st' = batches st \<and> active_batch st' = active_batch st
     \<and> gates st' = gates st \<and> timers st' = timers st \<and> stack st' = stack st \<and> trace st' = trace st \<and> hist st' = hist st
     \<and> (\<forall>n. case node st' n of Some t' \<Rightarrow> (\<exists>t. node st n = Some t \<and> inflight t' = inflight t + uses vs n)
          | None \<Rightarrow> node st n = None \<and> uses vs n = 0)"

lemma pin_simps:
  assumes "node st n = Some t"
  shows "node (pin n st) m = (if m = n then Some (t\<lparr>inflight := inflight t + 1\<rparr>) else node st m)" "reg_ok st \<Longrightarrow> reg_ok (pin n st)"
    "fault (pin n st) = fault st" "trace (pin n st) = trace st"
proof -
  note u = upd_node_simps [OF assms, of "\<lambda>t. t\<lparr>inflight := inflight t + 1\<rparr>", folded pin_def]
  show nd: "node (pin n st) m = (if m = n then Some (t\<lparr>inflight := inflight t + 1\<rparr>) else node st m)" for m by (rule u(1))
  show "fault (pin n st) = fault st" "trace (pin n st) = trace st" by (rule u)+
  show "reg_ok (pin n st)" if "reg_ok st"
    by (rule reg_ok_node [OF that _ u(2,3) assms, where t' = "t\<lparr>inflight := inflight t + 1\<rparr>"]) (simp_all add: nd)
qed

lemma pin_ext [simp]:
  fixes st :: agent_tools
  shows "batches (pin n st) = batches st" "active_batch (pin n st) = active_batch st" "gates (pin n st) = gates st"
    "timers (pin n st) = timers st" "stack (pin n st) = stack st" "hist (pin n st) = hist st"
  by (auto simp: pin_def upd_node_def bad_def split: option.splits)

lemma build_call_eq:
  assumes "call_string J (Some tc) (lit ''id'') \<noteq> None" "call_string J (cj_get J tc (lit ''function'')) (lit ''name'') \<noteq> None"
  shows "\<exists>v ok m t. build_call E J tc amsg st = (v, ok, m, case i_tool v of None \<Rightarrow> st\<lparr>mem := t\<rparr> | Some k \<Rightarrow> pin k (st\<lparr>mem := t\<rparr>))
    \<and> fresh_call v \<and> (\<forall>k. i_tool v = Some k \<longrightarrow> (\<exists>tl. node st k = Some tl))"
proof -
  have fs: "\<exists>tl. node st k = Some tl" if "find_tool st nm = Some k" for nm k using find_tool_Some(2) [OF that] by blast
  define t3 where "t3 = snd (alloc (snd (alloc (snd (alloc (mem st))))))"
  show ?thesis unfolding build_call_def Let_def outcome_eq prod.case
    using assms fs
    by (simp add: new_invocation_def fresh_call_def split: prod.split)
      (auto simp: t3_def [symmetric] split: prod.splits)
qed

lemma uses_append [simp]: "uses (vs @ ws) n = uses vs n + uses ws n"
  by (simp add: uses_def)

lemma built_trans:
  assumes "built st vs st1" "built st1 ws st2"
  shows "built st (vs @ ws) st2"
proof -
  have "case node st2 n of Some t' \<Rightarrow> \<exists>t. node st n = Some t \<and> inflight t' = inflight t + uses (vs @ ws) n
      | None \<Rightarrow> node st n = None \<and> uses (vs @ ws) n = 0" for n
  proof -
    have "case node st1 n of Some t' \<Rightarrow> \<exists>t. node st n = Some t \<and> inflight t' = inflight t + uses vs n | None \<Rightarrow> node st n = None \<and> uses vs n = 0"
      "case node st2 n of Some t' \<Rightarrow> \<exists>t. node st1 n = Some t \<and> inflight t' = inflight t + uses ws n | None \<Rightarrow> node st1 n = None \<and> uses ws n = 0"
      using assms unfolding built_def by blast+
    then show ?thesis by (auto split: option.splits)
  qed
  then show ?thesis using assms unfolding built_def by simp
qed

lemma build_call_built:
  assumes "call_string J (Some tc) (lit ''id'') \<noteq> None" "call_string J (cj_get J tc (lit ''function'')) (lit ''name'') \<noteq> None"
    and "build_call E J tc amsg st = (v, ok, m, st')" "reg_ok st"
  shows "built st [v] st'"
proof -
  obtain t where e: "st' = (case i_tool v of None \<Rightarrow> st\<lparr>mem := t\<rparr> | Some k \<Rightarrow> pin k (st\<lparr>mem := t\<rparr>))" "fresh_call v"
    "\<And>k. i_tool v = Some k \<Longrightarrow> \<exists>tl. node st k = Some tl"
    using build_call_eq [OF assms(1,2), of E amsg st] assms(3) by auto
  have rm: "reg_ok (st\<lparr>mem := t\<rparr>)" using assms(4) by (simp add: reg_ok_def)
  show ?thesis
  proof (cases "i_tool v")
    case None
    then have "st' = st\<lparr>mem := t\<rparr>" using e(1) by simp
    moreover have "uses [v] n = 0" for n using None by (simp add: uses_def)
    ultimately show ?thesis using e(2) rm by (auto simp: built_def split: option.split)
  next
    case (Some k)
    then obtain tl where tl: "node (st\<lparr>mem := t\<rparr>) k = Some tl" using e(3) by auto
    have st': "st' = pin k (st\<lparr>mem := t\<rparr>)" using e(1) Some by simp
    have us: "uses [v] n = (if n = k then 1 else 0)" for n using Some by (simp add: uses_def)
    show ?thesis unfolding built_def st' pin_ext pin_simps(1,3,4) [OF tl] us
      using e(2) pin_simps(2) [OF tl rm] tl by (auto split: option.split)
  qed
qed

lemma build_calls_built:
  assumes "list_all (\<lambda>tc. call_string J (Some tc) (lit ''id'') \<noteq> None
      \<and> call_string J (cj_get J tc (lit ''function'')) (lit ''name'') \<noteq> None) tcs"
    and "build_calls E J tcs amsg st = (vs, ok, m, st')" "reg_ok st"
  shows "built st vs st'" "length vs = length tcs"
proof -
  have "built st vs st' \<and> length vs = length tcs" using assms
  proof (induction tcs arbitrary: amsg st vs ok)
    case Nil
    then show ?case by (auto simp: built_def uses_def split: option.split)
  next
    case (Cons tc tcs)
    obtain v ok1 m1 st1 where 1: "build_call E J tc amsg st = (v, ok1, m1, st1)" by (metis prod_cases4)
    obtain ws ok2 m2 st2 where 2: "build_calls E J tcs m1 st1 = (ws, ok2, m2, st2)" by (metis prod_cases4)
    have e: "vs = v # ws" "m = m2" "st' = st2" using Cons.prems(2) 1 2 by auto
    have b: "built st [v] st1" using build_call_built [OF _ _ 1 Cons.prems(3)] Cons.prems(1) by simp
    then have "built st1 ws st2 \<and> length ws = length tcs"
      using Cons.IH [of m1 st1 ws ok2] Cons.prems(1) 2 e by (auto simp: built_def)
    then show ?case using built_trans [OF b] e by fastforce
  qed
  then show "built st vs st'" "length vs = length tcs" by auto
qed

lemma idle_inv:
  assumes "tools_inv None 0 st" "active_batch st = None"
  shows "stack st = []" "batch_at st b = None" "inv_at st r = None" "pins st n = 0" "(k, r) \<notin> set (timers st)"
    "g < length (gates st) \<Longrightarrow> gates st ! g \<noteq> Some (Some r)"
proof -
  have I: "batch_ok 0 st" "handles_ok st" using assms(1) by (auto simp: tools_inv_def)
  show "stack st = []" "batch_at st b = None" for b using I(1) assms(2) by (auto simp: batch_ok_def)
  then show ia: "inv_at st r = None" for r by (simp add: inv_at_def)
  show "pins st n = 0" using assms(2) by (simp add: pins_def)
  show "(k, r) \<notin> set (timers st)"
  proof
    assume "(k, r) \<in> set (timers st)"
    from handles_okD(2) [OF I(2) this] ia show False by simp
  qed
  show "gates st ! g \<noteq> Some (Some r)" if "g < length (gates st)"
  proof
    assume "gates st ! g = Some (Some r)"
    from handles_okD(1) [OF I(2) that this] ia show False by simp
  qed
qed

lemma reg_ok_cong:
  assumes "nodes st' = nodes st" "registry st' = registry st" "tool_count st' = tool_count st"
  shows "reg_ok st' = reg_ok st" "node st' m = node st m"
proof -
  show n: "node st' m = node st m" for m by (simp add: node_def assms(1))
  show "reg_ok st' = reg_ok st" by (simp add: reg_ok_def n assms)
qed

lemma new_batch_inv:
  assumes inv: "tools_inv None 0 st" "active_batch st = None"
    and vs: "built st0 vs st1" "list_all fresh_call vs" "n = length vs" "b = length (batches st)"
    and bt: "invs bt = vs" "pending bt = n + 1" "\<not> detached bt"
    and st0: "fault st0 = fault st" "\<And>m. node st0 m = node st m"
    and st': "batches st' = batches st @ [Some bt]" "active_batch st' = Some b" "gates st' = gates st" "timers st' = timers st"
      "stack st' = [In_dispatch b 0]" "\<And>m. node st' m = node st1 m" "fault st' = fault st1" "reg_ok st'"
      "log st' = log st @ [Batch_progress b 0 n]"
  shows "tools_inv None 0 st'"
proof -
  note idle = idle_inv [OF inv]
  have I: "nodes_ok st" "handles_ok st" "trace_ok st" "\<not> fault st" using inv(1) by (auto simp: tools_inv_def)
  have ba: "batch_at st' c = (if c = b then Some bt else None)" for c
    using idle(2) [of c] st'(1) vs(4) by (auto simp: batch_at_def nth_append)
  have ia: "inv_at st' r = Some v \<Longrightarrow> fst r = b \<and> snd r < length vs \<and> v = vs ! snd r" for r v
    using bt(1) by (auto simp: inv_at_Some ba split: if_splits)
  have fr: "fresh_call v" if "inv_at st' r = Some v" for r v using ia [OF that] vs(2) by (auto simp: list_all_length)
  have old: "e \<notin> set (log st)" if "ev_batch e = b" for e using trace_okD(2) [OF I(3), of e] that vs(4) by auto
  have "incomplete bt = n" using vs(2,3) bt(1) by (simp add: incomplete_def list_all_iff fresh_call_def)
  then have B: "batch_ok 0 st'" using ba bt(2,3) st'(2,5) by (intro batch_okI [where b = b and bt = bt]) simp_all
  have ps: "pins st' m = uses vs m" for m
    using vs(2) bt(1) by (simp add: pins_def uses_def ba st'(2), intro arg_cong [where f = length] filter_cong)
      (auto simp: list_all_iff fresh_call_def)
  have N: "nodes_ok st'"
    unfolding nodes_ok_def
  proof
    fix m
    have "case node st m of Some t \<Rightarrow> inflight t = 0 | None \<Rightarrow> True" using I(1) idle(4) by (auto simp: nodes_ok_def split: option.splits)
    moreover have "case node st1 m of Some t' \<Rightarrow> (\<exists>t. node st0 m = Some t \<and> inflight t' = inflight t + uses vs m)
          | None \<Rightarrow> node st0 m = None \<and> uses vs m = 0" using vs(1) unfolding built_def by blast
    ultimately show "case node st' m of Some t \<Rightarrow> inflight t = pins st' m | None \<Rightarrow> pins st' m = 0"
      unfolding st'(6) ps st0(2) by (auto split: option.splits)
  qed
  have C: "call_ok None st' r v" if iv: "inv_at st' r = Some v" for r v
  proof -
    have "Completed r \<notin> set (log st)" "Invoke r \<notin> set (log st)" "Ask_permission r \<notin> set (log st)" using old ia [OF iv] by auto
    moreover have "waiting (stack st') r" using ia [OF iv] st'(5) by (simp add: waiting_Cons)
    ultimately show ?thesis using fr [OF iv] st'(9) by (simp add: call_ok_def owners_def fresh_call_def)
  qed
  have H: "handles_ok st'" unfolding handles_ok_def st'(3,4,9)
    using idle(5,6) handles_okD(3) [OF I(2)] idle(3) by auto
  have T: "trace_ok st'" unfolding trace_ok_def
  proof (intro conjI ballI allI impI, goal_cases)
    case 1
    then show ?case using trace_okD(1) [OF I(3)] st'(9) by simp
  next
    case (2 e)
    then show ?case using trace_okD(2) [OF I(3), of e] st'(1,9) vs(4) by auto
  next
    case (3 c s)
    then have "Tools_done c s \<in> set (log st)" using st'(9) by simp
    then show ?case using old [of "Tools_done c s"] ba [of c] by auto
  next
    case (4 c s s')
    then show ?case using trace_okD(4) [OF I(3), of c s s'] st'(9) by simp
  next
    case (5 c k m)
    then consider "c = b" "m = n" | "Batch_progress c k m \<in> set (log st)" using st'(9) by auto
    then show ?case
    proof cases
      case 1
      then show ?thesis using ba bt(1) vs(3) by simp
    next
      case 2
      then have "c \<noteq> b" using old [of "Batch_progress c k m"] by auto
      then show ?thesis using trace_okD(5) [OF I(3) 2] ba idle(2) st'(9) by simp
    qed
  qed
  show ?thesis unfolding tools_inv_def using B N C H T st'(7,8) st0(1) vs(1) I(4) by (auto simp: built_def)
qed

lemma dispatch_inv:
  assumes "tools_inv None 0 st" "active_batch st = None" "calls_typed J tcs"
  shows "tools_inv None 0 (snd (clm_tools_dispatch E J tcs st))"
proof (cases tcs)
  case None
  then show ?thesis using assms(1) by (simp add: clm_tools_dispatch_def)
next
  case (Some arr)
  obtain ok h t where h: "clm_history_add_assistant_tool_calls (mem st) (hist st) = (ok, h, t)" by (metis prod_cases3)
  define sth where "sth = st\<lparr>hist := h, mem := t\<rparr>"
  obtain ok1 t1 where o1: "outcome sth = (ok1, sth\<lparr>mem := t1\<rparr>)" by (simp add: outcome_eq)
  obtain ok2 t2 where o2: "outcome (sth\<lparr>mem := t1\<rparr>) = (ok2, sth\<lparr>mem := t2\<rparr>)" by (simp add: outcome_eq)
  let ?n = "length (cj_items J arr)" and ?b = "length (batches st)"
  define st0 where "st0 = emit (Batch_progress ?b 0 ?n) (sth\<lparr>mem := t2\<rparr>)"
  obtain vs copied amsg st1 where bc: "build_calls E J (cj_items J arr) (last (hist st0)) st0 = (vs, copied, amsg, st1)" by (metis prod_cases4)
  define bt where "bt = \<lparr>invs = vs, pending = ?n + 1, done_count = 0, status = (if copied then None else Some ENOMEM), detached = False\<rparr>"
  define st2 where "st2 = emit (Message_added amsg) (st1\<lparr>batches := batches st1 @ [Some bt], active_batch := Some ?b, hist := butlast (hist st1) @ [amsg]\<rparr>)"
  have s0: "reg_ok st0" "fault st0 = fault st" "\<And>m. node st0 m = node st m" "batches st0 = batches st"
    "gates st0 = gates st" "timers st0 = timers st" "stack st0 = stack st" "log st0 = log st @ [Batch_progress ?b 0 ?n]"
  proof -
    have "nodes st0 = nodes st" "registry st0 = registry st" "tool_count st0 = tool_count st" by (simp_all add: st0_def sth_def)
    from reg_ok_cong [OF this] show "reg_ok st0" "\<And>m. node st0 m = node st m" using assms(1) by (auto simp: tools_inv_def)
  qed (simp_all add: st0_def sth_def log_def)
  note B = build_calls_built [OF _ bc s0(1)]
  have ty: "list_all (\<lambda>tc. call_string J (Some tc) (lit ''id'') \<noteq> None
      \<and> call_string J (cj_get J tc (lit ''function'')) (lit ''name'') \<noteq> None) (cj_items J arr)"
    using assms(3) Some by (simp add: calls_typed_def)
  have b: "built st0 vs st1" "length vs = ?n" using B [OF ty] by auto
  have s1: "list_all fresh_call vs" "reg_ok st1" "batches st1 = batches st" "gates st1 = gates st" "timers st1 = timers st"
    "stack st1 = []" "log st1 = log st @ [Batch_progress ?b 0 ?n]" "fault st1 = fault st"
    using b(1) s0 idle_inv(1) [OF assms(1,2)] by (auto simp: built_def log_def)
  have s2: "node (st2\<lparr>stack := [In_dispatch ?b 0]\<rparr>) m = node st1 m" "reg_ok (st2\<lparr>stack := [In_dispatch ?b 0]\<rparr>) = reg_ok st1" for m
    by (rule reg_ok_cong; simp add: st2_def)+
  have "tools_inv None 0 (st2\<lparr>stack := [In_dispatch ?b 0]\<rparr>)"
    by (rule new_batch_inv [OF assms(1,2) b(1) s1(1) b(2) [symmetric] refl, where bt = bt])
      (use s0 s1 s2 in \<open>simp_all add: st2_def bt_def log_def\<close>)
  moreover have "st2\<lparr>stack := [In_dispatch ?b 0], stack := []\<rparr> = st2" using s1(6) by (simp add: st2_def emit_def)
  ultimately have D: "tools_inv None 0 (dispatch_iter E ?b 0 st2)"
    using dispatch_iter_inv [of "st2\<lparr>stack := [In_dispatch ?b 0]\<rparr>" ?b 0 "[]" E] by simp
  have ob: "length (batches (sth\<lparr>mem := t2\<rparr>)) = ?b" by (simp add: sth_def)
  have sh: "tools_inv None 0 sth" using assms(1) by (simp add: sth_def)
  show ?thesis
    unfolding clm_tools_dispatch_def Some option.case Let_def h prod.case sth_def [symmetric] o1 o2 ob st0_def [symmetric] bc bt_def [symmetric]
      st2_def [symmetric]
    using D sh assms(1) by simp
qed

section \<open>Cancel\<close>

lemma cancel_iter_inv:
  assumes "tools_inv None 1 st" "active_batch st = Some b"
  shows "tools_inv None 0 (cancel_iter E b i st)"
proof -
  obtain bt where bt: "batch_at st b = Some bt" using active_batch_at [OF assms] .
  note p = push_hold [OF assms, of "i + 1"]
  let ?p = "push (In_cancel b (i + 1)) st"
  show ?thesis
  proof (cases "i \<ge> length (invs bt)")
    case True
    then show ?thesis using release_inv [of 0 st b] assms bt by (simp add: cancel_iter_def with_batch_def)
  next
    case False
    let ?v = "invs bt ! i" and ?r = "(b, i)"
    have v: "inv_at ?p ?r = Some ?v" and bt': "batch_at ?p (fst ?r) = Some bt" using bt False by (simp_all add: inv_at_def)
    have fin: "tools_inv None 0 (inv_finalize E ?r cancelled_text 0 CLM_TOOL_FAILED None st')"
      if "tools_inv (Some ?r) 0 st'" for st'
      using that inv_finalize_inv [OF that, of ?r] by (auto simp: tools_inv_def)
    have dl: "tools_inv None 0 (inv_finalize E ?r cancelled_text 0 CLM_TOOL_FAILED None
        (upd_inv ?r (\<lambda>v. v\<lparr>rl_timer := False\<rparr>) (timer_cancel Rl_delay ?r ?p)))" if "rl_timer ?v"
      unfolding timer_cancel_def by (rule fin [OF take_from_delay(1) [OF p v that]])
    have gt: "tools_inv None 0 (inv_finalize E ?r cancelled_text 0 CLM_TOOL_FAILED None
        (upd_inv ?r (\<lambda>v. v\<lparr>gate := None\<rparr>) (?p\<lparr>gates := (gates ?p)[g := Some None]\<rparr>)))" if "gate ?v = Some g" for g
    proof (rule fin [OF take_from_hook(1) [OF p]])
      show "g < length (gates ?p)" "gates ?p ! g = Some (Some ?r)"
        using call_okD(4) [OF tools_inv_callD [OF p v] that] by auto
    qed simp
    show ?thesis unfolding cancel_iter_def with_batch_def bt option.case Let_def
      using False p dl gt by (simp split: option.split)
  qed
qed

lemma cancel_inv:
  assumes "tools_inv None 0 st"
  shows "tools_inv None 0 (clm_tools_cancel E st)"
proof (cases "active_batch st")
  case None
  then show ?thesis using assms by (simp add: clm_tools_cancel_def)
next
  case (Some b)
  obtain bt where bt: "batch_at st b = Some bt" using active_batch_at [OF assms Some] .
  have "tools_inv None 1 (upd_batch b (\<lambda>bt. bt\<lparr>pending := pending bt + 1\<rparr>) st)" by (rule upd_batch_inv [OF assms bt]) simp_all
  then show ?thesis using cancel_iter_inv Some by (simp add: clm_tools_cancel_def upd_batch_eq [OF bt])
qed

lemma returns_inv:
  assumes "tools_inv None 0 st"
  shows "tools_inv None 0 (returns E st)"
proof (cases "stack st")
  case Nil
  then show ?thesis using assms by (simp add: returns_def)
next
  case (Cons f fs)
  show ?thesis
  proof (cases "is_dispatch f")
    case True
    then obtain b i where "f = In_dispatch b i" by (cases f) auto
    then show ?thesis using dispatch_iter_inv [OF assms] Cons by (simp add: returns_def)
  next
    case False
    note p = pop_hold [OF assms Cons False]
    have h: "active_batch (st\<lparr>stack := fs\<rparr>) = frame_batch f" using p(2) by simp
    have n: "frame_batch f \<noteq> None" using frame_active [OF assms, of f] Cons by auto
    show ?thesis using Cons n p(1) release_inv [of 0 "st\<lparr>stack := fs\<rparr>"] cancel_iter_inv [of "st\<lparr>stack := fs\<rparr>"] h False
      by (cases f) (simp_all add: returns_def)
  qed
qed

section \<open>Every reachable state\<close>

lemma initial_inv: "tools_inv None 0 (initial h rl cs t)"
  by (simp add: initial_def tools_inv_def reg_ok_def batch_ok_def nodes_ok_def handles_ok_def trace_ok_def log_def node_def pins_def
      inv_at_def batch_at_def)

lemma act_open_inv:
  assumes "tools_inv None 0 st" "open_call st r"
  shows "tools_inv None 0 (clm_tool_complete_buf E r d p st)" "tools_inv None 0 (clm_tool_complete_image E r txt mt img st)"
    "tools_inv None 0 (clm_tool_complete_image_base64 E r txt b64 st)" "tools_inv None 0 (clm_tool_fail E r msg st)"
    "tools_inv None 0 (clm_tool_invocation_set_cancel r c st)"
proof -
  obtain v where v: "inv_at st r = Some v" "\<not> completed v" "on_call None r st" using open_call_inv [OF assms] .
  note o = assms(1) v(3,1,2)
  show "tools_inv None 0 (clm_tool_complete_buf E r d p st)" by (rule complete_buf_inv [OF o])
  show "tools_inv None 0 (clm_tool_complete_image E r txt mt img st)" by (rule complete_image_inv [OF o])
  show "tools_inv None 0 (clm_tool_complete_image_base64 E r txt b64 st)" by (rule complete_base64_inv [OF o])
  show "tools_inv None 0 (clm_tool_fail E r msg st)" by (rule fail_inv [OF o])
  show "tools_inv None 0 (clm_tool_invocation_set_cancel r c st)" unfolding clm_tool_invocation_set_cancel_def
    by (rule upd_inv_other [OF assms(1) _ v(1)]) (simp_all add: keeps_def)
qed

lemma act_inv:
  assumes "tools_inv None 0 st" "enabled J st a"
  shows "tools_inv None 0 (act E J a st)"
proof (cases a)
  case (Answer_gate g vd reason args)
  then show ?thesis using gate_respond_inv [OF assms(1), of g] assms(2) by simp
next
  case (Dispatch tcs)
  then show ?thesis using dispatch_inv [OF assms(1), of J tcs E] assms(2) by simp
qed (use assms(2) act_open_inv [OF assms(1)] returns_inv [OF assms(1)] permission_respond_inv [OF assms(1)] on_timeout_inv [OF assms(1)]
    on_rl_timer_inv [OF assms(1)] add_tool_inv [OF assms(1)] remove_tool_inv [OF assms(1)] cancel_inv [OF assms(1)] in simp_all)

lemma reachable_inv: "reachable E J st \<Longrightarrow> tools_inv None 0 st"
  by (induction rule: reachable.induct) (auto intro: initial_inv act_inv)

end
