(* ===== verification/Tool_Properties.thy ===== *)
theory Tool_Properties
  imports Tool_Runs "HOL-Library.Code_Target_Nat"
begin

text \<open>
  What the invariant of tool dispatch gives: the properties of every run, and concrete runs. A run is a list of
  actions of the outside, each enabled where it happens.
\<close>

section \<open>Runs\<close>

fun allowed_run :: "tool_env \<Rightarrow> 'j cjson_api \<Rightarrow> 'j action list \<Rightarrow> agent_tools \<Rightarrow> bool" where
  "allowed_run E J [] st = True"
| "allowed_run E J (a # acts) st = (enabled J st a \<and> allowed_run E J acts (act E J a st))"

lemma allowed_run_reachable: "allowed_run E J acts st \<Longrightarrow> reachable E J st \<Longrightarrow> reachable E J (fold (act E J) acts st)"
  by (induction acts arbitrary: st) (auto intro: reachable.step)

text \<open>An example: one tool that needs no permission, called twice.\<close>

definition plain_env :: tool_env where
  "plain_env = \<lparr>has_permission = False, has_notice = False, n_pre_tool_hooks = 0, has_timer_set = False, vision = 0,
     volatile_tools = [], fnmatch = (\<lambda>p s. p = s), compressor = None, spool = (\<lambda>i n d. None), cast_int64 = (\<lambda>x. 0)\<rparr>"

definition ls_def :: clm_tool_def where
  "ls_def = \<lparr>d_name = Some [0x6C], d_description = None, d_params_schema = None, d_invoke = True, d_detach = False,
     d_output_cap = 0, d_timeout_ms = 0, d_flags = CLM_TOOL_NO_PROMPT\<rparr>"

definition call_of :: "cstr \<Rightarrow> cstr \<Rightarrow> json" where
  "call_of i n = JObject [(lit ''id'', JString i), (lit ''function'', JObject [(lit ''name'', JString n)])]"

definition idle :: agent_tools where "idle = initial [] None [] []"

definition two_calls :: "json action list" where
  "two_calls = [Add_tool (Some ls_def), Dispatch (Some (JArray [call_of [0x31] [0x6C], call_of [0x32] [0x6C]])),
     Complete_buf (0, 0) [0x61] 0, Ret, Ret, Ret, Ret, Complete_buf (0, 1) [] 0]"

lemma two_calls_allowed: "allowed_run plain_env json_api two_calls idle"
  by code_simp

lemma idle_reachable: "reachable E J idle"
  unfolding idle_def by (rule reachable.start)

lemma two_calls_reachable: "reachable plain_env json_api (fold (act plain_env json_api) (take n two_calls) idle)"
proof (rule allowed_run_reachable [OF _ idle_reachable])
  have "allowed_run E J (take n acts) st" if "allowed_run E J acts st" for E and J :: "'j cjson_api" and acts st
    using that by (induction acts arbitrary: n st) (auto simp: take_Cons split: nat.split)
  then show "allowed_run plain_env json_api (take n two_calls) idle" using two_calls_allowed by blast
qed

lemma length_filter_id: "length (filter id bs) = (\<Sum>b\<leftarrow>bs. of_bool b)"
  by (induction bs) auto

lemma distinct_all_same:
  assumes "distinct xs" "\<And>x y. x \<in> set xs \<Longrightarrow> y \<in> set xs \<Longrightarrow> x = y"
  shows "length xs \<le> 1"
proof (cases xs)
  case (Cons x ys)
  have "ys = []" using assms(1) assms(2) [of x "hd ys"] Cons by (cases ys) auto
  then show ?thesis using Cons by simp
qed simp

section \<open>Memory\<close>



section \<open>Accounting\<close>

text \<open>C22 (invariant). The counter of a batch is exact: it counts the calls that are not complete and the holds of the functions
  that are waiting for a callback. At most one batch exists, it is the active one, and it ends by itself: once no
  callback is running, a batch that is still there has a call that is not complete.\<close>

theorem tools_pending_exact:
  assumes "reachable E J st" "batch_at st b = Some bt"
  shows "active_batch st = Some b \<and> pending bt = incomplete bt + length (stack st)
    \<and> (stack st = [] \<longrightarrow> (\<exists>v \<in> set (invs bt). \<not> completed v))"
proof -
  have B: "batch_ok 0 st" using reachable_inv [OF assms(1)] by (simp add: tools_inv_def)
  note d = batch_okD [OF B assms(2)]
  have "\<exists>v \<in> set (invs bt). \<not> completed v" if "stack st = []"
    using d(4,5) that by (auto simp: incomplete_def filter_empty_conv)
  then show ?thesis using d by simp
qed

theorem tools_pending_exact_witness:
  "\<exists>bt. batch_at (fold (act plain_env json_api) (take 4 two_calls) idle) 0 = Some bt \<and> pending bt = 2"
proof -
  let ?st = "fold (act plain_env json_api) (take 4 two_calls) idle"
  have r: "reachable plain_env json_api ?st" by (rule two_calls_reachable)
  have "(case batch_at ?st 0 of None \<Rightarrow> False | Some bt \<Rightarrow> incomplete bt = 1) \<and> length (stack ?st) = 1" by code_simp
  then obtain bt where bt: "batch_at ?st 0 = Some bt" "incomplete bt = 1" "length (stack ?st) = 1" by (auto split: option.splits)
  from tools_pending_exact [OF r bt(1)] bt show ?thesis by auto
qed

text \<open>C20 (invariant). No call is lost and none is worked on twice: a call that is not complete waits for exactly one of its turn
  in the dispatch loop, the rate limiter, a hook, the answer of the frontend, and its tool. What it waits for is
  really there: the timer is set, and the gate is open and leads back to the call.\<close>

theorem tools_one_owner:
  assumes "reachable E J st" "inv_at st r = Some v" "\<not> completed v"
  shows "length (filter id [waiting (stack st) r, rl_timer v, gate v \<noteq> None, awaiting_perm v, open_call st r]) = 1
    \<and> (rl_timer v \<longrightarrow> (Rl_delay, r) \<in> set (timers st))
    \<and> (\<forall>g. gate v = Some g \<longrightarrow> g < length (gates st) \<and> gates st ! g = Some (Some r))"
proof -
  have c: "call_ok None st r v" by (rule tools_inv_callD [OF reachable_inv [OF assms(1)] assms(2)])
  have "open_call st r \<longleftrightarrow> Invoke r \<in> set (log st)"
    using c assms(3) by (auto simp: open_call_def call_ok_def log_def)
  moreover have "owners st r v = 1" using c assms(3) by (simp add: call_ok_def)
  ultimately have "length (filter id [waiting (stack st) r, rl_timer v, gate v \<noteq> None, awaiting_perm v, open_call st r]) = 1"
    unfolding length_filter_id owners_def by simp
  then show ?thesis using c unfolding call_ok_def by blast
qed

theorem tools_one_owner_witness:
  "let st = fold (act plain_env json_api) (take 4 two_calls) idle in
     length (filter id [waiting (stack st) (0, 1), rl_timer (the (inv_at st (0, 1))), gate (the (inv_at st (0, 1))) \<noteq> None,
       awaiting_perm (the (inv_at st (0, 1))), open_call st (0, 1)]) = 1"
proof -
  let ?st = "fold (act plain_env json_api) (take 4 two_calls) idle"
  have r: "reachable plain_env json_api ?st" by (rule two_calls_reachable)
  have "(case inv_at ?st (0, 1) of None \<Rightarrow> False | Some v \<Rightarrow> \<not> completed v)" by code_simp
  then obtain v where v: "inv_at ?st (0, 1) = Some v" "\<not> completed v" by (auto split: option.splits)
  from tools_one_owner [OF r v] show ?thesis unfolding Let_def v(1) option.sel by blast
qed

section \<open>Answers\<close>



section \<open>Permission\<close>

definition invoked :: "agent_tools \<Rightarrow> iref set" where
  "invoked st = {r. Invoke r \<in> set (trace st)}"

text \<open>A call that may run without asking: no hook asked for a prompt, all hooks have passed it, and its tool needs no
  permission or has a standing one.\<close>

definition cleared :: "tool_env \<Rightarrow> iref \<Rightarrow> agent_tools \<Rightarrow> bool" where
  "cleared E r st \<longleftrightarrow> (case inv_at st r of None \<Rightarrow> False
     | Some v \<Rightarrow> \<not> force_ask v \<and> n_pre_tool_hooks E \<le> gate_next v
         \<and> (case Option.bind (i_tool v) (node st) of None \<Rightarrow> False
            | Some t \<Rightarrow> has_flag t CLM_TOOL_NO_PROMPT \<or> remembered t \<and> remember_allow t))"

lemma invoked_simps [simp]:
  "invoked (emit e st) = (case e of Invoke r \<Rightarrow> insert r (invoked st) | _ \<Rightarrow> invoked st)"
  "invoked (bad st) = invoked st" "invoked (push f st) = invoked st" "invoked (st\<lparr>mem := t\<rparr>) = invoked st"
  "invoked (st\<lparr>hist := h\<rparr>) = invoked st" "invoked (st\<lparr>timers := ts\<rparr>) = invoked st" "invoked (st\<lparr>gates := gs\<rparr>) = invoked st"
  "invoked (st\<lparr>clock := cs\<rparr>) = invoked st" "invoked (st\<lparr>tool_rl := rl\<rparr>) = invoked st" "invoked (st\<lparr>gate_denials := k\<rparr>) = invoked st"
  "invoked (st\<lparr>stack := fs\<rparr>) = invoked st" "invoked (st\<lparr>batches := bs\<rparr>) = invoked st" "invoked (st\<lparr>active_batch := ab\<rparr>) = invoked st"
  "invoked (st\<lparr>nodes := ns\<rparr>) = invoked st" "invoked (st\<lparr>registry := rg\<rparr>) = invoked st" "invoked (st\<lparr>tool_count := c\<rparr>) = invoked st"
  by (auto simp: invoked_def emit_def bad_def push_def split: event.splits)

lemma invoked_with [simp]:
  "invoked (with_batch b st f) = (case batch_at st b of None \<Rightarrow> invoked st | Some bt \<Rightarrow> invoked (f bt))"
  "invoked (with_inv r st g) = (case inv_at st r of None \<Rightarrow> invoked st | Some v \<Rightarrow> invoked (g v))"
  by (simp_all add: with_batch_def with_inv_def split: option.split)

lemma invoked_upd [simp]:
  "invoked (upd_batch b f st) = invoked st" "invoked (upd_inv r g st) = invoked st" "invoked (timer_cancel k r st) = invoked st"
  "invoked (upd_node n h st) = invoked st" "invoked (tool_detach n st) = invoked st" "invoked (batch_really_free b st) = invoked st"
proof -
  show u: "invoked (upd_batch b f st) = invoked st" "invoked (upd_node n h st) = invoked st" for b f h st
    by (simp_all add: upd_batch_def upd_node_def split: option.split)
  show "invoked (upd_inv r g st) = invoked st" "invoked (timer_cancel k r st) = invoked st" "invoked (batch_really_free b st) = invoked st"
    by (simp_all add: upd_inv_def u timer_cancel_def batch_really_free_def split: option.split)
  show "invoked (tool_detach n st) = invoked st" by (simp add: tool_detach_def u split: option.split)
qed

lemma invoked_teardown [simp]:
  "invoked (tool_node_free n st) = invoked st" "invoked (unpin n st) = invoked st" "invoked (cancel_timers r st) = invoked st"
  "invoked (batch_finalize b st) = invoked st" "invoked (release b st) = invoked st"
proof -
  show f: "invoked (tool_node_free n st) = invoked st" for n st by (simp add: tool_node_free_def Let_def)
  show "invoked (unpin n st) = invoked st" by (simp add: unpin_def Let_def f split: option.split)
  show c: "invoked (cancel_timers r st) = invoked st" for r st by (simp add: cancel_timers_def Let_def split: option.split)
  have "invoked (fold (\<lambda>i. cancel_timers (b, i)) is st) = invoked st" for b "is" st by (induction "is" arbitrary: st) (simp_all add: c)
  then show bf: "invoked (batch_finalize b st) = invoked st" for b st by (simp add: batch_finalize_def Let_def split: option.split)
  show "invoked (release b st) = invoked st" by (simp add: release_def Let_def bf split: option.split)
qed

lemma invoked_complete [simp]:
  "invoked (stub_older E nm st) = invoked st" "invoked (record_result E b v out att st) = invoked st"
  "invoked (inv_finalize E r body past oc att st) = invoked st"
proof -
  show s: "invoked (stub_older E nm st) = invoked st" for nm st by (simp add: stub_older_def Let_def split: prod.split sum.split)
  show r: "invoked (record_result E b v out att st) = invoked st" for b v out st
    by (simp add: record_result_def Let_def split: prod.split sum.split option.split)
  show "invoked (inv_finalize E r body past oc att st) = invoked st"
    by (simp add: inv_finalize_def Let_def s r split: prod.split option.split)
qed

lemma invoked_answers [simp]:
  "invoked (finalize_timeout E r st) = invoked st" "invoked (clm_tool_fail E r msg st) = invoked st"
  "invoked (clm_tool_complete_buf E r d p st) = invoked st" "invoked (clm_tool_complete_image E r txt mt img st) = invoked st"
  "invoked (clm_tool_complete_image_base64 E r txt b64 st) = invoked st" "invoked (on_timeout E r st) = invoked st"
proof -
  show t: "invoked (finalize_timeout E r st) = invoked st" for st by (simp add: finalize_timeout_def split: option.split)
  show f: "invoked (clm_tool_fail E r msg st) = invoked st" for msg st
    by (simp add: clm_tool_fail_def Let_def t split: option.split prod.split)
  show c: "invoked (clm_tool_complete_buf E r d p st) = invoked st" for d p st
    by (simp add: clm_tool_complete_buf_def t split: option.split)
  show i: "invoked (clm_tool_complete_image E r cap mt img st) = invoked st" for cap mt img st
    by (simp add: clm_tool_complete_image_def outcome_eq Let_def t f split: option.split list.split)
  show "invoked (clm_tool_complete_image_base64 E r txt b64 st) = invoked st"
    by (simp add: clm_tool_complete_image_base64_def clm_tool_complete_def outcome_eq Let_def c i split: option.split sum.split prod.split)
  show "invoked (on_timeout E r st) = invoked st" by (simp add: on_timeout_def Let_def t split: option.split)
qed

text \<open>What a step adds to the calls that run has been cleared.\<close>

definition grants :: "tool_env \<Rightarrow> agent_tools \<Rightarrow> agent_tools \<Rightarrow> bool" where
  "grants E st st' \<longleftrightarrow> (\<forall>r \<in> invoked st'. r \<in> invoked st \<or> cleared E r st')"

lemma grants_same: "invoked st' = invoked st \<Longrightarrow> grants E st st'"
  by (simp add: grants_def)

lemma grants_from: "grants E st1 st2 \<Longrightarrow> invoked st1 = invoked st \<Longrightarrow> grants E st st2"
  by (simp add: grants_def)

lemma upd_inv_at:
  assumes "inv_at st r = Some v"
  shows "inv_at (upd_inv r f st) r = Some (f v)" "node (upd_inv r f st) = node st"
proof -
  obtain bt where "batch_at st (fst r) = Some bt" using inv_at_batch [OF assms] by blast
  from upd_inv_simps [OF assms this] show "inv_at (upd_inv r f st) r = Some (f v)" by simp
  show "node (upd_inv r f st) = node st" using \<open>batch_at st (fst r) = Some bt\<close> by (simp add: upd_inv_eq [OF assms])
qed

lemma upd_batch_pending_at:
  "inv_at (upd_batch b (\<lambda>bt. bt\<lparr>pending := k bt\<rparr>) st) r = inv_at st r" "node (upd_batch b f st) = node st"
  by (auto simp: upd_batch_def with_batch_def bad_def inv_at_def batch_at_def node_def nth_list_update split: option.splits if_splits)

lemma run_invoke_cases:
  assumes "inv_at st r = Some v"
  obtains "invoked (run_invoke E r st) = invoked st"
  | w where "invoked (run_invoke E r st) = insert r (invoked st)" "inv_at (run_invoke E r st) r = Some w" "w = v \<or> (\<exists>ok. w = v\<lparr>timer := ok\<rparr>)"
    "node (run_invoke E r st) = node st"
proof -
  define st1 where "st1 = (if timeout_ms v > 0 \<and> \<not> timer v \<and> has_timer_set E
      then (case timer_set Timeout r st of (ok, st) \<Rightarrow> upd_inv r (\<lambda>v. v\<lparr>timer := ok\<rparr>) st) else st)"
  obtain w where w: "inv_at st1 r = Some w" "w = v \<or> (\<exists>ok. w = v\<lparr>timer := ok\<rparr>)" "node st1 = node st" "invoked st1 = invoked st"
  proof (cases rule: timer_set_cases [of Timeout r st])
    case (ok t)
    then show thesis using that assms by (cases "timeout_ms v > 0 \<and> \<not> timer v \<and> has_timer_set E") (auto simp: st1_def upd_inv_at)
  next
    case (failed t)
    then show thesis using that assms by (cases "timeout_ms v > 0 \<and> \<not> timer v \<and> has_timer_set E") (auto simp: st1_def upd_inv_at)
  qed
  define st2 where "st2 = upd_batch (fst r) (\<lambda>bt. bt\<lparr>pending := pending bt + 1\<rparr>) st1"
  have s2: "inv_at st2 r = Some w" "node st2 = node st" "invoked st2 = invoked st"
    using w by (simp_all add: st2_def upd_batch_pending_at)
  have eq: "run_invoke E r st = (case i_tool v of None \<Rightarrow> bad st2
     | Some n \<Rightarrow> (case node st2 n of None \<Rightarrow> bad st2 | Some _ \<Rightarrow> push (In_invoke (fst r)) (emit (Invoke r) st2)))"
    unfolding run_invoke_def with_inv_def assms option.case Let_def st1_def [symmetric] st2_def [symmetric] ..
  show thesis
  proof (cases "Option.bind (i_tool v) (node st2)")
    case None
    then show ?thesis using that(1) s2(3) eq by (auto split: option.splits bind_splits)
  next
    case (Some t)
    then have "run_invoke E r st = push (In_invoke (fst r)) (emit (Invoke r) st2)" using eq by (auto split: bind_splits)
    then show ?thesis using that(2) [of w] s2 w(2) by simp
  qed
qed

lemma permission_gate_grants:
  assumes "inv_at st r = Some v" "n_pre_tool_hooks E \<le> gate_next v"
  shows "grants E st (permission_gate E r st)"
proof (cases "Option.bind (i_tool v) (node st)")
  case None
  then show ?thesis by (intro grants_same) (simp add: permission_gate_def with_inv_def assms)
next
  case (Some t)
  have run: "grants E st (run_invoke E r st)"
    if "\<not> force_ask v" "has_flag t CLM_TOOL_NO_PROMPT \<or> remembered t \<and> remember_allow t"
  proof (cases rule: run_invoke_cases [OF assms(1), of E])
    case 1
    then show ?thesis by (rule grants_same)
  next
    case (2 w)
    then have "cleared E r (run_invoke E r st)" using that Some assms(2) by (auto simp: cleared_def)
    then show ?thesis using 2(1) by (auto simp: grants_def)
  qed
  have same: "grants E st (clm_tool_fail E r m st)" "grants E st (emit (Ask_permission r) (upd_inv r g st))" for m g
    by (rule grants_same; simp)+
  show ?thesis unfolding permission_gate_def with_inv_def assms(1) option.case Some using run same by auto
qed

lemma gate_run_grants: "grants E st (gate_run E r st)"
proof (cases "inv_at st r")
  case None
  then show ?thesis by (intro grants_same) (simp add: gate_run_def)
next
  case (Some v)
  then show ?thesis
  proof (cases "gate_next v \<ge> n_pre_tool_hooks E")
    case True
    then show ?thesis using permission_gate_grants [OF Some] by (simp add: gate_run_def with_inv_def Some)
  next
    case False
    then show ?thesis by (intro grants_same) (simp add: gate_run_def with_inv_def Some outcome_eq Let_def)
  qed
qed

lemma dispatch_one_grants: "grants E st (dispatch_one E r st)"
proof (cases "inv_at st r")
  case None
  then show ?thesis by (intro grants_same) (simp add: dispatch_one_def)
next
  case (Some v)
  then show ?thesis
    using grants_from [OF gate_run_grants [of E "emit (Tool_begin r) st" r], of st]
    by (auto simp: dispatch_one_def with_inv_def Let_def intro: grants_same)
qed

lemma gate_verdict_grants: "grants E st (gate_verdict E r vd reason st)"
proof -
  have g: "grants E st (gate_run E r st')" if "invoked st' = invoked st" for st' by (rule grants_from [OF gate_run_grants that])
  show ?thesis
  proof (cases vd)
    case CLM_GATE_PASS
    then show ?thesis unfolding gate_verdict_def clm_gate_verdict.case by (auto intro!: g split: option.split)
  next
    case CLM_GATE_DENY
    then show ?thesis by (intro grants_same) (simp add: gate_verdict_def)
  next
    case CLM_GATE_ASK
    then show ?thesis unfolding gate_verdict_def clm_gate_verdict.case with_inv_def
      by (simp add: outcome_eq Let_def g grants_same split: option.split)
  qed
qed

lemma gate_respond_grants: "grants E st (snd (clm_tool_gate_respond E g vd reason args st))"
proof -
  have g: "grants E st (gate_verdict E r vd reason st')" if "invoked st' = invoked st" for r st'
    by (rule grants_from [OF gate_verdict_grants that])
  show ?thesis unfolding clm_tool_gate_respond_def
    by (simp add: outcome_eq Let_def g grants_same split: option.split)
qed

lemma read_clock_invoked: "read_clock st = (now, st') \<Longrightarrow> invoked st' = invoked st"
  using read_clock_eq [of st] by auto

lemma timer_set_invoked: "timer_set k r st = (ok, st') \<Longrightarrow> invoked st' = invoked st"
  by (auto simp: timer_set_def outcome_eq Let_def)

lemma dispatch_iter_grants: "grants E st (dispatch_iter E b i st)"
proof (cases "batch_at st b")
  case None
  then show ?thesis by (intro grants_same) (simp add: dispatch_iter_def)
next
  case (Some bt)
  have d: "grants E st (dispatch_one E r st')" if "invoked st' = invoked st" for r st' by (rule grants_from [OF dispatch_one_grants that])
  obtain now st1 where c1: "read_clock (push (In_dispatch b (i + 1)) st) = (now, st1)" by fastforce
  obtain ok rl where r1: "clm_ratelimit_allow now (tool_rl st1) 1 = (ok, rl)" by fastforce
  obtain now2 st2 where c2: "read_clock (st1\<lparr>tool_rl := rl\<rparr>) = (now2, st2)" by fastforce
  obtain dl rl2 where r2: "clm_ratelimit_delay now2 (tool_rl st2) 1 = (dl, rl2)" by fastforce
  obtain ok2 st3 where t3: "timer_set Rl_delay (b, i) (st2\<lparr>tool_rl := rl2\<rparr>) = (ok2, st3)" by fastforce
  obtain now4 st4 where c4: "read_clock st3 = (now4, st4)" by fastforce
  have "invoked st1 = invoked st" "invoked st3 = invoked st" "invoked st4 = invoked st"
    using read_clock_invoked [OF c1] read_clock_invoked [OF c2] timer_set_invoked [OF t3] read_clock_invoked [OF c4] by simp_all
  then show ?thesis unfolding dispatch_iter_def with_batch_def Some option.case Let_def c1 prod.case r1 c2 r2 t3 c4
    by (simp add: d grants_same)
qed

lemma on_rl_timer_grants: "grants E st (on_rl_timer E r st)"
proof (cases "inv_at st r")
  case None
  then show ?thesis by (intro grants_same) (simp add: on_rl_timer_def)
next
  case (Some v)
  define st1 where "st1 = (if rl_timer v then upd_inv r (\<lambda>v. v\<lparr>rl_timer := False\<rparr>) (timer_cancel Rl_delay r st) else st)"
  obtain now st2 where c: "read_clock st1 = (now, st2)" by fastforce
  have "invoked st2 = invoked st" using read_clock_invoked [OF c] by (simp add: st1_def)
  then show ?thesis unfolding on_rl_timer_def with_inv_def Some option.case Let_def st1_def [symmetric] c prod.case
    by (intro grants_from [OF dispatch_one_grants]) simp
qed

lemma dispatch_grants: "grants E st (snd (clm_tools_dispatch E J tcs st))"
proof -
  have bc: "invoked st' = invoked st" if "build_call E J tc amsg st = (v, ok, m, st')" for tc amsg st v ok m st'
    using that by (auto simp: build_call_def outcome_eq Let_def pin_def split: prod.splits if_splits option.splits)
  have bcs: "invoked st' = invoked st" if "build_calls E J tcs amsg st = (vs, ok, m, st')" for tcs amsg st vs ok m st'
    using that by (induction tcs arbitrary: amsg st vs ok m st') (auto dest!: bc split: prod.splits)
  have d: "grants E st (dispatch_iter E b i st')" if "invoked st' = invoked st" for b i st' by (rule grants_from [OF dispatch_iter_grants that])
  show ?thesis unfolding clm_tools_dispatch_def outcome_eq
    by (auto simp: Let_def bcs d grants_same split: option.split prod.split)
qed

lemma invoked_cancel [simp]:
  "invoked (cancel_iter E b i st) = invoked st" "invoked (detach_iter b i st) = invoked st"
  "invoked (clm_tools_cancel E st) = invoked st" "invoked (clm_tools_detach st) = invoked st"
proof -
  show c: "invoked (cancel_iter E b i st) = invoked st" for b i st
    by (simp add: cancel_iter_def Let_def split: option.split)
  have "invoked (retire r st) = invoked st" for r st by (simp add: retire_def)
  then show d: "invoked (detach_iter b i st) = invoked st" for b i st
    by (simp add: detach_iter_def Let_def split: option.split)
  show "invoked (clm_tools_cancel E st) = invoked st" by (simp add: clm_tools_cancel_def c split: option.split)
  have f: "invoked (fold tool_detach ns st) = invoked st" for ns by (induction ns arbitrary: st) simp_all
  show "invoked (clm_tools_detach st) = invoked st" by (simp add: clm_tools_detach_def Let_def d f split: option.split)
qed

lemma invoked_registry [simp]:
  "invoked (snd (clm_tool_add d st)) = invoked st" "invoked (snd (clm_tool_remove nm st)) = invoked st"
proof -
  have [simp]: "invoked (R\<lparr>nodes := ns, registry := g, tool_count := c, mem := t\<rparr>) = invoked R"
    "invoked (R\<lparr>registry := g, tool_count := c\<rparr>) = invoked R" for R ns g c t by (simp_all add: invoked_def)
  show "invoked (snd (clm_tool_add d st)) = invoked st"
    by (simp add: clm_tool_add_def Let_def split: option.split prod.split)
  show "invoked (snd (clm_tool_remove nm st)) = invoked st"
    by (simp add: clm_tool_remove_def Let_def split: option.split)
qed

lemma returns_grants: "grants E st (returns E st)"
proof (cases "stack st")
  case (Cons f fs)
  have "grants E st (dispatch_iter E b i (st\<lparr>stack := fs\<rparr>))" for b i by (rule grants_from [OF dispatch_iter_grants]) simp
  then show ?thesis using Cons by (cases f) (simp_all add: returns_def grants_same)
qed (simp add: returns_def grants_same)

lemma run_invoke_invokes: "invoked (run_invoke E r st) \<subseteq> insert r (invoked st)"
proof (cases "inv_at st r")
  case None
  then show ?thesis by (auto simp: run_invoke_def)
next
  case (Some v)
  show ?thesis by (cases rule: run_invoke_cases [OF Some, of E]) auto
qed

lemma permission_respond_invokes:
  "invoked (snd (clm_tool_permission_respond E r d st)) \<subseteq> (if allows d then insert r (invoked st) else invoked st)"
proof (cases "inv_at st r")
  case None
  then show ?thesis by (auto simp: clm_tool_permission_respond_def)
next
  case (Some v)
  define st1 where "st1 = upd_inv r (\<lambda>v. v\<lparr>awaiting_perm := False\<rparr>) st"
  define st' where "st' = (if remembers d then (case Option.bind (inv_name v) (find_tool st1) of None \<Rightarrow> st1
      | Some n \<Rightarrow> upd_node n (\<lambda>t. t\<lparr>remembered := True, remember_allow := allows d\<rparr>) st1) else st1)"
  have "invoked st' = invoked st" by (simp add: st'_def st1_def split: option.split)
  moreover have "snd (clm_tool_permission_respond E r d st) = (if \<not> awaiting_perm v then st else if allows d then run_invoke E r st'
      else clm_tool_fail E r (Some (lit ''denied by user'')) st')"
    unfolding clm_tool_permission_respond_def Some option.case Let_def st1_def [symmetric] st'_def [symmetric] by simp
  ultimately show ?thesis using run_invoke_invokes [of E r st'] by (auto split: if_splits)
qed


definition ask_env :: tool_env where "ask_env = plain_env\<lparr>has_permission := True, has_timer_set := True\<rparr>"

definition rm_def :: clm_tool_def where "rm_def = ls_def\<lparr>d_flags := 0, d_timeout_ms := 5\<rparr>"

definition one_call :: "json \<Rightarrow> json action" where "one_call i = Dispatch (Some (JArray [JObject [(lit ''id'', i), (lit ''function'', JObject [(lit ''name'', JString [0x6C])])]]))"


section \<open>Limits\<close>


definition ls_tool :: clm_tool where
  "ls_tool = \<lparr>t_name = [0x6C], t_description = None, params_schema = None, t_detach = False, t_output_cap = 100000, t_timeout_ms = 7,
     t_flags = 4, remembered = False, remember_allow = False, removed = False, inflight = 0\<rparr>"


section \<open>Where the code falls short\<close>


text \<open>(error). A tool without a cancel callback that reports its result after it timed out uses freed memory when its call was
  the last one of the batch: the batch is gone with the \<^verbatim>\<open>completed\<close> flag that should make the late result a no-op.\<close>

theorem late_result_uses_freed_batch:
  "let st = fold (act ask_env json_api) [Add_tool (Some rm_def), one_call (JString [0x31]), Answer_permission (0, 0) CLM_PERM_ALLOW_ONCE, Ret, Ret] idle;
       st' = act ask_env json_api (Fire_timeout (0, 0)) st in
     allowed_run ask_env json_api [Add_tool (Some rm_def), one_call (JString [0x31]), Answer_permission (0, 0) CLM_PERM_ALLOW_ONCE, Ret, Ret] idle
     \<and> enabled json_api st (Fire_timeout (0, 0)) \<and> \<not> fault st' \<and> fault (act ask_env json_api (Complete_buf (0, 0) [0x61] 0) st')"
  by code_simp

text \<open>(error). A tool call of the model whose id is there but not a string makes the dispatch pass NULL to \<^verbatim>\<open>strdup\<close>.\<close>

theorem call_id_not_string: "fault (act plain_env json_api (one_call JNull) idle)"
  by code_simp

end
