(* ===== verification/File_Io.thy ===== *)
theory File_Io
  imports Clm_Prelude
begin

text \<open>
  Files without stdio, \<^verbatim>\<open>include/fileio.h\<close>. The kernel is a state with the contents of the files and the
  outcomes of the coming calls: an open or a close that fails, and for each read or write that it was interrupted,
  failed, or how many bytes it took at most. Past the end of the outcomes calls succeed and transfer all they can.
\<close>

datatype io_outcome = Io nat | Io_eintr | Io_err nat

record kernel =
  files :: "cstr \<Rightarrow> byte list option"
  opens :: "nat option list"
  ios :: "io_outcome list"
  closes :: "nat option list"
  kmem :: tape

definition ERR_NOMEM :: nat where "ERR_NOMEM = 12"
definition E_NOENT :: nat where "E_NOENT = 2"

definition next_outcome :: "nat option list \<Rightarrow> nat option \<times> nat option list" where
  "next_outcome xs = (case xs of [] \<Rightarrow> (None, []) | x # xs \<Rightarrow> (x, xs))"

text \<open>\<^verbatim>\<open>open(path, O_RDONLY)\<close>: the contents to read, or the errno.\<close>

definition k_open_read :: "cstr \<Rightarrow> 'a kernel_scheme \<Rightarrow> (nat + byte list) \<times> 'a kernel_scheme" where
  "k_open_read path k =
     (let (e, os) = next_outcome (opens k); k = k\<lparr>opens := os\<rparr> in
      case e of Some e \<Rightarrow> (Inl e, k)
      | None \<Rightarrow> (case files k path of None \<Rightarrow> (Inl E_NOENT, k) | Some d \<Rightarrow> (Inr d, k)))"

text \<open>\<^verbatim>\<open>open(path, O_WRONLY | O_CREAT | O_TRUNC)\<close>\<close>

definition k_open_write :: "cstr \<Rightarrow> 'a kernel_scheme \<Rightarrow> nat option \<times> 'a kernel_scheme" where
  "k_open_write path k =
     (let (e, os) = next_outcome (opens k); k = k\<lparr>opens := os\<rparr> in
      case e of Some e \<Rightarrow> (Some e, k) | None \<Rightarrow> (None, k\<lparr>files := (files k)(path := Some [])\<rparr>))"

definition k_close :: "'a kernel_scheme \<Rightarrow> nat option \<times> 'a kernel_scheme" where
  "k_close k = (let (e, cs) = next_outcome (closes k) in (e, k\<lparr>closes := cs\<rparr>))"

definition k_append :: "cstr \<Rightarrow> byte list \<Rightarrow> 'a kernel_scheme \<Rightarrow> 'a kernel_scheme" where
  "k_append path d k = k\<lparr>files := (files k)(path := Some ((case files k path of None \<Rightarrow> [] | Some c \<Rightarrow> c) @ d))\<rparr>"

section \<open>Writing\<close>

text \<open>\<^verbatim>\<open>clm_write_all\<close>: the loop goes on after an interrupted or short write.\<close>

function clm_write_all :: "cstr \<Rightarrow> byte list \<Rightarrow> 'a kernel_scheme \<Rightarrow> nat option \<times> 'a kernel_scheme" where
  "clm_write_all path d k =
     (if d = [] then (None, k)
      else case ios k of
        [] \<Rightarrow> (None, k_append path d k)
      | Io_eintr # is \<Rightarrow> clm_write_all path d (k\<lparr>ios := is\<rparr>)
      | Io_err e # is \<Rightarrow> (Some e, k\<lparr>ios := is\<rparr>)
      | Io n # is \<Rightarrow> clm_write_all path (drop n d) (k_append path (take n d) (k\<lparr>ios := is\<rparr>)))"
  by pat_completeness auto
termination
  by (relation "measure (\<lambda>(path, d, k). length (ios k))") (auto simp: k_append_def)

declare clm_write_all.simps [simp del]

definition clm_write_file :: "cstr \<Rightarrow> byte list \<Rightarrow> 'a kernel_scheme \<Rightarrow> nat option \<times> 'a kernel_scheme" where
  "clm_write_file path d k =
     (case k_open_write path k of
        (Some e, k) \<Rightarrow> (Some e, k)
      | (None, k) \<Rightarrow>
        case clm_write_all path d k of
          (Some e, k) \<Rightarrow> (Some e, snd (k_close k))
        | (None, k) \<Rightarrow> k_close k)"

section \<open>Reading\<close>

text \<open>
  \<^verbatim>\<open>read(fd, buf + len, room)\<close> returns at most \<open>room\<close> bytes, and none only at the end of the file or when there is no
  room.
\<close>

definition read_count :: "io_outcome list \<Rightarrow> nat \<Rightarrow> byte list \<Rightarrow> nat" where
  "read_count is room rest =
     (case is of Io n # _ \<Rightarrow> min (max n 1) (min room (length rest)) | _ \<Rightarrow> min room (length rest))"

lemma read_count_le: "read_count is room rest \<le> length rest" "read_count is room rest \<le> room"
  by (auto simp: read_count_def split: list.splits io_outcome.splits)

lemma read_count_dec: "0 < read_count is room rest \<Longrightarrow> length rest - read_count is room rest < length rest"
  using read_count_le(1) [of "is" room rest] by simp

text \<open>The buffer doubles when only the terminating NUL still fits.\<close>

definition grown :: "nat \<Rightarrow> nat \<Rightarrow> nat" where
  "grown cap len = (if len + 1 \<ge> cap then (if cap \<noteq> 0 then cap * 2 else 8192) else cap)"

function read_loop :: "byte list \<Rightarrow> byte list \<Rightarrow> nat \<Rightarrow> 'a kernel_scheme \<Rightarrow> (nat + byte list) \<times> 'a kernel_scheme" where
  "read_loop rest buf cap k =
     (let (ok, t) = (if length buf + 1 \<ge> cap then alloc (kmem k) else (True, kmem k));
          cap' = grown cap (length buf);
          k = k\<lparr>kmem := t\<rparr> in
      if \<not> ok then (Inl ERR_NOMEM, k)
      else case ios k of
        Io_eintr # is \<Rightarrow> read_loop rest buf cap' (k\<lparr>ios := is\<rparr>)
      | Io_err e # is \<Rightarrow> (Inl e, k\<lparr>ios := is\<rparr>)
      | is \<Rightarrow>
        let n = read_count is (cap' - length buf - 1) rest; k = k\<lparr>ios := drop 1 is\<rparr> in
        if n = 0 then (Inr buf, k) else read_loop (drop n rest) (buf @ take n rest) cap' k)"
  by pat_completeness auto
termination
  by (relation "measure (\<lambda>(rest, buf, cap, k). length (ios k) + length rest)") (auto dest: read_count_dec)

declare read_loop.simps [simp del]

definition clm_read_file :: "cstr \<Rightarrow> 'a kernel_scheme \<Rightarrow> (nat + byte list) \<times> 'a kernel_scheme" where
  "clm_read_file path k =
     (case k_open_read path k of
        (Inl e, k) \<Rightarrow> (Inl e, k)
      | (Inr d, k) \<Rightarrow> (let (r, k) = read_loop d [] 0 k in (r, snd (k_close k))))"

section \<open>Whole files\<close>

lemma write_all_spec:
  assumes "clm_write_all path d k = (e, k')" "files k path = Some c"
  shows "\<exists>w. files k' = (files k)(path := Some (c @ w)) \<and> (\<exists>v. d = w @ v) \<and> (e = None \<longrightarrow> w = d)
    \<and> opens k' = opens k \<and> closes k' = closes k \<and> kmem k' = kmem k"
  using assms
proof (induction path d k arbitrary: c rule: clm_write_all.induct)
  case (1 path d k)
  show ?case
  proof (cases "d = []")
    case True
    then show ?thesis using 1(3,4) by (auto simp: clm_write_all.simps [of path "[]"])
  next
    case False
    show ?thesis
    proof (cases "ios k")
      case Nil
      then show ?thesis using False 1(3,4) by (auto simp: clm_write_all.simps [of path d k] k_append_def)
    next
      case (Cons i "is")
      show ?thesis
      proof (cases i)
        case (Io n)
        let ?k = "k_append path (take n d) (k\<lparr>ios := is\<rparr>)"
        have eq: "clm_write_all path (drop n d) ?k = (e, k')"
          using 1(3) False Cons Io by (simp add: clm_write_all.simps [of path d k])
        have f: "files ?k path = Some (c @ take n d)" using 1(4) by (simp add: k_append_def)
        obtain w v where w: "files k' = (files ?k)(path := Some ((c @ take n d) @ w))" "drop n d = w @ v" "e = None \<longrightarrow> w = drop n d"
          "opens k' = opens ?k" "closes k' = closes ?k" "kmem k' = kmem ?k" using 1(1) [OF False Cons Io eq f] by blast
        have "d = (take n d @ w) @ v" using w(2) by (metis append.assoc append_take_drop_id)
        then show ?thesis using w by (intro exI [of _ "take n d @ w"]) (auto simp: k_append_def)
      next
        case Io_eintr
        have "clm_write_all path d (k\<lparr>ios := is\<rparr>) = (e, k')" using 1(3) False Cons Io_eintr by (simp add: clm_write_all.simps [of path d k])
        from 1(2) [OF False Cons Io_eintr this] 1(4) show ?thesis by simp
      next
        case (Io_err x)
        then have "k' = k\<lparr>ios := is\<rparr>" "e = Some x" using 1(3) False Cons by (simp_all add: clm_write_all.simps [of path d k])
        then show ?thesis using 1(4) by (intro exI [of _ "[]"]) auto
      qed
    qed
  qed
qed

lemma read_loop_whole:
  assumes "read_loop rest buf cap k = (Inr d, k')" "length buf + 1 \<le> cap \<or> buf = [] \<and> cap = 0"
  shows "d = buf @ rest \<and> files k' = files k \<and> closes k' = closes k"
  using assms
proof (induction "length (ios k) + length rest" arbitrary: rest buf cap k rule: less_induct)
  case less
  obtain ok t where t: "(if length buf + 1 \<ge> cap then alloc (kmem k) else (True, kmem k)) = (ok, t)" by fastforce
  define cap' where "cap' = grown cap (length buf)"
  define k1 where "k1 = k\<lparr>kmem := t\<rparr>"
  have i1: "ios k1 = ios k" "files k1 = files k" "closes k1 = closes k" by (simp_all add: k1_def)
  note eq = less.prems(1) [unfolded read_loop.simps [of rest buf cap k] Let_def t prod.case cap'_def [symmetric] k1_def [symmetric]]
  have ok: "ok" using eq by (auto split: if_splits)
  have room: "length buf + 1 < cap'" using less.prems(2) by (auto simp: cap'_def grown_def)
  let ?n = "read_count (ios k) (cap' - length buf - 1) rest"
  have rd: ?case if io: "ios k = [] \<or> (\<exists>m is. ios k = Io m # is)"
  proof (cases "?n = 0")
    case True
    then have "rest = []" using room io by (auto simp: read_count_def min_def max_def split: list.splits io_outcome.splits if_splits)
    then show ?thesis using eq ok io True i1 by (auto split: list.splits io_outcome.splits)
  next
    case False
    let ?k = "k1\<lparr>ios := drop 1 (ios k)\<rparr>"
    have eq2: "read_loop (drop ?n rest) (buf @ take ?n rest) cap' ?k = (Inr d, k')"
      using eq ok io False i1 by (auto split: list.splits io_outcome.splits)
    have n: "?n \<le> cap' - length buf - 1" "?n \<le> length rest" using io by (auto simp: read_count_def split: list.splits io_outcome.splits)
    have less: "length (ios ?k) + length (drop ?n rest) < length (ios k) + length rest" using False n(2) by simp
    have "length (buf @ take ?n rest) + 1 \<le> cap'" using n room by simp
    from less.hyps [OF less eq2] this i1 show ?thesis by simp
  qed
  show ?case
  proof (cases "ios k")
    case (Cons i "is")
    show ?thesis
    proof (cases i)
      case Io_eintr
      have e: "read_loop rest buf cap' (k1\<lparr>ios := is\<rparr>) = (Inr d, k')" using Io_eintr Cons eq ok i1 by simp
      have "length (ios (k1\<lparr>ios := is\<rparr>)) + length rest < length (ios k) + length rest" using Cons by simp
      from less.hyps [OF this e] room i1 show ?thesis by simp
    qed (use rd Cons eq ok i1 in auto)
  qed (use rd in simp)
qed

text \<open>C17 (roundtrip). What \<^verbatim>\<open>clm_write_file\<close> reports as written is read back byte for byte by \<^verbatim>\<open>clm_read_file\<close>, whatever reads and
  writes were interrupted or short on the way; no other file changes, and a write that fails leaves a prefix.\<close>

theorem file_round_trip:
  assumes "clm_write_file path d k = (e, k')"
  shows "(\<forall>other. other \<noteq> path \<longrightarrow> files k' other = files k other)
    \<and> (files k' path = files k path \<or> (\<exists>w v. files k' path = Some w \<and> d = w @ v))
    \<and> (e = None \<longrightarrow> files k' path = Some d \<and> (\<forall>x k2. clm_read_file path k' = (Inr x, k2) \<longrightarrow> x = d))"
proof (cases "k_open_write path k")
  case (Pair e0 k0)
  note o = this
  have rf: "x = d" if "files k' path = Some d" "clm_read_file path k' = (Inr x, k2)" for x k2
  proof -
    obtain r0 k1 where o: "k_open_read path k' = (r0, k1)" by fastforce
    then have "r0 = Inr d" using that
      by (cases "next_outcome (opens k')"; cases "fst (next_outcome (opens k'))") (auto simp: clm_read_file_def k_open_read_def Let_def)
    moreover obtain r k3 where rl: "read_loop d [] 0 k1 = (r, k3)" by fastforce
    ultimately have "r = Inr x" using that o by (simp add: clm_read_file_def)
    then show ?thesis using rl read_loop_whole [of d "[]" 0 k1 x k3] by simp
  qed
  show ?thesis
  proof (cases e0)
    case (Some x)
    then show ?thesis using o assms by (auto simp: clm_write_file_def k_open_write_def Let_def split: prod.splits option.splits)
  next
    case None
    have f0: "files k0 = (files k)(path := Some [])" using o None by (auto simp: k_open_write_def Let_def split: prod.splits option.splits)
    obtain e1 k1 where w: "clm_write_all path d k0 = (e1, k1)" by fastforce
    have fc: "files (snd (k_close k1)) = files k1" by (simp add: k_close_def Let_def split: prod.split)
    have k': "k' = snd (k_close k1)" "e1 = None \<or> e = e1"
      using assms o None w by (auto simp: clm_write_file_def split: option.splits)
    obtain u v where "files k1 = (files k0)(path := Some ([] @ u))" "d = u @ v" "e1 = None \<longrightarrow> u = d"
      using write_all_spec [OF w, of "[]"] f0 by auto
    then have *: "files k' = (files k)(path := Some u)" "d = u @ v" "e = None \<longrightarrow> u = d" using k' fc f0 by auto
    show ?thesis
    proof (intro conjI allI impI)
      show "files k' other = files k other" if "other \<noteq> path" for other using * that by simp
      show "files k' path = files k path \<or> (\<exists>w v. files k' path = Some w \<and> d = w @ v)" using *(1,2) by (metis fun_upd_same)
      show p: "files k' path = Some d" if "e = None" using *(1) *(3) that by simp
      show "x = d" if "e = None" "clm_read_file path k' = (Inr x, k2)" for x k2 by (rule rf [OF p [OF that(1)] that(2)])
    qed
  qed
qed

theorem file_round_trip_witness:
  "let k = \<lparr>files = (\<lambda>_. None), opens = [], ios = [Io 1, Io_eintr, Io 1, Io_eintr, Io 1], closes = [], kmem = []\<rparr>;
       k' = snd (clm_write_file [1] [7, 8] k) in
     files k' [1] = Some [7, 8] \<and> fst (clm_read_file [1] k') = Inr [7, 8]"
proof -
  let ?k = "\<lparr>files = (\<lambda>_. None), opens = [], ios = [Io 1, Io_eintr, Io 1, Io_eintr, Io 1], closes = [], kmem = []\<rparr> :: kernel"
  let ?k' = "snd (clm_write_file [1] [7, 8] ?k)"
  have w: "clm_write_file [1] [7, 8] ?k = (None, ?k')" and r: "\<exists>x k2. clm_read_file [1] ?k' = (Inr x, k2)"
    by (simp_all add: clm_write_file_def k_open_write_def k_close_def next_outcome_def clm_write_all.simps k_append_def
        clm_read_file_def k_open_read_def read_loop.simps read_count_def grown_def Let_def)
  from r obtain x k2 where x: "clm_read_file [1] ?k' = (Inr x, k2)" by blast
  from file_round_trip [OF w] x show ?thesis unfolding Let_def by fastforce
qed

end
