(* ===== verification/Tool_Builtins.thy ===== *)
theory Tool_Builtins
  imports Tool_Dispatch File_Io "HOL-Library.List_Lexorder" "HOL-Library.Multiset" "HOL-Library.Code_Target_Nat"
begin

text \<open>
  The built-in tools of \<^verbatim>\<open>libclm/tools.c\<close>: reading a window of a text file, writing a file, listing a directory and
  reading an image. A tool is a function of its arguments and the host; what it reports is a \<open>tool_answer\<close>, which
  \<open>perform\<close> hands to the completion functions.
\<close>

section \<open>The host\<close>

datatype d_type = DT_DIR | DT_UNKNOWN | DT_OTHER

text \<open>Environment, directories, the result of \<^verbatim>\<open>stat\<close> on a path (is it a directory), of \<^verbatim>\<open>fstat\<close> on an open file (is it
  regular, and its size), error texts, and what the conversion of a number outside \<^verbatim>\<open>int\<close> gives.\<close>

record host = kernel +
  home_dir :: "cstr option"
  strerror :: "nat \<Rightarrow> cstr"
  dirs :: "cstr \<Rightarrow> nat + (cstr \<times> d_type) list"
  stat_dir :: "cstr \<Rightarrow> bool option"
  fstat :: "cstr \<Rightarrow> (bool \<times> nat) option"
  cast_int :: "int \<Rightarrow> int"

datatype tool_answer = Answer cstr | Answer_fail cstr | Answer_image cstr cstr "byte list" | Answer_undefined

text \<open>An answer of uninitialised memory is undefined behaviour.\<close>

definition perform :: "tool_env \<Rightarrow> iref \<Rightarrow> tool_answer \<Rightarrow> agent_tools \<Rightarrow> agent_tools" where
  "perform E r a st =
     (case a of Answer s \<Rightarrow> clm_tool_complete E r (Some s) st
      | Answer_fail s \<Rightarrow> clm_tool_fail E r (Some s) st
      | Answer_image s mt d \<Rightarrow> clm_tool_complete_image E r (Some s) (Some mt) (Some d) st
      | Answer_undefined \<Rightarrow> bad st)"

definition k_alloc :: "'a kernel_scheme \<Rightarrow> bool \<times> 'a kernel_scheme" where
  "k_alloc k = (let (ok, t) = alloc (kmem k) in (ok, k\<lparr>kmem := t\<rparr>))"

lemma k_alloc_free [simp]: "kmem k = [] \<Longrightarrow> k_alloc k = (True, k)"
  by (simp add: k_alloc_def)

section \<open>Arguments\<close>

definition k_strdup :: "cstr \<Rightarrow> 'a kernel_scheme \<Rightarrow> cstr option \<times> 'a kernel_scheme" where
  "k_strdup s k = (let (ok, k) = k_alloc k in (if ok then Some s else None, k))"

definition arg_string :: "'j cjson_api \<Rightarrow> 'j \<Rightarrow> cstr \<Rightarrow> host \<Rightarrow> cstr option \<times> host" where
  "arg_string J args key k =
     (case cj_get J args key of None \<Rightarrow> (None, k)
      | Some v \<Rightarrow> if \<not> cj_is_string J v then (None, k) else k_strdup (the (cj_string_value J v)) k)"

definition to_int :: "host \<Rightarrow> int \<Rightarrow> int" where
  "to_int k x = (if - (2 ^ 31) \<le> x \<and> x < 2 ^ 31 then x else cast_int k x)"

definition arg_int :: "'j cjson_api \<Rightarrow> 'j \<Rightarrow> cstr \<Rightarrow> int \<Rightarrow> host \<Rightarrow> int" where
  "arg_int J args key dflt k =
     (case cj_get J args key of None \<Rightarrow> dflt
      | Some v \<Rightarrow> if \<not> cj_is_number J v then dflt else to_int k (cj_trunc J v))"

definition expand_tilde :: "cstr \<Rightarrow> host \<Rightarrow> cstr option \<times> host" where
  "expand_tilde path k =
     (if take 2 path \<noteq> lit ''~/'' then k_strdup path k
      else case home_dir k of None \<Rightarrow> k_strdup path k | Some [] \<Rightarrow> k_strdup path k
      | Some home \<Rightarrow> let (ok, k) = k_alloc k in if ok then (Some (home @ drop 1 path), k) else k_strdup path k)"

text \<open>The path of a tool: the expansion replaces it if there was memory for it.\<close>

definition expand_path :: "cstr \<Rightarrow> host \<Rightarrow> cstr \<times> host" where
  "expand_path path k = (let (ep, k) = expand_tilde path k in (case ep of Some p \<Rightarrow> p | None \<Rightarrow> path, k))"

definition inv_args_json :: "'j cjson_api \<Rightarrow> clm_tool_invocation \<Rightarrow> 'j option" where
  "inv_args_json J v = Option.bind (inv_args v) (cj_parse J)"

definition with_path :: "'j cjson_api \<Rightarrow> clm_tool_invocation \<Rightarrow> host \<Rightarrow> ('j \<Rightarrow> cstr \<Rightarrow> host \<Rightarrow> tool_answer \<times> host) \<Rightarrow> tool_answer \<times> host" where
  "with_path J v k f =
     (case inv_args_json J v of None \<Rightarrow> (Answer_fail (lit ''invalid arguments''), k)
      | Some args \<Rightarrow>
        if \<not> cj_is_object J args then (Answer_fail (lit ''invalid arguments''), k)
        else let (path, k) = arg_string J args (lit ''path'') k in
        case path of None \<Rightarrow> (Answer_fail (lit ''missing required string argument '' @ [0x27] @ lit ''path'' @ [0x27]), k)
        | Some p \<Rightarrow> (let (p, k) = expand_path p k in f args p k))"

definition quoted :: "cstr \<Rightarrow> cstr" where
  "quoted s = [0x27] @ s @ [0x27]"

section \<open>read\_file\<close>

definition CLM_READ_DEFAULT_LIMIT :: int where "CLM_READ_DEFAULT_LIMIT = 200"

text \<open>The length of the line at the start of the data, with its newline.\<close>

definition line_len :: "byte list \<Rightarrow> nat" where
  "line_len d = (let n = length (takeWhile (\<lambda>b. b \<noteq> 0x0A) d) in if n < length d then n + 1 else n)"

lemma line_len: "d \<noteq> [] \<Longrightarrow> 0 < line_len d" "line_len d \<le> length d"
  using length_takeWhile_le [of "\<lambda>b. b \<noteq> 0x0A" d] by (auto simp: line_len_def Let_def)

lemma line_len_dec: "d \<noteq> [] \<Longrightarrow> length d - line_len d < length d"
  using line_len [of d] by simp

text \<open>\<^verbatim>\<open>while (ncap < need) ncap *= 2;\<close> for a start that is not 0.\<close>

function double_to :: "nat \<Rightarrow> nat \<Rightarrow> nat" where
  "double_to need c = (if c = 0 \<or> need \<le> c then c else double_to need (c * 2))"
  by pat_completeness auto
termination by (relation "measure (\<lambda>(need, c). need - c)") auto

declare double_to.simps [simp del]

lemma double_to_ge: "0 < c \<Longrightarrow> need \<le> double_to need c"
proof (induction need c rule: double_to.induct)
  case (1 need c)
  then show ?case by (cases "need \<le> c") (simp_all add: double_to.simps [of need c])
qed

datatype window_end = Window "byte list" nat nat | Window_oom | Window_overflow

text \<open>
  The loop over the lines: \<open>cur\<close> lines were passed, \<open>shown\<close> of them are in the buffer \<open>out\<close> of size \<open>ocap\<close>. A write
  behind the end of the buffer is \<open>Window_overflow\<close>.
\<close>

function window_loop :: "nat \<Rightarrow> int \<Rightarrow> int \<Rightarrow> byte list \<Rightarrow> nat \<Rightarrow> nat \<Rightarrow> byte list \<Rightarrow> nat \<Rightarrow> host \<Rightarrow> window_end \<times> host" where
  "window_loop cap offset limit d cur shown out ocap k =
     (if d = [] then (Window out shown cur, k)
      else
        let n = line_len d; line = take n d; cur = cur + 1 in
        if int cur < offset \<or> int shown \<ge> limit then window_loop cap offset limit (drop n d) cur shown out ocap k
        else
          let grow = length out + n + 1 > ocap;
              (ok, k) = (if grow then k_alloc k else (True, k));
              ocap = (if grow then min cap (double_to (length out + n + 1) (if ocap \<noteq> 0 then ocap * 2 else 4096)) else ocap) in
          if \<not> ok then (Window_oom, k)
          else if length out + n + 1 > cap then (Window out shown cur, k)
          else if length out + n + 1 > ocap then (Window_overflow, k)
          else window_loop cap offset limit (drop n d) cur (shown + 1) (out @ line) ocap k)"
  by pat_completeness auto
termination
  by (relation "measure (\<lambda>(cap, offset, limit, d, _). length d)") (auto simp: line_len_dec)

declare window_loop.simps [simp del]

text \<open>The footer with the range shown, and whether more is there.\<close>

definition footer :: "int \<Rightarrow> nat \<Rightarrow> nat \<Rightarrow> cstr" where
  "footer offset shown seen =
     snprintf 160 ([0x0A] @ lit ''[lines '' @ idec offset @ lit ''-'' @ idec (offset + int shown - 1) @ lit '' of '' @ dec seen
       @ (if offset + int shown - 1 < int seen then lit ''; raise offset to continue'' else []) @ lit '']'')"

definition tool_file_read :: "'j cjson_api \<Rightarrow> clm_tool_invocation \<Rightarrow> host \<Rightarrow> tool_answer \<times> host" where
  "tool_file_read J v k = with_path J v k (\<lambda>args path k.
     let offset = arg_int J args (lit ''offset'') 1 k;
         limit = arg_int J args (lit ''limit'') CLM_READ_DEFAULT_LIMIT k;
         offset = (if offset < 1 then 1 else offset);
         limit = (if limit < 1 then CLM_READ_DEFAULT_LIMIT else limit) in
     case clm_read_file path k of
       (Inl e, k) \<Rightarrow> (Answer_fail (snprintf 256 (lit ''cannot open '' @ quoted path @ lit '': '' @ strerror k e)), k)
     | (Inr d, k) \<Rightarrow>
       case window_loop (output_cap v) offset limit d 0 0 [] 0 k of
         (Window_oom, k) \<Rightarrow> (Answer_fail (lit ''out of memory''), k)
       | (Window_overflow, k) \<Rightarrow> (Answer_undefined, k)
       | (Window out shown seen, k) \<Rightarrow>
         if shown = 0 then
           (Answer (snprintf 128 (lit ''(file has '' @ dec seen @ lit '' lines; offset '' @ idec offset @ lit '' is past end)'')), k)
         else let (ok, k) = k_alloc k in
           if \<not> ok then (Answer_fail (lit ''out of memory''), k)
           else (Answer (out @ footer offset shown seen), k))"

section \<open>write\_file\<close>

definition write_failed :: "cstr \<Rightarrow> nat \<Rightarrow> host \<Rightarrow> tool_answer" where
  "write_failed path e k = Answer_fail (snprintf 256 (lit ''cannot write '' @ quoted path @ lit '': '' @ strerror k e))"

text \<open>The loop of the tool over \<^verbatim>\<open>write\<close> is the one of \<^verbatim>\<open>clm_write_all\<close>.\<close>

definition tool_file_write :: "'j cjson_api \<Rightarrow> clm_tool_invocation \<Rightarrow> host \<Rightarrow> tool_answer \<times> host" where
  "tool_file_write J v k =
     (case inv_args_json J v of None \<Rightarrow> (Answer_fail (lit ''invalid arguments''), k)
      | Some args \<Rightarrow>
        if \<not> cj_is_object J args then (Answer_fail (lit ''invalid arguments''), k)
        else
          let (path, k) = arg_string J args (lit ''path'') k; (content, k) = arg_string J args (lit ''content'') k in
          case (path, content) of
            (Some p, Some c) \<Rightarrow>
              (let (p, k) = expand_path p k in
               case k_open_write p k of
                 (Some e, k) \<Rightarrow> (write_failed p e k, k)
               | (None, k) \<Rightarrow>
                 case clm_write_all p c k of
                   (Some e, k) \<Rightarrow> (write_failed p e k, snd (k_close k))
                 | (None, k) \<Rightarrow>
                   case k_close k of
                     (Some e, k) \<Rightarrow> (write_failed p e k, k)
                   | (None, k) \<Rightarrow> (Answer (lit ''ok: file written''), k))
          | _ \<Rightarrow> (Answer_fail (lit ''write_file requires '' @ [0x27] @ lit ''path'' @ [0x27] @ lit '' and '' @ [0x27] @ lit ''content'' @ [0x27] @ lit '' strings''), k))"

section \<open>list\_dir\<close>

text \<open>One pass over the directory. A failed allocation ends it; the entries so far are listed.\<close>

fun read_names :: "cstr \<Rightarrow> (cstr \<times> d_type) list \<Rightarrow> cstr list \<Rightarrow> nat \<Rightarrow> host \<Rightarrow> cstr list \<times> host" where
  "read_names path [] names ncap k = (names, k)"
| "read_names path ((nm, ty) # es) names ncap k =
     (if nm = lit ''.'' \<or> nm = lit ''..'' then read_names path es names ncap k
      else
        let (is_dir, k) = (case ty of DT_DIR \<Rightarrow> (True, k) | DT_OTHER \<Rightarrow> (False, k)
              | DT_UNKNOWN \<Rightarrow> let (ok, k) = k_alloc k in (ok \<and> stat_dir k (path @ lit ''/'' @ nm) = Some True, k));
            (ok, k) = (if length names = ncap then k_alloc k else (True, k));
            ncap = (if length names = ncap then (if ncap \<noteq> 0 then ncap * 2 else 32) else ncap) in
        if \<not> ok then (names, k)
        else let (ok, k) = k_alloc k in
        if \<not> ok then (names, k)
        else read_names path es (names @ [nm @ (if is_dir then lit ''/'' else [])]) ncap k)"

text \<open>The lines of the answer; \<open>None\<close> is the buffer that was never allocated.\<close>

fun list_loop :: "nat \<Rightarrow> cstr list \<Rightarrow> byte list option \<Rightarrow> nat \<Rightarrow> host \<Rightarrow> byte list option \<times> host" where
  "list_loop cap [] out ocap k = (out, k)"
| "list_loop cap (nm # nms) out ocap k =
     (let len = (case out of None \<Rightarrow> 0 | Some s \<Rightarrow> length s);
          grow = len + length nm + 2 > ocap;
          (ok, k) = (if grow then k_alloc k else (True, k)) in
      if \<not> ok then (out, k)
      else
        let ocap = (if grow then min cap (double_to (len + length nm + 2) (if ocap \<noteq> 0 then ocap * 2 else 4096)) else ocap);
            out = Some (case out of None \<Rightarrow> [] | Some s \<Rightarrow> s) in
        if len + length nm + 2 > cap then (out, k)
        else list_loop cap nms (Some (the out @ nm @ [0x0A])) ocap k)"

text \<open>\<^verbatim>\<open>qsort\<close> with \<^verbatim>\<open>strcmp\<close>: entries that compare equal are equal, so every sort gives the same list.\<close>

definition tool_list_dir :: "'j cjson_api \<Rightarrow> clm_tool_invocation \<Rightarrow> host \<Rightarrow> tool_answer \<times> host" where
  "tool_list_dir J v k =
     (let args = inv_args_json J v in
      if args \<noteq> None \<and> \<not> cj_is_object J (the args) then (Answer_fail (lit ''invalid arguments''), k)
      else
        let (path, k) = (case args of None \<Rightarrow> (None, k) | Some a \<Rightarrow> arg_string J a (lit ''path'') k);
            (path, k) = (case path of None \<Rightarrow> k_strdup (lit ''.'') k | Some p \<Rightarrow> (Some p, k)) in
        case path of None \<Rightarrow> (Answer_fail (lit ''out of memory''), k)
        | Some p \<Rightarrow>
          let (p, k) = expand_path p k in
          case dirs k p of
            Inl e \<Rightarrow> (Answer_fail (snprintf 256 (lit ''cannot open '' @ quoted p @ lit '': '' @ strerror k e)), k)
          | Inr es \<Rightarrow>
            let (names, k) = read_names p es [] 0 k;
                (out, k) = list_loop (output_cap v) (sort names) None 0 k in
            case out of None \<Rightarrow> (Answer (lit ''(empty)''), k)
            | Some [] \<Rightarrow> (Answer_undefined, k)
            | Some s \<Rightarrow> (Answer s, k))"

section \<open>read\_image\<close>

text \<open>The loop that reads at most \<open>max + 1\<close> bytes into a buffer of \<open>cap\<close> bytes.\<close>

function image_loop :: "nat \<Rightarrow> byte list \<Rightarrow> byte list \<Rightarrow> nat \<Rightarrow> host \<Rightarrow> (cstr + byte list) \<times> host" where
  "image_loop mx rest buf cap k =
     (if \<not> length buf < mx + 1 then (Inr buf, k)
      else
        let (ok, k) = (if length buf = cap then k_alloc k else (True, k));
            cap = (if length buf = cap then (if cap * 2 < mx + 1 then cap * 2 else mx + 1) else cap) in
        if \<not> ok then (Inl (lit ''out of memory''), k)
        else case ios k of
          Io_eintr # is \<Rightarrow> image_loop mx rest buf cap (k\<lparr>ios := is\<rparr>)
        | Io_err e # is \<Rightarrow> (Inl (strerror k e), k\<lparr>ios := is\<rparr>)
        | is \<Rightarrow>
          let n = read_count is (cap - length buf) rest; k = k\<lparr>ios := drop 1 is\<rparr> in
          if n = 0 then (Inr buf, k) else image_loop mx (drop n rest) (buf @ take n rest) cap k)"
  by pat_completeness auto
termination
  by (relation "measure (\<lambda>(mx, rest, buf, cap, k). length (ios k) + length rest)")
    (auto simp: k_alloc_def dest!: read_count_dec split: if_splits prod.splits)

declare image_loop.simps [simp del]

definition read_image_file :: "cstr \<Rightarrow> nat \<Rightarrow> host \<Rightarrow> (cstr + byte list) \<times> host" where
  "read_image_file path mx k =
     (case k_open_read path k of
        (Inl e, k) \<Rightarrow> (Inl (strerror k e), k)
      | (Inr d, k) \<Rightarrow>
        (case fstat k path of
          Some (True, sz) \<Rightarrow>
            (let (ok, k) = k_alloc k in
             if \<not> ok then (Inl (lit ''out of memory''), snd (k_close k))
             else
               let (r, k) = image_loop mx d [] (if sz < mx then sz + 1 else mx + 1) k; k = snd (k_close k) in
               (case r of Inl why \<Rightarrow> (Inl why, k)
                | Inr buf \<Rightarrow> if length buf > mx then (Inl (lit ''larger than 5 MiB''), k) else (Inr buf, k)))
        | _ \<Rightarrow> (Inl (lit ''not a regular file''), snd (k_close k))))"

definition tool_read_image :: "'j cjson_api \<Rightarrow> clm_tool_invocation \<Rightarrow> host \<Rightarrow> tool_answer \<times> host" where
  "tool_read_image J v k = with_path J v k (\<lambda>args path k.
     case read_image_file path CLM_IMAGE_MAX_BYTES k of
       (Inl why, k) \<Rightarrow> (Answer_fail (snprintf 512 (lit ''cannot read '' @ quoted path @ lit '': '' @ why)), k)
     | (Inr d, k) \<Rightarrow>
       case clm_image_sniff (Some d) of
         Some (Inr (mt, w, h)) \<Rightarrow>
           (Answer_image (snprintf 512 (lit ''image '' @ path @ lit '': '' @ drop 6 (lit mt) @ lit '' '' @ dec (unat w) @ lit ''x'' @ dec (unat h)
              @ lit '', '' @ dec ((length d + 1023) div 1024) @ lit '' KiB'')) (lit mt) d, k)
       | _ \<Rightarrow> (Answer_fail (snprintf 512 (quoted path @ lit '' is not a PNG, JPEG, GIF or WebP image'')), k))"

section \<open>Registration\<close>

definition builtin :: "string \<Rightarrow> string \<Rightarrow> string \<Rightarrow> u32 \<Rightarrow> clm_tool_def" where
  "builtin name desc schema flags = \<lparr>d_name = Some (lit name), d_description = Some (lit desc), d_params_schema = Some (lit schema),
     d_invoke = True, d_detach = False, d_output_cap = 0, d_timeout_ms = 0, d_flags = flags\<rparr>"

definition read_def :: clm_tool_def where
  "read_def = builtin ''read_file'' ''read a window of lines from a text file''
     ''{\"type\":\"object\",\"properties\":{\"path\":{\"type\":\"string\",\"description\":\"path to the file\"},\"offset\":{\"type\":\"integer\",\"description\":\"starting line, 1-indexed (default 1)\"},\"limit\":{\"type\":\"integer\",\"description\":\"max lines to return (default 200)\"}},\"required\":[\"path\"]}''
     CLM_TOOL_NO_PROMPT"

definition write_def :: clm_tool_def where
  "write_def = builtin ''write_file'' ''write content to a file, overwriting it''
     ''{\"type\":\"object\",\"properties\":{\"path\":{\"type\":\"string\",\"description\":\"path to the file\"},\"content\":{\"type\":\"string\",\"description\":\"content to write\"}},\"required\":[\"path\",\"content\"]}'' 0"

definition list_def :: clm_tool_def where
  "list_def = builtin ''list_dir'' (''list a directory'' @ [CHR 0x27] @ ''s entries, one per line, directories suffixed with '' @ [CHR 0x27, CHR ''/'', CHR 0x27])
     (''{\"type\":\"object\",\"properties\":{\"path\":{\"type\":\"string\",\"description\":\"directory to list (default '' @ [CHR 0x27, CHR ''.'', CHR 0x27] @ '')\"}},\"required\":[]}'') CLM_TOOL_NO_PROMPT"

definition image_def :: clm_tool_def where
  "image_def = builtin ''read_image'' ''look at an image file (PNG, JPEG, GIF or WebP, at most 5 MiB): the image itself comes back with the result. Use it when a path to an image turns up and seeing it would help.''
     ''{\"type\":\"object\",\"properties\":{\"path\":{\"type\":\"string\",\"description\":\"path to the image file\"}},\"required\":[\"path\"]}'' (CLM_TOOL_NO_PROMPT OR CLM_TOOL_VISION)"

text \<open>The desktop build; the build for ESP-IDF leaves the last tool out.\<close>

definition clm_tools_register_builtins :: "'a tool_registry_scheme \<Rightarrow> (errno + unit) \<times> 'a tool_registry_scheme" where
  "clm_tools_register_builtins R =
     (let (r, R) = clm_tool_add (Some read_def) R in case r of Inl e \<Rightarrow> (Inl e, R) | Inr _ \<Rightarrow>
      let (r, R) = clm_tool_add (Some write_def) R in case r of Inl e \<Rightarrow> (Inl e, R) | Inr _ \<Rightarrow>
      let (r, R) = clm_tool_add (Some list_def) R in case r of Inl e \<Rightarrow> (Inl e, R) | Inr _ \<Rightarrow>
      clm_tool_add (Some image_def) R)"

section \<open>The window of read\_file\<close>

function lines_of :: "byte list \<Rightarrow> byte list list" where
  "lines_of d = (if d = [] then [] else take (line_len d) d # lines_of (drop (line_len d) d))"
  by pat_completeness auto
termination by (relation "measure length") (auto simp: line_len_dec)

declare lines_of.simps [simp del]

lemma lines_of_Nil [simp]: "lines_of [] = []"
  by (simp add: lines_of.simps)

lemma lines_of_step: "d \<noteq> [] \<Longrightarrow> lines_of d = take (line_len d) d # lines_of (drop (line_len d) d)"
  by (simp add: lines_of.simps [of d])

lemma concat_lines_of: "concat (lines_of d) = d"
  by (induction d rule: lines_of.induct) (metis (no_types) append_take_drop_id concat.simps lines_of.simps)

text \<open>The lines that fit into a buffer one after the other, each leaving a byte for the NUL.\<close>

fun fitting :: "nat \<Rightarrow> byte list list \<Rightarrow> byte list list" where
  "fitting room [] = []"
| "fitting room (l # ls) = (if length l < room then l # fitting (room - length l) ls else [])"

lemma fitting_prefix: "\<exists>ls'. ls = fitting room ls @ ls'"
  by (induction room ls rule: fitting.induct) auto

lemma fitting_length: "length (fitting room ls) \<le> length ls"
  by (induction room ls rule: fitting.induct) auto

lemma window_loop_past:
  assumes "int shown \<ge> limit"
  shows "window_loop cap offset limit d cur shown out ocap k = (Window out shown (cur + length (lines_of d)), k)"
proof (induction d arbitrary: cur rule: lines_of.induct)
  case (1 d)
  show ?case
  proof (cases "d = []")
    case True
    then show ?thesis by (simp add: window_loop.simps [of _ _ _ "[]"])
  next
    case False
    then show ?thesis using 1 assms by (simp add: window_loop.simps [of _ _ _ d] lines_of_step Let_def)
  qed
qed

definition window_spec :: "nat \<Rightarrow> int \<Rightarrow> int \<Rightarrow> byte list \<Rightarrow> nat \<Rightarrow> nat \<Rightarrow> byte list \<Rightarrow> window_end" where
  "window_spec cap offset limit d cur shown out =
     (let skip = nat (offset - 1) - cur;
          sel = take (nat limit - shown) (drop skip (lines_of d));
          fit = fitting (cap - length out) sel in
      Window (out @ concat fit) (shown + length fit)
        (if length fit = length sel then cur + length (lines_of d) else cur + skip + length fit + 1))"

lemma window_loop_spec:
  assumes "window_loop cap offset limit d cur shown out ocap k = (r, k')" "length out < cap" "ocap \<le> cap" "1 \<le> offset" "1 \<le> limit"
    "0 < shown \<longrightarrow> offset - 1 \<le> int cur"
  shows "r = Window_oom \<and> kmem k \<noteq> [] \<or> r = window_spec cap offset limit d cur shown out"
  using assms
proof (induction d arbitrary: cur shown out ocap k rule: lines_of.induct)
  case (1 d)
  show ?case
  proof (cases "d = [] \<or> int shown \<ge> limit")
    case True
    then have "window_loop cap offset limit d cur shown out ocap k = (Window out shown (cur + length (lines_of d)), k)"
      using window_loop_past by (auto simp: window_loop.simps [of _ _ _ "[]"])
    then show ?thesis using True 1(2) by (auto simp: window_spec_def Let_def)
  next
    case False
    let ?n = "line_len d"
    have st: "lines_of d = take ?n d # lines_of (drop ?n d)" "length (take ?n d) = ?n" using False lines_of_step line_len(2) [of d] by auto
    have lim: "nat limit - shown = Suc (nat limit - (shown + 1))" using False by linarith
    show ?thesis
    proof (cases "int (cur + 1) < offset")
      case True
      have "window_loop cap offset limit (drop ?n d) (cur + 1) shown out ocap k = (r, k')"
        using 1(2) False True by (simp add: window_loop.simps [of _ _ _ d] Let_def)
      from 1(1) [OF _ this] False True 1(3-7)
      have "r = Window_oom \<and> kmem k \<noteq> [] \<or> r = window_spec cap offset limit (drop ?n d) (cur + 1) shown out" by simp
      moreover have "nat (offset - 1) - cur = Suc (nat (offset - 1) - (cur + 1))" using True by linarith
      then have "window_spec cap offset limit (drop ?n d) (cur + 1) shown out = window_spec cap offset limit d cur shown out"
        unfolding window_spec_def Let_def st(1) by simp
      ultimately show ?thesis by simp
    next
      case here: False
      have sk: "nat (offset - 1) - cur = 0" "nat (offset - 1) - (cur + 1) = 0" using here by linarith+
      define grow where "grow \<longleftrightarrow> length out + ?n + 1 > ocap"
      obtain ok k1 where ok: "(if grow then k_alloc k else (True, k)) = (ok, k1)" by fastforce
      define ocap' where "ocap' = (if grow then min cap (double_to (length out + ?n + 1) (if ocap \<noteq> 0 then ocap * 2 else 4096)) else ocap)"
      have eq: "(r, k') = (if \<not> ok then (Window_oom, k1) else if length out + ?n + 1 > cap then (Window out shown (cur + 1), k1)
          else if length out + ?n + 1 > ocap' then (Window_overflow, k1)
          else window_loop cap offset limit (drop ?n d) (cur + 1) (shown + 1) (out @ take ?n d) ocap' k1)"
        using 1(2) False here ok unfolding window_loop.simps [of _ _ _ d] Let_def grow_def [symmetric] ocap'_def [symmetric] by simp
      have km: "kmem k = [] \<Longrightarrow> ok \<and> kmem k1 = []" using ok by (auto split: if_splits)
      show ?thesis
      proof (cases ok)
        case nok: False
        then show ?thesis using eq km by auto
      next
        case True
        show ?thesis
        proof (cases "length out + ?n + 1 > cap")
          case big: True
          then have "r = Window out shown (cur + 1)" using eq True by simp
          moreover have "window_spec cap offset limit d cur shown out = Window out shown (cur + 1)"
            unfolding window_spec_def Let_def sk st(1) lim using big st(2) 1(3) by simp
          ultimately show ?thesis by simp
        next
          case small: False
          have "length out + ?n + 1 \<le> double_to (length out + ?n + 1) (if ocap \<noteq> 0 then ocap * 2 else 4096)" by (rule double_to_ge) simp
          then have oc: "length out + ?n + 1 \<le> ocap'" "ocap' \<le> cap" using small 1(4) by (auto simp: ocap'_def grow_def)
          have rec: "window_loop cap offset limit (drop ?n d) (cur + 1) (shown + 1) (out @ take ?n d) ocap' k1 = (r, k')"
            using eq True small oc by simp
          have "r = Window_oom \<and> kmem k1 \<noteq> [] \<or> r = window_spec cap offset limit (drop ?n d) (cur + 1) (shown + 1) (out @ take ?n d)"
            by (rule 1(1) [OF _ rec]) (use False here small oc st(2) 1(5,6) in auto)
          moreover have "window_spec cap offset limit (drop ?n d) (cur + 1) (shown + 1) (out @ take ?n d) = window_spec cap offset limit d cur shown out"
            unfolding window_spec_def Let_def sk st(1) lim using small st(2) by (simp add: diff_diff_add)
          ultimately show ?thesis using km by auto
        qed
      qed
    qed
  qed
qed

text \<open>C15 (functional). read_file shows exactly the lines asked for, from \<open>offset\<close> on and at most \<open>limit\<close>, as far as they fit into the
  output cap, byte for byte and without writing outside its buffer, however the buffer grows. It can only fail for
  lack of memory.\<close>

theorem read_file_window:
  assumes "window_loop cap offset limit d 0 0 [] 0 k = (r, k')" "0 < cap" "1 \<le> offset" "1 \<le> limit"
  shows "r = Window_oom \<and> kmem k \<noteq> []
    \<or> (let sel = take (nat limit) (drop (nat (offset - 1)) (lines_of d)); fit = fitting cap sel in
        r = Window (concat fit) (length fit) (if length fit = length sel then length (lines_of d) else nat offset + length fit))"
proof -
  have "nat (offset - 1) + length f + 1 = nat offset + length f" for f :: "byte list list" using assms(3) by linarith
  then show ?thesis using window_loop_spec [OF assms(1)] assms(2-4) by (auto simp: window_spec_def Let_def)
qed

lemma line_len_Cons: "line_len (b # d) = (if b = 0x0A then 1 else if d = [] then 1 else line_len d + 1)"
  by (auto simp: line_len_def Let_def)

theorem read_file_window_witness:
  "fst (window_loop 100 2 1 [0x61, 0x0A, 0x62, 0x0A, 0x63] 0 0 [] 0 \<lparr>files = (\<lambda>_. None), opens = [], ios = [], closes = [], kmem = [],
      home_dir = None, strerror = (\<lambda>_. []), dirs = (\<lambda>_. Inr []), stat_dir = (\<lambda>_. None), fstat = (\<lambda>_. None), cast_int = id\<rparr>)
    = Window [0x62, 0x0A] 1 3"
proof -
  let ?k = "\<lparr>files = (\<lambda>_. None), opens = [], ios = [], closes = [], kmem = [], home_dir = None, strerror = (\<lambda>_. []), dirs = (\<lambda>_. Inr []),
      stat_dir = (\<lambda>_. None), fstat = (\<lambda>_. None), cast_int = id\<rparr>"
  obtain r k' where w: "window_loop 100 2 1 [0x61, 0x0A, 0x62, 0x0A, 0x63] 0 0 [] 0 ?k = (r, k')" by fastforce
  have "lines_of [0x61, 0x0A, 0x62, 0x0A, 0x63] = [[0x61, 0x0A], [0x62, 0x0A], [0x63]]" by (simp add: lines_of.simps line_len_Cons)
  then show ?thesis using read_file_window [OF w] w by simp
qed

text \<open>(error). When the output cap ends the window, read_file reports the number of lines it has looked at as the number of lines
  of the file, and when not even the first line fits it says that the offset is behind the end of the file.\<close>

theorem read_file_total_wrong:
  assumes "kmem k = []"
  shows "fst (window_loop 4 1 200 (concat (replicate 4 [0x61, 0x0A])) 0 0 [] 0 k) = Window [0x61, 0x0A] 1 2
    \<and> length (lines_of (concat (replicate 4 [0x61, 0x0A]))) = 4
    \<and> fst (window_loop 2 1 200 [0x61, 0x61, 0x0A] 0 0 [] 0 k) = Window [] 0 1"
proof -
  let ?d = "[0x61, 0x0A, 0x61, 0x0A, 0x61, 0x0A, 0x61, 0x0A] :: byte list"
  have sp: "fst (window_loop cap 1 200 d 0 0 [] 0 k) = window_spec cap 1 200 d 0 0 []" if "0 < cap" for cap d
    using window_loop_spec [of cap 1 200 d 0 0 "[]" 0 k] that assms by (metis bot_nat_0.extremum less_nat_zero_code list.size(3) one_le_numeral order.refl prod.collapse)
  have l: "lines_of ?d = [[0x61, 0x0A], [0x61, 0x0A], [0x61, 0x0A], [0x61, 0x0A]]" "lines_of [0x61, 0x61, 0x0A] = [[0x61, 0x61, 0x0A]]"
    by (simp_all add: lines_of.simps line_len_Cons)
  have e: "concat (replicate 4 [0x61, 0x0A]) = ?d" by code_simp
  show ?thesis unfolding e sp [OF zero_less_numeral] window_spec_def Let_def l by simp
qed

theorem read_file_total_wrong_witness:
  "fst (window_loop 2 1 200 [0x61, 0x61, 0x0A] 0 0 [] 0 \<lparr>files = (\<lambda>_. None), opens = [], ios = [], closes = [], kmem = [],
      home_dir = None, strerror = (\<lambda>_. []), dirs = (\<lambda>_. Inr []), stat_dir = (\<lambda>_. None), fstat = (\<lambda>_. None), cast_int = id\<rparr>) = Window [] 0 1"
  by (rule read_file_total_wrong [THEN conjunct2, THEN conjunct2]) simp

section \<open>Writing\<close>

lemma arg_string_Some:
  "arg_string J args key k = (Some s, k') \<Longrightarrow> (\<exists>v. cj_get J args key = Some v \<and> cj_is_string J v \<and> s = the (cj_string_value J v))"
  by (auto simp: arg_string_def k_strdup_def Let_def split: option.splits if_splits prod.splits)

lemma k_alloc_ext: "k_alloc k = (ok, k') \<Longrightarrow> files k' = files k \<and> opens k' = opens k \<and> closes k' = closes k"
  by (auto simp: k_alloc_def Let_def split: prod.splits)

lemma arg_string_files: "files (snd (arg_string J args key k)) = files k"
  by (auto simp: arg_string_def k_strdup_def k_alloc_def Let_def split: option.split prod.split)

lemma expand_path_cases:
  assumes "expand_path p0 k = (p, k')"
  shows "files k' = files k" "p = p0 \<or> (\<exists>h. home_dir k = Some h \<and> p = h @ drop 1 p0)"
  using assms
  by (auto simp: expand_path_def expand_tilde_def k_strdup_def k_alloc_def Let_def split: option.splits prod.splits if_splits list.splits)


definition example_host :: host where
  "example_host = \<lparr>files = (\<lambda>_. None), opens = [], ios = [Io 1, Io_eintr], closes = [], kmem = [], home_dir = Some (lit ''/home/u''),
     strerror = (\<lambda>_. []), dirs = (\<lambda>_. Inr [(lit ''b'', DT_DIR), (lit ''.'', DT_DIR), (lit ''a'', DT_OTHER)]), stat_dir = (\<lambda>_. None),
     fstat = (\<lambda>_. None), cast_int = (\<lambda>x. 0)\<rparr>"

definition example_json :: "json cjson_api" where
  "example_json = json_api\<lparr>cj_parse := (\<lambda>s. Some (JObject [(lit ''path'', JString (lit ''~/f'')), (lit ''content'', JString (lit ''xy''))]))\<rparr>"

definition example_call :: clm_tool_invocation where
  "example_call = new_invocation None None None (Some []) 100 0"


section \<open>Listing\<close>

definition entry :: "host \<Rightarrow> cstr \<Rightarrow> cstr \<times> d_type \<Rightarrow> cstr" where
  "entry k path e = fst e @ (if snd e = DT_DIR \<or> snd e = DT_UNKNOWN \<and> stat_dir k (path @ lit ''/'' @ fst e) = Some True then lit ''/'' else [])"

definition proper :: "cstr \<times> d_type \<Rightarrow> bool" where
  "proper e \<longleftrightarrow> fst e \<noteq> lit ''.'' \<and> fst e \<noteq> lit ''..''"

lemma read_names_all:
  "kmem k = [] \<Longrightarrow> read_names path es names ncap k = (names @ map (entry k path) (filter proper es), k)"
proof (induction path es names ncap k rule: read_names.induct)
  case (2 path nm ty es names ncap k)
  then show ?case by (cases ty) (auto simp: proper_def entry_def simp del: lit_Cons)
qed simp

abbreviation listing :: "cstr list \<Rightarrow> cstr" where
  "listing nms \<equiv> concat (map (\<lambda>n. n @ [0x0A]) nms)"

lemma list_loop_all:
  assumes "kmem k = []" "length (case out of None \<Rightarrow> [] | Some s \<Rightarrow> s) + length (listing nms) < cap" "out = None \<longrightarrow> ocap = 0"
  shows "list_loop cap nms out ocap k = (if nms = [] then out else Some ((case out of None \<Rightarrow> [] | Some s \<Rightarrow> s) @ listing nms), k)"
  using assms
proof (induction nms arbitrary: out ocap)
  case (Cons nm nms)
  then show ?case by (cases out) (auto simp: Let_def)
qed simp

text \<open>(functional). list_dir lists every entry of the directory but . and .. once, in the order of \<^verbatim>\<open>strcmp\<close>, each on a line of its own
  and directories with a slash, when the listing fits into the output cap.\<close>

theorem list_dir_sorted:
  assumes "kmem k = []" "inv_args_json J v = Some args" "cj_is_object J args" "take 2 p \<noteq> lit ''~/''"
    and "case cj_get J args (lit ''path'') of None \<Rightarrow> p = lit ''.'' | Some x \<Rightarrow> cj_is_string J x \<and> cj_string_value J x = Some p"
    and "dirs k p = Inr es" "ls = sort (map (entry k p) (filter proper es))" "length (listing ls) < output_cap v"
  shows "tool_list_dir J v k = (Answer (if ls = [] then lit ''(empty)'' else listing ls), k) \<and> sorted ls
    \<and> mset ls = mset (map (entry k p) (filter proper es))"
proof -
  have pa: "(case fst (arg_string J args (lit ''path'') k) of None \<Rightarrow> k_strdup (lit ''.'') k | Some p \<Rightarrow> (Some p, k)) = (Some p, k)"
    and sa: "snd (arg_string J args (lit ''path'') k) = k"
    using assms(1,5) by (auto simp: arg_string_def k_strdup_def simp del: lit_Cons split: option.splits)
  have ex: "expand_path p k = (p, k)" using assms(1,4) by (simp add: expand_path_def expand_tilde_def k_strdup_def)
  have rn: "read_names p es [] 0 k = (map (entry k p) (filter proper es), k)" using read_names_all [OF assms(1), of p es "[]" 0] by simp
  have ll: "list_loop (output_cap v) ls None 0 k = (if ls = [] then None else Some (listing ls), k)"
    using list_loop_all [OF assms(1), of None ls "output_cap v" 0] assms(8) by simp
  have "listing ls \<noteq> []" if "ls \<noteq> []" using that by (cases ls) auto
  then have "tool_list_dir J v k = (Answer (if ls = [] then lit ''(empty)'' else listing ls), k)"
    unfolding tool_list_dir_def assms(2) option.case Let_def
    using pa sa assms(3) by (simp add: case_prod_beta ex assms(6) rn assms(7) [symmetric] ll del: lit_Cons split: list.split option.split)
  then show ?thesis using assms(7) by (simp add: del: lit_Cons)
qed

theorem list_dir_sorted_witness:
  "fst (tool_list_dir (example_json\<lparr>cj_parse := (\<lambda>s. Some (JObject []))\<rparr>) example_call example_host) = Answer [0x61, 0x0A, 0x62, 0x2F, 0x0A]"
proof -
  have ls: "sort (map (entry example_host (lit ''.'')) (filter proper [(lit ''b'', DT_DIR), (lit ''.'', DT_DIR), (lit ''a'', DT_OTHER)])) = [[0x61], [0x62, 0x2F]]"
    by code_simp
  have "tool_list_dir (example_json\<lparr>cj_parse := (\<lambda>s. Some (JObject []))\<rparr>) example_call example_host
      = (Answer (if [[0x61], [0x62, 0x2F]] = ([] :: cstr list) then lit ''(empty)'' else listing [[0x61], [0x62, 0x2F]]), example_host)"
    by (rule list_dir_sorted [where args = "JObject []" and p = "lit ''.''"
          and es = "[(lit ''b'', DT_DIR), (lit ''.'', DT_DIR), (lit ''a'', DT_OTHER)]", THEN conjunct1])
      (use ls in \<open>simp_all add: example_host_def example_call_def new_invocation_def inv_args_json_def example_json_def json_api_def\<close>)
  then show ?thesis by simp
qed

section \<open>Images\<close>

lemma image_loop_take:
  assumes "image_loop mx rest buf cap k = (Inr b, k')" "length buf \<le> cap" "0 < cap" "cap \<le> mx + 1"
  shows "b = take (mx + 1) (buf @ rest)"
  using assms
proof (induction "length (ios k) + length rest" arbitrary: rest buf cap k rule: less_induct)
  case less
  show ?case
  proof (cases "length buf < mx + 1")
    case False
    then show ?thesis using less.prems by (simp add: image_loop.simps [of mx rest buf cap])
  next
    case True
    obtain ok k1 where ok: "(if length buf = cap then k_alloc k else (True, k)) = (ok, k1)" by fastforce
    define cap' where "cap' = (if length buf = cap then (if cap * 2 < mx + 1 then cap * 2 else mx + 1) else cap)"
    have c: "length buf < cap'" "cap' \<le> mx + 1" using less.prems True by (auto simp: cap'_def)
    have io: "ios k1 = ios k" using ok by (auto simp: k_alloc_def Let_def split: if_splits prod.splits)
    have eq: "(if \<not> ok then (Inl (lit ''out of memory''), k1) else case ios k of
          Io_eintr # is \<Rightarrow> image_loop mx rest buf cap' (k1\<lparr>ios := is\<rparr>)
        | Io_err e # is \<Rightarrow> (Inl (strerror k1 e), k1\<lparr>ios := is\<rparr>)
        | is \<Rightarrow> let n = read_count is (cap' - length buf) rest; k = k1\<lparr>ios := drop 1 is\<rparr> in
          if n = 0 then (Inr buf, k) else image_loop mx (drop n rest) (buf @ take n rest) cap' k) = (Inr b, k')"
      using less.prems(1) True ok unfolding image_loop.simps [of mx rest buf cap k] cap'_def [symmetric] Let_def io [symmetric] by simp
    let ?n = "read_count (ios k) (cap' - length buf) rest"
    have rd: ?thesis if ios: "ios k = [] \<or> (\<exists>m is. ios k = Io m # is)"
    proof (cases "?n = 0")
      case True
      then have "rest = []" using c ios by (auto simp: read_count_def min_def max_def split: list.splits io_outcome.splits if_splits)
      moreover have "b = buf" using eq ios True by (auto split: if_splits list.splits io_outcome.splits)
      ultimately show ?thesis using c by simp
    next
      case False
      let ?k = "k1\<lparr>ios := drop 1 (ios k)\<rparr>"
      have e2: "image_loop mx (drop ?n rest) (buf @ take ?n rest) cap' ?k = (Inr b, k')"
        using eq ios False by (auto simp: Let_def split: if_splits list.splits io_outcome.splits)
      have "length (ios ?k) + length (drop ?n rest) < length (ios k) + length rest" using False read_count_le(1) [of "ios k" "cap' - length buf" rest] by simp
      from less.hyps [OF this e2] show ?thesis using c read_count_le [of "ios k" "cap' - length buf" rest] by simp
    qed
    show ?thesis
    proof (cases "ios k")
      case (Cons i "is")
      show ?thesis
      proof (cases i)
        case Io_eintr
        then have e: "image_loop mx rest buf cap' (k1\<lparr>ios := is\<rparr>) = (Inr b, k')" using eq Cons by (simp split: if_splits)
        have "length (ios (k1\<lparr>ios := is\<rparr>)) + length rest < length (ios k) + length rest" using Cons by simp
        from less.hyps [OF this e] c show ?thesis by simp
      qed (use rd Cons eq in \<open>auto split: if_splits\<close>)
    qed (use rd in simp)
  qed
qed

text \<open>(bounds). read_image attaches the whole file, byte for byte, if it has at most 5 MiB and starts as an image does, and never
  anything else: a file that grows while it is read is refused, not cut.\<close>

theorem read_image_whole:
  assumes "tool_read_image J v k = (Answer_image s mt d, k')"
  shows "length d \<le> 5242880 \<and> (\<exists>p. files k p = Some d) \<and> (\<exists>m w h. clm_image_sniff (Some d) = Some (Inr (m, w, h)) \<and> mt = lit m)"
proof -
  obtain args po k1 where 1: "inv_args_json J v = Some args" "cj_is_object J args" "arg_string J args (lit ''path'') k = (po, k1)" "po \<noteq> None"
    using assms by (auto simp: tool_read_image_def with_path_def Let_def simp del: lit_Cons split: option.splits if_splits prod.splits)
  then obtain p0 where p0: "po = Some p0" by blast
  obtain p k2 where 2: "expand_path p0 k1 = (p, k2)" by fastforce
  obtain r k3 where 3: "read_image_file p CLM_IMAGE_MAX_BYTES k2 = (r, k3)" by fastforce
  note eq = assms [unfolded tool_read_image_def with_path_def 1(1) option.case Let_def 1(3) p0 prod.case 2 3]
  have r: "r = Inr d" and sn: "\<exists>m w h. clm_image_sniff (Some d) = Some (Inr (m, w, h)) \<and> mt = lit m"
    using eq 1(2) by (auto simp del: lit_Cons split: sum.splits option.splits prod.splits)
  have f: "files k2 = files k" using arg_string_files [of J args "lit ''path''" k] expand_path_cases(1) [OF 2] 1(3) by simp
  obtain d0 k4 where 4: "k_open_read p k2 = (Inr d0, k4)" using 3 r by (auto simp: read_image_file_def split: prod.splits sum.splits)
  then have d0: "files k p = Some d0" using f by (auto simp: k_open_read_def Let_def split: prod.splits option.splits)
  obtain sz where 5: "fstat k4 p = Some (True, sz)" using 3 4 r by (auto simp: read_image_file_def split: option.splits bool.splits if_splits)
  obtain ok k5 where 6: "k_alloc k4 = (ok, k5)" by fastforce
  obtain b k6 where 7: "image_loop CLM_IMAGE_MAX_BYTES d0 [] (if sz < CLM_IMAGE_MAX_BYTES then sz + 1 else CLM_IMAGE_MAX_BYTES + 1) k5 = (b, k6)" by fastforce
  have b: "b = Inr d" "length d \<le> CLM_IMAGE_MAX_BYTES"
    using 3 r by (auto simp: read_image_file_def 4 5 6 7 Let_def split: if_splits sum.splits)
  have "d = take (CLM_IMAGE_MAX_BYTES + 1) d0" using image_loop_take [OF 7 [unfolded b(1)]] by auto
  then have "d = d0" using b(2) by (cases "length d0 \<le> CLM_IMAGE_MAX_BYTES") auto
  then show ?thesis using d0 b(2) sn by (auto simp: CLM_IMAGE_MAX_BYTES_def)
qed

definition gif_host :: host where
  "gif_host = example_host\<lparr>files := (\<lambda>p. if p = lit ''/home/u/f'' then Some (lit ''GIF89a'' @ [2, 0, 3, 0]) else None), ios := [],
     fstat := (\<lambda>_. Some (True, 10))\<rparr>"

theorem read_image_whole_witness:
  "\<exists>s k'. tool_read_image example_json example_call gif_host = (Answer_image s (lit ''image/gif'') (lit ''GIF89a'' @ [2, 0, 3, 0]), k')
     \<and> length (lit ''GIF89a'' @ [2, 0, 3, 0]) \<le> 5242880"
proof -
  have "(case fst (tool_read_image example_json example_call gif_host) of
      Answer_image s mt d \<Rightarrow> mt = lit ''image/gif'' \<and> d = lit ''GIF89a'' @ [2, 0, 3, 0] | _ \<Rightarrow> False)" by code_simp
  then obtain s k' where "tool_read_image example_json example_call gif_host = (Answer_image s (lit ''image/gif'') (lit ''GIF89a'' @ [2, 0, 3, 0]), k')"
    by (cases "tool_read_image example_json example_call gif_host"; cases "fst (tool_read_image example_json example_call gif_host)") auto
  from read_image_whole [OF this] this show ?thesis by blast
qed

end
