(* ===== verification/Files.thy ===== *)
theory Files
  imports History_Json Tool_Output
begin

text \<open>
  Image uploads, \<^verbatim>\<open>libclm/files.c\<close>: the cache of uploads an agent remembers, the rewriting of a request so that it names
  uploaded images, and the body of an upload. The clock is an argument. The items of the request that
  \<^verbatim>\<open>clm_files_apply\<close> changes in place are given as paths: the index of the message and of the part in its content.
\<close>

section \<open>The cache\<close>

record clm_file_ent =
  fe_hash :: u64
  fe_len :: nat
  fe_id :: "cstr option"
  fe_when :: int

record file_cache =
  ents :: "clm_file_ent list"
  cap_files :: nat

definition CLM_FILES_MAX :: nat where "CLM_FILES_MAX = 1024"
definition CLM_FILE_REUSE_SECS :: int where "CLM_FILE_REUSE_SECS = 29 * 24 * 60 * 60"
definition CLM_FILE_EXPIRES_SECS :: nat where "CLM_FILE_EXPIRES_SECS = 30 * 24 * 60 * 60"

text \<open>FNV-1a, 64 bit.\<close>

definition file_hash :: "cstr \<Rightarrow> u64" where
  "file_hash s = foldl (\<lambda>h b. (h XOR ucast b) * 0x100000001b3) 0xcbf29ce484222325 s"

definition is_ent :: "cstr \<Rightarrow> clm_file_ent \<Rightarrow> bool" where
  "is_ent url e \<longleftrightarrow> fe_hash e = file_hash url \<and> fe_len e = length url"

fun find_index :: "('a \<Rightarrow> bool) \<Rightarrow> 'a list \<Rightarrow> nat option" where
  "find_index P [] = None"
| "find_index P (x # xs) = (if P x then Some 0 else map_option Suc (find_index P xs))"

definition files_find :: "file_cache \<Rightarrow> cstr \<Rightarrow> nat option" where
  "files_find c url = find_index (is_ent url) (ents c)"

definition clm_files_add :: "cstr \<Rightarrow> cstr option \<Rightarrow> int \<Rightarrow> tape \<Rightarrow> file_cache \<Rightarrow> (errno + unit) \<times> tape \<times> file_cache" where
  "clm_files_add url file_id now t c =
     (let (ok, t) = opt_strdup t file_id in
      if \<not> ok then (Inl ENOMEM, t, c)
      else case files_find c url of
        Some i \<Rightarrow> (Inr (), t, c\<lparr>ents := (ents c)[i := (ents c ! i)\<lparr>fe_id := file_id, fe_when := now\<rparr>]\<rparr>)
      | None \<Rightarrow>
        if length (ents c) \<ge> CLM_FILES_MAX then (Inl ENOSPC, t, c)
        else
          let (ok, t, c) = (if length (ents c) = cap_files c then
                (let (ok, t) = alloc t in (ok, t, if ok then c\<lparr>cap_files := (if cap_files c \<noteq> 0 then cap_files c * 2 else 8)\<rparr> else c))
              else (True, t, c)) in
          if \<not> ok then (Inl ENOMEM, t, c)
          else (Inr (), t, c\<lparr>ents := ents c @ [\<lparr>fe_hash = file_hash url, fe_len = length url, fe_id = file_id, fe_when = now\<rparr>]\<rparr>))"

definition clm_files_clear :: "file_cache \<Rightarrow> file_cache" where
  "clm_files_clear c = \<lparr>ents = [], cap_files = 0\<rparr>"

section \<open>Naming uploads in a request\<close>

definition live :: "int \<Rightarrow> clm_file_ent \<Rightarrow> bool" where
  "live now e \<longleftrightarrow> fe_id e \<noteq> None \<and> now - fe_when e < CLM_FILE_REUSE_SECS"

definition part_url :: "'j cjson_api \<Rightarrow> 'j \<Rightarrow> cstr option" where
  "part_url J part = Option.bind (Option.bind (cj_get J part (lit ''image_url'')) (\<lambda>iu. cj_get J iu (lit ''url''))) (cj_string_value J)"

text \<open>One part: the id to add, and the missing URL so far.\<close>

definition apply_part :: "'j cjson_api \<Rightarrow> file_cache \<Rightarrow> int \<Rightarrow> 'j \<Rightarrow> cstr option \<Rightarrow> tape \<Rightarrow> (errno + cstr option) \<times> cstr option \<times> tape" where
  "apply_part J c now part missing t =
     (case part_url J part of None \<Rightarrow> (Inr None, missing, t)
      | Some url \<Rightarrow>
        if take 5 url \<noteq> lit ''data:'' then (Inr None, missing, t)
        else
          let e = map_option ((!) (ents c)) (files_find c url) in
          if e \<noteq> None \<and> live now (the e) then
            (let (ok, t) = alloc t in (if ok then Inr (fe_id (the e)) else Inl ENOMEM, missing, t))
          else (Inr None, (if missing = None \<and> (e = None \<or> fe_id (the e) \<noteq> None) then Some url else missing), t))"

type_synonym file_edit = "nat \<times> nat \<times> cstr"

fun apply_parts :: "'j cjson_api \<Rightarrow> file_cache \<Rightarrow> int \<Rightarrow> nat \<Rightarrow> nat \<Rightarrow> 'j list \<Rightarrow> file_edit list \<Rightarrow> cstr option \<Rightarrow> tape
    \<Rightarrow> (errno + unit) \<times> file_edit list \<times> cstr option \<times> tape" where
  "apply_parts J c now m p [] eds missing t = (Inr (), eds, missing, t)"
| "apply_parts J c now m p (part # parts) eds missing t =
     (case apply_part J c now part missing t of
        (Inl e, missing, t) \<Rightarrow> (Inl e, eds, missing, t)
      | (Inr i, missing, t) \<Rightarrow>
        apply_parts J c now m (p + 1) parts (case i of None \<Rightarrow> eds | Some i \<Rightarrow> eds @ [(m, p, i)]) missing t)"

definition content_array :: "'j cjson_api \<Rightarrow> 'j \<Rightarrow> 'j list" where
  "content_array J msg = (case cj_get J msg (lit ''content'') of None \<Rightarrow> [] | Some x \<Rightarrow> if cj_is_array J x then cj_items J x else [])"

fun apply_messages :: "'j cjson_api \<Rightarrow> file_cache \<Rightarrow> int \<Rightarrow> nat \<Rightarrow> 'j list \<Rightarrow> file_edit list \<Rightarrow> cstr option \<Rightarrow> tape
    \<Rightarrow> (errno + unit) \<times> file_edit list \<times> cstr option \<times> tape" where
  "apply_messages J c now m [] eds missing t = (Inr (), eds, missing, t)"
| "apply_messages J c now m (msg # msgs) eds missing t =
     (case apply_parts J c now m 0 (content_array J msg) eds missing t of
        (Inl e, eds, missing, t) \<Rightarrow> (Inl e, eds, missing, t)
      | (Inr _, eds, missing, t) \<Rightarrow> apply_messages J c now (m + 1) msgs eds missing t)"

definition clm_files_apply :: "'j cjson_api \<Rightarrow> file_cache \<Rightarrow> int \<Rightarrow> 'j \<Rightarrow> tape \<Rightarrow> (errno + unit) \<times> file_edit list \<times> cstr option \<times> tape" where
  "clm_files_apply J c now messages t = apply_messages J c now 0 (cj_items J messages) [] None t"

section \<open>The body of an upload\<close>

definition starts_with :: "byte list \<Rightarrow> byte list \<Rightarrow> bool" where
  "starts_with p s \<longleftrightarrow> take (length p) s = p"

text \<open>\<^verbatim>\<open>strstr\<close> and \<^verbatim>\<open>memmem\<close>: the index of the first occurrence.\<close>

fun find_sub :: "byte list \<Rightarrow> byte list \<Rightarrow> nat option" where
  "find_sub p [] = (if p = [] then Some 0 else None)"
| "find_sub p (x # xs) = (if starts_with p (x # xs) then Some 0 else map_option Suc (find_sub p xs))"

definition crlf :: cstr where "crlf = [0x0D, 0x0A]"
definition quoted2 :: "cstr \<Rightarrow> cstr" where "quoted2 s = 0x22 # s @ [0x22]"

definition boundary_of :: "cstr \<Rightarrow> cstr" where
  "boundary_of url = lit ''clm-'' @ hex_fixed 16 (unat (file_hash url))"

definition part_head :: "cstr \<Rightarrow> cstr \<Rightarrow> cstr" where
  "part_head bnd mt = lit ''--'' @ bnd @ crlf @ lit ''Content-Disposition: form-data; name='' @ quoted2 (lit ''file'') @ lit ''; filename=''
     @ quoted2 (lit ''image'') @ crlf @ lit ''Content-Type: '' @ mt @ crlf @ crlf"

definition part_tail :: "cstr \<Rightarrow> cstr" where
  "part_tail bnd = crlf @ lit ''--'' @ bnd @ crlf @ lit ''Content-Disposition: form-data; name='' @ quoted2 (lit ''expires_in_seconds'')
     @ crlf @ crlf @ dec CLM_FILE_EXPIRES_SECS @ crlf @ lit ''--'' @ bnd @ lit ''--'' @ crlf"

definition clm_files_multipart :: "cstr \<Rightarrow> tape \<Rightarrow> (cstr \<times> byte list) option \<times> tape" where
  "clm_files_multipart url t =
     (case find_sub (lit '';base64,'') url of None \<Rightarrow> (None, t)
      | Some semi \<Rightarrow>
        if \<not> starts_with (lit ''data:'') url \<or> semi - 5 > 64 then (None, t)
        else
          let (ok, t) = alloc t in
          if \<not> ok then (None, t)
          else case clm_base64_decode (drop (semi + 8) url) of Inl _ \<Rightarrow> (None, t)
          | Inr raw \<Rightarrow>
            let bnd = boundary_of url in
            if find_sub bnd raw \<noteq> None then (None, t)
            else
              let head = part_head bnd (take (semi - 5) (drop 5 url)); tail = part_tail bnd in
              if length head \<ge> 512 \<or> length tail \<ge> 256 then (None, t)
              else let (ok, t) = alloc t in
                (if ok then Some (bnd, head @ raw @ tail) else None, t))"

section \<open>Ids and addresses\<close>

definition plain_id_char :: "byte \<Rightarrow> bool" where
  "plain_id_char b \<longleftrightarrow> 0x61 \<le> b \<and> b \<le> 0x7A \<or> 0x41 \<le> b \<and> b \<le> 0x5A \<or> 0x30 \<le> b \<and> b \<le> 0x39 \<or> b = 0x5F \<or> b = 0x2D"

definition clm_files_parse_id :: "'j cjson_api \<Rightarrow> cstr option \<Rightarrow> tape \<Rightarrow> cstr option \<times> tape" where
  "clm_files_parse_id J body t =
     (case Option.bind (Option.bind (Option.bind body (cj_parse J)) (\<lambda>root. cj_get J root (lit ''id''))) (cj_string_value J) of
        None \<Rightarrow> (None, t)
      | Some i \<Rightarrow>
        if i \<noteq> [] \<and> length i < 256 \<and> list_all plain_id_char i then (let (ok, t) = alloc t in (if ok then Some i else None, t))
        else (None, t))"

definition clm_files_url :: "cstr \<Rightarrow> tape \<Rightarrow> cstr option \<times> tape" where
  "clm_files_url base_url t =
     (let n = length base_url; sn = length (lit ''/messages'') in
      if n < sn \<or> drop (n - sn) base_url \<noteq> lit ''/messages'' then (None, t)
      else let (ok, t) = alloc t in (if ok then Some (take (n - sn) base_url @ lit ''/files'') else None, t))"

section \<open>What the cache keeps\<close>

definition key_of :: "clm_file_ent \<Rightarrow> u64 \<times> nat" where
  "key_of e = (fe_hash e, fe_len e)"

definition cache_ok :: "file_cache \<Rightarrow> bool" where
  "cache_ok c \<longleftrightarrow> distinct (map key_of (ents c)) \<and> length (ents c) \<le> cap_files c \<and> length (ents c) \<le> CLM_FILES_MAX"

definition lookup :: "file_cache \<Rightarrow> cstr \<Rightarrow> clm_file_ent option" where
  "lookup c url = map_option ((!) (ents c)) (files_find c url)"

lemma find_index_Some: "find_index P xs = Some i \<Longrightarrow> i < length xs \<and> P (xs ! i) \<and> (\<forall>j < i. \<not> P (xs ! j))"
proof (induction xs arbitrary: i)
  case (Cons x xs)
  then show ?case by (cases i) (auto simp: less_Suc_eq_0_disj split: if_splits)
qed simp

lemma find_index_None: "find_index P xs = None \<longleftrightarrow> (\<forall>x \<in> set xs. \<not> P x)"
  by (induction xs) auto

lemma lookup_eq: "lookup c url = find (is_ent url) (ents c)"
proof -
  have "map_option ((!) xs) (find_index P xs) = find P xs" for P and xs :: "'a list"
    by (induction xs) (auto simp: option.map_comp o_def)
  then show ?thesis by (simp add: lookup_def files_find_def)
qed

lemma is_ent_key: "is_ent url e \<longleftrightarrow> key_of e = (file_hash url, length url)"
  by (simp add: is_ent_def key_of_def)

lemma find_update:
  assumes "i < length xs" "\<And>x. P (f x) = P x"
  shows "find P (xs[i := f (xs ! i)]) = (if find_index P xs = Some i then Some (f (xs ! i)) else find P xs)"
  using assms
proof (induction xs arbitrary: i)
  case (Cons x xs)
  then show ?case by (cases i) auto
qed simp

lemma find_append: "find P (xs @ ys) = (case find P xs of None \<Rightarrow> find P ys | Some x \<Rightarrow> Some x)"
  by (induction xs) auto

text \<open>C29 (type). The upload cache keeps its shape under every sequence of operations: one entry per key, never more entries than the
  array has room for and never more than 1024. A recorded upload is what the next lookup of its URL finds, and other URLs
  find what they found before unless they agree in hash and length.\<close>

theorem files_add_lookup:
  assumes "cache_ok c" "clm_files_add url fid now t c = (r, t', c')"
  shows "cache_ok c' \<and> (r = Inr () \<longrightarrow> (\<exists>e. lookup c' url = Some e \<and> fe_id e = fid \<and> fe_when e = now))
    \<and> (\<forall>u. r \<noteq> Inr () \<or> (file_hash u, length u) \<noteq> (file_hash url, length url) \<longrightarrow> lookup c' u = lookup c u)"
proof -
  obtain ok t1 where o: "opt_strdup t fid = (ok, t1)" by fastforce
  show ?thesis
  proof (cases "ok \<and> (files_find c url = None \<longrightarrow> length (ents c) < CLM_FILES_MAX)")
    case False
    then have "c' = c" "r \<noteq> Inr ()" using assms(2) o by (auto simp: clm_files_add_def split: option.splits if_splits)
    then show ?thesis using assms(1) by simp
  next
    case True
    show ?thesis
    proof (cases "files_find c url")
      case (Some i)
      let ?f = "\<lambda>e. e\<lparr>fe_id := fid, fe_when := now\<rparr>"
      note fi = find_index_Some [OF Some [unfolded files_find_def]]
      have c': "c' = c\<lparr>ents := (ents c)[i := ?f (ents c ! i)]\<rparr>" "r = Inr ()" using assms(2) o True Some by (auto simp: clm_files_add_def)
      have k: "key_of (?f e) = key_of e" for e by (simp add: key_of_def)
      have "map key_of (ents c') = map key_of (ents c)"
        using fi by (auto simp: c' map_update k nth_list_update intro!: nth_equalityI)
      then have "cache_ok c'" using assms(1) by (simp add: cache_ok_def c')
      moreover have lk: "lookup c' u = (if find_index (is_ent u) (ents c) = Some i then Some (?f (ents c ! i)) else lookup c u)" for u
        unfolding lookup_eq c' using find_update [of i "ents c" "is_ent u" ?f] fi by (simp add: is_ent_key k)
      moreover have "find_index (is_ent u) (ents c) \<noteq> Some i" if "(file_hash u, length u) \<noteq> (file_hash url, length url)" for u
        using fi that find_index_Some [of "is_ent u" "ents c" i] by (auto simp: is_ent_key)
      ultimately show ?thesis using Some c'(2) by (auto simp: files_find_def)
    next
      case None
      let ?e = "\<lparr>fe_hash = file_hash url, fe_len = length url, fe_id = fid, fe_when = now\<rparr>"
      have n: "\<forall>e \<in> set (ents c). \<not> is_ent url e" using None by (simp add: files_find_def find_index_None)
      have lt: "length (ents c) < CLM_FILES_MAX" using True None by simp
      obtain ok2 t2 c2 where g: "(if length (ents c) = cap_files c then
                (let (ok, t) = alloc t1 in (ok, t, if ok then c\<lparr>cap_files := (if cap_files c \<noteq> 0 then cap_files c * 2 else 8)\<rparr> else c))
              else (True, t1, c)) = (ok2, t2, c2)" by (rule prod_cases3)
      have c2: "ents c2 = ents c \<and> (\<not> ok2 \<longrightarrow> c2 = c) \<and> (ok2 \<longrightarrow> length (ents c) < cap_files c2)"
      proof (cases "length (ents c) = cap_files c")
        case True
        then show ?thesis using g by (cases "alloc t1") (auto simp: Let_def)
      next
        case False
        then have "c2 = c" using g by simp
        then show ?thesis using False assms(1) by (simp add: cache_ok_def)
      qed
      have eq: "(r, t', c') = (if \<not> ok2 then (Inl ENOMEM, t2, c2) else (Inr (), t2, c2\<lparr>ents := ents c2 @ [?e]\<rparr>))"
        using assms(2) o True None lt g unfolding clm_files_add_def by (simp add: Let_def)
      show ?thesis
      proof (cases ok2)
        case False
        then show ?thesis using eq c2 assms(1) by auto
      next
        case ok: True
        then have c': "ents c' = ents c @ [?e]" "cap_files c' = cap_files c2" "r = Inr ()" using eq c2 by auto
        have "key_of ?e \<notin> key_of ` set (ents c)" using n by (force simp: is_ent_key key_of_def)
        then have "cache_ok c'" using assms(1) c' c2 ok lt by (simp add: cache_ok_def)
        moreover have "lookup c' u = (case lookup c u of None \<Rightarrow> if is_ent u ?e then Some ?e else None | Some e \<Rightarrow> Some e)" for u
          unfolding lookup_eq c' find_append by (simp split: option.split)
        moreover have "lookup c url = None" using n by (simp add: lookup_eq find_None_iff)
        ultimately show ?thesis using c'(3) by (auto simp: is_ent_def split: option.splits)
      qed
    qed
  qed
qed

definition empty_cache :: file_cache where "empty_cache = \<lparr>ents = [], cap_files = 0\<rparr>"

theorem files_add_lookup_witness:
  "\<exists>e. lookup (snd (snd (clm_files_add (lit ''u'') (Some (lit ''f1'')) 5 [] empty_cache))) (lit ''u'') = Some e \<and> fe_id e = Some (lit ''f1'')"
proof -
  have "cache_ok empty_cache" by (simp add: cache_ok_def empty_cache_def)
  moreover have "clm_files_add (lit ''u'') (Some (lit ''f1'')) 5 [] empty_cache
      = (Inr (), fst (snd (clm_files_add (lit ''u'') (Some (lit ''f1'')) 5 [] empty_cache)), snd (snd (clm_files_add (lit ''u'') (Some (lit ''f1'')) 5 [] empty_cache)))"
    by (simp add: clm_files_add_def empty_cache_def opt_strdup_def files_find_def CLM_FILES_MAX_def)
  ultimately show ?thesis using files_add_lookup by blast
qed

section \<open>What a request names\<close>

definition data_url :: "'j cjson_api \<Rightarrow> 'j \<Rightarrow> cstr option" where
  "data_url J part = (case part_url J part of None \<Rightarrow> None | Some url \<Rightarrow> if take 5 url = lit ''data:'' then Some url else None)"

definition upload_of :: "'j cjson_api \<Rightarrow> file_cache \<Rightarrow> int \<Rightarrow> 'j \<Rightarrow> cstr option" where
  "upload_of J c now part = (case Option.bind (data_url J part) (lookup c) of None \<Rightarrow> None | Some e \<Rightarrow> if live now e then fe_id e else None)"

definition needs_upload :: "'j cjson_api \<Rightarrow> file_cache \<Rightarrow> int \<Rightarrow> 'j \<Rightarrow> bool" where
  "needs_upload J c now part = (case data_url J part of None \<Rightarrow> False
     | Some url \<Rightarrow> (case lookup c url of None \<Rightarrow> True | Some e \<Rightarrow> fe_id e \<noteq> None \<and> \<not> live now e))"

definition first_of :: "cstr option \<Rightarrow> cstr option \<Rightarrow> cstr option" where
  "first_of a b = (case a of None \<Rightarrow> b | Some x \<Rightarrow> Some x)"

definition part_edits :: "'j cjson_api \<Rightarrow> file_cache \<Rightarrow> int \<Rightarrow> nat \<Rightarrow> nat \<Rightarrow> 'j list \<Rightarrow> file_edit list" where
  "part_edits J c now m p parts = List.map_filter (\<lambda>(i, part). map_option (\<lambda>x. (m, i, x)) (upload_of J c now part)) (List.enumerate p parts)"

lemma apply_part_eq:
  "apply_part J c now part missing [] =
     (Inr (upload_of J c now part), first_of missing (if needs_upload J c now part then data_url J part else None), [])"
proof (cases "data_url J part")
  case None
  then show ?thesis by (auto simp: apply_part_def data_url_def upload_of_def needs_upload_def first_of_def split: option.splits if_splits)
next
  case (Some url)
  then have u: "part_url J part = Some url" "take 5 url = lit ''data:''" by (auto simp: data_url_def split: option.splits if_splits)
  then show ?thesis
    using Some by (cases "lookup c url") (auto simp: apply_part_def upload_of_def needs_upload_def first_of_def lookup_def live_def split: option.splits)
qed

lemma first_of_assoc: "first_of (first_of a b) d = first_of a (first_of b d)" "first_of a None = a" "first_of None a = a"
  by (auto simp: first_of_def split: option.split)

definition missing_in :: "'j cjson_api \<Rightarrow> file_cache \<Rightarrow> int \<Rightarrow> 'j list \<Rightarrow> cstr option" where
  "missing_in J c now parts = Option.bind (find (needs_upload J c now) parts) (data_url J)"

lemma missing_in_simps:
  "missing_in J c now [] = None"
  "missing_in J c now (part # parts) = first_of (if needs_upload J c now part then data_url J part else None) (missing_in J c now parts)"
  "missing_in J c now (ps @ qs) = first_of (missing_in J c now ps) (missing_in J c now qs)"
proof -
  show c: "missing_in J c now (part # parts) = first_of (if needs_upload J c now part then data_url J part else None) (missing_in J c now parts)" for part parts
    by (auto simp: missing_in_def first_of_def needs_upload_def split: option.splits)
  show n: "missing_in J c now [] = None" by (simp add: missing_in_def)
  show "missing_in J c now (ps @ qs) = first_of (missing_in J c now ps) (missing_in J c now qs)"
    by (induction ps) (simp_all add: c n first_of_assoc)
qed

lemma apply_parts_eq:
  "apply_parts J c now m p parts eds missing [] =
     (Inr (), eds @ part_edits J c now m p parts, first_of missing (missing_in J c now parts), [])"
proof (induction parts arbitrary: p eds missing)
  case Nil
  then show ?case by (simp add: part_edits_def missing_in_simps first_of_assoc map_filter_simps)
next
  case (Cons part parts)
  then show ?case
    by (auto simp: apply_part_eq part_edits_def missing_in_simps first_of_assoc map_filter_simps split: option.split)
qed

definition message_edits :: "'j cjson_api \<Rightarrow> file_cache \<Rightarrow> int \<Rightarrow> nat \<Rightarrow> 'j list \<Rightarrow> file_edit list" where
  "message_edits J c now m msgs = concat (map (\<lambda>(i, msg). part_edits J c now i 0 (content_array J msg)) (List.enumerate m msgs))"

lemma apply_messages_eq:
  "apply_messages J c now m msgs eds missing [] =
     (Inr (), eds @ message_edits J c now m msgs, first_of missing (missing_in J c now (concat (map (content_array J) msgs))), [])"
  by (induction msgs arbitrary: m eds missing) (simp_all add: apply_parts_eq message_edits_def missing_in_simps first_of_assoc)

lemma in_map_filter: "y \<in> set (List.map_filter f xs) \<longleftrightarrow> (\<exists>x \<in> set xs. f x = Some y)"
  by (induction xs) (auto simp: map_filter_simps split: option.splits)

text \<open>(functional). A request names exactly the images whose upload is still good, each by the id recorded for it, and the image
  reported as missing is the first that was never uploaded or whose upload has expired; an image whose upload failed
  stays inline and is not reported.\<close>

theorem files_apply_exact:
  "\<exists>eds. clm_files_apply J c now messages [] = (Inr (), eds, missing_in J c now (concat (map (content_array J) (cj_items J messages))), [])
    \<and> set eds = {(m, p, x). m < length (cj_items J messages) \<and> p < length (content_array J ((cj_items J messages) ! m)) \<and> upload_of J c now (content_array J ((cj_items J messages) ! m) ! p) = Some x}"
proof -
  define msgs where "msgs = cj_items J messages"
  have "clm_files_apply J c now messages [] = (Inr (), message_edits J c now 0 msgs, missing_in J c now (concat (map (content_array J) msgs)), [])"
    unfolding clm_files_apply_def apply_messages_eq msgs_def by (simp add: first_of_assoc)
  moreover have pe: "(m, p, x) \<in> set (part_edits J c now i 0 parts) \<longleftrightarrow> m = i \<and> p < length parts \<and> upload_of J c now (parts ! p) = Some x" for m p x i parts
    unfolding part_edits_def in_map_filter by (auto simp: in_set_enumerate_eq intro: bexI [of _ "(p, parts ! p)"])
  have "(m, p, x) \<in> set (message_edits J c now 0 msgs) \<longleftrightarrow>
      m < length msgs \<and> p < length (content_array J (msgs ! m)) \<and> upload_of J c now (content_array J (msgs ! m) ! p) = Some x" for m p x
  proof -
    have "(m, p, x) \<in> set (message_edits J c now 0 msgs) \<longleftrightarrow> (\<exists>i msg. (i, msg) \<in> set (List.enumerate 0 msgs) \<and> (m, p, x) \<in> set (part_edits J c now i 0 (content_array J msg)))"
      by (auto simp: message_edits_def)
    then show ?thesis unfolding pe in_set_enumerate_eq by auto
  qed
  then have "set (message_edits J c now 0 msgs) = {(m, p, x). m < length msgs \<and> p < length (content_array J (msgs ! m)) \<and> upload_of J c now (content_array J (msgs ! m) ! p) = Some x}"
    by (intro set_eqI) (clarsimp split: prod.split)
  ultimately show ?thesis unfolding msgs_def by blast
qed

section \<open>Uploads carry the image\<close>

lemma find_sub_skip: "x \<notin> set ys \<Longrightarrow> find_sub (x # p) (ys @ zs) = map_option (\<lambda>n. n + length ys) (find_sub (x # p) zs)"
  by (induction ys) (auto simp: starts_with_def option.map_comp o_def option.map_ident)

lemma find_sub_here: "find_sub p (p @ zs) = Some 0"
proof (cases "p @ zs")
  case (Cons a l)
  have "starts_with p (p @ zs)" by (simp add: starts_with_def)
  then show ?thesis using Cons by simp
qed simp

lemma length_boundary: "length (boundary_of url) = 20"
  by (simp add: boundary_of_def)

text \<open>C30 (roundtrip). The data URL that a message carries for an image becomes an upload whose body holds the bytes of the image between
  the part headers, with a boundary that does not occur in the image; only an image that contains the boundary itself
  is refused.\<close>

theorem files_multipart_carries_image:
  assumes "url = lit ''data:'' @ mt @ lit '';base64,'' @ clm_base64_encode d" "0x3B \<notin> set mt" "length mt \<le> 64"
  shows "clm_files_multipart url [] =
    (if find_sub (boundary_of url) d = None then Some (boundary_of url, part_head (boundary_of url) mt @ d @ part_tail (boundary_of url)) else None, [])"
proof -
  have semi: "lit '';base64,'' = 0x3B # lit ''base64,''" by simp
  have nd: "0x3B \<notin> set (lit ''data:'' @ mt)" using assms(2) by simp
  have f: "find_sub (lit '';base64,'') url = Some (5 + length mt)"
    unfolding assms(1) semi append_assoc [symmetric, of "lit ''data:''"] using find_sub_skip [OF nd, of "lit ''base64,''"] find_sub_here [of "0x3B # lit ''base64,''"]
    by (simp del: lit_Cons)
  have st: "starts_with (lit ''data:'') url" by (simp add: starts_with_def assms(1))
  have "url = (lit ''data:'' @ mt @ lit '';base64,'') @ clm_base64_encode d" "length (lit ''data:'' @ mt @ lit '';base64,'') = 5 + length mt + 8"
    by (simp_all add: assms(1))
  then have dr: "drop (5 + length mt + 8) url = clm_base64_encode d" by (metis append_eq_conv_conj)
  have dr2: "take (5 + length mt - 5) (drop 5 url) = mt" by (simp add: assms(1))
  have dc: "clm_base64_decode (clm_base64_encode d) = Inr d" using decode_encode_iff by blast
  have hl: "length (part_head (boundary_of url) mt) < 512" using assms(3) by (simp add: part_head_def crlf_def quoted2_def length_boundary)
  have "length (dec CLM_FILE_EXPIRES_SECS) = 7" by (simp add: CLM_FILE_EXPIRES_SECS_def dec.simps)
  then have tl: "length (part_tail (boundary_of url)) < 256" by (simp add: part_tail_def crlf_def quoted2_def length_boundary)
  show ?thesis unfolding clm_files_multipart_def f option.case Let_def alloc.simps prod.case dr dr2 dc sum.case
    using st assms(3) hl tl by (simp del: lit_Cons)
qed

theorem files_multipart_carries_image_witness:
  "\<exists>bnd. fst (clm_files_multipart (lit ''data:'' @ lit ''image/png'' @ lit '';base64,'' @ clm_base64_encode [1, 2]) [])
     = Some (bnd, part_head bnd (lit ''image/png'') @ [1, 2] @ part_tail bnd)"
proof -
  let ?u = "lit ''data:'' @ lit ''image/png'' @ lit '';base64,'' @ clm_base64_encode [1, 2]"
  have l: "length (boundary_of ?u) = 20" by (rule length_boundary)
  have long: "find_sub p d = None" if "length p > length d" for p d :: "byte list"
    using that by (induction d) (auto simp: starts_with_def dest: arg_cong [where f = length])
  have "find_sub (boundary_of ?u) [1, 2] = None" by (rule long) (simp add: l del: lit_Cons)
  moreover have "0x3B \<notin> set (lit ''image/png'')" by simp
  ultimately have "fst (clm_files_multipart ?u []) = Some (boundary_of ?u, part_head (boundary_of ?u) (lit ''image/png'') @ [1, 2] @ part_tail (boundary_of ?u))"
    using files_multipart_carries_image [of ?u "lit ''image/png''" "[1, 2]"] by (simp del: lit_Cons find_sub.simps)
  then show ?thesis by blast
qed

end
