(* ===== verification/Agent_Stream.thy ===== *)
theory Agent_Stream
  imports Files Complex_Main
begin

text \<open>
  Streamed responses, the event-stream parser of \<^verbatim>\<open>libclm/agent.c\<close>: the growing buffers, the split of the bytes into lines,
  the events, and the assembly of text, tool calls, usage and errors from them. The response normalizer of the provider
  is a function of the environment, as it is a function pointer in the code. Passing NULL to \<^verbatim>\<open>strdup\<close> is
  undefined: there the result is \<open>None\<close>.
\<close>

section \<open>Growing buffers\<close>

record strbuf =
  sb_buf :: "cstr option"
  sb_cap :: nat

definition sb_null :: strbuf where "sb_null = \<lparr>sb_buf = None, sb_cap = 0\<rparr>"

definition sb_str :: "strbuf \<Rightarrow> cstr" where
  "sb_str sb = (case sb_buf sb of None \<Rightarrow> [] | Some s \<Rightarrow> s)"

function grow_cap :: "nat \<Rightarrow> nat \<Rightarrow> nat" where
  "grow_cap nc need = (if nc < need \<and> nc \<noteq> 0 then grow_cap (nc * 2) need else nc)"
  by auto
termination by (relation "measure (\<lambda>(nc, need). need - nc)") auto

declare grow_cap.simps [simp del]

definition sb_append :: "tape \<Rightarrow> strbuf \<Rightarrow> byte list \<Rightarrow> (errno + unit) \<times> tape \<times> strbuf" where
  "sb_append t sb d =
     (let n = length (sb_str sb) + length d + 1 in
      if n > sb_cap sb then
        let nc = grow_cap (if sb_cap sb \<noteq> 0 then sb_cap sb else 256) n; (ok, t) = alloc t in
        if \<not> ok then (Inl ENOMEM, t, sb) else (Inr (), t, \<lparr>sb_buf = Some (sb_str sb @ d), sb_cap = nc\<rparr>)
      else (Inr (), t, sb\<lparr>sb_buf := Some (sb_str sb @ d)\<rparr>))"

text \<open>The terminating NUL of the contents is inside the allocation.\<close>

definition sb_ok :: "strbuf \<Rightarrow> bool" where
  "sb_ok sb \<longleftrightarrow> (case sb_buf sb of None \<Rightarrow> sb_cap sb = 0 | Some s \<Rightarrow> length s + 1 \<le> sb_cap sb)"

section \<open>The state of a turn and what a stream changes of the agent\<close>

record stream_call =
  sc_id :: "cstr option"
  sc_name :: "cstr option"
  sc_args :: strbuf

definition empty_call :: stream_call where
  "empty_call = \<lparr>sc_id = None, sc_name = None, sc_args = sb_null\<rparr>"

record clm_usage =
  prompt_tokens :: int
  completion_tokens :: int
  total_tokens :: int
  cache_read_tokens :: int
  cache_write_tokens :: int
  tokens_per_sec :: real

definition no_usage :: clm_usage where
  "no_usage = \<lparr>prompt_tokens = 0, completion_tokens = 0, total_tokens = 0, cache_read_tokens = 0, cache_write_tokens = 0, tokens_per_sec = 0\<rparr>"

datatype clm_finish_reason = CLM_FINISH_STOP | CLM_FINISH_LENGTH | CLM_FINISH_TOOL_CALLS | CLM_FINISH_CONTENT_FILTER
  | CLM_FINISH_OTHER | CLM_FINISH_EMPTY

record 'p async_turn =
  t_line :: strbuf
  t_content :: strbuf
  t_calls :: "stream_call list"
  t_finish :: "cstr option"
  t_usage :: clm_usage
  t_have_usage :: bool
  t_tps :: real
  t_msgs :: nat
  t_retries :: nat
  t_advice :: "cstr option"
  t_pstate :: "'p option"

text \<open>What the callbacks are called with, in order.\<close>

datatype stream_out = OnText cstr | OnReasoning cstr

record stream_agent =
  a_error :: "cstr option"
  a_chain_id :: "cstr option"
  a_chain_sent :: nat
  a_cancelling :: bool
  a_out :: "stream_out list"

text \<open>
  What the parser calls: cJSON, the conversion of a JSON number to \<^verbatim>\<open>int\<close> and to a double (a real number here), and the
  provider's normalizer of stream events, if it has one.
\<close>

record ('j, 'p) stream_env =
  se_api :: "'j cjson_api"
  se_int :: "'j \<Rightarrow> int"
  se_num :: "'j \<Rightarrow> real"
  se_normalize :: "('j \<Rightarrow> 'p option \<Rightarrow> 'j option \<times> 'p option) option"

section \<open>Strings of a response\<close>

definition dup :: "tape \<Rightarrow> cstr \<Rightarrow> cstr option \<times> tape" where
  "dup t s = (let (ok, t) = alloc t in (if ok then Some s else None, t))"

text \<open>\<^verbatim>\<open>strcasestr\<close>.\<close>

definition contains_ci :: "cstr \<Rightarrow> cstr \<Rightarrow> bool" where
  "contains_ci s p \<longleftrightarrow> find_sub (map to_lower p) (map to_lower s) \<noteq> None"

definition is_rate_limit_message :: "cstr option \<Rightarrow> bool" where
  "is_rate_limit_message msg = (case msg of None \<Rightarrow> False | Some m \<Rightarrow> contains_ci m (lit ''rate limit'') \<or> contains_ci m (lit ''rate_limit''))"

text \<open>The string under a key, if the item there is a string.\<close>

definition get_str :: "'j cjson_api \<Rightarrow> 'j \<Rightarrow> cstr \<Rightarrow> cstr option" where
  "get_str J ob k = Option.bind (cj_get J ob k) (\<lambda>v. if cj_is_string J v then cj_string_value J v else None)"

definition response_error_message :: "'j cjson_api \<Rightarrow> 'j \<Rightarrow> cstr option" where
  "response_error_message J parsed = Option.bind (cj_get J parsed (lit ''error'')) (\<lambda>e. if cj_is_object J e then get_str J e (lit ''message'') else None)"

definition stream_error_message :: "'j cjson_api \<Rightarrow> 'j \<Rightarrow> cstr option" where
  "stream_error_message J raw =
     (case response_error_message J raw of Some m \<Rightarrow> Some m
      | None \<Rightarrow> if cj_get_string J raw (lit ''type'') = Some (lit ''error'') then cj_get_string J raw (lit ''message'') else None)"

definition array_head :: "'j cjson_api \<Rightarrow> 'j \<Rightarrow> 'j option" where
  "array_head J a = (case cj_items J a of [] \<Rightarrow> None | x # _ \<Rightarrow> Some x)"

definition response_finish_reason :: "'j cjson_api \<Rightarrow> 'j \<Rightarrow> cstr option" where
  "response_finish_reason J parsed =
     Option.bind (Option.bind (cj_get J parsed (lit ''choices'')) (array_head J)) (\<lambda>c. get_str J c (lit ''finish_reason''))"

definition response_message :: "'j cjson_api \<Rightarrow> 'j \<Rightarrow> 'j option" where
  "response_message J parsed =
     Option.bind (cj_get J parsed (lit ''choices'')) (\<lambda>cs. if cj_is_array J cs then Option.bind (array_head J cs) (\<lambda>c. cj_get J c (lit ''message'')) else None)"

definition finish_from_str :: "cstr option \<Rightarrow> clm_finish_reason" where
  "finish_from_str s =
     (if s = Some (lit ''stop'') then CLM_FINISH_STOP
      else if s = Some (lit ''length'') then CLM_FINISH_LENGTH
      else if s = Some (lit ''tool_calls'') then CLM_FINISH_TOOL_CALLS
      else if s = Some (lit ''content_filter'') then CLM_FINISH_CONTENT_FILTER
      else CLM_FINISH_OTHER)"

section \<open>Usage\<close>

definition timings_tps :: "('j, 'p) stream_env \<Rightarrow> 'j \<Rightarrow> real" where
  "timings_tps E rt =
     (case cj_get (se_api E) rt (lit ''timings'') of None \<Rightarrow> 0
      | Some x \<Rightarrow> if \<not> cj_is_object (se_api E) x then 0
        else case cj_get (se_api E) x (lit ''predicted_per_second'') of None \<Rightarrow> 0
        | Some v \<Rightarrow> if cj_is_number (se_api E) v then se_num E v else 0)"

definition usage_field :: "('j, 'p) stream_env \<Rightarrow> 'j \<Rightarrow> cstr \<Rightarrow> int" where
  "usage_field E u k = (case cj_get (se_api E) u k of None \<Rightarrow> 0 | Some v \<Rightarrow> se_int E v)"

definition extract_usage :: "('j, 'p) stream_env \<Rightarrow> 'j \<Rightarrow> clm_usage option" where
  "extract_usage E rt =
     (case cj_get (se_api E) rt (lit ''usage'') of None \<Rightarrow> None
      | Some u \<Rightarrow> if \<not> cj_is_object (se_api E) u then None
        else Some \<lparr>prompt_tokens = usage_field E u (lit ''prompt_tokens''), completion_tokens = usage_field E u (lit ''completion_tokens''),
          total_tokens = usage_field E u (lit ''total_tokens''),
          cache_read_tokens =
            (case cj_get (se_api E) u (lit ''prompt_tokens_details'') of None \<Rightarrow> usage_field E u (lit ''cache_read_tokens'')
             | Some d \<Rightarrow> case if cj_is_object (se_api E) d then cj_get (se_api E) d (lit ''cached_tokens'') else None of
                 None \<Rightarrow> usage_field E u (lit ''cache_read_tokens'') | Some v \<Rightarrow> se_int E v),
          cache_write_tokens = usage_field E u (lit ''cache_write_tokens''), tokens_per_sec = timings_tps E rt\<rparr>)"

section \<open>Notes on the agent\<close>

definition clm_agent_set_error :: "cstr option \<Rightarrow> tape \<Rightarrow> 'a stream_agent_scheme \<Rightarrow> tape \<times> 'a stream_agent_scheme" where
  "clm_agent_set_error msg t a =
     (case msg of None \<Rightarrow> (t, a\<lparr>a_error := None\<rparr>) | Some m \<Rightarrow> let (e, t) = dup t m in (t, a\<lparr>a_error := e\<rparr>))"

definition clm_agent_chain_reset :: "'a stream_agent_scheme \<Rightarrow> 'a stream_agent_scheme" where
  "clm_agent_chain_reset a = a\<lparr>a_chain_id := None, a_chain_sent := 0\<rparr>"

definition chain_note_response :: "'j cjson_api \<Rightarrow> 'j \<Rightarrow> nat \<Rightarrow> tape \<Rightarrow> 'a stream_agent_scheme \<Rightarrow> tape \<times> 'a stream_agent_scheme" where
  "chain_note_response J parsed msgs t a =
     (case get_str J parsed (lit ''provider_response_id'') of None \<Rightarrow> (t, a)
      | Some rid \<Rightarrow> if rid = [] then (t, a)
        else let (s, t) = dup t rid in (t, a\<lparr>a_chain_id := s, a_chain_sent := if s \<noteq> None then msgs else 0\<rparr>))"

definition stream_note_error :: "cstr option \<Rightarrow> tape \<Rightarrow> 'p async_turn \<Rightarrow> 'a stream_agent_scheme \<Rightarrow> tape \<times> 'p async_turn \<times> 'a stream_agent_scheme" where
  "stream_note_error emsg t turn a =
     (case emsg of None \<Rightarrow> (t, turn, a)
      | Some m \<Rightarrow>
        let (t, a) = clm_agent_set_error (Some m) t a;
            (t, turn) = (if is_rate_limit_message (Some m) then let (s, t) = dup t m in (t, turn\<lparr>t_advice := s\<rparr>) else (t, turn));
            (t, turn) = (if t_finish turn = None then let (s, t) = dup t (lit ''error'') in (t, turn\<lparr>t_finish := s\<rparr>) else (t, turn))
        in (t, turn, a))"

section \<open>Tool calls\<close>

definition stream_get_call :: "nat \<Rightarrow> tape \<Rightarrow> stream_call list \<Rightarrow> bool \<times> tape \<times> stream_call list" where
  "stream_get_call ix t cls =
     (if ix \<ge> length cls then
        let (ok, t) = alloc t in (ok, t, if ok then cls @ replicate (ix + 1 - length cls) empty_call else cls)
      else (True, t, cls))"

text \<open>\<^verbatim>\<open>field = strdup(cJSON_GetStringValue(item))\<close> for an item that is there while the field is NULL.\<close>

definition set_once :: "'j cjson_api \<Rightarrow> 'j option \<Rightarrow> cstr option \<Rightarrow> tape \<Rightarrow> (tape \<times> cstr option) option" where
  "set_once J item field t =
     (case item of None \<Rightarrow> Some (t, field)
      | Some v \<Rightarrow> if field \<noteq> None then Some (t, field)
        else case cj_string_value J v of None \<Rightarrow> None | Some s \<Rightarrow> let (r, t) = dup t s in Some (t, r))"

definition delta_index :: "('j, 'p) stream_env \<Rightarrow> nat \<Rightarrow> 'j \<Rightarrow> int" where
  "delta_index E i d = (case cj_get (se_api E) d (lit ''index'') of None \<Rightarrow> int i | Some v \<Rightarrow> se_int E v)"

definition delta_name :: "'j cjson_api \<Rightarrow> 'j \<Rightarrow> 'j option" where
  "delta_name J d = Option.bind (cj_get J d (lit ''function'')) (\<lambda>f. cj_get J f (lit ''name''))"

definition delta_args :: "'j cjson_api \<Rightarrow> 'j \<Rightarrow> cstr option" where
  "delta_args J d = Option.bind (cj_get J d (lit ''function'')) (\<lambda>f. cj_get_string J f (lit ''arguments''))"

definition merge_fields :: "'j cjson_api \<Rightarrow> 'j \<Rightarrow> tape \<Rightarrow> stream_call \<Rightarrow> (tape \<times> stream_call) option" where
  "merge_fields J d t c =
     (case set_once J (cj_get J d (lit ''id'')) (sc_id c) t of None \<Rightarrow> None
      | Some (t, i) \<Rightarrow>
        case set_once J (delta_name J d) (sc_name c) t of None \<Rightarrow> None
        | Some (t, nm) \<Rightarrow>
          case delta_args J d of None \<Rightarrow> Some (t, c\<lparr>sc_id := i, sc_name := nm\<rparr>)
          | Some frag \<Rightarrow> let (_, t, sb) = sb_append t (sc_args c) frag in Some (t, \<lparr>sc_id = i, sc_name = nm, sc_args = sb\<rparr>))"

fun merge_from :: "('j, 'p) stream_env \<Rightarrow> nat \<Rightarrow> 'j list \<Rightarrow> tape \<Rightarrow> stream_call list \<Rightarrow> (tape \<times> stream_call list) option" where
  "merge_from E i [] t cls = Some (t, cls)"
| "merge_from E i (d # ds) t cls =
     (let ix = delta_index E i d in
      if ix < 0 then merge_from E (i + 1) ds t cls
      else
        let (ok, t, cls) = stream_get_call (nat ix) t cls in
        if \<not> ok then merge_from E (i + 1) ds t cls
        else case merge_fields (se_api E) d t (cls ! nat ix) of None \<Rightarrow> None
          | Some (t, c) \<Rightarrow> merge_from E (i + 1) ds t (cls[nat ix := c]))"

definition stream_merge_tool_calls :: "('j, 'p) stream_env \<Rightarrow> 'j \<Rightarrow> tape \<Rightarrow> stream_call list \<Rightarrow> (tape \<times> stream_call list) option" where
  "stream_merge_tool_calls E deltas t cls = merge_from E 0 (cj_items (se_api E) deltas) t cls"

section \<open>One event\<close>

text \<open>The payload of a line: what follows \<^verbatim>\<open>data:\<close> and spaces, unless it is the end mark. A line may hold NUL bytes, the string ends at the first.\<close>

definition line_payload :: "byte list \<Rightarrow> cstr option" where
  "line_payload l =
     (let l = (if l \<noteq> [] \<and> last l = 0x0D then butlast l else l); s = c_str l in
      if l = [] \<or> take 5 s \<noteq> lit ''data:'' then None
      else let p = dropWhile (\<lambda>b. b = 0x20) (drop 5 s) in if p = lit ''[DONE]'' then None else Some p)"

definition normalize_event :: "('j, 'p) stream_env \<Rightarrow> 'j \<Rightarrow> 'p option \<Rightarrow> 'j option \<times> 'p option" where
  "normalize_event E ob p = (case se_normalize E of None \<Rightarrow> (Some ob, p) | Some f \<Rightarrow> f ob p)"

definition note_usage :: "('j, 'p) stream_env \<Rightarrow> 'j \<Rightarrow> 'q async_turn \<Rightarrow> 'q async_turn" where
  "note_usage E ob turn =
     (let turn = (case extract_usage E ob of None \<Rightarrow> turn | Some u \<Rightarrow> turn\<lparr>t_usage := u, t_have_usage := True\<rparr>);
          turn = (if timings_tps E ob > 0 then turn\<lparr>t_tps := timings_tps E ob\<rparr> else turn)
      in if t_have_usage turn \<and> tokens_per_sec (t_usage turn) \<le> 0 then turn\<lparr>t_usage := (t_usage turn)\<lparr>tokens_per_sec := t_tps turn\<rparr>\<rparr> else turn)"

definition emit_out :: "stream_out \<Rightarrow> 'a stream_agent_scheme \<Rightarrow> 'a stream_agent_scheme" where
  "emit_out e a = a\<lparr>a_out := a_out a @ [e]\<rparr>"

text \<open>\<^verbatim>\<open>choices[0]\<close> of an event, and the pieces of its \<^verbatim>\<open>delta\<close>.\<close>

definition event_choice :: "'j cjson_api \<Rightarrow> 'j \<Rightarrow> 'j option" where
  "event_choice J ob = Option.bind (cj_get J ob (lit ''choices'')) (\<lambda>cs. if cj_is_array J cs then array_head J cs else None)"

definition delta_text :: "'j cjson_api \<Rightarrow> 'j \<Rightarrow> cstr" where
  "delta_text J delta = (case get_str J delta (lit ''content'') of None \<Rightarrow> [] | Some s \<Rightarrow> s)"

definition delta_reasoning :: "'j cjson_api \<Rightarrow> 'j \<Rightarrow> cstr" where
  "delta_reasoning J delta =
     (case (case cj_get J delta (lit ''reasoning_content'') of None \<Rightarrow> cj_get J delta (lit ''reasoning'') | Some r \<Rightarrow> Some r) of
        None \<Rightarrow> [] | Some r \<Rightarrow> if cj_is_string J r then (case cj_string_value J r of None \<Rightarrow> [] | Some s \<Rightarrow> s) else [])"

definition handle_delta :: "('j, 'p) stream_env \<Rightarrow> 'j \<Rightarrow> tape \<Rightarrow> 'p async_turn \<Rightarrow> 'a stream_agent_scheme
    \<Rightarrow> (tape \<times> 'p async_turn \<times> 'a stream_agent_scheme) option" where
  "handle_delta E delta t turn a =
     (let txt1 = delta_text (se_api E) delta; rt = delta_reasoning (se_api E) delta;
          (t, turn, a) = (if txt1 = [] then (t, turn, a)
             else let (_, t, sb) = sb_append t (t_content turn) txt1 in (t, turn\<lparr>t_content := sb\<rparr>, emit_out (OnText txt1) a));
          a = (if rt = [] then a else emit_out (OnReasoning rt) a)
      in case cj_get (se_api E) delta (lit ''tool_calls'') of None \<Rightarrow> Some (t, turn, a)
         | Some tcs \<Rightarrow> if \<not> cj_is_array (se_api E) tcs then Some (t, turn, a)
           else case stream_merge_tool_calls E tcs t (t_calls turn) of None \<Rightarrow> None
             | Some (t, cls) \<Rightarrow> Some (t, turn\<lparr>t_calls := cls\<rparr>, a))"

definition handle_choice :: "('j, 'p) stream_env \<Rightarrow> 'j \<Rightarrow> 'j \<Rightarrow> tape \<Rightarrow> 'p async_turn \<Rightarrow> 'a stream_agent_scheme
    \<Rightarrow> (tape \<times> 'p async_turn \<times> 'a stream_agent_scheme) option" where
  "handle_choice E ob choice t turn a =
     (let (t, turn) = (case get_str (se_api E) choice (lit ''finish_reason'') of None \<Rightarrow> (t, turn)
             | Some r \<Rightarrow> let (s, t) = dup t r in (t, turn\<lparr>t_finish := s\<rparr>));
          (t, turn, a) = stream_note_error (response_error_message (se_api E) ob) t turn a;
          (t, a) = chain_note_response (se_api E) ob (t_msgs turn) t a
      in case cj_get (se_api E) choice (lit ''delta'') of None \<Rightarrow> Some (t, turn, a)
         | Some delta \<Rightarrow> handle_delta E delta t turn a)"

definition handle_event :: "('j, 'p) stream_env \<Rightarrow> 'j \<Rightarrow> tape \<Rightarrow> 'p async_turn \<Rightarrow> 'a stream_agent_scheme
    \<Rightarrow> (tape \<times> 'p async_turn \<times> 'a stream_agent_scheme) option" where
  "handle_event E ob t turn a =
     (let turn = note_usage E ob turn in
      case event_choice (se_api E) ob of None \<Rightarrow> Some (t, turn, a) | Some choice \<Rightarrow> handle_choice E ob choice t turn a)"

text \<open>\<^verbatim>\<open>stream_handle_line\<close>; the bytes of the line are what the buffer holds.\<close>

definition stream_handle_line :: "('j, 'p) stream_env \<Rightarrow> tape \<Rightarrow> 'p async_turn \<Rightarrow> 'a stream_agent_scheme
    \<Rightarrow> (tape \<times> 'p async_turn \<times> 'a stream_agent_scheme) option" where
  "stream_handle_line E t turn a =
     (if a_cancelling a then Some (t, turn, a)
      else case Option.bind (line_payload (sb_str (t_line turn))) (cj_parse (se_api E)) of None \<Rightarrow> Some (t, turn, a)
      | Some ob \<Rightarrow>
        let (t, turn, a) = stream_note_error (stream_error_message (se_api E) ob) t turn a;
            (r, p) = normalize_event E ob (t_pstate turn);
            turn = turn\<lparr>t_pstate := p\<rparr>
        in case r of None \<Rightarrow> Some (t, turn, a) | Some ob \<Rightarrow> handle_event E ob t turn a)"

definition reset_line :: "'p async_turn \<Rightarrow> 'p async_turn" where
  "reset_line turn = turn\<lparr>t_line := (t_line turn)\<lparr>sb_buf := map_option (\<lambda>_. []) (sb_buf (t_line turn))\<rparr>\<rparr>"

fun clm_http_data_cb :: "('j, 'p) stream_env \<Rightarrow> byte list \<Rightarrow> tape \<Rightarrow> 'p async_turn \<Rightarrow> 'a stream_agent_scheme
    \<Rightarrow> (tape \<times> 'p async_turn \<times> 'a stream_agent_scheme) option" where
  "clm_http_data_cb E [] t turn a = Some (t, turn, a)"
| "clm_http_data_cb E (b # bs) t turn a =
     (if b = 0x0A then
        case stream_handle_line E t turn a of None \<Rightarrow> None
        | Some (t, turn, a) \<Rightarrow> clm_http_data_cb E bs t (reset_line turn) a
      else let (_, t, sb) = sb_append t (t_line turn) [b] in clm_http_data_cb E bs t (turn\<lparr>t_line := sb\<rparr>) a)"

section \<open>The call array\<close>

definition has_name :: "stream_call \<Rightarrow> bool" where "has_name c \<longleftrightarrow> sc_name c \<noteq> None"

text \<open>One call as JSON: an allocation failure of a string leaves its member out, of an object ends the whole array.\<close>

definition stream_call_json :: "'j cjson_api \<Rightarrow> stream_call \<Rightarrow> tape \<Rightarrow> 'j option \<times> tape" where
  "stream_call_json J c t =
     (let (call, t) = cj_create t (cj_object J) in
      case call of None \<Rightarrow> (None, t)
      | Some call \<Rightarrow>
        let (v, t) = cj_create t (cj_string J (case sc_id c of None \<Rightarrow> [] | Some s \<Rightarrow> s));
            call = cj_add_opt J call (lit ''id'') v;
            (v, t) = cj_create t (cj_string J (lit ''function''));
            call = cj_add_opt J call (lit ''type'') v;
            (func, t) = cj_create t (cj_object J) in
        case func of None \<Rightarrow> (None, t)
        | Some func \<Rightarrow>
          let (v, t) = cj_create t (cj_string J (the (sc_name c)));
              func = cj_add_opt J func (lit ''name'') v;
              (v, t) = cj_create t (cj_string J (case sb_buf (sc_args c) of None \<Rightarrow> lit ''{}'' | Some s \<Rightarrow> s));
              func = cj_add_opt J func (lit ''arguments'') v
          in (Some (cj_add J call (lit ''function'') func), t))"

fun build_calls_json :: "'j cjson_api \<Rightarrow> stream_call list \<Rightarrow> tape \<Rightarrow> 'j \<Rightarrow> 'j option \<times> tape" where
  "build_calls_json J [] t arr = (Some arr, t)"
| "build_calls_json J (c # cs) t arr =
     (if \<not> has_name c then build_calls_json J cs t arr
      else case stream_call_json J c t of (None, t) \<Rightarrow> (None, t) | (Some call, t) \<Rightarrow> build_calls_json J cs t (cj_push J arr call))"

definition stream_build_tool_calls :: "'j cjson_api \<Rightarrow> 'p async_turn \<Rightarrow> tape \<Rightarrow> 'j option \<times> tape" where
  "stream_build_tool_calls J turn t =
     (if t_calls turn = [] then (None, t)
      else case cj_create t (cj_array J) of (None, t) \<Rightarrow> (None, t)
      | (Some arr, t) \<Rightarrow>
        case build_calls_json J (t_calls turn) t arr of (None, t) \<Rightarrow> (None, t)
        | (Some arr, t) \<Rightarrow> (if cj_items J arr = [] then None else Some arr, t))"

section \<open>Buffers stay in bounds\<close>

lemma grow_cap_ge: "nc \<noteq> 0 \<Longrightarrow> need \<le> grow_cap nc need"
  by (induction nc need rule: grow_cap.induct) (subst grow_cap.simps, auto)

lemma sb_null_ok [simp]: "sb_ok sb_null" "sb_str sb_null = []" "sb_buf sb_null = None"
  by (simp_all add: sb_ok_def sb_null_def sb_str_def)

lemma sb_append_result:
  assumes "sb_ok sb" "sb_append t sb d = (r, t', sb')"
  shows "sb_ok sb' \<and> (if r = Inr () then sb_buf sb' = Some (sb_str sb @ d) else sb' = sb)"
proof -
  have "need \<le> grow_cap (if sb_cap sb \<noteq> 0 then sb_cap sb else 256) need" for need by (rule grow_cap_ge) simp
  then show ?thesis
    using assms by (auto simp: sb_append_def sb_ok_def Let_def split: if_splits prod.splits)
qed

lemma sb_append_nofail: "\<exists>sb'. sb_append [] sb d = (Inr (), [], sb') \<and> sb_buf sb' = Some (sb_str sb @ d)"
  by (simp add: sb_append_def Let_def)

lemma sb_str_Some: "sb_buf sb = Some s \<Longrightarrow> sb_str sb = s"
  by (simp add: sb_str_def)

definition turn_ok :: "'p async_turn \<Rightarrow> bool" where
  "turn_ok turn \<longleftrightarrow> sb_ok (t_line turn) \<and> sb_ok (t_content turn) \<and> (\<forall>c \<in> set (t_calls turn). sb_ok (sc_args c))"

lemma merge_fields_ok: "sb_ok (sc_args c) \<Longrightarrow> merge_fields J d t c = Some (t', c') \<Longrightarrow> sb_ok (sc_args c')"
  by (auto simp: merge_fields_def split: option.splits prod.splits dest: sb_append_result)

lemma merge_from_step:
  assumes "\<not> delta_index E i d < 0" "stream_get_call (nat (delta_index E i d)) t cls = (ok, t1, cls1)"
  shows "merge_from E i (d # ds) t cls =
    (if \<not> ok then merge_from E (i + 1) ds t1 cls1
     else case merge_fields (se_api E) d t1 (cls1 ! nat (delta_index E i d)) of None \<Rightarrow> None
       | Some (t2, c) \<Rightarrow> merge_from E (i + 1) ds t2 (cls1[nat (delta_index E i d) := c]))"
  using assms by (simp add: Let_def)

lemma merge_from_ok:
  "\<forall>c \<in> set cls. sb_ok (sc_args c) \<Longrightarrow> merge_from E i ds t cls = Some (t', cls') \<Longrightarrow> \<forall>c \<in> set cls'. sb_ok (sc_args c)"
proof (induction ds arbitrary: i t cls)
  case (Cons d ds)
  show ?case
  proof (cases "delta_index E i d < 0")
    case True
    then show ?thesis using Cons by simp
  next
    case ix: False
    obtain ok t1 cls1 where g: "stream_get_call (nat (delta_index E i d)) t cls = (ok, t1, cls1)" by (rule prod_cases3)
    have ok1: "\<forall>c \<in> set cls1. sb_ok (sc_args c)" "ok \<Longrightarrow> nat (delta_index E i d) < length cls1"
      using g Cons.prems(1) by (auto simp: stream_get_call_def empty_call_def split: if_splits prod.splits)
    show ?thesis
    proof (cases ok)
      case False
      then show ?thesis using Cons.IH [OF ok1(1)] Cons.prems(2) unfolding merge_from_step [OF ix g] by simp
    next
      case True
      then obtain t2 c where m: "merge_fields (se_api E) d t1 (cls1 ! nat (delta_index E i d)) = Some (t2, c)"
        "merge_from E (i + 1) ds t2 (cls1[nat (delta_index E i d) := c]) = Some (t', cls')"
        using Cons.prems(2) unfolding merge_from_step [OF ix g] by (auto split: option.splits)
      have "sb_ok (sc_args c)" using merge_fields_ok [OF _ m(1)] ok1 True by simp
      then have "\<forall>c \<in> set (cls1[nat (delta_index E i d) := c]). sb_ok (sc_args c)"
        using ok1(1) set_update_subset_insert by fastforce
      then show ?thesis using Cons.IH m(2) by blast
    qed
  qed
qed simp

lemma stream_note_error_ok: "stream_note_error e t turn a = (t', turn', a') \<Longrightarrow> turn_ok turn \<Longrightarrow> turn_ok turn'"
  by (auto simp: stream_note_error_def turn_ok_def Let_def split: option.splits prod.splits if_splits)

lemma note_usage_ok: "turn_ok (note_usage E ob turn) = turn_ok turn"
  by (simp add: note_usage_def turn_ok_def Let_def split: option.split)

lemma handle_delta_ok: "handle_delta E delta t turn a = Some (t', turn', a') \<Longrightarrow> turn_ok turn \<Longrightarrow> turn_ok turn'"
  by (auto simp: handle_delta_def turn_ok_def Let_def stream_merge_tool_calls_def
      split: option.splits prod.splits if_splits dest: sb_append_result merge_from_ok)

lemma handle_choice_ok: "handle_choice E ob choice t turn a = Some (t', turn', a') \<Longrightarrow> turn_ok turn \<Longrightarrow> turn_ok turn'"
proof -
  assume h: "handle_choice E ob choice t turn a = Some (t', turn', a')" and ok: "turn_ok turn"
  define r where "r = (case get_str (se_api E) choice (lit ''finish_reason'') of None \<Rightarrow> (t, turn) | Some r \<Rightarrow> let (s, t) = dup t r in (t, turn\<lparr>t_finish := s\<rparr>))"
  obtain t1 turn1 where r: "r = (t1, turn1)" by fastforce
  have "turn_ok turn1" using ok r by (auto simp: r_def turn_ok_def split: option.splits prod.splits)
  moreover obtain t2 turn2 a2 where e: "stream_note_error (response_error_message (se_api E) ob) t1 turn1 a = (t2, turn2, a2)" by (rule prod_cases3)
  ultimately have "turn_ok turn2" using stream_note_error_ok by blast
  then show ?thesis
    using h r e unfolding handle_choice_def r_def [symmetric]
    by (auto split: option.splits prod.splits dest: handle_delta_ok)
qed

lemma handle_line_ok: "stream_handle_line E t turn a = Some (t', turn', a') \<Longrightarrow> turn_ok turn \<Longrightarrow> turn_ok turn'"
proof -
  assume h: "stream_handle_line E t turn a = Some (t', turn', a')" and ok: "turn_ok turn"
  show ?thesis
  proof (cases "a_cancelling a \<or> Option.bind (line_payload (sb_str (t_line turn))) (cj_parse (se_api E)) = None")
    case True
    then have "stream_handle_line E t turn a = Some (t, turn, a)"
      unfolding stream_handle_line_def by (elim disjE) (simp, simp only: option.case if_cancel)
    then show ?thesis using h ok by simp
  next
    case False
    then obtain ob where ob: "Option.bind (line_payload (sb_str (t_line turn))) (cj_parse (se_api E)) = Some ob" "\<not> a_cancelling a" by blast
    obtain t1 turn1 a1 where e: "stream_note_error (stream_error_message (se_api E) ob) t turn a = (t1, turn1, a1)" by (rule prod_cases3)
    obtain r p where n: "normalize_event E ob (t_pstate turn1) = (r, p)" by fastforce
    have "turn_ok (turn1\<lparr>t_pstate := p\<rparr>)" using stream_note_error_ok [OF e ok] by (simp add: turn_ok_def)
    moreover have "(case r of None \<Rightarrow> Some (t1, turn1\<lparr>t_pstate := p\<rparr>, a1) | Some ob \<Rightarrow> handle_event E ob t1 (turn1\<lparr>t_pstate := p\<rparr>) a1) = Some (t', turn', a')"
      using h ob(2) unfolding stream_handle_line_def ob(1) Let_def by (simp add: e n)
    ultimately show ?thesis
      by (auto simp: handle_event_def Let_def note_usage_ok split: option.splits dest!: handle_choice_ok)
  qed
qed

lemma reset_line_ok: "turn_ok turn \<Longrightarrow> turn_ok (reset_line turn)"
  by (auto simp: turn_ok_def reset_line_def sb_ok_def split: option.splits)


section \<open>What a stream says\<close>

text \<open>The lines of a byte stream, and the unfinished one at its end.\<close>

fun split_lines :: "byte list \<Rightarrow> byte list \<Rightarrow> byte list list \<times> byte list" where
  "split_lines acc [] = ([], acc)"
| "split_lines acc (b # bs) = (if b = 0x0A then let (ls, r) = split_lines [] bs in (acc # ls, r) else split_lines (acc @ [b]) bs)"

definition line_event :: "('j, 'p) stream_env \<Rightarrow> 'p option \<Rightarrow> byte list \<Rightarrow> 'j option \<times> 'p option" where
  "line_event E p l = (case Option.bind (line_payload l) (cj_parse (se_api E)) of None \<Rightarrow> (None, p) | Some ob \<Rightarrow> normalize_event E ob p)"

fun events :: "('j, 'p) stream_env \<Rightarrow> 'p option \<Rightarrow> byte list list \<Rightarrow> 'j list" where
  "events E p [] = []"
| "events E p (l # ls) = (case line_event E p l of (None, p) \<Rightarrow> events E p ls | (Some ob, p) \<Rightarrow> ob # events E p ls)"

definition event_delta :: "'j cjson_api \<Rightarrow> 'j \<Rightarrow> 'j option" where
  "event_delta J ob = Option.bind (event_choice J ob) (\<lambda>c. cj_get J c (lit ''delta''))"

definition event_text :: "'j cjson_api \<Rightarrow> 'j \<Rightarrow> cstr" where
  "event_text J ob = (case event_delta J ob of None \<Rightarrow> [] | Some d \<Rightarrow> delta_text J d)"

definition event_calls :: "'j cjson_api \<Rightarrow> 'j \<Rightarrow> 'j list" where
  "event_calls J ob = (case Option.bind (event_delta J ob) (\<lambda>d. cj_get J d (lit ''tool_calls'')) of None \<Rightarrow> []
     | Some tcs \<Rightarrow> if cj_is_array J tcs then cj_items J tcs else [])"

text \<open>The deltas of an event that are for call \<open>k\<close>, and what a list of them adds up to.\<close>

definition call_deltas :: "('j, 'p) stream_env \<Rightarrow> nat \<Rightarrow> nat \<Rightarrow> 'j list \<Rightarrow> 'j list" where
  "call_deltas E k i ds = map snd (filter (\<lambda>(j, d). delta_index E j d = int k) (enumerate i ds))"

definition join2 :: "cstr option \<Rightarrow> cstr option \<Rightarrow> cstr option" where
  "join2 a b = (case a of None \<Rightarrow> b | Some s \<Rightarrow> (case b of None \<Rightarrow> a | Some r \<Rightarrow> Some (s @ r)))"

definition first_some :: "cstr option list \<Rightarrow> cstr option" where "first_some xs = foldr first_of xs None"
definition joined :: "cstr option list \<Rightarrow> cstr option" where "joined xs = foldr join2 xs None"

definition delta_id :: "'j cjson_api \<Rightarrow> 'j \<Rightarrow> cstr option" where "delta_id J d = cj_get_string J d (lit ''id'')"
definition delta_name_str :: "'j cjson_api \<Rightarrow> 'j \<Rightarrow> cstr option" where "delta_name_str J d = Option.bind (delta_name J d) (cj_string_value J)"

type_synonym call_view = "cstr option \<times> cstr option \<times> cstr option"

definition deltas_view :: "'j cjson_api \<Rightarrow> 'j list \<Rightarrow> call_view" where
  "deltas_view J ds = (first_some (map (delta_id J) ds), first_some (map (delta_name_str J) ds), joined (map (delta_args J) ds))"

text \<open>Call \<open>k\<close> of the assembled calls.\<close>

definition view :: "stream_call \<Rightarrow> call_view" where "view c = (sc_id c, sc_name c, sb_buf (sc_args c))"
definition call_view :: "stream_call list \<Rightarrow> nat \<Rightarrow> call_view" where
  "call_view cls k = (if k < length cls then view (cls ! k) else (None, None, None))"

definition shown :: "stream_out list \<Rightarrow> cstr" where
  "shown es = concat (map (\<lambda>e. case e of OnText s \<Rightarrow> s | OnReasoning _ \<Rightarrow> []) es)"

text \<open>A delta whose id and name, where present, are strings.\<close>

definition typed :: "'j cjson_api \<Rightarrow> 'j \<Rightarrow> bool" where
  "typed J d \<longleftrightarrow> (cj_get J d (lit ''id'') \<noteq> None \<longrightarrow> delta_id J d \<noteq> None) \<and> (delta_name J d \<noteq> None \<longrightarrow> delta_name_str J d \<noteq> None)"

lemma first_of_assoc3: "first_of (first_of a b) c = first_of a (first_of b c)"
  by (cases a) (simp_all add: first_of_def)

lemma join2_assoc: "join2 (join2 a b) c = join2 a (join2 b c)"
  by (cases a; cases b; cases c) (simp_all add: join2_def)

lemma first_of_None [simp]: "first_of None x = x" "first_of x None = x" and join2_None [simp]: "join2 None x = x" "join2 x None = x"
  by (simp_all add: first_of_def join2_def split: option.split)

definition merge_view :: "'j cjson_api \<Rightarrow> call_view \<Rightarrow> 'j \<Rightarrow> call_view" where
  "merge_view J v d = (case v of (i, n, ar) \<Rightarrow> (first_of i (delta_id J d), first_of n (delta_name_str J d), join2 ar (delta_args J d)))"

lemma foldr_first_of: "foldr first_of xs y = first_of (foldr first_of xs None) y"
  by (induction xs) (simp_all add: first_of_assoc3)

lemma foldr_join2: "foldr join2 xs y = join2 (foldr join2 xs None) y"
  by (induction xs) (simp_all add: join2_assoc)

lemma foldl_merge_view:
  "foldl (merge_view J) (i, n, ar) ds = (first_of i (first_some (map (delta_id J) ds)), first_of n (first_some (map (delta_name_str J) ds)), join2 ar (joined (map (delta_args J) ds)))"
  by (induction ds arbitrary: i n ar) (simp_all add: merge_view_def first_some_def joined_def first_of_assoc3 join2_assoc)

lemma set_once_ok:
  assumes "item \<noteq> None \<longrightarrow> Option.bind item (cj_string_value J) \<noteq> None"
  shows "set_once J item f [] = Some ([], first_of f (Option.bind item (cj_string_value J)))"
  using assms by (cases f; cases item) (auto simp: set_once_def dup_def first_of_def)

lemma merge_fields_view:
  assumes "typed J d"
  shows "\<exists>c'. merge_fields J d [] c = Some ([], c') \<and> view c' = merge_view J (view c) d"
proof -
  have i: "set_once J (cj_get J d (lit ''id'')) (sc_id c) [] = Some ([], first_of (sc_id c) (delta_id J d))"
    using assms set_once_ok [of "cj_get J d (lit ''id'')" J] by (simp add: typed_def delta_id_def cj_get_string_def del: lit_Cons)
  have n: "set_once J (delta_name J d) (sc_name c) [] = Some ([], first_of (sc_name c) (delta_name_str J d))"
    using assms set_once_ok [of "delta_name J d" J] by (simp add: typed_def delta_name_str_def del: lit_Cons)
  show ?thesis
  proof (cases "delta_args J d")
    case None
    then show ?thesis using i n by (simp add: merge_fields_def view_def merge_view_def del: lit_Cons)
  next
    case (Some frag)
    obtain sb where "sb_append [] (sc_args c) frag = (Inr (), [], sb)" "sb_buf sb = Some (sb_str (sc_args c) @ frag)" using sb_append_nofail by blast
    then show ?thesis
      using i n Some by (simp add: merge_fields_def view_def merge_view_def join2_def sb_str_def del: lit_Cons split: option.split)
  qed
qed

lemma stream_get_call_view:
  "\<exists>cls'. stream_get_call ix [] cls = (True, [], cls') \<and> ix < length cls' \<and> (\<forall>k. call_view cls' k = call_view cls k)"
  by (auto simp: stream_get_call_def call_view_def nth_append view_def empty_call_def)

lemma merge_from_view:
  assumes "\<forall>d \<in> set ds. typed (se_api E) d"
  shows "\<exists>cls'. merge_from E i ds [] cls = Some ([], cls')
    \<and> (\<forall>k. call_view cls' k = foldl (merge_view (se_api E)) (call_view cls k) (call_deltas E k i ds))"
  using assms
proof (induction ds arbitrary: i cls)
  case (Cons d ds)
  show ?case
  proof (cases "delta_index E i d < 0")
    case True
    then have "call_deltas E k i (d # ds) = call_deltas E k (i + 1) ds" for k by (simp add: call_deltas_def)
    then show ?thesis using Cons True by simp
  next
    case ix: False
    obtain cls1 where g: "stream_get_call (nat (delta_index E i d)) [] cls = (True, [], cls1)" "nat (delta_index E i d) < length cls1"
      "\<forall>k. call_view cls1 k = call_view cls k" using stream_get_call_view by blast
    obtain c where c: "merge_fields (se_api E) d [] (cls1 ! nat (delta_index E i d)) = Some ([], c)"
      "view c = merge_view (se_api E) (view (cls1 ! nat (delta_index E i d))) d" using merge_fields_view Cons.prems by (metis list.set_intros(1))
    obtain cls2 where m: "merge_from E (i + 1) ds [] (cls1[nat (delta_index E i d) := c]) = Some ([], cls2)"
      "\<forall>k. call_view cls2 k = foldl (merge_view (se_api E)) (call_view (cls1[nat (delta_index E i d) := c]) k) (call_deltas E k (i + 1) ds)"
      using Cons by (metis list.set_intros(2))
    have "call_view cls2 k = foldl (merge_view (se_api E)) (call_view cls k) (call_deltas E k i (d # ds))" for k
    proof (cases "delta_index E i d = int k")
      case True
      then have k: "nat (delta_index E i d) = k" by simp
      have "call_view cls k = view (cls1 ! k)" using g(2,3) k by (metis call_view_def)
      moreover have "call_view (cls1[k := c]) k = view c" using g(2) k by (simp add: call_view_def)
      ultimately show ?thesis using m(2) c(2) True k by (simp add: call_deltas_def)
    next
      case False
      then have "nat (delta_index E i d) \<noteq> k" using ix by auto
      then have "call_view (cls1[nat (delta_index E i d) := c]) k = call_view cls1 k" by (simp add: call_view_def)
      then have "call_view (cls1[nat (delta_index E i d) := c]) k = call_view cls k" using g(3) by simp
      then show ?thesis using m(2) False by (simp add: call_deltas_def)
    qed
    then show ?thesis using m(1) c(1) unfolding merge_from_step [OF ix g(1)] by simp
  qed
qed (simp add: call_deltas_def)

text \<open>What an event adds to the turn.\<close>

definition adds :: "('j, 'p) stream_env \<Rightarrow> 'j \<Rightarrow> 'p async_turn \<Rightarrow> 'a stream_agent_scheme \<Rightarrow> 'p async_turn \<Rightarrow> 'a stream_agent_scheme \<Rightarrow> bool" where
  "adds E ob turn a turn' a' \<longleftrightarrow>
     t_line turn' = t_line turn \<and> t_pstate turn' = t_pstate turn \<and> a_cancelling a' = a_cancelling a
     \<and> sb_str (t_content turn') = sb_str (t_content turn) @ event_text (se_api E) ob
     \<and> shown (a_out a') = shown (a_out a) @ event_text (se_api E) ob
     \<and> (\<forall>k. call_view (t_calls turn') k = foldl (merge_view (se_api E)) (call_view (t_calls turn) k) (call_deltas E k 0 (event_calls (se_api E) ob)))"

text \<open>Two states that differ in nothing the stream assembles.\<close>

definition alike :: "'p async_turn \<Rightarrow> 'a stream_agent_scheme \<Rightarrow> 'p async_turn \<Rightarrow> 'a stream_agent_scheme \<Rightarrow> bool" where
  "alike turn a turn' a' \<longleftrightarrow> t_line turn' = t_line turn \<and> t_pstate turn' = t_pstate turn \<and> a_cancelling a' = a_cancelling a
     \<and> t_content turn' = t_content turn \<and> a_out a' = a_out a \<and> t_calls turn' = t_calls turn"

lemma alike_note_error: "\<exists>turn' a'. stream_note_error e [] turn a = ([], turn', a') \<and> alike turn a turn' a'"
  by (cases e) (simp_all add: stream_note_error_def alike_def clm_agent_set_error_def dup_def)

lemma alike_note_usage: "alike turn a (note_usage E ob turn) a"
  by (simp add: note_usage_def alike_def Let_def split: option.split)

lemma alike_chain: "\<exists>a'. chain_note_response J ob n [] a = ([], a') \<and> alike turn a turn a'"
  by (simp add: chain_note_response_def alike_def dup_def split: option.split)

lemma alike_trans: "alike t1 a1 t2 a2 \<Longrightarrow> alike t2 a2 t3 a3 \<Longrightarrow> alike t1 a1 t3 a3"
  by (simp add: alike_def)

lemma adds_alike: "alike t1 a1 t2 a2 \<Longrightarrow> adds E ob t2 a2 t3 a3 \<Longrightarrow> adds E ob t1 a1 t3 a3"
  by (simp add: alike_def adds_def)

lemma adds_nothing: "event_delta (se_api E) ob = None \<Longrightarrow> adds E ob turn a turn a"
  by (simp add: adds_def event_text_def event_calls_def call_deltas_def)

lemma shown_append: "shown (xs @ ys) = shown xs @ shown ys"
  by (simp add: shown_def)

lemma handle_delta_adds:
  assumes "event_delta (se_api E) ob = Some delta" "\<forall>d \<in> set (event_calls (se_api E) ob). typed (se_api E) d"
  shows "\<exists>turn' a'. handle_delta E delta [] turn a = Some ([], turn', a') \<and> adds E ob turn a turn' a'"
proof -
  define tx where "tx = delta_text (se_api E) delta"
  define rs where "rs = delta_reasoning (se_api E) delta"
  obtain sb where sb: "sb_append [] (t_content turn) tx = (Inr (), [], sb)" "sb_buf sb = Some (sb_str (t_content turn) @ tx)" using sb_append_nofail by blast
  define turn1 where "turn1 = (if tx = [] then turn else turn\<lparr>t_content := sb\<rparr>)"
  define a1 where "a1 = (if tx = [] then a else emit_out (OnText tx) a)"
  define a2 where "a2 = (if rs = [] then a1 else emit_out (OnReasoning rs) a1)"
  have tx: "event_text (se_api E) ob = tx" using assms(1) by (simp add: event_text_def tx_def)
  have c: "sb_str (t_content turn1) = sb_str (t_content turn) @ tx" using sb by (simp add: turn1_def sb_str_def)
  have sh: "shown (a_out a2) = shown (a_out a) @ tx" by (simp add: a2_def a1_def emit_out_def shown_append shown_def)
  have fr: "t_line turn1 = t_line turn" "t_pstate turn1 = t_pstate turn" "a_cancelling a2 = a_cancelling a" "t_calls turn1 = t_calls turn"
    by (simp_all add: turn1_def a2_def a1_def emit_out_def)
  have h: "handle_delta E delta [] turn a = (case cj_get (se_api E) delta (lit ''tool_calls'') of None \<Rightarrow> Some ([], turn1, a2)
         | Some tcs \<Rightarrow> if \<not> cj_is_array (se_api E) tcs then Some ([], turn1, a2)
           else case stream_merge_tool_calls E tcs [] (t_calls turn1) of None \<Rightarrow> None
             | Some (t, cls) \<Rightarrow> Some (t, turn1\<lparr>t_calls := cls\<rparr>, a2))"
    unfolding handle_delta_def Let_def tx_def [symmetric] rs_def [symmetric] turn1_def a2_def a1_def by (simp add: sb(1) del: lit_Cons)
  show ?thesis
  proof (cases "\<exists>tcs. cj_get (se_api E) delta (lit ''tool_calls'') = Some tcs \<and> cj_is_array (se_api E) tcs")
    case False
    then have "handle_delta E delta [] turn a = Some ([], turn1, a2)" unfolding h by (simp del: lit_Cons split: option.split)
    moreover have "event_calls (se_api E) ob = []" using False assms(1) by (auto simp: event_calls_def simp del: lit_Cons split: option.split)
    ultimately show ?thesis using c sh fr by (simp add: adds_def tx call_deltas_def)
  next
    case True
    then obtain tcs where t: "cj_get (se_api E) delta (lit ''tool_calls'') = Some tcs" "cj_is_array (se_api E) tcs" by blast
    then have ec: "event_calls (se_api E) ob = cj_items (se_api E) tcs" using assms(1) by (simp add: event_calls_def del: lit_Cons)
    obtain cls where m: "merge_from E 0 (cj_items (se_api E) tcs) [] (t_calls turn1) = Some ([], cls)"
      "\<forall>k. call_view cls k = foldl (merge_view (se_api E)) (call_view (t_calls turn1) k) (call_deltas E k 0 (cj_items (se_api E) tcs))"
      using merge_from_view assms(2) ec by metis
    have "handle_delta E delta [] turn a = Some ([], turn1\<lparr>t_calls := cls\<rparr>, a2)"
      unfolding h using t m(1) by (simp add: stream_merge_tool_calls_def del: lit_Cons)
    then show ?thesis using c sh fr m(2) by (simp add: adds_def tx ec)
  qed
qed

lemma handle_event_adds:
  assumes "\<forall>d \<in> set (event_calls (se_api E) ob). typed (se_api E) d"
  shows "\<exists>turn' a'. handle_event E ob [] turn a = Some ([], turn', a') \<and> adds E ob turn a turn' a'"
proof (cases "event_choice (se_api E) ob")
  case None
  then have "event_delta (se_api E) ob = None" by (simp add: event_delta_def)
  then have "adds E ob turn a (note_usage E ob turn) a" by (rule adds_alike [OF alike_note_usage adds_nothing])
  moreover have "handle_event E ob [] turn a = Some ([], note_usage E ob turn, a)" by (simp add: handle_event_def None)
  ultimately show ?thesis by blast
next
  case (Some choice)
  define turn1 where "turn1 = note_usage E ob turn"
  define turn2 where "turn2 = (case get_str (se_api E) choice (lit ''finish_reason'') of None \<Rightarrow> turn1 | Some r \<Rightarrow> turn1\<lparr>t_finish := Some r\<rparr>)"
  have f: "(case get_str (se_api E) choice (lit ''finish_reason'') of None \<Rightarrow> ([], turn1)
             | Some r \<Rightarrow> let (s, t) = dup [] r in (t, turn1\<lparr>t_finish := s\<rparr>)) = ([], turn2)"
    by (simp add: turn2_def dup_def del: lit_Cons split: option.split)
  have "alike turn a turn1 a" unfolding turn1_def by (rule alike_note_usage)
  moreover have "alike turn1 a turn2 a" by (simp add: turn2_def alike_def split: option.split)
  moreover obtain turn3 a3 where e: "stream_note_error (response_error_message (se_api E) ob) [] turn2 a = ([], turn3, a3)" "alike turn2 a turn3 a3"
    using alike_note_error by blast
  moreover obtain a4 where c: "chain_note_response (se_api E) ob (t_msgs turn3) [] a3 = ([], a4)" "alike turn3 a3 turn3 a4"
    using alike_chain [of "se_api E" ob "t_msgs turn3" a3 turn3] by blast
  ultimately have al: "alike turn a turn3 a4" using alike_trans by blast
  have h: "handle_event E ob [] turn a = (case cj_get (se_api E) choice (lit ''delta'') of None \<Rightarrow> Some ([], turn3, a4) | Some delta \<Rightarrow> handle_delta E delta [] turn3 a4)"
    unfolding handle_event_def Let_def turn1_def [symmetric] Some option.case handle_choice_def
    by (simp only: f [unfolded Let_def] prod.case e(1) c(1) Let_def)
  have d: "event_delta (se_api E) ob = cj_get (se_api E) choice (lit ''delta'')" by (simp add: event_delta_def Some)
  show ?thesis
  proof (cases "event_delta (se_api E) ob")
    case None
    then show ?thesis using adds_alike [OF al adds_nothing] h d by auto
  next
    case (Some delta)
    then show ?thesis using handle_delta_adds [OF Some assms] adds_alike [OF al] h d by (metis option.case(2))
  qed
qed

lemma handle_line_adds:
  assumes "\<not> a_cancelling a" "line_event E (t_pstate turn) (sb_str (t_line turn)) = (r, p)"
    and "\<And>ob. r = Some ob \<Longrightarrow> \<forall>d \<in> set (event_calls (se_api E) ob). typed (se_api E) d"
  shows "\<exists>turn' a'. stream_handle_line E [] turn a = Some ([], turn', a')
    \<and> (case r of None \<Rightarrow> alike (turn\<lparr>t_pstate := p\<rparr>) a turn' a' | Some ob \<Rightarrow> adds E ob (turn\<lparr>t_pstate := p\<rparr>) a turn' a')"
proof (cases "Option.bind (line_payload (sb_str (t_line turn))) (cj_parse (se_api E))")
  case None
  then have "r = None" "turn\<lparr>t_pstate := p\<rparr> = turn" using assms(2) unfolding line_event_def None by simp_all
  moreover have "stream_handle_line E [] turn a = Some ([], turn, a)" unfolding stream_handle_line_def None by simp
  ultimately show ?thesis by (simp add: alike_def)
next
  case (Some raw)
  obtain turn1 a1 where e: "stream_note_error (stream_error_message (se_api E) raw) [] turn a = ([], turn1, a1)" "alike turn a turn1 a1"
    using alike_note_error by blast
  have n: "normalize_event E raw (t_pstate turn1) = (r, p)" using assms(2) e(2) unfolding line_event_def Some by (simp add: alike_def)
  have al: "alike (turn\<lparr>t_pstate := p\<rparr>) a (turn1\<lparr>t_pstate := p\<rparr>) a1" using e(2) by (simp add: alike_def)
  have h: "stream_handle_line E [] turn a = (case r of None \<Rightarrow> Some ([], turn1\<lparr>t_pstate := p\<rparr>, a1) | Some ob \<Rightarrow> handle_event E ob [] (turn1\<lparr>t_pstate := p\<rparr>) a1)"
    using assms(1) unfolding stream_handle_line_def Some Let_def by (simp add: e(1) n)
  show ?thesis
  proof (cases r)
    case None
    then show ?thesis using h al by simp
  next
    case (Some ob)
    then show ?thesis using h al handle_event_adds [OF assms(3) [OF Some]] adds_alike [OF al] by (metis option.case(2))
  qed
qed

text \<open>A whole stream, in the pieces in which it arrives.\<close>

fun feed :: "('j, 'p) stream_env \<Rightarrow> byte list list \<Rightarrow> tape \<Rightarrow> 'p async_turn \<Rightarrow> 'a stream_agent_scheme
    \<Rightarrow> (tape \<times> 'p async_turn \<times> 'a stream_agent_scheme) option" where
  "feed E [] t turn a = Some (t, turn, a)"
| "feed E (c # cs) t turn a = (case clm_http_data_cb E c t turn a of None \<Rightarrow> None | Some (t, turn, a) \<Rightarrow> feed E cs t turn a)"

lemma data_cb_append:
  "clm_http_data_cb E (xs @ ys) t turn a = (case clm_http_data_cb E xs t turn a of None \<Rightarrow> None | Some (t, turn, a) \<Rightarrow> clm_http_data_cb E ys t turn a)"
  by (induction E xs t turn a rule: clm_http_data_cb.induct) (auto simp: Let_def split: option.splits prod.splits)

lemma feed_concat: "feed E cs t turn a = clm_http_data_cb E (concat cs) t turn a"
  by (induction E cs t turn a rule: feed.induct) (simp_all add: data_cb_append split: option.split)

lemma split_lines_acc: "split_lines acc (b # bs) = (if b = 0x0A then (acc # fst (split_lines [] bs), snd (split_lines [] bs)) else split_lines (acc @ [b]) bs)"
  by (simp split: prod.split)

lemma data_cb_assembles:
  assumes "\<not> a_cancelling a"
    and "\<forall>ob \<in> set (events E (t_pstate turn) (fst (split_lines (sb_str (t_line turn)) bs))). \<forall>d \<in> set (event_calls (se_api E) ob). typed (se_api E) d"
  shows "\<exists>turn' a'. clm_http_data_cb E bs [] turn a = Some ([], turn', a')
    \<and> sb_str (t_line turn') = snd (split_lines (sb_str (t_line turn)) bs) \<and> \<not> a_cancelling a'
    \<and> sb_str (t_content turn') = sb_str (t_content turn) @ concat (map (event_text (se_api E)) (events E (t_pstate turn) (fst (split_lines (sb_str (t_line turn)) bs))))
    \<and> shown (a_out a') = shown (a_out a) @ concat (map (event_text (se_api E)) (events E (t_pstate turn) (fst (split_lines (sb_str (t_line turn)) bs))))
    \<and> (\<forall>k. call_view (t_calls turn') k = foldl (merge_view (se_api E)) (call_view (t_calls turn) k)
         (concat (map (\<lambda>ob. call_deltas E k 0 (event_calls (se_api E) ob)) (events E (t_pstate turn) (fst (split_lines (sb_str (t_line turn)) bs))))))"
  using assms
proof (induction bs arbitrary: turn a)
  case (Cons b bs)
  show ?case
  proof (cases "b = 0x0A")
    case False
    obtain sb where s: "sb_append [] (t_line turn) [b] = (Inr (), [], sb)" "sb_buf sb = Some (sb_str (t_line turn) @ [b])" using sb_append_nofail by blast
    then show ?thesis
      using Cons.IH [of a "turn\<lparr>t_line := sb\<rparr>"] Cons.prems False by (simp add: sb_str_Some)
  next
    case True
    obtain r p where r: "line_event E (t_pstate turn) (sb_str (t_line turn)) = (r, p)" by fastforce
    define os where "os = events E p (fst (split_lines [] bs))"
    have os: "events E (t_pstate turn) (fst (split_lines (sb_str (t_line turn)) (b # bs))) = (case r of None \<Rightarrow> os | Some ob \<Rightarrow> ob # os)"
      unfolding split_lines_acc os_def by (simp add: True r split: option.split)
    have rest: "snd (split_lines (sb_str (t_line turn)) (b # bs)) = snd (split_lines [] bs)" unfolding split_lines_acc by (simp add: True)
    have "\<And>ob. r = Some ob \<Longrightarrow> \<forall>d \<in> set (event_calls (se_api E) ob). typed (se_api E) d" using Cons.prems(2) unfolding os by simp
    then obtain turn1 a1 where h: "stream_handle_line E [] turn a = Some ([], turn1, a1)"
      "case r of None \<Rightarrow> alike (turn\<lparr>t_pstate := p\<rparr>) a turn1 a1 | Some ob \<Rightarrow> adds E ob (turn\<lparr>t_pstate := p\<rparr>) a turn1 a1"
      using handle_line_adds [OF Cons.prems(1) r] by blast
    have fr: "t_pstate turn1 = p" "\<not> a_cancelling a1" using h(2) Cons.prems(1) by (auto simp: alike_def adds_def split: option.splits)
    have rl: "sb_str (t_line (reset_line turn1)) = []" "t_pstate (reset_line turn1) = p" "t_content (reset_line turn1) = t_content turn1"
      "t_calls (reset_line turn1) = t_calls turn1" using fr by (simp_all add: reset_line_def sb_str_def split: option.split)
    have "\<forall>ob \<in> set os. \<forall>d \<in> set (event_calls (se_api E) ob). typed (se_api E) d" using Cons.prems(2) unfolding os by (auto split: option.splits)
    then obtain turn2 a2 where t2: "clm_http_data_cb E bs [] (reset_line turn1) a1 = Some ([], turn2, a2)" "sb_str (t_line turn2) = snd (split_lines [] bs)"
      "\<not> a_cancelling a2" "sb_str (t_content turn2) = sb_str (t_content turn1) @ concat (map (event_text (se_api E)) os)"
      "shown (a_out a2) = shown (a_out a1) @ concat (map (event_text (se_api E)) os)"
      "\<forall>k. call_view (t_calls turn2) k = foldl (merge_view (se_api E)) (call_view (t_calls turn1) k) (concat (map (\<lambda>ob. call_deltas E k 0 (event_calls (se_api E) ob)) os))"
      using Cons.IH [of a1 "reset_line turn1", unfolded rl, folded os_def] fr(2) by blast
    have d: "clm_http_data_cb E (b # bs) [] turn a = Some ([], turn2, a2)" using t2(1) h(1) True by simp
    show ?thesis
      unfolding os rest d using t2 h(2) by (cases r) (simp_all add: alike_def adds_def)
  qed
qed simp

text \<open>C4 (equivalence). The parser makes the same of a response however its bytes are cut into pieces: the text kept for the history is
  the concatenation of the text of all events, it is exactly the text that was shown, every tool call is put together from the
  deltas with its index (its first id, its first name, all argument fragments in order), and the unfinished line is kept.\<close>

theorem stream_assembles:
  assumes "\<not> a_cancelling a" "sb_str (t_line turn) = []" "sb_str (t_content turn) = []" "t_calls turn = []"
    and "\<forall>ob \<in> set (events E (t_pstate turn) (fst (split_lines [] (concat chunks)))). \<forall>d \<in> set (event_calls (se_api E) ob). typed (se_api E) d"
  shows "\<exists>turn' a'. feed E chunks [] turn a = Some ([], turn', a')
    \<and> (let os = events E (t_pstate turn) (fst (split_lines [] (concat chunks))) in
       sb_str (t_content turn') = concat (map (event_text (se_api E)) os)
       \<and> shown (a_out a') = shown (a_out a) @ sb_str (t_content turn')
       \<and> (\<forall>k. call_view (t_calls turn') k = deltas_view (se_api E) (concat (map (\<lambda>ob. call_deltas E k 0 (event_calls (se_api E) ob)) os)))
       \<and> sb_str (t_line turn') = snd (split_lines [] (concat chunks)))"
proof -
  obtain turn' a' where d: "clm_http_data_cb E (concat chunks) [] turn a = Some ([], turn', a')"
    "sb_str (t_line turn') = snd (split_lines [] (concat chunks))"
    "sb_str (t_content turn') = concat (map (event_text (se_api E)) (events E (t_pstate turn) (fst (split_lines [] (concat chunks)))))"
    "shown (a_out a') = shown (a_out a) @ concat (map (event_text (se_api E)) (events E (t_pstate turn) (fst (split_lines [] (concat chunks)))))"
    "\<forall>k. call_view (t_calls turn') k = foldl (merge_view (se_api E)) (call_view [] k)
       (concat (map (\<lambda>ob. call_deltas E k 0 (event_calls (se_api E) ob)) (events E (t_pstate turn) (fst (split_lines [] (concat chunks))))))"
    using data_cb_assembles [of a E turn "concat chunks"] assms by auto
  have "foldl (merge_view (se_api E)) (call_view [] k) ds = deltas_view (se_api E) ds" for k ds
    by (simp add: call_view_def deltas_view_def foldl_merge_view)
  then show ?thesis using d by (simp add: feed_concat Let_def)
qed

definition new_turn :: "nat \<Rightarrow> 'p async_turn" where
  "new_turn msgs = \<lparr>t_line = sb_null, t_content = sb_null, t_calls = [], t_finish = None, t_usage = no_usage, t_have_usage = False, t_tps = 0,
     t_msgs = msgs, t_retries = 0, t_advice = None, t_pstate = None\<rparr>"

definition idle_agent :: stream_agent where
  "idle_agent = \<lparr>a_error = None, a_chain_id = None, a_chain_sent = 0, a_cancelling = False, a_out = []\<rparr>"

text \<open>A server that knows one event.\<close>

definition one_event :: "json \<Rightarrow> (json, unit) stream_env" where
  "one_event ev = \<lparr>se_api = json_api\<lparr>cj_parse := (\<lambda>s. if s = lit ''e'' then Some ev else None)\<rparr>, se_int = (\<lambda>_. 0), se_num = (\<lambda>_. 0), se_normalize = None\<rparr>"

definition hi_event :: json where
  "hi_event = JObject [(lit ''choices'', JArray [JObject [(lit ''delta'', JObject [(lit ''content'', JString (lit ''hi'')),
     (lit ''tool_calls'', JArray [JObject [(lit ''id'', JString (lit ''7''))]])])]])]"


lemma hi_line: "line_event (one_event hi_event) p (lit ''data: e'') = (Some hi_event, p)"
  by (simp add: line_event_def line_payload_def normalize_event_def one_event_def c_str_def)

lemma hi_parts: "event_text (se_api (one_event hi_event)) hi_event = lit ''hi''"
  "event_calls (se_api (one_event hi_event)) hi_event = [JObject [(lit ''id'', JString (lit ''7''))]]"
  by (simp_all add: event_text_def event_calls_def event_delta_def event_choice_def delta_text_def get_str_def array_head_def one_event_def json_api_def hi_event_def)

theorem stream_assembles_witness:
  "\<exists>turn' a'. feed (one_event hi_event) [lit ''data:'', lit '' e'' @ [0x0A]] [] (new_turn 0) idle_agent = Some ([], turn', a')
    \<and> sb_str (t_content turn') = lit ''hi'' \<and> shown (a_out a') = lit ''hi'' \<and> call_view (t_calls turn') 0 = (Some (lit ''7''), None, None)"
proof -
  have os: "fst (split_lines [] (concat [lit ''data:'', lit '' e'' @ [0x0A]])) = [lit ''data: e'']" by simp
  have ev: "events (one_event hi_event) None [lit ''data: e''] = [hi_event]" by (simp add: hi_line del: lit_Cons)
  have n: "t_pstate (new_turn 0) = None" by (simp add: new_turn_def)
  have ty: "typed (se_api (one_event hi_event)) (JObject [(lit ''id'', JString (lit ''7''))])"
    by (simp add: typed_def delta_id_def cj_get_string_def delta_name_def one_event_def json_api_def)
  have dv: "deltas_view (se_api (one_event hi_event)) (call_deltas (one_event hi_event) 0 0 [JObject [(lit ''id'', JString (lit ''7''))]]) = (Some (lit ''7''), None, None)"
    by (simp add: deltas_view_def call_deltas_def delta_index_def delta_id_def delta_name_def delta_name_str_def delta_args_def cj_get_string_def
        one_event_def json_api_def first_some_def joined_def)
  show ?thesis
    using stream_assembles [of idle_agent "new_turn 0" "one_event hi_event" "[lit ''data:'', lit '' e'' @ [0x0A]]"] ty dv
    unfolding os n ev
    by (simp add: hi_parts idle_agent_def new_turn_def shown_def Let_def del: lit_Cons) metis
qed

text \<open>(error). The first delta of a tool call with an id that is not a string (a null) makes the parser pass NULL to \<^verbatim>\<open>strdup\<close>.\<close>

theorem stream_null_id_undefined:
  "stream_merge_tool_calls (one_event hi_event) (JArray [JObject [(lit ''id'', JNull), (lit ''function'', JObject [])]]) [] [] = None"
  by (simp add: stream_merge_tool_calls_def one_event_def json_api_def delta_index_def stream_get_call_def merge_fields_def set_once_def Let_def empty_call_def)

section \<open>The finished calls\<close>

definition call_named :: "'j cjson_api \<Rightarrow> stream_call \<Rightarrow> 'j \<Rightarrow> bool" where
  "call_named J c j \<longleftrightarrow> cj_get_string J j (lit ''id'') = Some (case sc_id c of None \<Rightarrow> [] | Some s \<Rightarrow> s)
     \<and> (\<exists>f. cj_get J j (lit ''function'') = Some f \<and> cj_get_string J f (lit ''name'') = sc_name c
        \<and> cj_get_string J f (lit ''arguments'') = Some (case sb_buf (sc_args c) of None \<Rightarrow> lit ''{}'' | Some s \<Rightarrow> s))"

context cjson_laws
begin

lemma stream_call_json_ok:
  assumes "has_name c"
  shows "\<exists>j. stream_call_json J c [] = (Some j, []) \<and> call_named J c j"
proof -
  have ne: "lit ''id'' \<noteq> lit ''type''" "lit ''id'' \<noteq> lit ''function''" "lit ''type'' \<noteq> lit ''function''" "lit ''name'' \<noteq> lit ''arguments''" by simp_all
  note ne' = ne ne [symmetric]
  define f where "f = cj_add J (cj_add J (cj_object J) (lit ''name'') (cj_string J (the (sc_name c)))) (lit ''arguments'')
    (cj_string J (case sb_buf (sc_args c) of None \<Rightarrow> lit ''{}'' | Some s \<Rightarrow> s))"
  have f: "cj_get_string J f (lit ''name'') = sc_name c" "cj_get_string J f (lit ''arguments'') = Some (case sb_buf (sc_args c) of None \<Rightarrow> lit ''{}'' | Some s \<Rightarrow> s)"
    using assms ne' by (auto simp: f_def cj_get_string_def object_laws string_value has_name_def simp del: lit_Cons)
  define j where "j = cj_add J (cj_add J (cj_add J (cj_object J) (lit ''id'') (cj_string J (case sc_id c of None \<Rightarrow> [] | Some s \<Rightarrow> s))) (lit ''type'') (cj_string J (lit ''function''))) (lit ''function'') f"
  have "cj_get_string J j (lit ''id'') = Some (case sc_id c of None \<Rightarrow> [] | Some s \<Rightarrow> s)" "cj_get J j (lit ''function'') = Some f"
    using ne' by (simp_all add: j_def cj_get_string_def object_laws string_value del: lit_Cons)
  moreover have "stream_call_json J c [] = (Some j, [])"
    by (simp add: stream_call_json_def cj_create_def cj_add_opt_def j_def f_def Let_def del: lit_Cons)
  ultimately show ?thesis using f by (auto simp: call_named_def)
qed

lemma build_calls_json_ok:
  "cj_is_array J arr \<Longrightarrow> \<exists>js. build_calls_json J cs [] arr = (Some (foldl (cj_push J) arr js), []) \<and> list_all2 (call_named J) (filter has_name cs) js"
proof (induction cs arbitrary: arr)
  case (Cons c cs)
  show ?case
  proof (cases "has_name c")
    case True
    then obtain j where j: "stream_call_json J c [] = (Some j, [])" "call_named J c j" using stream_call_json_ok by blast
    then obtain js where "build_calls_json J cs [] (cj_push J arr j) = (Some (foldl (cj_push J) (cj_push J arr j) js), [])" "list_all2 (call_named J) (filter has_name cs) js"
      using Cons.IH [of "cj_push J arr j"] Cons.prems by (auto simp: array_laws)
    then show ?thesis using j True by (intro exI [of _ "j # js"]) simp
  qed (use Cons in auto)
qed (auto intro: exI [of _ "[]"])

lemma build_tool_calls_ok:
  "\<exists>r. stream_build_tool_calls J turn [] = (r, []) \<and> (case r of None \<Rightarrow> filter has_name (t_calls turn) = []
     | Some arr \<Rightarrow> cj_is_array J arr \<and> filter has_name (t_calls turn) \<noteq> [] \<and> list_all2 (call_named J) (filter has_name (t_calls turn)) (cj_items J arr))"
proof -
  obtain js where js: "build_calls_json J (t_calls turn) [] (cj_array J) = (Some (foldl (cj_push J) (cj_array J) js), [])" "list_all2 (call_named J) (filter has_name (t_calls turn)) js"
    using build_calls_json_ok [OF is_array_empty] by blast
  have items: "cj_items J (foldl (cj_push J) (cj_array J) js) = js" by (simp add: items_foldl array_laws)
  have "stream_build_tool_calls J turn [] = (if t_calls turn = [] \<or> js = [] then None else Some (foldl (cj_push J) (cj_array J) js), [])"
    using js(1) items by (simp add: stream_build_tool_calls_def cj_create_def)
  then show ?thesis using js(2) items by (auto simp: is_array_foldl is_array_empty)
qed

end

text \<open>(roundtrip). The calls a stream assembled reach the dispatcher: the array has one entry per call that got a name, in order, from which
  the id, the name and the complete argument text are read back.\<close>

theorem stream_calls_listed:
  assumes "cjson_laws J"
  shows "\<exists>r. stream_build_tool_calls J turn [] = (r, []) \<and> (case r of None \<Rightarrow> filter has_name (t_calls turn) = []
     | Some arr \<Rightarrow> cj_is_array J arr \<and> filter has_name (t_calls turn) \<noteq> [] \<and> list_all2 (call_named J) (filter has_name (t_calls turn)) (cj_items J arr))"
  by (rule cjson_laws.build_tool_calls_ok [OF assms])

theorem stream_calls_listed_witness:
  "\<exists>arr. stream_build_tool_calls json_api (new_turn 0\<lparr>t_calls := [empty_call, empty_call\<lparr>sc_name := Some (lit ''sh'')\<rparr>]\<rparr>) [] = (Some arr, [])
    \<and> list_all2 (call_named json_api) [empty_call\<lparr>sc_name := Some (lit ''sh'')\<rparr>] (cj_items json_api arr)"
proof -
  have "filter has_name [empty_call, empty_call\<lparr>sc_name := Some (lit ''sh'')\<rparr>] = [empty_call\<lparr>sc_name := Some (lit ''sh'')\<rparr>]"
    by (simp add: has_name_def empty_call_def)
  then show ?thesis
    using stream_calls_listed [OF json.cjson_laws_axioms, of "new_turn 0\<lparr>t_calls := [empty_call, empty_call\<lparr>sc_name := Some (lit ''sh'')\<rparr>]\<rparr>"]
    by (auto simp del: lit_Cons split: option.splits)
qed

end
