(* ===== verification/Agent_Request.thy ===== *)
theory Agent_Request
  imports Agent_Stream Tool_Registry "HOL-Library.List_Lexorder"
begin

text \<open>
  The parts of \<^verbatim>\<open>libclm/agent.c\<close> that compute without waiting for anything: addresses, hooks, the parts of the system
  prompt, thresholds, the wait after a rate limit, error messages, and which messages a request carries when the server
  holds the earlier ones.
\<close>

section \<open>Addresses\<close>

definition ends_with :: "byte list \<Rightarrow> byte list \<Rightarrow> bool" where
  "ends_with p s \<longleftrightarrow> length p \<le> length s \<and> drop (length s - length p) s = p"

text \<open>\<^verbatim>\<open>strrchr(s, '/')\<close> and \<^verbatim>\<open>strchr(s, '/')\<close>: what is before the last and before the first slash.\<close>

definition before_last :: "byte \<Rightarrow> cstr \<Rightarrow> cstr option" where
  "before_last b s = (if b \<in> set s then Some (rev (tl (dropWhile (\<lambda>x. x \<noteq> b) (rev s)))) else None)"

definition clm_derive_models_url :: "cstr \<Rightarrow> tape \<Rightarrow> cstr option \<times> tape" where
  "clm_derive_models_url base_url t =
     (let comp = lit ''/chat/completions'' in
      case if ends_with comp base_url then Some (take (length base_url - length comp) base_url) else before_last 0x2F base_url of
        None \<Rightarrow> dup t base_url
      | Some prefix \<Rightarrow> dup t (prefix @ lit ''/models''))"

definition clm_derive_props_url :: "cstr \<Rightarrow> tape \<Rightarrow> cstr option \<times> tape" where
  "clm_derive_props_url base_url t =
     (case find_sub (lit ''//'') base_url of None \<Rightarrow> (None, t)
      | Some i \<Rightarrow> dup t (take (i + 2) base_url @ takeWhile (\<lambda>b. b \<noteq> 0x2F) (drop (i + 2) base_url) @ lit ''/props''))"

datatype clm_provider = CLM_PROVIDER_OPENAI | CLM_PROVIDER_OLLAMA | CLM_PROVIDER_ANTHROPIC | CLM_PROVIDER_OPENAI_RESPONSES

definition agent_wants_file_uploads :: "clm_provider \<Rightarrow> int \<Rightarrow> cstr \<Rightarrow> bool" where
  "agent_wants_file_uploads provider cfg base_url =
     (if provider \<noteq> CLM_PROVIDER_ANTHROPIC \<or> cfg < 0 then False
      else cfg > 0 \<or> starts_with (lit ''https://api.anthropic.com/'') base_url)"

section \<open>Hooks\<close>

text \<open>The arrays of hooks: a function and its argument. Both kinds are kept the same way.\<close>

definition add_hook :: "'h \<Rightarrow> tape \<Rightarrow> 'h list \<Rightarrow> (errno + unit) \<times> tape \<times> 'h list" where
  "add_hook h t hs = (let (ok, t) = alloc t in if ok then (Inr (), t, hs @ [h]) else (Inl ENOMEM, t, hs))"

fun remove_hook :: "'h \<Rightarrow> 'h list \<Rightarrow> (errno + unit) \<times> 'h list" where
  "remove_hook h [] = (Inl ENOENT, [])"
| "remove_hook h (x # hs) = (if x = h then (Inr (), hs) else let (r, hs) = remove_hook h hs in (r, x # hs))"

section \<open>Parts of the system prompt\<close>

type_synonym prompt_part = "cstr \<times> cstr"

definition part_index :: "cstr \<Rightarrow> prompt_part list \<Rightarrow> nat" where
  "part_index key parts = length (takeWhile (\<lambda>p. fst p < key) parts)"

definition clm_agent_set_prompt_part :: "cstr \<Rightarrow> cstr option \<Rightarrow> tape \<Rightarrow> prompt_part list \<times> bool
    \<Rightarrow> (errno + unit) \<times> tape \<times> prompt_part list \<times> bool" where
  "clm_agent_set_prompt_part key tx t st =
     (let (parts, changed) = st; i = part_index key parts; (ok, t) = opt_strdup t tx in
      if \<not> ok then (Inl ENOMEM, t, st)
      else if i < length parts \<and> fst (parts ! i) = key then
        case tx of
          Some c \<Rightarrow> if snd (parts ! i) = c then (Inr (), t, st) else (Inr (), t, parts[i := (key, c)], True)
        | None \<Rightarrow> (Inr (), t, take i parts @ drop (i + 1) parts, True)
      else case tx of
        None \<Rightarrow> (Inr (), t, st)
      | Some c \<Rightarrow>
        let (ok, t) = alloc t in
        if \<not> ok then (Inl ENOMEM, t, st)
        else let (ok, t) = alloc t in
          if \<not> ok then (Inl ENOMEM, t, st) else (Inr (), t, take i parts @ (key, c) # drop i parts, True))"

definition prompt_text :: "cstr \<Rightarrow> prompt_part list \<Rightarrow> cstr" where
  "prompt_text base parts = base @ concat (map (\<lambda>p. [0x0A, 0x0A] @ snd p) parts)"

text \<open>\<^verbatim>\<open>apply_prompt_parts\<close> on the items of the message array. A failed allocation of the new string item changes nothing.\<close>

definition apply_prompt_parts :: "'j cjson_api \<Rightarrow> prompt_part list \<Rightarrow> 'j list \<Rightarrow> tape \<Rightarrow> (errno + 'j list) \<times> tape" where
  "apply_prompt_parts J parts msgs t =
     (case msgs of [] \<Rightarrow> (Inr msgs, t)
      | sys # rest \<Rightarrow>
        (case cj_get_string J sys (lit ''content'') of None \<Rightarrow> (Inr msgs, t)
         | Some base \<Rightarrow>
           if parts = [] \<or> cj_get_string J sys (lit ''role'') \<noteq> Some (lit ''system'') then (Inr msgs, t)
           else let (ok, t) = alloc t in
             if \<not> ok then (Inl ENOMEM, t)
             else let (v, t) = cj_create t (cj_string J (prompt_text base parts)) in
               (Inr (case v of None \<Rightarrow> msgs | Some s \<Rightarrow> cj_put J sys (lit ''content'') s # rest), t)))"

section \<open>Thresholds and targets\<close>

definition CLM_AUTOCOMPACT_PCT :: int where "CLM_AUTOCOMPACT_PCT = 50"
definition CLM_AUTOCOMPACT_FALLBACK_TOKENS :: int where "CLM_AUTOCOMPACT_FALLBACK_TOKENS = 100000"

record budget =
  ctx_max :: int
  ctx_used :: int
  autocompact_pct :: int
  autocompact_tokens :: int

definition clm_agent_over_autocompact_threshold :: "'a budget_scheme \<Rightarrow> bool" where
  "clm_agent_over_autocompact_threshold g =
     (if ctx_used g \<le> 0 then False
      else if autocompact_tokens g > 0 \<and> ctx_used g \<ge> autocompact_tokens g then True
      else if ctx_max g \<le> 0 then ctx_used g \<ge> CLM_AUTOCOMPACT_FALLBACK_TOKENS
      else (ctx_used g * 100) div ctx_max g \<ge> (if autocompact_pct g > 0 then autocompact_pct g else CLM_AUTOCOMPACT_PCT))"

definition compact_tokens :: "'a budget_scheme \<Rightarrow> int option" where
  "compact_tokens g =
     (let b = (if autocompact_tokens g > 0 \<and> (ctx_max g \<le> 0 \<or> autocompact_tokens g < ctx_max g) then autocompact_tokens g else ctx_max g) in
      if b \<le> 0 then None else Some (min 4000 (max 500 (b * 5 div 100))))"

definition compact_target :: "'a budget_scheme \<Rightarrow> cstr" where
  "compact_target g = (case compact_tokens g of None \<Rightarrow> snprintf 64 (lit ''Aim for 2000-4000 tokens.'')
     | Some n \<Rightarrow> snprintf 64 (lit ''Aim for at most '' @ idec n @ lit '' tokens.''))"

text \<open>The bytes compaction keeps at the end of the history, and the messages it keeps at least.\<close>

definition keep_bytes :: "'a budget_scheme \<Rightarrow> nat" where
  "keep_bytes g = nat (if ctx_max g > 0 then ctx_max g else CLM_AUTOCOMPACT_FALLBACK_TOKENS) * 10 div 100 * 4"

definition CLM_COMPACT_KEEP_MIN :: nat where "CLM_COMPACT_KEEP_MIN = 2"

text \<open>The effort of a compaction request, from its own setting, the provider and the effort of the session.\<close>

definition compact_effort :: "cstr option \<Rightarrow> clm_provider \<Rightarrow> cstr option \<Rightarrow> cstr option" where
  "compact_effort setting provider effort =
     (case setting of Some e \<Rightarrow> if e = lit ''session'' then effort else Some e
      | None \<Rightarrow> if effort = None \<or> provider = CLM_PROVIDER_ANTHROPIC then effort else Some (lit ''none''))"

section \<open>Waiting out a rate limit\<close>

definition CLM_RL_RETRY_MAX :: nat where "CLM_RL_RETRY_MAX = 8"

text \<open>
  \<^verbatim>\<open>sscanf(p, "%lf%3[a-z]", &v, unit)\<close> as a function: the number and the unit when both were read. The conversion of a
  double to \<^verbatim>\<open>uint64_t\<close> is undefined out of range, so it is a function of the environment as well.
\<close>

record delay_env =
  scan_delay :: "cstr \<Rightarrow> (real \<times> cstr) option"
  to_u64 :: "real \<Rightarrow> u64"

definition after_sub :: "cstr \<Rightarrow> cstr \<Rightarrow> cstr option" where
  "after_sub p s = map_option (\<lambda>i. drop (i + length p) s) (find_sub p s)"

definition server_delay_ms :: "'a delay_env_scheme \<Rightarrow> cstr option \<Rightarrow> u64" where
  "server_delay_ms D body =
     (case Option.bind (Option.bind body (after_sub (lit ''try again in ''))) (scan_delay D) of
        None \<Rightarrow> 5000
      | Some (v, u) \<Rightarrow>
        if v \<le> 0 then 5000
        else if starts_with (lit ''ms'') u then to_u64 D v
        else if take 1 u = lit ''s'' then to_u64 D (v * 1000)
        else if take 1 u = lit ''m'' then to_u64 D (v * 60000)
        else 5000)"

definition clm_rl_retry_delay_ms :: "'a delay_env_scheme \<Rightarrow> cstr option \<Rightarrow> int \<Rightarrow> u64" where
  "clm_rl_retry_delay_ms D body attempt =
     (let delay = server_delay_ms D body;
          n = (if attempt < 0 then 0 else if attempt > 20 then 20 else nat attempt);
          floor_ms = push_bit n 1000;
          delay = (if delay < floor_ms then floor_ms else delay)
      in if delay > 60000 then 60000 else delay)"

section \<open>Error messages\<close>

text \<open>\<^verbatim>\<open>format_http_error\<close> into a buffer of \<open>n\<close> bytes; the response is its body, or there is none.\<close>

definition format_http_error :: "'j cjson_api \<Rightarrow> nat \<Rightarrow> cstr option option \<Rightarrow> int \<Rightarrow> cstr" where
  "format_http_error J n resp status =
     snprintf n (lit ''HTTP '' @ idec status @
       (case resp of None \<Rightarrow> []
        | Some body \<Rightarrow>
          if body = None \<or> body = Some [] then lit '': empty response body''
          else lit '': '' @ (case Option.bind (cj_parse J (the body)) (response_error_message J) of Some d \<Rightarrow> d | None \<Rightarrow> the body)))"

text \<open>The summary of a compaction response.\<close>

definition extract_message_content :: "'j cjson_api \<Rightarrow> 'j \<Rightarrow> tape \<Rightarrow> cstr option \<times> tape" where
  "extract_message_content J parsed t =
     (case response_message J parsed of None \<Rightarrow> (None, t)
      | Some m \<Rightarrow>
        case get_str J m (lit ''content'') of
          Some (b # s) \<Rightarrow> dup t (b # s)
        | _ \<Rightarrow>
          case Option.bind (case cj_get J m (lit ''reasoning_content'') of None \<Rightarrow> cj_get J m (lit ''reasoning'') | Some r \<Rightarrow> Some r)
            (\<lambda>r. if cj_is_string J r then cj_string_value J r else None) of
            Some (b # s) \<Rightarrow> dup t (b # s)
          | _ \<Rightarrow> (None, t))"

section \<open>Continuing on the server\<close>

text \<open>
  The messages a request carries when the server holds the first \<open>sent\<close> of them under \<open>chain\<close>: the rest, without the reply to the
  held ones, which the server has as well. The result is the messages, the id to continue from, and whether the chain was
  found unusable.
\<close>

definition chain_cut :: "'j cjson_api \<Rightarrow> cstr option \<Rightarrow> nat \<Rightarrow> 'j list \<Rightarrow> 'j list \<times> cstr option \<times> bool" where
  "chain_cut J chain sent msgs =
     (case chain of None \<Rightarrow> (msgs, None, False)
      | Some i \<Rightarrow>
        if sent > 0 \<and> sent \<le> length msgs then
          let n = (if sent < length msgs \<and> cj_get_string J (msgs ! sent) (lit ''role'') = Some (lit ''assistant'') then sent + 1 else sent)
          in (drop n msgs, Some i, False)
        else (msgs, None, True))"

section \<open>The wait stays between its bounds\<close>

lemma unat_shift_1000:
  assumes "n \<le> 20"
  shows "unat (push_bit n (1000 :: u64)) = 1000 * 2 ^ n"
proof -
  have "(2 :: nat) ^ n \<le> 2 ^ 20" using assms by (intro power_increasing) simp_all
  then have "1000 * 2 ^ n < (2 :: nat) ^ 64" by simp
  moreover have "push_bit n (1000 :: u64) = word_of_nat (1000 * 2 ^ n)" by (simp add: push_bit_eq_mult)
  ultimately show ?thesis by (simp only: unsigned_of_nat) (simp add: take_bit_nat_eq_self)
qed

lemma retry_delay_nat:
  "unat (clm_rl_retry_delay_ms D body attempt) = min 60000 (max (unat (server_delay_ms D body)) (1000 * 2 ^ (min 20 (nat attempt))))"
proof -
  define n where "n = (if attempt < 0 then 0 else if attempt > 20 then 20 else nat attempt)"
  have n: "n \<le> 20" "n = min 20 (nat attempt)" by (auto simp: n_def)
  define f where "f = push_bit n (1000 :: u64)"
  have f: "unat f = 1000 * 2 ^ n" unfolding f_def by (rule unat_shift_1000 [OF n(1)])
  have c: "unat (60000 :: u64) = 60000" by simp
  have "clm_rl_retry_delay_ms D body attempt = (let d = if server_delay_ms D body < f then f else server_delay_ms D body in if d > 60000 then 60000 else d)"
    by (simp add: clm_rl_retry_delay_ms_def n_def f_def Let_def)
  then show ?thesis using f c n(2) by (auto simp: Let_def word_less_nat_alt min_def max_def)
qed

text \<open>(bounds). Whatever a server says, the wait after a rate limit is at least a second and at most a minute, it is never shorter than the
  floor that doubles with each attempt (until that reaches the minute), and a server's own figure between these bounds is
  used as it is.\<close>

theorem retry_delay_bounds:
  "let d = unat (clm_rl_retry_delay_ms D body (int k)); s = unat (server_delay_ms D body) in
     1000 \<le> d \<and> d \<le> 60000 \<and> min 60000 (1000 * 2 ^ k) \<le> d \<and> (d = s \<or> s < d \<and> d = min 60000 (1000 * 2 ^ min 20 k) \<or> d = 60000)"
proof -
  have p: "1 \<le> (2 :: nat) ^ min 20 k" by simp
  have "min 60000 (1000 * 2 ^ k) \<le> min 60000 (1000 * (2 :: nat) ^ min 20 k)"
  proof (cases "k \<le> 20")
    case False
    then have "(2 :: nat) ^ min 20 k = 2 ^ 20" by (simp add: min_def)
    then show ?thesis by simp
  qed (simp add: min_def)
  moreover define f where "f = 1000 * (2 :: nat) ^ min 20 k"
  moreover have "1000 \<le> f" using p by (simp add: f_def)
  ultimately show ?thesis unfolding Let_def retry_delay_nat nat_int f_def [symmetric] by (auto simp: min_def max_def split: if_splits)
qed

section \<open>The parts are a sorted map\<close>

definition parts_ok :: "prompt_part list \<Rightarrow> bool" where
  "parts_ok parts \<longleftrightarrow> sorted_wrt (<) (map fst parts)"

lemma parts_split:
  assumes "parts_ok parts"
  obtains A B where "parts = A @ B" "length A = part_index key parts" "\<forall>p \<in> set A. fst p < key" "\<forall>p \<in> set B. key \<le> fst p"
proof
  let ?P = "\<lambda>p. fst p < key"
  show "parts = takeWhile ?P parts @ dropWhile ?P parts" by simp
  show "length (takeWhile ?P parts) = part_index key parts" by (simp add: part_index_def)
  show "\<forall>p \<in> set (takeWhile ?P parts). fst p < key" by (auto dest: set_takeWhileD)
  show "\<forall>p \<in> set (dropWhile ?P parts). key \<le> fst p"
  proof (cases "dropWhile ?P parts")
    case (Cons q qs)
    then have "key \<le> fst q" by (metis hd_dropWhile list.discI list.sel(1) not_less)
    moreover have "sorted_wrt (<) (map fst (takeWhile ?P parts) @ map fst (q # qs))"
      using assms Cons by (metis map_append parts_ok_def takeWhile_dropWhile_id)
    ultimately show ?thesis using Cons by (auto simp: sorted_wrt_append)
  next
    case Nil
    then show ?thesis by (simp only: list.set ball_simps)
  qed
qed

lemma map_of_less:
  fixes key :: "'k :: linorder"
  shows "\<forall>p \<in> set A. fst p < key \<Longrightarrow> map_of A key = None"
  by (induction A) auto

text \<open>(functional). The parts of the system prompt are a map kept sorted by key: setting a part changes that key only, an empty text
  removes it, a failure changes nothing, and every change is noted, so that the next request starts the server's chain again.\<close>

theorem prompt_parts_map:
  assumes "parts_ok parts" "clm_agent_set_prompt_part key tx t (parts, ch) = (r, t', parts', ch')"
  shows "parts_ok parts' \<and> (r = Inr () \<longrightarrow> map_of parts' = (map_of parts)(key := tx)) \<and> (r \<noteq> Inr () \<longrightarrow> parts' = parts)
    \<and> (if parts' = parts then ch' = ch else ch')"
proof -
  obtain A B where ab: "parts = A @ B" "length A = part_index key parts" "\<forall>p \<in> set A. fst p < key" "\<forall>p \<in> set B. key \<le> fst p"
    using parts_split [OF assms(1)] by blast
  have so: "sorted_wrt (<) (map fst A)" "sorted_wrt (<) (map fst B)" "\<forall>a \<in> set A. \<forall>b \<in> set B. fst a < fst b"
    using assms(1) by (auto simp: parts_ok_def ab(1) sorted_wrt_append)
  have i: "part_index key parts = length A" using ab(2) by simp
  obtain ok t1 where o: "opt_strdup t tx = (ok, t1)" by fastforce
  show ?thesis
  proof (cases "B \<noteq> [] \<and> fst (hd B) = key")
    case True
    then obtain old B' where b: "B = (key, old) # B'" by (cases B) auto
    have gt: "\<forall>p \<in> set B'. key < fst p" using so(2) b by auto
    then have nb: "map_of B' key = None" by (induction B') auto
    have m: "map_of (A @ X) = map_of X ++ map_of A" for X by simp
    have upd: "map_of (A @ (key, c) # B') = (map_of parts)(key \<mapsto> c)" for c
      using map_of_less [OF ab(3)] by (auto simp: ab(1) b map_add_def fun_eq_iff split: option.split)
    have del: "map_of (A @ B') = (map_of parts)(key := None)"
      using map_of_less [OF ab(3)] nb by (auto simp: ab(1) b map_add_def fun_eq_iff split: option.split)
    have p1: "parts_ok (A @ (key, c) # B')" "parts_ok (A @ B')" for c
      using so gt ab(3) b by (auto simp: parts_ok_def sorted_wrt_append)
    have "clm_agent_set_prompt_part key tx t (parts, ch) =
      (if \<not> ok then (Inl ENOMEM, t1, parts, ch) else case tx of
          Some c \<Rightarrow> if old = c then (Inr (), t1, parts, ch) else (Inr (), t1, A @ (key, c) # B', True)
        | None \<Rightarrow> (Inr (), t1, A @ B', True))"
      unfolding clm_agent_set_prompt_part_def Let_def prod.case i o by (simp add: ab(1) b split: option.split)
    then consider "r \<noteq> Inr ()" "parts' = parts" "ch' = ch" | "tx = Some old" "r = Inr ()" "parts' = parts" "ch' = ch"
      | c where "tx = Some c" "c \<noteq> old" "r = Inr ()" "parts' = A @ (key, c) # B'" "ch'" | "tx = None" "r = Inr ()" "parts' = A @ B'" "ch'"
      using assms(2) by (cases tx; cases ok) (auto split: if_splits)
    then show ?thesis
    proof cases
      case 2
      have "map_of parts = (map_of parts)(key \<mapsto> old)" using upd [of old] by (simp only: ab(1) b)
      then show ?thesis using 2 assms(1) by (simp only: simp_thms if_True)
    next
      case 4
      have "A @ B' \<noteq> parts" by (simp add: ab(1) b)
      then show ?thesis using 4 p1(2) del by (simp only: simp_thms if_False)
    next
      case 1
      then show ?thesis using assms(1) by simp
    next
      case (3 c)
      have "A @ (key, c) # B' \<noteq> parts" using 3 by (simp add: ab(1) b)
      then show ?thesis using 3 p1(1) [of c] upd [of c] by (simp only: simp_thms if_False)
    qed
  next
    case False
    then have nk: "\<not> (length A < length parts \<and> fst (parts ! length A) = key)" by (cases B) (auto simp: ab(1))
    have gt: "\<forall>p \<in> set B. key < fst p"
    proof (cases B)
      case (Cons q qs)
      then have "key < fst q" using False ab(4) by auto
      then show ?thesis using so(2) Cons by auto
    qed simp
    then have nb: "map_of B key = None" by (induction B) auto
    have none: "map_of parts key = None" using map_of_less [OF ab(3)] nb by (simp add: ab(1) map_add_def)
    have ins: "map_of (A @ (key, c) # B) = (map_of parts)(key \<mapsto> c)" for c
      using map_of_less [OF ab(3)] by (auto simp: ab(1) map_add_def fun_eq_iff split: option.split)
    have p1: "parts_ok (A @ (key, c) # B)" for c using so gt ab(3) by (auto simp: parts_ok_def sorted_wrt_append)
    have "(r, t', parts', ch') = (Inl ENOMEM, t', parts, ch) \<or> tx = None \<and> r = Inr () \<and> parts' = parts \<and> ch' = ch
      \<or> (\<exists>c. tx = Some c \<and> r = Inr () \<and> parts' = A @ (key, c) # B \<and> ch')"
      using assms(2) nk unfolding clm_agent_set_prompt_part_def Let_def prod.case i o
      by (auto simp: ab(1) split: if_splits option.splits prod.splits)
    then show ?thesis using assms(1) none p1 ins by (auto simp: ab(1) fun_eq_iff)
  qed
qed

theorem prompt_parts_map_witness:
  "map_of (fst (snd (snd (clm_agent_set_prompt_part (lit ''a'') (Some (lit ''x'')) [] ([(lit ''b'', lit ''y'')], False))))) (lit ''a'') = Some (lit ''x'')
   \<and> snd (snd (snd (clm_agent_set_prompt_part (lit ''a'') (Some (lit ''x'')) [] ([(lit ''b'', lit ''y'')], False))))"
proof -
  have ok: "parts_ok [(lit ''b'', lit ''y'')]" by (simp add: parts_ok_def)
  obtain r t' parts' ch' where e: "clm_agent_set_prompt_part (lit ''a'') (Some (lit ''x'')) [] ([(lit ''b'', lit ''y'')], False) = (r, t', parts', ch')"
    by (metis prod_cases4)
  have "r = Inr ()" "parts' \<noteq> [(lit ''b'', lit ''y'')]"
    using e by (auto simp: clm_agent_set_prompt_part_def opt_strdup_def part_index_def Let_def)
  then show ?thesis using prompt_parts_map [OF ok e] e by (simp del: lit_Cons)
qed

end
