(* ===== verification/Agent_Turn.thy ===== *)
theory Agent_Turn
  imports Agent_Request Ratelimit
begin

text \<open>
  The turn of the agent, \<^verbatim>\<open>libclm/agent.c\<close>: submitting, the request for the model, its completion, rate limits, tool batches,
  uploads, compaction, cancelling. Every completion is a callback of the host, so each is a function on the state. A
  function that ends the turn does so last, with \<open>agent_turn_done\<close>; it returns the status, and the function of that name does the rest. The
  host keeps the requests and timers it accepted in the state; what it answers to \<^verbatim>\<open>http_post\<close> and \<^verbatim>\<open>timer_set\<close>, what
  \<^verbatim>\<open>clm_tools_dispatch\<close> does and what the embedder's turn-done callback does are read from the state as well.
\<close>

section \<open>State\<close>

datatype clm_agent_state = CLM_STATE_IDLE | CLM_STATE_THINKING | CLM_STATE_CALLING_TOOL | CLM_STATE_RATE_LIMITED
  | CLM_STATE_COMPLETE | CLM_STATE_ERROR

text \<open>A turn object: the response assembled so far, the request it resends, and, for the proofs only, the history it was built from.\<close>

record 'p llm_turn =
  lt :: "'p async_turn"
  lt_body :: cstr
  lt_streaming :: bool
  lt_ctx_bytes :: nat
  lt_hist :: clm_history

datatype 'p call = LlmCall "'p llm_turn" | UploadCall cstr | CompactCall

datatype agent_event = OnState clm_agent_state | OnTurnStart cstr | OnTurnEnd int "cstr option" | OnTurnDone int | OnFinish clm_finish_reason | OnUsage clm_usage
  | OnNotice cstr | OnMessage clm_message | Accepted | TimerSet u64

datatype cb_act = CbNothing | CbSubmit cstr | CbNotify cstr

datatype dispatch_result = DispFail int clm_history | DispPending clm_history | DispDone int clm_history

record 'p agent = stream_agent +
  ag_state :: clm_agent_state
  hist :: clm_history
  tp :: tape
  budget :: budget
  iteration :: nat
  max_iterations :: nat
  gate_denials :: nat
  pending_notify :: "cstr option"
  inflight :: bool
  active_batch :: bool
  llm_rl :: "clm_ratelimit option"
  llm_rl_timer :: bool
  rl_parked_turn :: "'p llm_turn option"
  compact_rl_timer :: bool
  compact_rl_retries :: nat
  compact_body :: "cstr option"
  compact_effort_set :: "cstr option"
  compact_effort_changed :: bool
  compact_effort_fallback :: bool
  compact_resume_chain :: bool
  mid_chain_compact_started :: bool
  mid_chain_compact_succeeded :: bool
  mid_chain_compact_failed :: bool
  turn_hooks :: nat
  tools_unsupported :: bool
  vision :: int
  file_uploads :: bool
  files :: file_cache
  files_lost :: nat
  prompt_parts :: "prompt_part list"
  prompt_parts_changed :: bool
  facts_pending :: bool
  system_prompt_suffix :: "cstr option"
  last_time_stamp :: int
  log :: "agent_event list"
  calls :: "('p call \<times> bool) list"
  llm_timers :: "'p llm_turn list"
  compact_timers :: nat
  o_posts :: "int list"
  o_timers :: "bool list"
  o_disp :: "dispatch_result list"
  o_done :: "cb_act list"

text \<open>
  A request of the host carries a mark once it was cancelled: its completion is then the error callback with
  \<^verbatim>\<open>-ECANCELED\<close>. \<open>Accepted\<close> in the log stands for the return of 0 by \<^verbatim>\<open>clm_agent_submit\<close> or \<^verbatim>\<open>clm_agent_compact\<close>.

  The environment: cJSON and the provider (its normalizers, and \<^verbatim>\<open>build_request\<close> together with the printing of the request),
  the schema of the tools, the clocks, whether the host has timers, the compressor and the configuration.
\<close>

record ('j, 'p) agent_env =
  ae_stream :: "('j, 'p) stream_env"
  ae_delay :: delay_env
  ae_build :: "'j list \<Rightarrow> file_edit list \<Rightarrow> cstr option \<Rightarrow> 'j option \<Rightarrow> cstr option \<Rightarrow> bool \<Rightarrow> cstr option"
  ae_size :: "'j list \<Rightarrow> nat"
  ae_normalize :: "('j \<Rightarrow> 'j option) option"
  ae_schema :: "'j option"
  ae_has_timers :: bool
  ae_usec :: u64
  ae_time :: int
  ae_stamp :: cstr
  ae_compressor :: "clm_compressor option"
  ae_stream_on :: bool
  ae_provider :: clm_provider
  ae_base_url :: cstr
  ae_effort :: "cstr option"
  ae_auth :: "cstr list option"
  ae_system :: cstr

abbreviation ae_api :: "('j, 'p) agent_env \<Rightarrow> 'j cjson_api" where "ae_api E \<equiv> se_api (ae_stream E)"

type_synonym 'p outcome = "'p agent \<times> int option"

definition E_IO :: int where "E_IO = - 5"
definition E_2BIG :: int where "E_2BIG = - 7"
definition E_AGAIN :: int where "E_AGAIN = - 11"
definition E_NOMEM :: int where "E_NOMEM = - 12"
definition E_ACCES :: int where "E_ACCES = - 13"
definition E_PERM :: int where "E_PERM = - 1"
definition E_BUSY :: int where "E_BUSY = - 16"
definition E_INVAL :: int where "E_INVAL = - 22"
definition E_ALREADY :: int where "E_ALREADY = - 114"
definition E_CANCELED :: int where "E_CANCELED = - 125"

section \<open>Small steps\<close>

definition note_event :: "agent_event \<Rightarrow> 'p agent \<Rightarrow> 'p agent" where "note_event e s = s\<lparr>log := log s @ [e]\<rparr>"
definition set_state :: "clm_agent_state \<Rightarrow> 'p agent \<Rightarrow> 'p agent" where "set_state x s = note_event (OnState x) (s\<lparr>ag_state := x\<rparr>)"

definition set_error :: "cstr option \<Rightarrow> 'p agent \<Rightarrow> 'p agent" where
  "set_error m s = (let (t, s) = clm_agent_set_error m (tp s) s in s\<lparr>tp := t\<rparr>)"

definition agent_busy :: "'p agent \<Rightarrow> bool" where
  "agent_busy s \<longleftrightarrow> ag_state s = CLM_STATE_THINKING \<or> ag_state s = CLM_STATE_CALLING_TOOL \<or> ag_state s = CLM_STATE_RATE_LIMITED"

definition agent_fail :: "cstr \<Rightarrow> int \<Rightarrow> 'p agent \<Rightarrow> 'p outcome" where
  "agent_fail msg err s = (set_state CLM_STATE_ERROR (set_error (Some msg) s), Some err)"

text \<open>The host's \<^verbatim>\<open>http_post\<close> and \<^verbatim>\<open>timer_set\<close>: what it answers next, accepting when nothing is said.\<close>

definition http_post :: "'p call \<Rightarrow> 'p agent \<Rightarrow> int \<times> 'p agent" where
  "http_post c s =
     (let r = (case o_posts s of [] \<Rightarrow> 0 | x # _ \<Rightarrow> x); s = s\<lparr>o_posts := drop 1 (o_posts s)\<rparr> in
      if r < 0 then (r, s\<lparr>inflight := False\<rparr>) else (0, s\<lparr>calls := calls s @ [(c, False)], inflight := True\<rparr>))"

definition arm_timer :: "u64 \<Rightarrow> 'p agent \<Rightarrow> bool \<times> 'p agent" where
  "arm_timer ms s =
     (let r = (case o_timers s of [] \<Rightarrow> True | x # _ \<Rightarrow> x) in (r, note_event (TimerSet ms) (s\<lparr>o_timers := drop 1 (o_timers s)\<rparr>)))"

text \<open>A message appended to the history and shown to the embedder.\<close>

definition emit_last :: "'p agent \<Rightarrow> 'p agent" where "emit_last s = note_event (OnMessage (last (hist s))) s"

definition add_user :: "('j, 'p) agent_env \<Rightarrow> cstr \<Rightarrow> 'p agent \<Rightarrow> bool \<times> 'p agent" where
  "add_user E tx s = (let (ok, h, t) = clm_history_add_user (tp s) (hist s) (Some tx) (ae_compressor E); s = s\<lparr>hist := h, tp := t\<rparr> in
     (ok, if ok then emit_last s else s))"

definition add_assistant :: "('j, 'p) agent_env \<Rightarrow> cstr \<Rightarrow> 'p agent \<Rightarrow> bool \<times> 'p agent" where
  "add_assistant E tx s = (let (ok, h, t) = clm_history_add_assistant_text (tp s) (hist s) (Some tx) (ae_compressor E); s = s\<lparr>hist := h, tp := t\<rparr> in
     (ok, if ok then emit_last s else s))"

section \<open>Sending a turn\<close>

definition turn_post_failed :: "int \<Rightarrow> 'p agent \<Rightarrow> 'p outcome" where
  "turn_post_failed r s = agent_fail (lit ''request could not be sent'') r s"

definition post_turn :: "'p llm_turn \<Rightarrow> 'p agent \<Rightarrow> 'p outcome" where
  "post_turn turn s = (let (r, s) = http_post (LlmCall turn) s in if r < 0 then turn_post_failed r s else (s, None))"

definition est_cost :: "'p llm_turn \<Rightarrow> u64" where
  "est_cost turn = (let n = (if lt_ctx_bytes turn \<noteq> 0 then lt_ctx_bytes turn else length (lt_body turn)) div 4 in word_of_nat (if n = 0 then 1 else n))"

definition drop_llm_timer :: "'p agent \<Rightarrow> 'p agent" where
  "drop_llm_timer s = (if llm_rl_timer s then s\<lparr>llm_rl_timer := False, llm_timers := []\<rparr> else s)"

definition drop_compact_timer :: "'p agent \<Rightarrow> 'p agent" where
  "drop_compact_timer s = (if compact_rl_timer s then s\<lparr>compact_rl_timer := False, compact_timers := 0\<rparr> else s)"

definition on_llm_rl_timer :: "('j, 'p) agent_env \<Rightarrow> 'p llm_turn \<Rightarrow> 'p agent \<Rightarrow> 'p outcome" where
  "on_llm_rl_timer E turn s =
     (let s = (drop_llm_timer s)\<lparr>rl_parked_turn := None\<rparr>;
          s = s\<lparr>llm_rl := clm_ratelimit_consume (ae_usec E) (llm_rl s) (est_cost turn)\<rparr>
      in post_turn turn s)"

definition llm_dispatch :: "('j, 'p) agent_env \<Rightarrow> 'p llm_turn \<Rightarrow> 'p agent \<Rightarrow> 'p outcome" where
  "llm_dispatch E turn s =
     (if llm_rl s = None \<or> \<not> ae_has_timers E then post_turn turn s
      else
        let (ok, rl) = clm_ratelimit_allow (ae_usec E) (llm_rl s) (est_cost turn); s = s\<lparr>llm_rl := rl\<rparr> in
        if ok then post_turn turn s
        else
          let (us, rl) = clm_ratelimit_delay (ae_usec E) (llm_rl s) (est_cost turn); s = s\<lparr>llm_rl := rl\<rparr>;
              ms = (if us div 1000 = 0 then 1 else us div 1000);
              s = set_state CLM_STATE_RATE_LIMITED s;
              (ok, s) = arm_timer ms s
          in if \<not> ok then on_llm_rl_timer E turn (s\<lparr>llm_rl_timer := False\<rparr>)
             else (s\<lparr>llm_rl_timer := True, llm_timers := llm_timers s @ [turn], rl_parked_turn := Some turn\<rparr>, None))"

section \<open>Waiting out a rate limit\<close>

definition turn_reset_response :: "'p async_turn \<Rightarrow> 'p async_turn" where
  "turn_reset_response turn = turn\<lparr>t_line := sb_null, t_content := sb_null, t_finish := None, t_calls := [], t_pstate := None, t_advice := None,
     t_usage := no_usage, t_have_usage := False\<rparr>"

definition waited :: "'p llm_turn \<Rightarrow> 'p llm_turn" where
  "waited turn = turn\<lparr>lt := turn_reset_response ((lt turn)\<lparr>t_retries := t_retries (lt turn) + 1\<rparr>)\<rparr>"

text \<open>\<^verbatim>\<open>rl_retry\<close>: nothing when the turn may not wait again. The answer of \<^verbatim>\<open>timer_set\<close> is not looked at.\<close>

definition rl_retry :: "('j, 'p) agent_env \<Rightarrow> 'p llm_turn \<Rightarrow> cstr option \<Rightarrow> 'p agent \<Rightarrow> 'p agent option" where
  "rl_retry E turn advice s =
     (if t_retries (lt turn) \<ge> CLM_RL_RETRY_MAX \<or> \<not> ae_has_timers E then None
      else
        let delay = clm_rl_retry_delay_ms (ae_delay E) advice (int (t_retries (lt turn)));
            turn = waited turn;
            s = (set_state CLM_STATE_RATE_LIMITED s)\<lparr>rl_parked_turn := Some turn\<rparr>;
            (ok, s) = arm_timer delay s
        in Some (if ok then s\<lparr>llm_rl_timer := True, llm_timers := llm_timers s @ [turn]\<rparr> else s))"

section \<open>Starting a request\<close>

definition agent_flush_pending_notify :: "('j, 'p) agent_env \<Rightarrow> 'p agent \<Rightarrow> 'p agent" where
  "agent_flush_pending_notify E s = (case pending_notify s of None \<Rightarrow> s | Some n \<Rightarrow> snd (add_user E n (s\<lparr>pending_notify := None\<rparr>)))"

definition reset_chain :: "'p agent \<Rightarrow> 'p agent" where "reset_chain s = clm_agent_chain_reset s"

text \<open>
  The header list of an upload: the provider's without its content type, and the multipart type. The \<^verbatim>\<open>bool\<close> says whether the
  provider's own authentication is in it.
\<close>

definition file_upload_headers :: "cstr list option \<Rightarrow> cstr \<Rightarrow> tape \<Rightarrow> cstr list option \<times> bool \<times> tape" where
  "file_upload_headers auth bnd t =
     (let kept = filter (\<lambda>h. \<not> starts_with (map to_lower (lit ''Content-Type:'')) (map to_lower h)) (case auth of None \<Rightarrow> [] | Some hs \<Rightarrow> hs);
          (ok, t) = alloc t in
      if \<not> ok then (None, auth \<noteq> None, t)
      else let (ok, t) = alloc t in
        (if ok then Some (kept @ [lit ''Content-Type: multipart/form-data; boundary='' @ bnd]) else None, auth \<noteq> None, t))"

definition upload_gives_up :: "('j, 'p) agent_env \<Rightarrow> cstr \<Rightarrow> 'p agent \<Rightarrow> 'p agent" where
  "upload_gives_up E url s =
     (let (r, t, c) = clm_files_add url None (ae_time E) (tp s) (files s); s = s\<lparr>tp := t, files := c\<rparr> in
      if r = Inr () then s else s\<lparr>file_uploads := False\<rparr>)"

definition file_upload_start :: "('j, 'p) agent_env \<Rightarrow> cstr \<Rightarrow> 'p agent \<Rightarrow> bool \<times> 'p agent" where
  "file_upload_start E url s =
     (let (furl, t) = clm_files_url (ae_base_url E) (tp s); s = s\<lparr>tp := t\<rparr> in
      if furl = None then (False, s\<lparr>file_uploads := False\<rparr>)
      else
        let (body, t) = clm_files_multipart url (tp s);
            (headers, _, t) = (case body of None \<Rightarrow> (None, False, t) | Some (bnd, _) \<Rightarrow> file_upload_headers (ae_auth E) bnd t);
            (ok, t) = (if headers = None then (False, t) else alloc t);
            (ok, t) = (if ok then alloc t else (False, t));
            s = s\<lparr>tp := t\<rparr>
        in if \<not> ok then (False, upload_gives_up E url s)
           else let (r, s) = http_post (UploadCall url) s in
             if r < 0 then (False, s\<lparr>file_uploads := False\<rparr>) else (True, s))"

text \<open>The messages of a request: the history as JSON with the parts of the prompt and the ids of uploaded images, and the image that is missing.\<close>

definition turn_messages :: "('j, 'p) agent_env \<Rightarrow> 'p agent \<Rightarrow> ('j list \<times> file_edit list \<times> cstr option) option \<times> tape" where
  "turn_messages E s =
     (case clm_history_to_json (ae_api E) (tp s) (hist s) (ae_compressor E) of (None, t) \<Rightarrow> (None, t)
      | (Some arr, t) \<Rightarrow>
        case apply_prompt_parts (ae_api E) (prompt_parts s) (cj_items (ae_api E) arr) t of (Inl _, t) \<Rightarrow> (None, t)
        | (Inr msgs, t) \<Rightarrow>
          if \<not> file_uploads s then (Some (msgs, [], None), t)
          else case apply_messages (ae_api E) (files s) (ae_time E) 0 msgs [] None t of
            (Inl _, _, _, t) \<Rightarrow> (None, t) | (Inr _, eds, missing, t) \<Rightarrow> (Some (msgs, eds, missing), t))"

definition out_of_memory :: "'p agent \<Rightarrow> 'p outcome" where "out_of_memory s = agent_fail (lit ''out of memory'') E_NOMEM s"

definition new_llm_turn :: "('j, 'p) agent_env \<Rightarrow> nat \<Rightarrow> cstr \<Rightarrow> nat \<Rightarrow> clm_history \<Rightarrow> 'p llm_turn" where
  "new_llm_turn E msgs body sz h = \<lparr>lt = new_turn msgs, lt_body = body, lt_streaming = ae_stream_on E,
     lt_ctx_bytes = (if sz \<noteq> 0 then sz else length body), lt_hist = h\<rparr>"

definition send_messages :: "('j, 'p) agent_env \<Rightarrow> 'j list \<Rightarrow> file_edit list \<Rightarrow> 'p agent \<Rightarrow> 'p outcome" where
  "send_messages E msgs eds s =
     (if \<not> tools_unsupported s \<and> ae_schema E = None then out_of_memory s
      else
        let (rest, prev, bad) = chain_cut (ae_api E) (a_chain_id s) (a_chain_sent s) msgs;
            s = (if bad then reset_chain s else s);
            sz = (if prev \<noteq> None then ae_size E msgs else 0)
        in case ae_build E rest eds prev (if tools_unsupported s then None else ae_schema E) (ae_effort E) (ae_stream_on E) of
             None \<Rightarrow> out_of_memory s
           | Some body \<Rightarrow>
             let (ok, t) = alloc (tp s); (ok, t) = (if ok then alloc t else (False, t)); s = s\<lparr>tp := t\<rparr> in
             if \<not> ok then out_of_memory s else llm_dispatch E (new_llm_turn E (length msgs) body sz (hist s)) s)"

definition clm_agent_start_turn :: "('j, 'p) agent_env \<Rightarrow> 'p agent \<Rightarrow> 'p outcome" where
  "clm_agent_start_turn E s =
     (let s = agent_flush_pending_notify E s;
          s = (if prompt_parts_changed s then (reset_chain s)\<lparr>prompt_parts_changed := False\<rparr> else s);
          (ms, t) = turn_messages E s; s = s\<lparr>tp := t\<rparr>
      in case ms of None \<Rightarrow> out_of_memory s
         | Some (msgs, eds, missing) \<Rightarrow>
           let (sent, s) = (case missing of None \<Rightarrow> (False, s) | Some url \<Rightarrow> file_upload_start E url s) in
           if sent then (s, None) else send_messages E msgs eds s)"

section \<open>Uploads\<close>

definition file_upload_finish :: "('j, 'p) agent_env \<Rightarrow> cstr \<Rightarrow> cstr option \<Rightarrow> 'p agent \<Rightarrow> 'p outcome" where
  "file_upload_finish E url i s =
     (let (r, t, c) = clm_files_add url i (ae_time E) (tp s) (files s); s = s\<lparr>tp := t, files := c\<rparr>;
          s = (if r = Inr () then s else s\<lparr>file_uploads := False\<rparr>)
      in clm_agent_start_turn E s)"

definition file_upload_success :: "('j, 'p) agent_env \<Rightarrow> cstr \<Rightarrow> int \<Rightarrow> cstr option \<Rightarrow> 'p agent \<Rightarrow> 'p outcome" where
  "file_upload_success E url status body s =
     (let s = s\<lparr>inflight := False\<rparr>;
          (i, t) = (if 200 \<le> status \<and> status < 300 then clm_files_parse_id (ae_api E) body (tp s) else (None, tp s));
          s = s\<lparr>tp := t\<rparr>;
          s = (if status = 404 \<or> status = 405 then s\<lparr>file_uploads := False\<rparr> else s)
      in file_upload_finish E url i s)"

definition file_upload_error :: "('j, 'p) agent_env \<Rightarrow> cstr \<Rightarrow> int \<Rightarrow> 'p agent \<Rightarrow> 'p outcome" where
  "file_upload_error E url code s =
     (let s = s\<lparr>inflight := False\<rparr> in
      if code \<noteq> E_CANCELED then file_upload_finish E url None s else (set_state CLM_STATE_COMPLETE s, Some E_CANCELED))"

section \<open>Compaction\<close>

definition compact_prompt :: "cstr \<Rightarrow> cstr" where
  "compact_prompt target = lit ''Summarize the conversation so far into a briefing that lets you continue the work without reading anything again. Use these sections, and skip a section with nothing in it:'' @ [0x0A, 0x0A] @
     lit ''1. Task: the goal and the current sub-goal, in the user'' @ [0x27] @ lit ''s words where they gave them.'' @ [0x0A] @
     lit ''2. Files: every file created or changed, each with its state (done, broken, in progress) and what is left in it.'' @ [0x0A] @
     lit ''3. Facts and decisions: what was decided or verified, each with where it came from (a spec section, a test result, a command output). Keep exact numbers, identifiers, paths and names.'' @ [0x0A] @
     lit ''4. Open problems: failing tests, errors and unanswered questions, with the last thing tried for each.'' @ [0x0A] @
     lit ''5. Next step: the exact next action.'' @ [0x0A, 0x0A] @
     lit ''Facts already written to a notes file: name the file and what it holds; do not copy them. Keep every file path, command and number. '' @ target @ lit '' Output only the briefing.''"

definition compact_done :: "'p agent \<Rightarrow> 'p agent" where "compact_done s = s\<lparr>compact_body := None\<rparr>"

text \<open>The instruction at the end of the messages; a member whose string could not be allocated is left out.\<close>

definition compact_instruction :: "('j, 'p) agent_env \<Rightarrow> 'p agent \<Rightarrow> tape \<Rightarrow> 'j option \<times> tape" where
  "compact_instruction E s t =
     (let (msg, t) = cj_create t (cj_object (ae_api E)) in
      case msg of None \<Rightarrow> (None, t)
      | Some msg \<Rightarrow>
        let (v, t) = cj_create t (cj_string (ae_api E) (lit ''user'')); msg = cj_add_opt (ae_api E) msg (lit ''role'') v;
            (v, t) = cj_create t (cj_string (ae_api E) (compact_prompt (compact_target (budget s)))); msg = cj_add_opt (ae_api E) msg (lit ''content'') v
        in (Some msg, t))"

definition compact_build :: "('j, 'p) agent_env \<Rightarrow> cstr option \<Rightarrow> 'p agent \<Rightarrow> int \<times> 'p agent" where
  "compact_build E effort s =
     (let (ms, t) = turn_messages E s in
      case ms of None \<Rightarrow> (E_NOMEM, s\<lparr>tp := t\<rparr>)
      | Some (msgs, eds, _) \<Rightarrow>
        let (msg, t) = compact_instruction E s t; s = s\<lparr>tp := t\<rparr> in
        case msg of None \<Rightarrow> (E_NOMEM, s)
        | Some msg \<Rightarrow>
          case ae_build E (msgs @ [msg]) eds None (if tools_unsupported s then None else ae_schema E) effort False of
            None \<Rightarrow> (E_NOMEM, s)
          | Some body \<Rightarrow>
            let (ok, t) = alloc (tp s); s = s\<lparr>tp := t\<rparr> in
            if \<not> ok then (E_NOMEM, s\<lparr>compact_body := None\<rparr>)
            else (0, s\<lparr>compact_body := Some body, compact_effort_changed := (effort \<noteq> ae_effort E)\<rparr>))"

definition compact_error_cb :: "('j, 'p) agent_env \<Rightarrow> int \<Rightarrow> cstr option \<Rightarrow> 'p agent \<Rightarrow> 'p outcome" where
  "compact_error_cb E code msg s =
     (let resume = compact_resume_chain s; m = Some (case msg of None \<Rightarrow> lit ''compaction request failed'' | Some m \<Rightarrow> m);
          s = compact_done (s\<lparr>compact_resume_chain := False, inflight := False\<rparr>)
      in if resume \<and> code \<noteq> E_CANCELED then clm_agent_start_turn E ((set_error m s)\<lparr>mid_chain_compact_failed := True\<rparr>)
         else if code = E_CANCELED then (set_state CLM_STATE_COMPLETE s, Some code)
         else (set_state CLM_STATE_ERROR (set_error m s), Some code))"

definition compact_post :: "('j, 'p) agent_env \<Rightarrow> 'p agent \<Rightarrow> 'p outcome" where
  "compact_post E s =
     (let (r, s) = http_post CompactCall (set_state CLM_STATE_THINKING s) in
      if r < 0 then compact_error_cb E E_IO (Some (lit ''compaction request failed'')) (set_error (Some (lit ''compaction request failed'')) (s\<lparr>compact_body := None\<rparr>))
      else (s, None))"

definition on_compact_rl_timer :: "('j, 'p) agent_env \<Rightarrow> 'p agent \<Rightarrow> 'p outcome" where
  "on_compact_rl_timer E s = compact_post E (drop_compact_timer s)"

definition compact_rl_retry :: "('j, 'p) agent_env \<Rightarrow> cstr option \<Rightarrow> 'p agent \<Rightarrow> 'p agent option" where
  "compact_rl_retry E advice s =
     (if compact_body s = None \<or> compact_rl_retries s \<ge> CLM_RL_RETRY_MAX \<or> \<not> ae_has_timers E then None
      else
        let delay = clm_rl_retry_delay_ms (ae_delay E) advice (int (compact_rl_retries s));
            s = set_state CLM_STATE_RATE_LIMITED (s\<lparr>compact_rl_retries := compact_rl_retries s + 1\<rparr>);
            (ok, s) = arm_timer delay s
        in Some (if ok then s\<lparr>compact_rl_timer := True, compact_timers := compact_timers s + 1\<rparr> else s))"

definition says :: "cstr option \<Rightarrow> cstr \<Rightarrow> bool" where
  "says body p = (case body of None \<Rightarrow> False | Some b \<Rightarrow> find_sub p b \<noteq> None)"

text \<open>Nothing when no resend is due; the resend may fail at once.\<close>

definition compact_effort_retry :: "('j, 'p) agent_env \<Rightarrow> cstr option \<Rightarrow> 'p agent \<Rightarrow> 'p outcome option \<times> 'p agent" where
  "compact_effort_retry E body s =
     (if \<not> compact_effort_changed s \<or> compact_effort_fallback s \<or> \<not> (says body (lit ''reasoning'') \<or> says body (lit ''effort'')) then (None, s)
      else let (r, s) = compact_build E (ae_effort E) (s\<lparr>compact_effort_fallback := True\<rparr>) in
        if r < 0 then (None, s) else (Some (compact_post E s), s))"

text \<open>A compaction that did not shrink anything: the interrupted chain goes on, or the turn ends in an error.\<close>

definition compact_failed :: "('j, 'p) agent_env \<Rightarrow> bool \<Rightarrow> cstr \<Rightarrow> int \<Rightarrow> 'p agent \<Rightarrow> 'p outcome" where
  "compact_failed E resume why err s =
     (let s = compact_done s in
      if resume then clm_agent_start_turn E ((set_error (Some why) s)\<lparr>mid_chain_compact_failed := True\<rparr>) else agent_fail why err s)"

definition compact_fold :: "('j, 'p) agent_env \<Rightarrow> bool \<Rightarrow> cstr \<Rightarrow> 'p agent \<Rightarrow> 'p outcome" where
  "compact_fold E resume summary s =
     (let (r, h, t) = clm_history_compact_within (tp s) (hist s) (Some summary) (keep_bytes (budget s)) CLM_COMPACT_KEEP_MIN (ae_compressor E);
          s = s\<lparr>hist := h, tp := t\<rparr>
      in case r of Inl e \<Rightarrow> compact_failed E resume (lit ''compaction failed'') (if e = EINVAL then E_INVAL else E_NOMEM) s
         | Inr n \<Rightarrow>
           if n = 0 then compact_failed E resume (lit ''compaction made no progress'') E_AGAIN s
           else
             let s = compact_done ((reset_chain s)\<lparr>facts_pending := True\<rparr>) in
             if resume then
               clm_agent_start_turn E (set_state CLM_STATE_THINKING
                 (s\<lparr>mid_chain_compact_failed := False, mid_chain_compact_succeeded := True, budget := (budget s)\<lparr>ctx_used := 0\<rparr>\<rparr>))
             else (set_state CLM_STATE_COMPLETE s, Some 0))"

definition compact_answer :: "('j, 'p) agent_env \<Rightarrow> bool \<Rightarrow> cstr \<Rightarrow> 'p agent \<Rightarrow> 'p outcome" where
  "compact_answer E resume body s =
     (let J = ae_api E;
          parsed = (case cj_parse J body of None \<Rightarrow> None | Some p \<Rightarrow> (case ae_normalize E of None \<Rightarrow> Some p | Some f \<Rightarrow> f p));
          (summary, t) = (case parsed of None \<Rightarrow> (None, tp s) | Some p \<Rightarrow> extract_message_content J p (tp s));
          s = s\<lparr>tp := t\<rparr>
      in case summary of Some sm \<Rightarrow> compact_fold E resume sm s
         | None \<Rightarrow>
           let emsg = Option.bind parsed (response_error_message J);
               why = (if Option.bind parsed (response_finish_reason J) = Some (lit ''content_filter'') then lit ''compaction stopped by content filter''
                      else lit ''compaction produced no summary'')
           in case if is_rate_limit_message emsg then compact_rl_retry E emsg (s\<lparr>compact_resume_chain := resume\<rparr>) else None of
                Some s \<Rightarrow> (s, None)
              | None \<Rightarrow> compact_failed E resume why E_IO s)"

definition compact_success_cb :: "('j, 'p) agent_env \<Rightarrow> int \<Rightarrow> cstr option \<Rightarrow> 'p agent \<Rightarrow> 'p outcome" where
  "compact_success_cb E status body s =
     (let resume = compact_resume_chain s; s = s\<lparr>compact_resume_chain := False, inflight := False\<rparr>;
          (adv, t) = (if status = 429 then (case body of None \<Rightarrow> (None, tp s) | Some b \<Rightarrow> dup (tp s) b) else (None, tp s)); s = s\<lparr>tp := t\<rparr>
      in case if status = 429 then compact_rl_retry E adv (s\<lparr>compact_resume_chain := resume\<rparr>) else None of
           Some s \<Rightarrow> (s, None)
         | None \<Rightarrow>
           let (again, s) = (if status = 400 then (let (o1, s) = compact_effort_retry E body (s\<lparr>compact_resume_chain := resume\<rparr>) in (o1, s\<lparr>compact_resume_chain := False\<rparr>)) else (None, s)) in
           case again of Some out \<Rightarrow> out
           | None \<Rightarrow>
             if status \<noteq> 200 \<or> body = None then compact_failed E resume (format_http_error (ae_api E) 256 (Some body) status) E_IO s
             else compact_answer E resume (the body) s)"

definition clm_agent_compact :: "('j, 'p) agent_env \<Rightarrow> 'p agent \<Rightarrow> int \<times> 'p agent" where
  "clm_agent_compact E s =
     (if agent_busy s then (E_BUSY, set_error (Some (lit ''turn already in progress'')) s)
      else let (r, s) = compact_build E (compact_effort (compact_effort_set s) (ae_provider E) (ae_effort E)) s in
        if r < 0 then (r, s)
        else
          let s = set_state CLM_STATE_THINKING (s\<lparr>compact_rl_retries := 0, compact_effort_fallback := False\<rparr>);
              (r, s) = http_post CompactCall s
          in if r < 0 then (r, s\<lparr>compact_body := None, ag_state := CLM_STATE_ERROR\<rparr>) else (0, s))"

section \<open>The end of a model call\<close>

definition CLM_GATE_DENY_LIMIT :: nat where "CLM_GATE_DENY_LIMIT = 3"

definition clm_agent_tools_done :: "('j, 'p) agent_env \<Rightarrow> int \<Rightarrow> 'p agent \<Rightarrow> 'p outcome" where
  "clm_agent_tools_done E status s =
     (if a_cancelling s then (set_state CLM_STATE_COMPLETE (s\<lparr>a_cancelling := False\<rparr>), Some E_CANCELED)
      else if status < 0 then agent_fail (lit ''tool execution failed'') status s
      else if gate_denials s \<ge> CLM_GATE_DENY_LIMIT then
        agent_fail (snprintf 96 (lit ''stopped: a hook blocked '' @ dec (gate_denials s) @ lit '' tool calls in this turn'')) E_PERM s
      else
        let s = (if max_iterations s > 0 then s\<lparr>iteration := iteration s + 1\<rparr> else s) in
        if max_iterations s > 0 \<and> iteration s \<ge> max_iterations s then agent_fail (lit ''max iterations reached'') E_2BIG s
        else
          let go_on = (\<lambda>s. clm_agent_start_turn E (set_state CLM_STATE_THINKING s)) in
          if clm_agent_over_autocompact_threshold (budget s) then
            let (r, s) = clm_agent_compact E (s\<lparr>ag_state := CLM_STATE_COMPLETE, compact_resume_chain := True\<rparr>) in
            if r = 0 then (note_event (OnState (ag_state s)) (s\<lparr>mid_chain_compact_started := True, budget := (budget s)\<lparr>ctx_used := 0\<rparr>\<rparr>), None)
            else go_on (s\<lparr>compact_resume_chain := False\<rparr>)
          else go_on s)"

definition emit_finish :: "cstr option \<Rightarrow> 'p agent \<Rightarrow> 'p agent" where
  "emit_finish reason s = (if reason = None then s else note_event (OnFinish (finish_from_str reason)) s)"

definition emit_usage :: "clm_usage \<Rightarrow> 'p agent \<Rightarrow> 'p agent" where
  "emit_usage u s = note_event (OnUsage u) (s\<lparr>budget := (budget s)\<lparr>ctx_used := prompt_tokens u + completion_tokens u\<rparr>\<rparr>)"

text \<open>\<^verbatim>\<open>clm_tools_dispatch\<close>: it adds messages to the history, and fails, leaves a batch running, or has finished the batch already.\<close>

definition dispatch_tools :: "('j, 'p) agent_env \<Rightarrow> 'p agent \<Rightarrow> 'p outcome" where
  "dispatch_tools E s =
     (let d = (case o_disp s of [] \<Rightarrow> DispPending [] | x # _ \<Rightarrow> x); s = s\<lparr>o_disp := drop 1 (o_disp s)\<rparr> in
      case d of DispFail r ms \<Rightarrow> agent_fail (lit ''failed to dispatch tools'') r (s\<lparr>hist := hist s @ ms\<rparr>)
      | DispPending ms \<Rightarrow> (s\<lparr>hist := hist s @ ms, active_batch := True\<rparr>, None)
      | DispDone st ms \<Rightarrow> clm_agent_tools_done E st (s\<lparr>hist := hist s @ ms\<rparr>))"

definition agent_finish :: "('j, 'p) agent_env \<Rightarrow> 'j option \<Rightarrow> cstr \<Rightarrow> cstr option \<Rightarrow> bool \<Rightarrow> 'p agent \<Rightarrow> 'p outcome" where
  "agent_finish E tcs body_text reason streamed s =
     (if reason = Some (lit ''content_filter'') then agent_fail (lit ''response stopped by content filter'') E_ACCES s
      else if reason = Some (lit ''error'') then
        agent_fail (case a_error s of Some (b # w) \<Rightarrow> b # w | _ \<Rightarrow> lit ''provider reported a failed response'') E_IO s
      else if (case tcs of None \<Rightarrow> False | Some a \<Rightarrow> cj_is_array (ae_api E) a \<and> cj_items (ae_api E) a \<noteq> []) then
        dispatch_tools E (set_state CLM_STATE_CALLING_TOOL s)
      else
        let empty = (body_text = []);
            s = (if empty then note_event (OnFinish CLM_FINISH_EMPTY) s else s);
            (ok, s) = add_assistant E (if empty then lit ''[empty response]'' else body_text) s in
        if \<not> ok then out_of_memory s
        else
          let s = (if \<not> empty \<and> \<not> streamed then s\<lparr>a_out := a_out s @ [OnText body_text]\<rparr> else s) in
          (set_state CLM_STATE_COMPLETE s, Some 0))"

definition stream_finalize :: "('j, 'p) agent_env \<Rightarrow> 'p llm_turn \<Rightarrow> 'p agent \<Rightarrow> 'p outcome" where
  "stream_finalize E turn s =
     (let (tcs, t) = stream_build_tool_calls (ae_api E) (lt turn) (tp s); s = s\<lparr>tp := t\<rparr> in
      case if t_advice (lt turn) \<noteq> None \<and> sb_str (t_content (lt turn)) = [] \<and> tcs = None then rl_retry E turn (t_advice (lt turn)) s else None of
        Some s \<Rightarrow> (s, None)
      | None \<Rightarrow>
        let s = emit_finish (t_finish (lt turn)) s; s = (if t_have_usage (lt turn) then emit_usage (t_usage (lt turn)) s else s)
        in agent_finish E tcs (sb_str (t_content (lt turn))) (t_finish (lt turn)) True s)"

definition history_has_images :: "clm_history \<Rightarrow> bool" where
  "history_has_images h \<longleftrightarrow> (\<exists>m \<in> set h. attachments m \<noteq> [])"

section \<open>Completions of the model request\<close>

text \<open>The text of a failed request, in a buffer of 256 bytes; the hint about images is appended as far as it fits.\<close>

definition http_failure :: "('j, 'p) agent_env \<Rightarrow> int \<Rightarrow> cstr option \<Rightarrow> 'p agent \<Rightarrow> cstr" where
  "http_failure E status body s =
     (let J = ae_api E;
          detail = Option.bind (Option.bind body (cj_parse J)) (response_error_message J);
          head = lit ''HTTP '' @ idec status;
          m = snprintf 256 (case detail of Some d \<Rightarrow> head @ lit '': '' @ d
             | None \<Rightarrow> if body = None \<or> body = Some [] then head else head @ lit '': '' @ the body)
      in if 400 \<le> status \<and> status < 500 \<and> vision s = 0 \<and> history_has_images (hist s)
         then snprintf 256 (m @ lit '' (the model may not take images; set vision = false for it in config.lua)'') else m)"

text \<open>A response that is not 200: the ways to try again, in their order, then the failure.\<close>

definition llm_rejected :: "('j, 'p) agent_env \<Rightarrow> int \<Rightarrow> cstr option \<Rightarrow> 'p llm_turn \<Rightarrow> 'p agent \<Rightarrow> 'p outcome" where
  "llm_rejected E status body turn s =
     (let (adv, t) = (if status = 429 then (case body of None \<Rightarrow> (None, tp s) | Some b \<Rightarrow> dup (tp s) b) else (None, tp s)); s = s\<lparr>tp := t\<rparr> in
      case if status = 429 then rl_retry E turn adv s else None of Some s \<Rightarrow> (s, None)
      | None \<Rightarrow>
        if a_chain_id s \<noteq> None \<and> (says body (lit ''previous_response'') \<or> says body (lit ''No tool output found'')) then clm_agent_start_turn E (reset_chain s)
        else
          let (r, h, t) = (if says body (lit ''No tool output found'') then clm_history_repair_dangling_tool_calls (tp s) (hist s) else (Inr 0, hist s, tp s));
              s = s\<lparr>hist := h, tp := t\<rparr> in
          if (case r of Inl _ \<Rightarrow> False | Inr n \<Rightarrow> n > 0) then clm_agent_start_turn E s
          else if status = 404 \<and> ents (files s) \<noteq> [] \<and> says body (lit ''File `file_'') then
            (let s = s\<lparr>files := clm_files_clear (files s), files_lost := files_lost s + 1\<rparr>;
                 s = (if files_lost s > 1 then s\<lparr>file_uploads := False\<rparr> else s)
             in clm_agent_start_turn E s)
          else if status = 400 \<and> \<not> tools_unsupported s \<and> says body (lit ''does not support tools'') then
            clm_agent_start_turn E (note_event (OnNotice (lit ''model does not support tool calls; continuing without tools'')) (s\<lparr>tools_unsupported := True\<rparr>))
          else agent_fail (http_failure E status body s) E_IO s)"

definition llm_answer :: "('j, 'p) agent_env \<Rightarrow> cstr option \<Rightarrow> 'p llm_turn \<Rightarrow> 'p agent \<Rightarrow> 'p outcome" where
  "llm_answer E body turn s =
     (let J = ae_api E in
      case (case Option.bind body (cj_parse J) of None \<Rightarrow> None | Some p \<Rightarrow> (case ae_normalize E of None \<Rightarrow> Some p | Some f \<Rightarrow> f p)) of
        None \<Rightarrow> agent_fail (lit ''could not parse llm response'') E_IO s
      | Some parsed \<Rightarrow>
        case response_message J parsed of
          None \<Rightarrow> agent_fail (lit ''could not extract message from llm response'') E_IO s
        | Some m \<Rightarrow>
          let reason = response_finish_reason J parsed;
              s = emit_finish reason s;
              s = (case extract_usage (ae_stream E) parsed of None \<Rightarrow> s | Some u \<Rightarrow> emit_usage u s);
              rt = (case (case cj_get J m (lit ''reasoning_content'') of None \<Rightarrow> cj_get J m (lit ''reasoning'') | Some r \<Rightarrow> Some r) of
                      None \<Rightarrow> None | Some r \<Rightarrow> if cj_is_string J r then cj_string_value J r else None);
              s = (case rt of None \<Rightarrow> s | Some r \<Rightarrow> s\<lparr>a_out := a_out s @ [OnReasoning r]\<rparr>);
              emsg = response_error_message J parsed
          in case if is_rate_limit_message emsg then rl_retry E turn emsg s else None of Some s \<Rightarrow> (s, None)
             | None \<Rightarrow>
               let s = (if emsg = None then s else set_error emsg s);
                   (t, s) = chain_note_response J parsed (t_msgs (lt turn)) (tp s) s; s = s\<lparr>tp := t\<rparr>
               in agent_finish E (cj_get J m (lit ''tool_calls'')) (case cj_get_string J m (lit ''content'') of None \<Rightarrow> [] | Some c \<Rightarrow> c) reason False s)"

definition clm_http_success_cb :: "('j, 'p) agent_env \<Rightarrow> int \<Rightarrow> cstr option \<Rightarrow> 'p llm_turn \<Rightarrow> 'p agent \<Rightarrow> 'p outcome" where
  "clm_http_success_cb E status body turn s =
     (let s = s\<lparr>inflight := False\<rparr> in
      if status \<noteq> 200 then llm_rejected E status body turn s
      else if lt_streaming turn then stream_finalize E turn s
      else llm_answer E body turn s)"

definition agent_keep_partial :: "('j, 'p) agent_env \<Rightarrow> 'p llm_turn \<Rightarrow> 'p agent \<Rightarrow> 'p agent" where
  "agent_keep_partial E turn s =
     (if \<not> lt_streaming turn \<or> sb_str (t_content (lt turn)) = [] then s
      else let (ok, t) = alloc (tp s); s = s\<lparr>tp := t\<rparr> in
        if \<not> ok then s else snd (add_assistant E (sb_str (t_content (lt turn)) @ [0x0A, 0x0A] @ lit ''[reply cancelled]'') s))"

definition clm_http_error_cb :: "('j, 'p) agent_env \<Rightarrow> int \<Rightarrow> cstr option \<Rightarrow> 'p llm_turn \<Rightarrow> 'p agent \<Rightarrow> 'p outcome" where
  "clm_http_error_cb E code msg turn s =
     (let s = s\<lparr>inflight := False\<rparr> in
      if code = E_CANCELED then (set_state CLM_STATE_COMPLETE (agent_keep_partial E turn s), Some code)
      else (set_state CLM_STATE_ERROR (set_error (Some (case msg of None \<Rightarrow> lit ''http request failed'' | Some m \<Rightarrow> m)) s), Some code))"

section \<open>The embedder's calls\<close>

definition CLM_TIME_STAMP_INTERVAL :: int where "CLM_TIME_STAMP_INTERVAL = 600"

text \<open>The context update before a prompt: the time, and the host facts when they are due.\<close>

definition context_update :: "cstr \<Rightarrow> cstr \<Rightarrow> cstr" where
  "context_update stamp facts = lit ''[context update] current time: '' @ stamp @ [0x0A] @ facts @ (if facts = [] then [] else [0x0A])
     @ lit ''(automatic context, not user input; do not acknowledge)''"

definition add_context :: "('j, 'p) agent_env \<Rightarrow> 'p agent \<Rightarrow> 'p agent" where
  "add_context E s =
     (let facts = (if facts_pending s then (case system_prompt_suffix s of None \<Rightarrow> [] | Some f \<Rightarrow> f) else []) in
      if ae_time E - last_time_stamp s \<ge> CLM_TIME_STAMP_INTERVAL \<or> facts \<noteq> [] then
        let (ok, t) = alloc (tp s); s = s\<lparr>tp := t\<rparr>;
            s = (if ok then snd (add_user E (context_update (ae_stamp E) facts) (s\<lparr>facts_pending := False\<rparr>)) else s)
        in s\<lparr>last_time_stamp := ae_time E\<rparr>
      else s)"

text \<open>\<^verbatim>\<open>clm_agent_submit\<close> and \<^verbatim>\<open>clm_agent_notify\<close>: what they return, the state, and the status when the turn is over already.\<close>

definition clm_agent_submit :: "('j, 'p) agent_env \<Rightarrow> cstr \<Rightarrow> 'p agent \<Rightarrow> int \<times> 'p outcome" where
  "clm_agent_submit E prompt s =
     (if agent_busy s then (E_BUSY, set_error (Some (lit ''turn already in progress'')) s, None)
      else
        let s = add_context E (note_event (OnTurnStart prompt) s); (ok, s) = add_user E prompt s in
        if \<not> ok then (E_NOMEM, (set_error (Some (lit ''out of memory'')) s)\<lparr>ag_state := CLM_STATE_ERROR\<rparr>, None)
        else
          (0, clm_agent_start_turn E (note_event Accepted (set_state CLM_STATE_THINKING (s\<lparr>iteration := 0, gate_denials := 0, a_cancelling := False\<rparr>)))))"

definition clm_agent_notify :: "('j, 'p) agent_env \<Rightarrow> cstr \<Rightarrow> 'p agent \<Rightarrow> int \<times> 'p outcome" where
  "clm_agent_notify E tx s =
     (if agent_busy s then
        let (ok, t) = alloc (tp s); s = s\<lparr>tp := t\<rparr> in
        if \<not> ok then (E_NOMEM, s, None)
        else (0, s\<lparr>pending_notify := Some (case pending_notify s of None \<Rightarrow> tx | Some n \<Rightarrow> n @ [0x0A, 0x0A] @ tx)\<rparr>, None)
      else clm_agent_submit E tx s)"

text \<open>The reply that ended the turn, for the turn hooks.\<close>

definition final_assistant_text :: "('j, 'p) agent_env \<Rightarrow> clm_history \<Rightarrow> tape \<Rightarrow> cstr option \<times> tape" where
  "final_assistant_text E h t =
     (if h = [] \<or> role (last h) \<noteq> CLM_ROLE_ASSISTANT \<or> content (last h) = None \<or> tool_calls (last h) \<noteq> [] then (None, t)
      else if \<not> content_compressed (last h) then dup t (c_str (the (content (last h))))
      else (message_plain (ae_compressor E) (last h), t))"

text \<open>
  What is still to be done when a turn ends: \<open>TDone\<close> is \<^verbatim>\<open>agent_turn_done\<close>, which calls back the embedder and then submits
  the text that was awaits; the embedder may submit or notify in its callback.
\<close>

datatype task = TDone int | TCallback | TSubmit cstr

definition done_tasks :: "int option \<Rightarrow> task list" where
  "done_tasks d = (case d of None \<Rightarrow> [] | Some st \<Rightarrow> [TDone st])"

definition turn_end :: "('j, 'p) agent_env \<Rightarrow> int \<Rightarrow> 'p agent \<Rightarrow> 'p agent" where
  "turn_end E st s =
     (let (tx, t) = (if st = 0 \<and> turn_hooks s > 0 then final_assistant_text E (hist s) (tp s) else (None, tp s)) in
      note_event (OnTurnDone st) (note_event (OnTurnEnd st tx) (s\<lparr>pending_notify := None, tp := t\<rparr>)))"

definition task_weight :: "task \<Rightarrow> nat" where
  "task_weight t = (case t of TDone _ \<Rightarrow> 3 | TCallback \<Rightarrow> 1 | TSubmit _ \<Rightarrow> 4)"

definition run_weight :: "task list \<Rightarrow> 'p agent \<Rightarrow> nat" where
  "run_weight ts s = sum_list (map task_weight ts) + 5 * length (o_done s) + (if pending_notify s = None then 0 else 5)"
end
