(* ===== verification/Agent_Safety.thy ===== *)
theory Agent_Safety
  imports Agent_Turn
begin

text \<open>
  What the operations of the agent keep: what is in flight, the count of turns begun and ended, and the steps of the
  agent with its host, its tools and its embedder.
\<close>

section \<open>What is in flight\<close>

definition resources :: "'p agent \<Rightarrow> bool \<times> ('p call \<times> bool) list \<times> bool \<times> bool \<times> 'p llm_turn list \<times> 'p llm_turn option \<times> bool \<times> nat" where
  "resources s = (inflight s, calls s, active_batch s, llm_rl_timer s, llm_timers s, rl_parked_turn s, compact_rl_timer s, compact_timers s)"

definition quiet :: "'p agent \<Rightarrow> bool" where
  "quiet s \<longleftrightarrow> resources s = (False, [], False, False, [], None, False, 0)"

text \<open>Exactly one thing is in flight: a request, a batch of tools, or a timer.\<close>

definition awaits :: "'p agent \<Rightarrow> bool" where
  "awaits s \<longleftrightarrow> (\<exists>c. resources s = (True, [(c, False)], False, False, [], None, False, 0))
     \<or> resources s = (False, [], True, False, [], None, False, 0)
     \<or> (\<exists>t. resources s = (False, [], False, True, [t], Some t, False, 0))
     \<or> resources s = (False, [], False, False, [], None, True, 1)"

definition settled :: "'p outcome \<Rightarrow> bool" where
  "settled out \<longleftrightarrow> (if snd out = None then agent_busy (fst out) \<and> awaits (fst out) else \<not> agent_busy (fst out) \<and> quiet (fst out))"

definition is_done :: "agent_event \<Rightarrow> bool" where "is_done e = (case e of OnTurnDone _ \<Rightarrow> True | _ \<Rightarrow> False)"

definition begun :: "'p agent \<Rightarrow> nat" where "begun s = length (filter (\<lambda>e. e = Accepted) (log s))"
definition ended :: "'p agent \<Rightarrow> nat" where "ended s = length (filter is_done (log s))"

text \<open>What every step but the callbacks themselves leaves alone.\<close>

definition framed :: "'p agent \<Rightarrow> 'p agent \<Rightarrow> bool" where
  "framed s s' \<longleftrightarrow> begun s' = begun s \<and> ended s' = ended s \<and> o_done s' = o_done s
     \<and> (pending_notify s' = pending_notify s \<or> pending_notify s' = None) \<and> set (o_timers s') \<subseteq> set (o_timers s)"

definition calm :: "'p agent \<Rightarrow> 'p agent \<Rightarrow> bool" where
  "calm s s' \<longleftrightarrow> framed s s' \<and> resources s' = resources s \<and> ag_state s' = ag_state s \<and> a_cancelling s' = a_cancelling s"

lemma frame_refl [simp]: "framed s s" by (simp add: framed_def)
lemma frame_trans: "framed a b \<Longrightarrow> framed b c \<Longrightarrow> framed a c" by (auto simp: framed_def)
lemma calm_refl [simp]: "calm s s" by (simp add: calm_def)
lemma calm_trans: "calm a b \<Longrightarrow> calm b c \<Longrightarrow> calm a c" by (auto simp: calm_def intro: frame_trans)
lemma calm_frame: "calm s s' \<Longrightarrow> framed s s'" by (simp add: calm_def)
lemma calm_quiet: "calm s s' \<Longrightarrow> quiet s' = quiet s" by (simp add: calm_def quiet_def)
lemma calm_busy: "calm s s' \<Longrightarrow> agent_busy s' = agent_busy s" by (simp add: calm_def agent_busy_def)

lemmas agent_defs = framed_def calm_def resources_def begun_def ended_def

lemma busy_states: "ag_state s = CLM_STATE_THINKING \<Longrightarrow> agent_busy s" "ag_state s = CLM_STATE_CALLING_TOOL \<Longrightarrow> agent_busy s"
  "ag_state s = CLM_STATE_RATE_LIMITED \<Longrightarrow> agent_busy s" "ag_state s = CLM_STATE_ERROR \<Longrightarrow> \<not> agent_busy s" "ag_state s = CLM_STATE_COMPLETE \<Longrightarrow> \<not> agent_busy s"
  by (simp_all add: agent_busy_def)

text \<open>What a function that may end the turn leaves behind.\<close>

definition fares :: "'p agent \<Rightarrow> 'p outcome \<Rightarrow> bool" where
  "fares s out \<longleftrightarrow> framed s (fst out) \<and> settled out"

lemma fares_frame: "framed s s1 \<Longrightarrow> fares s1 out \<Longrightarrow> fares s out"
  by (auto simp: fares_def intro: frame_trans)

lemma note_event_calm: "e \<noteq> Accepted \<Longrightarrow> \<not> is_done e \<Longrightarrow> calm s (note_event e s)"
  by (simp add: agent_defs note_event_def)

lemma set_error_calm: "calm s (set_error m s)"
  by (auto simp: set_error_def clm_agent_set_error_def agent_defs dup_def split: option.split prod.split)

lemma set_state_frame: "framed s (set_state x s)" "resources (set_state x s) = resources s" "ag_state (set_state x s) = x"
  "quiet (set_state x s) = quiet s" "awaits (set_state x s) = awaits s" "o_timers (set_state x s) = o_timers s"
  by (simp_all add: set_state_def note_event_def agent_defs is_done_def quiet_def awaits_def)

lemma add_user_calm: "calm s (snd (add_user E tx s))" "add_user E tx s = (ok, s') \<Longrightarrow> calm s s'"
proof -
  obtain b h t where "clm_history_add_user (tp s) (hist s) (Some tx) (ae_compressor E) = (b, h, t)" by (rule prod_cases3)
  then show "calm s (snd (add_user E tx s))" by (simp add: add_user_def Let_def emit_last_def note_event_def agent_defs is_done_def)
  then show "add_user E tx s = (ok, s') \<Longrightarrow> calm s s'" by simp
qed

lemma add_assistant_calm: "calm s (snd (add_assistant E tx s))" "add_assistant E tx s = (ok, s') \<Longrightarrow> calm s s'"
proof -
  obtain b h t where "clm_history_add_assistant_text (tp s) (hist s) (Some tx) (ae_compressor E) = (b, h, t)" by (rule prod_cases3)
  then show "calm s (snd (add_assistant E tx s))" by (simp add: add_assistant_def Let_def emit_last_def note_event_def agent_defs is_done_def)
  then show "add_assistant E tx s = (ok, s') \<Longrightarrow> calm s s'" by simp
qed

lemma agent_fail_settled: "quiet s \<Longrightarrow> fares s (agent_fail m e s)"
proof -
  assume q: "quiet s"
  have f: "framed s (set_state CLM_STATE_ERROR (set_error (Some m) s))" by (rule frame_trans [OF calm_frame [OF set_error_calm] set_state_frame(1)])
  have "quiet (set_error (Some m) s)" using q by (simp add: calm_quiet [OF set_error_calm])
  then show ?thesis using f by (simp add: agent_fail_def fares_def settled_def set_state_frame busy_states)
qed

lemma http_post_cases:
  assumes "http_post c s = (r, s')" "quiet s"
  shows "framed s s' \<and> ag_state s' = ag_state s \<and> (if r < 0 then quiet s' else awaits s')"
proof -
  define r0 where "r0 = (case o_posts s of [] \<Rightarrow> 0 | x # _ \<Rightarrow> x)"
  define s0 where "s0 = s\<lparr>o_posts := drop 1 (o_posts s)\<rparr>"
  have e: "http_post c s = (if r0 < 0 then (r0, s0\<lparr>inflight := False\<rparr>) else (0, s0\<lparr>calls := calls s0 @ [(c, False)], inflight := True\<rparr>))"
    unfolding http_post_def Let_def r0_def [symmetric] s0_def [symmetric] ..
  have s0: "framed s s0" "ag_state s0 = ag_state s" "resources s0 = resources s" by (simp_all add: s0_def agent_defs)
  show ?thesis
  proof (cases "r0 < 0")
    case True
    then have s': "s' = s0\<lparr>inflight := False\<rparr>" "r = r0" using assms(1) e by simp_all
    have "resources s' = (False, snd (resources s0))" "framed s s'" "ag_state s' = ag_state s" using s0 by (simp_all add: s' agent_defs)
    then show ?thesis using assms(2) True s0(3) by (simp add: quiet_def s')
  next
    case False
    then have s': "s' = s0\<lparr>calls := calls s0 @ [(c, False)], inflight := True\<rparr>" "r = 0" using assms(1) e by simp_all
    have "resources s' = (True, calls s0 @ [(c, False)], snd (snd (resources s0)))" "framed s s'" "ag_state s' = ag_state s" "calls s0 = fst (snd (resources s0))"
      using s0 by (simp_all add: s' agent_defs)
    then show ?thesis using assms(2) s0(3) by (simp add: quiet_def awaits_def s'(2))
  qed
qed

lemma post_turn_settled:
  assumes "quiet s" "agent_busy s"
  shows "fares s (post_turn turn s)"
proof -
  obtain r s' where p: "http_post (LlmCall turn) s = (r, s')" by fastforce
  have h: "framed s s'" "ag_state s' = ag_state s" "if r < 0 then quiet s' else awaits s'" using http_post_cases [OF p assms(1)] by auto
  show ?thesis
  proof (cases "r < 0")
    case True
    have f: "fares s' (turn_post_failed r s')"
      unfolding turn_post_failed_def using h(3) True by (intro agent_fail_settled) simp
    have "post_turn turn s = turn_post_failed r s'" using p True by (simp add: post_turn_def)
    then show ?thesis using f fares_frame [OF h(1)] by simp
  next
    case False
    then show ?thesis using h p assms(2) by (auto simp: post_turn_def fares_def settled_def agent_busy_def)
  qed
qed

definition timers_work :: "'p agent \<Rightarrow> bool" where "timers_work s \<longleftrightarrow> (\<forall>b \<in> set (o_timers s). b)"

lemma frame_timers: "framed s s' \<Longrightarrow> timers_work s \<Longrightarrow> timers_work s'"
  by (auto simp: framed_def timers_work_def)

lemma arm_timer_cases:
  assumes "arm_timer ms s = (ok, s')"
  shows "calm s s'" "timers_work s \<Longrightarrow> ok"
  using assms by (cases "o_timers s"; auto simp: arm_timer_def Let_def agent_defs note_event_def is_done_def timers_work_def)+

lemma on_llm_rl_timer_settled:
  assumes "resources s = (False, [], False, lv, ts, pk, False, 0)" "lv \<or> ts = []" "agent_busy s"
  shows "fares s (on_llm_rl_timer E turn s)"
proof -
  define s1 where "s1 = (drop_llm_timer s)\<lparr>rl_parked_turn := None\<rparr>"
  define s2 where "s2 = s1\<lparr>llm_rl := clm_ratelimit_consume (ae_usec E) (llm_rl s1) (est_cost turn)\<rparr>"
  have "framed s s2" "quiet s2" "agent_busy s2"
    using assms by (auto simp: s2_def s1_def drop_llm_timer_def agent_defs quiet_def agent_busy_def)
  then have "fares s (post_turn turn s2)"
    using post_turn_settled [of s2 turn] fares_frame by blast
  then show ?thesis unfolding on_llm_rl_timer_def Let_def s1_def [symmetric] s2_def [symmetric] .
qed

lemma llm_dispatch_settled:
  assumes "quiet s" "agent_busy s"
  shows "fares s (llm_dispatch E turn s)"
proof (cases "llm_rl s = None \<or> \<not> ae_has_timers E")
  case True
  then show ?thesis using post_turn_settled [OF assms] by (auto simp: llm_dispatch_def)
next
  case False
  obtain ok rl where al: "clm_ratelimit_allow (ae_usec E) (llm_rl s) (est_cost turn) = (ok, rl)" by fastforce
  define s1 where "s1 = s\<lparr>llm_rl := rl\<rparr>"
  have s1: "calm s s1" by (simp add: s1_def agent_defs)
  show ?thesis
  proof (cases ok)
    case True
    then have "llm_dispatch E turn s = post_turn turn s1" using False unfolding llm_dispatch_def Let_def al prod.case s1_def [symmetric] by auto
    then show ?thesis
      using post_turn_settled [of s1 turn] assms calm_quiet [OF s1] calm_busy [OF s1] fares_frame [OF calm_frame [OF s1]] by simp
  next
    case no: False
    obtain us rl2 where de: "clm_ratelimit_delay (ae_usec E) (llm_rl s1) (est_cost turn) = (us, rl2)" by fastforce
    define s2 where "s2 = set_state CLM_STATE_RATE_LIMITED (s1\<lparr>llm_rl := rl2\<rparr>)"
    obtain ok2 s3 where ti: "arm_timer (if us div 1000 = 0 then 1 else us div 1000) s2 = (ok2, s3)" by fastforce
    have c1: "calm s (s1\<lparr>llm_rl := rl2\<rparr>)" using s1 by (simp add: agent_defs)
    have f2: "framed s s2" "resources s2 = resources s" "ag_state s2 = CLM_STATE_RATE_LIMITED"
      using c1 frame_trans [OF calm_frame [OF c1] set_state_frame(1)] by (auto simp: s2_def calm_def set_state_frame)
    have f3: "framed s s3" "resources s3 = resources s" "ag_state s3 = CLM_STATE_RATE_LIMITED"
      using arm_timer_cases(1) [OF ti] f2 frame_trans [OF f2(1)] by (auto simp: calm_def)
    have e: "llm_dispatch E turn s = (if \<not> ok2 then on_llm_rl_timer E turn (s3\<lparr>llm_rl_timer := False\<rparr>)
             else (s3\<lparr>llm_rl_timer := True, llm_timers := llm_timers s3 @ [turn], rl_parked_turn := Some turn\<rparr>, None))"
      unfolding llm_dispatch_def if_not_P [OF False] Let_def al prod.case if_not_P [OF no] s1_def [symmetric] de s2_def [symmetric] ti ..
    show ?thesis
    proof (cases ok2)
      case True
      then show ?thesis
        using e f3 assms(1) by (auto simp: fares_def settled_def awaits_def quiet_def resources_def agent_busy_def framed_def begun_def ended_def)
    next
      case False
      have r: "resources (s3\<lparr>llm_rl_timer := False\<rparr>) = (False, [], False, False, [], None, False, 0)"
        using f3 assms(1) by (simp add: quiet_def resources_def)
      have b: "agent_busy (s3\<lparr>llm_rl_timer := False\<rparr>)" "framed s (s3\<lparr>llm_rl_timer := False\<rparr>)" using f3 by (simp_all add: agent_busy_def framed_def begun_def ended_def)
      show ?thesis using on_llm_rl_timer_settled [OF r _ b(1), of E turn] e False fares_frame [OF b(2)] by simp
    qed
  qed
qed

lemma rl_retry_settled:
  assumes "rl_retry E turn adv s = Some s'" "quiet s" "timers_work s"
  shows "fares s (s', None)"
proof -
  define tn where "tn = waited turn"
  define s1 where "s1 = (set_state CLM_STATE_RATE_LIMITED s)\<lparr>rl_parked_turn := Some tn\<rparr>"
  obtain ok s2 where ti: "arm_timer (clm_rl_retry_delay_ms (ae_delay E) adv (int (t_retries (lt turn)))) s1 = (ok, s2)" by fastforce
  have f1: "framed s s1" "resources s1 = (False, [], False, False, [], Some tn, False, 0)" "ag_state s1 = CLM_STATE_RATE_LIMITED"
    using assms(2) by (simp_all add: s1_def set_state_def note_event_def agent_defs is_done_def quiet_def)
  have f2: "framed s s2" "resources s2 = resources s1" "ag_state s2 = CLM_STATE_RATE_LIMITED" ok
    using arm_timer_cases [OF ti] f1 frame_trans [OF f1(1)] frame_timers [OF f1(1) assms(3)] by (auto simp: calm_def)
  have "s' = s2\<lparr>llm_rl_timer := True, llm_timers := llm_timers s2 @ [tn]\<rparr>"
    using assms(1) f2(4) unfolding rl_retry_def Let_def tn_def [symmetric] s1_def [symmetric] ti by (simp split: if_splits)
  then show ?thesis using f1(2) f2 by (auto simp: fares_def settled_def awaits_def resources_def agent_busy_def framed_def begun_def ended_def)
qed

lemma tape_calm: "calm s (s\<lparr>tp := t\<rparr>)" by (simp add: agent_defs)

lemma reset_chain_calm: "calm s (reset_chain s)" by (simp add: reset_chain_def clm_agent_chain_reset_def agent_defs)

lemma flush_calm: "calm s (agent_flush_pending_notify E s)"
proof (cases "pending_notify s")
  case (Some n)
  have "calm s (s\<lparr>pending_notify := None\<rparr>)" by (simp add: agent_defs)
  then show ?thesis using calm_trans [OF _ add_user_calm(1)] Some by (simp add: agent_flush_pending_notify_def)
qed (simp add: agent_flush_pending_notify_def)

lemma upload_gives_up_calm: "calm s (upload_gives_up E url s)"
proof -
  obtain r t c where "clm_files_add url None (ae_time E) (tp s) (files s) = (r, t, c)" by (rule prod_cases3)
  then show ?thesis by (simp add: upload_gives_up_def Let_def agent_defs)
qed

text \<open>An upload is in flight, or nothing is and the turn goes on.\<close>

lemma file_upload_start_cases:
  assumes "file_upload_start E url s = (sent, s')" "quiet s" "agent_busy s"
  shows "framed s s' \<and> agent_busy s' \<and> (if sent then awaits s' else quiet s')"
proof -
  obtain furl t1 where fu: "clm_files_url (ae_base_url E) (tp s) = (furl, t1)" by fastforce
  show ?thesis
  proof (cases furl)
    case None
    then show ?thesis using assms fu by (auto simp: file_upload_start_def Let_def agent_defs quiet_def agent_busy_def)
  next
    case (Some fu1)
    obtain body t2 where mp: "clm_files_multipart url t1 = (body, t2)" by fastforce
    obtain hs a t3 where h: "(case body of None \<Rightarrow> (None, False, t2) | Some (bnd, _) \<Rightarrow> file_upload_headers (ae_auth E) bnd t2) = (hs, a, t3)" by (rule prod_cases3)
    obtain ok1 t4 where o1: "(if hs = None then (False, t3) else alloc t3) = (ok1, t4)" by fastforce
    obtain ok2 t5 where o2: "(if ok1 then alloc t4 else (False, t4)) = (ok2, t5)" by fastforce
    define s1 where "s1 = s\<lparr>tp := t5\<rparr>"
    have s1: "calm s s1" "quiet s1" "agent_busy s1" using tape_calm assms(2,3) by (simp_all add: s1_def agent_defs quiet_def agent_busy_def)
    have e: "file_upload_start E url s = (if \<not> ok2 then (False, upload_gives_up E url s1)
           else let (r, s) = http_post (UploadCall url) s1 in if r < 0 then (False, s\<lparr>file_uploads := False\<rparr>) else (True, s))"
      unfolding file_upload_start_def Let_def fu prod.case Some
      by (simp add: mp h o1 o2 s1_def)
    show ?thesis
    proof (cases ok2)
      case False
      then show ?thesis
        using e assms(1) s1 upload_gives_up_calm [of s1 E url] calm_quiet calm_busy calm_frame calm_trans [OF s1(1)] by fastforce
    next
      case True
      obtain r s2 where p: "http_post (UploadCall url) s1 = (r, s2)" by fastforce
      have h: "framed s s2" "ag_state s2 = ag_state s1" "if r < 0 then quiet s2 else awaits s2"
        using http_post_cases [OF p s1(2)] frame_trans [OF calm_frame [OF s1(1)]] by auto
      then show ?thesis using e True p assms(1) s1(3) by (auto simp: agent_busy_def agent_defs quiet_def split: if_splits)
    qed
  qed
qed

lemma out_of_memory_settled: "quiet s \<Longrightarrow> fares s (out_of_memory s)"
  unfolding out_of_memory_def by (rule agent_fail_settled)

lemma fares_after:
  assumes "calm s s1" "quiet s" "agent_busy s" "quiet s1 \<Longrightarrow> agent_busy s1 \<Longrightarrow> fares s1 out"
  shows "fares s out"
  using assms calm_quiet [OF assms(1)] calm_busy [OF assms(1)] fares_frame [OF calm_frame [OF assms(1)]] by blast

lemma send_messages_settled:
  assumes "quiet s" "agent_busy s"
  shows "fares s (send_messages E msgs eds s)"
proof (cases "\<not> tools_unsupported s \<and> ae_schema E = None")
  case True
  then show ?thesis using out_of_memory_settled [OF assms(1)] by (simp add: send_messages_def)
next
  case False
  obtain rest prev bad where c: "chain_cut (ae_api E) (a_chain_id s) (a_chain_sent s) msgs = (rest, prev, bad)" by (rule prod_cases3)
  define s1 where "s1 = (if bad then reset_chain s else s)"
  have s1: "calm s s1" using reset_chain_calm [of s] by (simp add: s1_def)
  define sz where "sz = (if prev \<noteq> None then ae_size E msgs else 0)"
  define b where "b = ae_build E rest eds prev (if tools_unsupported s1 then None else ae_schema E) (ae_effort E) (ae_stream_on E)"
  have e: "send_messages E msgs eds s = (case b of None \<Rightarrow> out_of_memory s1
      | Some body \<Rightarrow> let (ok, t) = alloc (tp s1); (ok, t) = (if ok then alloc t else (False, t)); s = s1\<lparr>tp := t\<rparr> in
             if \<not> ok then out_of_memory s else llm_dispatch E (new_llm_turn E (length msgs) body sz (hist s)) s)"
    unfolding send_messages_def if_not_P [OF False] c prod.case Let_def s1_def [symmetric] sz_def [symmetric] b_def [symmetric] ..
  show ?thesis
  proof (rule fares_after [OF s1 assms])
    assume q: "quiet s1" "agent_busy s1"
    show "fares s1 (send_messages E msgs eds s)"
    proof (cases b)
      case None
      then show ?thesis using e out_of_memory_settled [OF q(1)] by simp
    next
      case (Some body)
      obtain ok t where a: "alloc (tp s1) = (ok, t)" by fastforce
      obtain ok2 t2 where a2: "(if ok then alloc t else (False, t)) = (ok2, t2)" by fastforce
      have e2: "send_messages E msgs eds s = (if \<not> ok2 then out_of_memory (s1\<lparr>tp := t2\<rparr>)
          else llm_dispatch E (new_llm_turn E (length msgs) body sz (hist (s1\<lparr>tp := t2\<rparr>))) (s1\<lparr>tp := t2\<rparr>))"
        unfolding e Some option.case Let_def a prod.case a2 ..
      show ?thesis
        by (rule fares_after [OF tape_calm [of s1 t2] q]) (auto simp: e2 intro: out_of_memory_settled llm_dispatch_settled)
    qed
  qed
qed

lemma start_turn_settled:
  assumes "quiet s" "agent_busy s"
  shows "fares s (clm_agent_start_turn E s)"
proof -
  define s1 where "s1 = agent_flush_pending_notify E s"
  define s2 where "s2 = (if prompt_parts_changed s1 then (reset_chain s1)\<lparr>prompt_parts_changed := False\<rparr> else s1)"
  obtain ms t where m: "turn_messages E s2 = (ms, t)" by fastforce
  define s3 where "s3 = s2\<lparr>tp := t\<rparr>"
  have "calm s1 s2" using reset_chain_calm [of s1] by (simp add: s2_def agent_defs)
  then have c: "calm s s3" using flush_calm [of s E] calm_trans by (metis s1_def s3_def tape_calm)
  have e: "clm_agent_start_turn E s = (case ms of None \<Rightarrow> out_of_memory s3
         | Some (msgs, eds, missing) \<Rightarrow>
           let (sent, s) = (case missing of None \<Rightarrow> (False, s3) | Some url \<Rightarrow> file_upload_start E url s3) in
           if sent then (s, None) else send_messages E msgs eds s)"
    unfolding clm_agent_start_turn_def Let_def s1_def [symmetric] s2_def [symmetric] m prod.case s3_def [symmetric] ..
  show ?thesis
  proof (rule fares_after [OF c assms])
    assume q: "quiet s3" "agent_busy s3"
    show "fares s3 (clm_agent_start_turn E s)"
    proof (cases ms)
      case None
      then show ?thesis using e out_of_memory_settled [OF q(1)] by simp
    next
      case (Some x)
      obtain msgs eds missing where x: "x = (msgs, eds, missing)" by (rule prod_cases3)
      obtain sent s4 where u: "(case missing of None \<Rightarrow> (False, s3) | Some url \<Rightarrow> file_upload_start E url s3) = (sent, s4)" by fastforce
      have f: "framed s3 s4" "agent_busy s4" "if sent then awaits s4 else quiet s4"
        using u q file_upload_start_cases [of E _ s3 sent s4] by (auto split: option.splits)
      have e2: "clm_agent_start_turn E s = (if sent then (s4, None) else send_messages E msgs eds s4)"
        unfolding e Some x option.case prod.case u Let_def ..
      show ?thesis
      proof (cases sent)
        case True
        then show ?thesis using e2 f by (simp add: fares_def settled_def)
      next
        case False
        then show ?thesis using e2 f send_messages_settled [of s4 E msgs eds] fares_frame [OF f(1)] by simp
      qed
    qed
  qed
qed

section \<open>Completions\<close>

lemma complete_settled: "quiet s \<Longrightarrow> fares s (set_state CLM_STATE_COMPLETE s, Some e)"
  by (simp add: fares_def settled_def set_state_frame busy_states)

lemma error_settled: "calm s s1 \<Longrightarrow> quiet s \<Longrightarrow> fares s (set_state CLM_STATE_ERROR s1, Some e)"
  using frame_trans [OF calm_frame set_state_frame(1)] by (simp add: fares_def settled_def set_state_frame busy_states calm_quiet)

lemma start_turn_after:
  assumes "framed s s1" "quiet s1" "agent_busy s1"
  shows "fares s (clm_agent_start_turn E s1)"
  using fares_frame [OF assms(1) start_turn_settled [OF assms(2,3)]] .

lemma start_turn_calm:
  assumes "calm s s1" "quiet s" "agent_busy s"
  shows "fares s (clm_agent_start_turn E s1)"
  using start_turn_after [OF calm_frame [OF assms(1)]] assms(2,3) calm_quiet [OF assms(1)] calm_busy [OF assms(1)] by simp

lemma upload_finish_settled:
  assumes "quiet s" "agent_busy s"
  shows "fares s (file_upload_finish E url i s)"
proof -
  obtain r t c where a: "clm_files_add url i (ae_time E) (tp s) (files s) = (r, t, c)" by (rule prod_cases3)
  define s1 where "s1 = (if r = Inr () then s\<lparr>tp := t, files := c\<rparr> else s\<lparr>tp := t, files := c, file_uploads := False\<rparr>)"
  have c: "calm s s1" by (simp add: s1_def agent_defs)
  have "file_upload_finish E url i s = clm_agent_start_turn E s1"
    unfolding file_upload_finish_def a prod.case Let_def s1_def by (simp split: if_split)
  then show ?thesis using start_turn_calm [OF c assms, of E] by simp
qed

lemma compact_build_calm: "calm s (snd (compact_build E effort s))"
proof -
  obtain ms t where m: "turn_messages E s = (ms, t)" by fastforce
  show ?thesis
  proof (cases ms)
    case None
    then show ?thesis using m tape_calm by (simp add: compact_build_def)
  next
    case (Some x)
    obtain msgs eds mi where x: "x = (msgs, eds, mi)" by (rule prod_cases3)
    obtain msg t1 where i: "compact_instruction E s t = (msg, t1)" by fastforce
    obtain ok t2 where al: "alloc t1 = (ok, t2)" by fastforce
    have [simp]: "calm s (s\<lparr>tp := t2, compact_body := b\<rparr>)" "calm s (s\<lparr>tp := t2, compact_body := b, compact_effort_changed := y\<rparr>)" for b y by (simp_all add: agent_defs)
    show ?thesis using m Some x i al tape_calm [of s] by (simp add: compact_build_def Let_def split: option.split)
  qed
qed

lemma compact_error_settled:
  assumes "quiet s" "agent_busy s"
  shows "fares s (compact_error_cb E code msg s)"
proof -
  define s1 where "s1 = compact_done (s\<lparr>compact_resume_chain := False, inflight := False\<rparr>)"
  define m where "m = Some (case msg of None \<Rightarrow> lit ''compaction request failed'' | Some m \<Rightarrow> m)"
  have c1: "calm s s1" using assms(1) by (simp add: s1_def compact_done_def agent_defs quiet_def)
  have c2: "calm s (set_error m s1)" by (rule calm_trans [OF c1 set_error_calm])
  have c3: "calm s ((set_error m s1)\<lparr>mid_chain_compact_failed := True\<rparr>)" using c2 by (simp add: agent_defs)
  have "compact_error_cb E code msg s = (if compact_resume_chain s \<and> code \<noteq> E_CANCELED then clm_agent_start_turn E ((set_error m s1)\<lparr>mid_chain_compact_failed := True\<rparr>)
     else if code = E_CANCELED then (set_state CLM_STATE_COMPLETE s1, Some code) else (set_state CLM_STATE_ERROR (set_error m s1), Some code))"
    unfolding compact_error_cb_def Let_def s1_def m_def ..
  moreover have "fares s (clm_agent_start_turn E ((set_error m s1)\<lparr>mid_chain_compact_failed := True\<rparr>))"
    by (rule start_turn_calm [OF c3 assms])
  moreover have "fares s (set_state CLM_STATE_COMPLETE s1, Some code)"
    using fares_frame [OF calm_frame [OF c1] complete_settled] assms calm_quiet [OF c1] by simp
  ultimately show ?thesis using error_settled [OF c2 assms(1), of code] by (metis (full_types))
qed

lemma compact_post_settled:
  assumes "quiet s"
  shows "fares s (compact_post E s)"
proof -
  obtain r s1 where p: "http_post CompactCall (set_state CLM_STATE_THINKING s) = (r, s1)" by fastforce
  have h: "framed s s1" "ag_state s1 = CLM_STATE_THINKING" "if r < 0 then quiet s1 else awaits s1"
    using http_post_cases [OF p] assms frame_trans [OF set_state_frame(1)] by (auto simp: set_state_frame)
  show ?thesis
  proof (cases "r < 0")
    case False
    then show ?thesis using p h by (simp add: compact_post_def fares_def settled_def busy_states)
  next
    case True
    have c: "calm s1 (set_error (Some (lit ''compaction request failed'')) (s1\<lparr>compact_body := None\<rparr>))"
      by (rule calm_trans [OF _ set_error_calm]) (simp add: agent_defs)
    have "fares s1 (compact_post E s)"
      using True p fares_frame [OF calm_frame [OF c] compact_error_settled] h calm_quiet [OF c] calm_busy [OF c] by (simp add: compact_post_def busy_states)
    then show ?thesis by (rule fares_frame [OF h(1)])
  qed
qed

lemma compact_rl_retry_settled:
  assumes "compact_rl_retry E adv s = Some s'" "quiet s" "timers_work s"
  shows "fares s (s', None)"
proof -
  define s1 where "s1 = set_state CLM_STATE_RATE_LIMITED (s\<lparr>compact_rl_retries := compact_rl_retries s + 1\<rparr>)"
  obtain ok s2 where ti: "arm_timer (clm_rl_retry_delay_ms (ae_delay E) adv (int (compact_rl_retries s))) s1 = (ok, s2)" by fastforce
  have f1: "framed s s1" "resources s1 = resources s" "ag_state s1 = CLM_STATE_RATE_LIMITED"
    by (simp_all add: s1_def set_state_def note_event_def agent_defs is_done_def)
  have f2: "framed s s2" "resources s2 = resources s" "ag_state s2 = CLM_STATE_RATE_LIMITED" ok
    using arm_timer_cases [OF ti] f1 frame_trans [OF f1(1)] frame_timers [OF f1(1) assms(3)] by (auto simp: calm_def)
  have "s' = s2\<lparr>compact_rl_timer := True, compact_timers := compact_timers s2 + 1\<rparr>"
    using assms(1) f2(4) unfolding compact_rl_retry_def Let_def s1_def [symmetric] ti by (simp split: if_splits)
  then show ?thesis using assms(2) f2 by (auto simp: fares_def settled_def awaits_def quiet_def resources_def agent_busy_def framed_def begun_def ended_def)
qed

lemma compact_failed_settled:
  assumes "quiet s" "agent_busy s"
  shows "fares s (compact_failed E resume why err s)"
proof -
  have c1: "calm s (compact_done s)" by (simp add: compact_done_def agent_defs)
  have "calm s (set_error (Some why) (compact_done s))" by (rule calm_trans [OF c1 set_error_calm])
  then have c3: "calm s ((set_error (Some why) (compact_done s))\<lparr>mid_chain_compact_failed := True\<rparr>)" by (simp add: agent_defs)
  have "fares s (agent_fail why err (compact_done s))"
    using fares_frame [OF calm_frame [OF c1] agent_fail_settled] calm_quiet [OF c1] assms(1) by simp
  then show ?thesis using start_turn_calm [OF c3 assms, of E] by (simp add: compact_failed_def Let_def)
qed

lemma compact_fold_settled:
  assumes "quiet s" "agent_busy s"
  shows "fares s (compact_fold E resume summary s)"
proof -
  obtain r h t where c: "clm_history_compact_within (tp s) (hist s) (Some summary) (keep_bytes (budget s)) CLM_COMPACT_KEEP_MIN (ae_compressor E) = (r, h, t)"
    by (rule prod_cases3)
  define s1 where "s1 = s\<lparr>hist := h, tp := t\<rparr>"
  have c1: "calm s s1" by (simp add: s1_def agent_defs)
  define s2 where "s2 = compact_done ((reset_chain s1)\<lparr>facts_pending := True\<rparr>)"
  define s3 where "s3 = set_state CLM_STATE_THINKING (s2\<lparr>mid_chain_compact_failed := False, mid_chain_compact_succeeded := True, budget := (budget s2)\<lparr>ctx_used := 0\<rparr>\<rparr>)"
  have c2: "calm s s2" using calm_trans [OF c1 reset_chain_calm] by (simp add: s2_def compact_done_def agent_defs)
  have f3: "framed s s3" "quiet s3" "agent_busy s3"
    using c2 assms(1) frame_trans [OF calm_frame [OF c2]] by (simp_all add: s3_def set_state_def note_event_def agent_defs is_done_def quiet_def agent_busy_def)
  have e: "compact_fold E resume summary s = (case r of Inl e \<Rightarrow> compact_failed E resume (lit ''compaction failed'') (if e = EINVAL then E_INVAL else E_NOMEM) s1
     | Inr n \<Rightarrow> if n = 0 then compact_failed E resume (lit ''compaction made no progress'') E_AGAIN s1
       else if resume then clm_agent_start_turn E s3 else (set_state CLM_STATE_COMPLETE s2, Some 0))"
    unfolding compact_fold_def c prod.case Let_def s1_def [symmetric] s2_def [symmetric] s3_def [symmetric] ..
  have "fares s (compact_failed E resume why err s1)" for why err
    using fares_frame [OF calm_frame [OF c1] compact_failed_settled] assms calm_quiet [OF c1] calm_busy [OF c1] by simp
  moreover have "fares s (clm_agent_start_turn E s3)" by (rule start_turn_after [OF f3])
  moreover have "fares s (set_state CLM_STATE_COMPLETE s2, Some 0)"
    using fares_frame [OF calm_frame [OF c2] complete_settled] assms calm_quiet [OF c2] by simp
  ultimately show ?thesis unfolding e by (cases r; cases resume) simp_all
qed

lemma compact_answer_settled:
  assumes "quiet s" "agent_busy s" "timers_work s"
  shows "fares s (compact_answer E resume body s)"
proof -
  define parsed where "parsed = (case cj_parse (ae_api E) body of None \<Rightarrow> None | Some p \<Rightarrow> (case ae_normalize E of None \<Rightarrow> Some p | Some f \<Rightarrow> f p))"
  obtain summary t where x: "(case parsed of None \<Rightarrow> (None, tp s) | Some p \<Rightarrow> extract_message_content (ae_api E) p (tp s)) = (summary, t)" by fastforce
  define s1 where "s1 = s\<lparr>tp := t\<rparr>"
  define emsg where "emsg = Option.bind parsed (response_error_message (ae_api E))"
  define why where "why = (if Option.bind parsed (response_finish_reason (ae_api E)) = Some (lit ''content_filter'') then lit ''compaction stopped by content filter''
                      else lit ''compaction produced no summary'')"
  have c1: "calm s s1" by (simp add: s1_def agent_defs)
  have q1: "quiet s1" "agent_busy s1" "timers_work s1" using assms calm_quiet [OF c1] calm_busy [OF c1] frame_timers [OF calm_frame [OF c1]] by simp_all
  have e: "compact_answer E resume body s = (case summary of Some sm \<Rightarrow> compact_fold E resume sm s1
      | None \<Rightarrow> case if is_rate_limit_message emsg then compact_rl_retry E emsg (s1\<lparr>compact_resume_chain := resume\<rparr>) else None of
                Some s \<Rightarrow> (s, None) | None \<Rightarrow> compact_failed E resume why E_IO s1)"
    unfolding compact_answer_def Let_def parsed_def [symmetric] x prod.case s1_def [symmetric] emsg_def [symmetric] why_def [symmetric] ..
  have "fares s1 (compact_answer E resume body s)"
  proof (cases summary)
    case (Some sm)
    then show ?thesis using e compact_fold_settled [OF q1(1,2)] by simp
  next
    case None
    have c2: "calm s1 (s1\<lparr>compact_resume_chain := resume\<rparr>)" by (simp add: agent_defs)
    show ?thesis
    proof (cases "if is_rate_limit_message emsg then compact_rl_retry E emsg (s1\<lparr>compact_resume_chain := resume\<rparr>) else None")
      case None': None
      then show ?thesis using e None compact_failed_settled [OF q1(1,2), of E resume why E_IO] by (simp only: option.case)
    next
      case (Some s2)
      then have r: "compact_rl_retry E emsg (s1\<lparr>compact_resume_chain := resume\<rparr>) = Some s2" by (simp split: if_splits)
      have "fares s1 (s2, None)"
        using fares_frame [OF calm_frame [OF c2] compact_rl_retry_settled [OF r]] q1 calm_quiet [OF c2] frame_timers [OF calm_frame [OF c2]] by simp
      then show ?thesis using e None Some by (simp only: option.case)
    qed
  qed
  then show ?thesis by (rule fares_frame [OF calm_frame [OF c1]])
qed

lemma compact_effort_retry_cases:
  assumes "compact_effort_retry E body s = (out, s')" "quiet s"
  shows "(out = None \<longrightarrow> calm s s') \<and> (\<forall>r. out = Some r \<longrightarrow> fares s r)"
proof (cases "\<not> compact_effort_changed s \<or> compact_effort_fallback s \<or> \<not> (says body (lit ''reasoning'') \<or> says body (lit ''effort''))")
  case True
  then have "compact_effort_retry E body s = (None, s)" unfolding compact_effort_retry_def by (simp only: if_True)
  then show ?thesis using assms(1) by simp
next
  case False
  obtain r s1 where b: "compact_build E (ae_effort E) (s\<lparr>compact_effort_fallback := True\<rparr>) = (r, s1)" by fastforce
  have "calm s (s\<lparr>compact_effort_fallback := True\<rparr>)" by (simp add: agent_defs)
  then have c: "calm s s1" using calm_trans compact_build_calm b by (metis snd_conv)
  have "compact_effort_retry E body s = (if r < 0 then (None, s1) else (Some (compact_post E s1), s1))"
    unfolding compact_effort_retry_def if_not_P [OF False] b prod.case Let_def ..
  then show ?thesis
    using assms c fares_frame [OF calm_frame [OF c] compact_post_settled [where E = E]] calm_quiet [OF c] by (auto split: if_splits)
qed

lemma compact_success_settled:
  assumes "quiet s" "agent_busy s" "timers_work s"
  shows "fares s (compact_success_cb E status body s)"
proof -
  define resume where "resume = compact_resume_chain s"
  define s0 where "s0 = s\<lparr>compact_resume_chain := False, inflight := False\<rparr>"
  obtain adv t where x: "(if status = 429 then (case body of None \<Rightarrow> (None, tp s0) | Some b \<Rightarrow> dup (tp s0) b) else (None, tp s0)) = (adv, t)" by fastforce
  define s1 where "s1 = s0\<lparr>tp := t\<rparr>"
  have c1: "calm s s1" using assms(1) by (simp add: s1_def s0_def agent_defs quiet_def)
  have q1: "quiet s1" "agent_busy s1" "timers_work s1" using assms calm_quiet [OF c1] calm_busy [OF c1] frame_timers [OF calm_frame [OF c1]] by simp_all
  define s1r where "s1r = s1\<lparr>compact_resume_chain := resume\<rparr>"
  have cr: "calm s1 s1r" by (simp add: s1r_def agent_defs)
  have qr: "quiet s1r" "timers_work s1r" using q1 calm_quiet [OF cr] frame_timers [OF calm_frame [OF cr]] by simp_all
  obtain again s2 where a: "(if status = 400 then (let (o1, s) = compact_effort_retry E body s1r in (o1, s\<lparr>compact_resume_chain := False\<rparr>)) else (None, s1)) = (again, s2)" by fastforce
  have e: "compact_success_cb E status body s = (case if status = 429 then compact_rl_retry E adv s1r else None of
           Some s \<Rightarrow> (s, None)
         | None \<Rightarrow> case again of Some out \<Rightarrow> out
           | None \<Rightarrow>
             if status \<noteq> 200 \<or> body = None then compact_failed E resume (format_http_error (ae_api E) 256 (Some body) status) E_IO s2
             else compact_answer E resume (the body) s2)"
    unfolding compact_success_cb_def Let_def resume_def [symmetric] s0_def [symmetric] x prod.case s1_def [symmetric] s1r_def [symmetric] a [unfolded Let_def] ..
  have ag: "(again = None \<longrightarrow> calm s1 s2) \<and> (\<forall>r. again = Some r \<longrightarrow> fares s1 r)"
  proof (cases "status = 400")
    case True
    obtain o1 s3 where r: "compact_effort_retry E body s1r = (o1, s3)" by fastforce
    then have "again = o1" "s2 = s3\<lparr>compact_resume_chain := False\<rparr>" using a True by auto
    then show ?thesis
      using compact_effort_retry_cases [OF r qr(1)] calm_trans [OF cr] fares_frame [OF calm_frame [OF cr]] by (auto simp: agent_defs)
  next
    case False
    then show ?thesis using a by simp
  qed
  have "fares s1 (compact_success_cb E status body s)"
  proof (cases "if status = 429 then compact_rl_retry E adv s1r else None")
    case (Some s3)
    then have "compact_rl_retry E adv s1r = Some s3" by (simp split: if_splits)
    then have "fares s1 (s3, None)" using fares_frame [OF calm_frame [OF cr] compact_rl_retry_settled] qr by blast
    then show ?thesis unfolding e Some by simp
  next
    case None
    show ?thesis
    proof (cases again)
      case (Some out)
      then show ?thesis using ag unfolding e None by simp
    next
      case None': None
      then have c2: "calm s1 s2" using ag by simp
      have q2: "quiet s2" "agent_busy s2" "timers_work s2" using q1 calm_quiet [OF c2] calm_busy [OF c2] frame_timers [OF calm_frame [OF c2]] by simp_all
      show ?thesis
        using fares_frame [OF calm_frame [OF c2] compact_failed_settled [OF q2(1,2), of E]] fares_frame [OF calm_frame [OF c2] compact_answer_settled [OF q2, of E]]
        unfolding e None None' by (simp del: lit_Cons)
    qed
  qed
  then show ?thesis by (rule fares_frame [OF calm_frame [OF c1]])
qed

lemma begin_compact_cases:
  assumes "clm_agent_compact E s = (r, s')" "quiet s"
  shows "framed s s' \<and> (if r = 0 then \<not> agent_busy s \<and> awaits s' \<and> agent_busy s' else quiet s' \<and> agent_busy s' = agent_busy s)"
proof (cases "agent_busy s")
  case True
  then show ?thesis using assms set_error_calm [of s] calm_frame calm_quiet calm_busy by (fastforce simp: clm_agent_compact_def E_BUSY_def)
next
  case False
  obtain r1 s1 where b: "compact_build E (compact_effort (compact_effort_set s) (ae_provider E) (ae_effort E)) s = (r1, s1)" by fastforce
  have c1: "calm s s1" using compact_build_calm b by (metis snd_conv)
  have q1: "quiet s1" "\<not> agent_busy s1" using assms(2) False calm_quiet [OF c1] calm_busy [OF c1] by simp_all
  define s2 where "s2 = set_state CLM_STATE_THINKING (s1\<lparr>compact_rl_retries := 0, compact_effort_fallback := False\<rparr>)"
  have f2: "framed s s2" "quiet s2" "ag_state s2 = CLM_STATE_THINKING"
    using c1 q1(1) by (simp_all add: s2_def set_state_def note_event_def agent_defs is_done_def quiet_def)
  obtain r2 s3 where p: "http_post CompactCall s2 = (r2, s3)" by fastforce
  have h: "framed s s3" "ag_state s3 = CLM_STATE_THINKING" "if r2 < 0 then quiet s3 else awaits s3"
    using http_post_cases [OF p f2(2)] f2 frame_trans [OF f2(1)] by auto
  have e: "clm_agent_compact E s = (if r1 < 0 then (r1, s1) else if r2 < 0 then (r2, s3\<lparr>compact_body := None, ag_state := CLM_STATE_ERROR\<rparr>) else (0, s3))"
    unfolding clm_agent_compact_def if_not_P [OF False] b prod.case Let_def s2_def [symmetric] p ..
  have "framed s (s3\<lparr>compact_body := None, ag_state := CLM_STATE_ERROR\<rparr>)" "quiet s3 \<Longrightarrow> quiet (s3\<lparr>compact_body := None, ag_state := CLM_STATE_ERROR\<rparr>)"
    "\<not> agent_busy (s3\<lparr>compact_body := None, ag_state := CLM_STATE_ERROR\<rparr>)"
    using h(1) by (simp_all add: agent_defs quiet_def agent_busy_def)
  then show ?thesis using assms(1) e h q1 False calm_frame [OF c1] by (auto simp: busy_states split: if_splits)
qed

lemma tools_done_settled:
  assumes "quiet s" "agent_busy s"
  shows "fares s (clm_agent_tools_done E status s)"
proof (cases "a_cancelling s \<or> status < 0 \<or> gate_denials s \<ge> CLM_GATE_DENY_LIMIT")
  case True
  have c: "framed s (s\<lparr>a_cancelling := False\<rparr>)" "quiet (s\<lparr>a_cancelling := False\<rparr>)" using assms(1) by (simp_all add: agent_defs quiet_def)
  have "fares s (set_state CLM_STATE_COMPLETE (s\<lparr>a_cancelling := False\<rparr>), Some E_CANCELED)"
    by (rule fares_frame [OF c(1) complete_settled [OF c(2)]])
  then show ?thesis using True agent_fail_settled [OF assms(1)] by (auto simp: clm_agent_tools_done_def simp del: lit_Cons)
next
  case False
  define s1 where "s1 = (if max_iterations s > 0 then s\<lparr>iteration := iteration s + 1\<rparr> else s)"
  have c1: "calm s s1" by (simp add: s1_def agent_defs)
  have q1: "quiet s1" "agent_busy s1" using assms calm_quiet [OF c1] calm_busy [OF c1] by simp_all
  have go: "fares s (clm_agent_start_turn E (set_state CLM_STATE_THINKING s2))" if "framed s s2" "quiet s2" for s2
    by (rule start_turn_after) (use that frame_trans [OF that(1) set_state_frame(1)] in \<open>simp_all add: set_state_frame busy_states\<close>)
  define s2 where "s2 = s1\<lparr>ag_state := CLM_STATE_COMPLETE, compact_resume_chain := True\<rparr>"
  have f2: "framed s s2" "quiet s2" "\<not> agent_busy s2" using c1 q1 by (simp_all add: s2_def agent_defs quiet_def agent_busy_def)
  obtain r s3 where co: "clm_agent_compact E s2 = (r, s3)" by fastforce
  have h: "framed s s3" "if r = 0 then awaits s3 \<and> agent_busy s3 else quiet s3" using begin_compact_cases [OF co f2(2)] frame_trans [OF f2(1)] by (auto split: if_splits)
  define s4 where "s4 = note_event (OnState (ag_state s3)) (s3\<lparr>mid_chain_compact_started := True, budget := (budget s3)\<lparr>ctx_used := 0\<rparr>\<rparr>)"
  have f4: "framed s s4" "awaits s4 = awaits s3" "agent_busy s4 = agent_busy s3" using h(1) by (simp_all add: s4_def note_event_def agent_defs is_done_def awaits_def agent_busy_def)
  have f5: "framed s (s3\<lparr>compact_resume_chain := False\<rparr>)" "quiet (s3\<lparr>compact_resume_chain := False\<rparr>) = quiet s3" using h(1) by (simp_all add: agent_defs quiet_def)
  have e: "clm_agent_tools_done E status s =
     (if max_iterations s1 > 0 \<and> iteration s1 \<ge> max_iterations s1 then agent_fail (lit ''max iterations reached'') E_2BIG s1
      else if clm_agent_over_autocompact_threshold (budget s1)
        then if r = 0 then (s4, None) else clm_agent_start_turn E (set_state CLM_STATE_THINKING (s3\<lparr>compact_resume_chain := False\<rparr>))
      else clm_agent_start_turn E (set_state CLM_STATE_THINKING s1))"
    using False unfolding clm_agent_tools_done_def Let_def s1_def [symmetric] s2_def [symmetric] co prod.case s4_def [symmetric] by simp
  have "fares s (agent_fail (lit ''max iterations reached'') E_2BIG s1)" using fares_frame [OF calm_frame [OF c1] agent_fail_settled [OF q1(1)]] .
  moreover have "r = 0 \<Longrightarrow> fares s (s4, None)" using f4 h(2) by (simp add: fares_def settled_def)
  moreover have "r \<noteq> 0 \<Longrightarrow> fares s (clm_agent_start_turn E (set_state CLM_STATE_THINKING (s3\<lparr>compact_resume_chain := False\<rparr>)))" using go [OF f5(1)] f5(2) h(2) by simp
  moreover have "fares s (clm_agent_start_turn E (set_state CLM_STATE_THINKING s1))" by (rule go [OF calm_frame [OF c1] q1(1)])
  ultimately show ?thesis unfolding e by (simp del: lit_Cons)
qed

lemma dispatch_tools_settled:
  assumes "quiet s" "agent_busy s"
  shows "fares s (dispatch_tools E s)"
proof -
  define d where "d = (case o_disp s of [] \<Rightarrow> DispPending [] | x # _ \<Rightarrow> x)"
  define s1 where "s1 = s\<lparr>o_disp := drop 1 (o_disp s)\<rparr>"
  have e: "dispatch_tools E s = (case d of DispFail r ms \<Rightarrow> agent_fail (lit ''failed to dispatch tools'') r (s1\<lparr>hist := hist s1 @ ms\<rparr>)
      | DispPending ms \<Rightarrow> (s1\<lparr>hist := hist s1 @ ms, active_batch := True\<rparr>, None)
      | DispDone st ms \<Rightarrow> clm_agent_tools_done E st (s1\<lparr>hist := hist s1 @ ms\<rparr>))"
    unfolding dispatch_tools_def Let_def d_def [symmetric] s1_def [symmetric] ..
  have c: "calm s (s1\<lparr>hist := hist s1 @ ms\<rparr>)" for ms by (simp add: s1_def agent_defs)
  have q: "quiet (s1\<lparr>hist := hist s1 @ ms\<rparr>)" "agent_busy (s1\<lparr>hist := hist s1 @ ms\<rparr>)" for ms
    using assms calm_quiet [OF c] calm_busy [OF c] by simp_all
  show ?thesis
  proof (cases d)
    case (DispFail r ms)
    then show ?thesis using e fares_frame [OF calm_frame [OF c] agent_fail_settled [OF q(1)]] by simp
  next
    case (DispPending ms)
    have "fares s (s1\<lparr>hist := hist s1 @ ms, active_batch := True\<rparr>, None)"
      using assms by (simp add: fares_def settled_def s1_def agent_defs awaits_def quiet_def agent_busy_def)
    then show ?thesis using e DispPending by simp
  next
    case (DispDone st ms)
    then show ?thesis using e fares_frame [OF calm_frame [OF c] tools_done_settled [OF q, where E = E]] by simp
  qed
qed

lemma agent_finish_settled:
  assumes "quiet s" "agent_busy s"
  shows "fares s (agent_finish E tcs body reason streamed s)"
proof -
  have st: "framed s (set_state CLM_STATE_CALLING_TOOL s)" "quiet (set_state CLM_STATE_CALLING_TOOL s)" "agent_busy (set_state CLM_STATE_CALLING_TOOL s)"
    using assms by (simp_all add: set_state_frame busy_states)
  define s1 where "s1 = (if body = [] then note_event (OnFinish CLM_FINISH_EMPTY) s else s)"
  obtain ok s2 where ad: "add_assistant E (if body = [] then lit ''[empty response]'' else body) s1 = (ok, s2)" by fastforce
  have "calm s s1" by (simp add: s1_def note_event_calm is_done_def)
  then have c2: "calm s s2" using calm_trans add_assistant_calm(2) [OF ad] by blast
  define s3 where "s3 = (if body \<noteq> [] \<and> \<not> streamed then s2\<lparr>a_out := a_out s2 @ [OnText body]\<rparr> else s2)"
  have c3: "calm s s3" using c2 by (simp add: s3_def agent_defs)
  have t: "(let empty = (body = []);
            s = (if empty then note_event (OnFinish CLM_FINISH_EMPTY) s else s);
            (ok, s) = add_assistant E (if empty then lit ''[empty response]'' else body) s in
        if \<not> ok then out_of_memory s
        else
          let s = (if \<not> empty \<and> \<not> streamed then s\<lparr>a_out := a_out s @ [OnText body]\<rparr> else s) in
          (set_state CLM_STATE_COMPLETE s, Some 0)) = (if \<not> ok then out_of_memory s2 else (set_state CLM_STATE_COMPLETE s3, Some 0))"
    unfolding Let_def s1_def [symmetric] ad prod.case s3_def [symmetric] ..
  have "fares s (if \<not> ok then out_of_memory s2 else (set_state CLM_STATE_COMPLETE s3, Some 0))"
    using fares_frame [OF calm_frame [OF c2] out_of_memory_settled] fares_frame [OF calm_frame [OF c3] complete_settled] assms(1) calm_quiet [OF c2] calm_quiet [OF c3] by simp
  moreover have "fares s (dispatch_tools E (set_state CLM_STATE_CALLING_TOOL s))" by (rule fares_frame [OF st(1) dispatch_tools_settled [OF st(2,3)]])
  ultimately show ?thesis
    using agent_fail_settled [OF assms(1)] unfolding agent_finish_def t by presburger
qed

lemma stream_finalize_settled:
  assumes "quiet s" "agent_busy s" "timers_work s"
  shows "fares s (stream_finalize E turn s)"
proof -
  obtain tcs t where b: "stream_build_tool_calls (ae_api E) (lt turn) (tp s) = (tcs, t)" by fastforce
  define s1 where "s1 = s\<lparr>tp := t\<rparr>"
  have c1: "calm s s1" by (simp add: s1_def agent_defs)
  have q1: "quiet s1" "agent_busy s1" "timers_work s1" using assms calm_quiet [OF c1] calm_busy [OF c1] frame_timers [OF calm_frame [OF c1]] by simp_all
  define s2 where "s2 = emit_finish (t_finish (lt turn)) s1"
  define s3 where "s3 = (if t_have_usage (lt turn) then emit_usage (t_usage (lt turn)) s2 else s2)"
  have c3: "calm s1 s3"
    by (simp add: s3_def s2_def emit_finish_def emit_usage_def note_event_def agent_defs is_done_def)
  have e: "stream_finalize E turn s = (case if t_advice (lt turn) \<noteq> None \<and> sb_str (t_content (lt turn)) = [] \<and> tcs = None then rl_retry E turn (t_advice (lt turn)) s1 else None of
        Some s \<Rightarrow> (s, None) | None \<Rightarrow> agent_finish E tcs (sb_str (t_content (lt turn))) (t_finish (lt turn)) True s3)"
    unfolding stream_finalize_def Let_def b prod.case s1_def [symmetric] s2_def [symmetric] s3_def [symmetric] ..
  have "fares s1 (stream_finalize E turn s)"
  proof (cases "if t_advice (lt turn) \<noteq> None \<and> sb_str (t_content (lt turn)) = [] \<and> tcs = None then rl_retry E turn (t_advice (lt turn)) s1 else None")
    case None
    then show ?thesis unfolding e None using fares_frame [OF calm_frame [OF c3] agent_finish_settled] q1 calm_quiet [OF c3] calm_busy [OF c3] by simp
  next
    case (Some s4)
    then have "rl_retry E turn (t_advice (lt turn)) s1 = Some s4" by (simp split: if_splits)
    then show ?thesis unfolding e Some using rl_retry_settled q1 by simp
  qed
  then show ?thesis by (rule fares_frame [OF calm_frame [OF c1]])
qed

lemma llm_rejected_settled:
  assumes "quiet s" "agent_busy s" "timers_work s"
  shows "fares s (llm_rejected E status body turn s)"
proof -
  obtain adv t where x: "(if status = 429 then (case body of None \<Rightarrow> (None, tp s) | Some b \<Rightarrow> dup (tp s) b) else (None, tp s)) = (adv, t)" by fastforce
  define s1 where "s1 = s\<lparr>tp := t\<rparr>"
  have c1: "calm s s1" by (simp add: s1_def agent_defs)
  have q1: "quiet s1" "agent_busy s1" "timers_work s1" using assms calm_quiet [OF c1] calm_busy [OF c1] frame_timers [OF calm_frame [OF c1]] by simp_all
  obtain r h t2 where rp: "(if says body (lit ''No tool output found'') then clm_history_repair_dangling_tool_calls (tp s1) (hist s1) else (Inr 0, hist s1, tp s1)) = (r, h, t2)"
    by (rule prod_cases3)
  define s2 where "s2 = s1\<lparr>hist := h, tp := t2\<rparr>"
  define s3 where "s3 = s2\<lparr>files := clm_files_clear (files s2), files_lost := files_lost s2 + 1\<rparr>"
  define s4 where "s4 = (if files_lost s3 > 1 then s3\<lparr>file_uploads := False\<rparr> else s3)"
  define s5 where "s5 = note_event (OnNotice (lit ''model does not support tool calls; continuing without tools'')) (s2\<lparr>tools_unsupported := True\<rparr>)"
  have c: "calm s1 (reset_chain s1)" "calm s1 s2" "calm s1 s4" "calm s1 s5"
    using reset_chain_calm by (simp_all add: s2_def s4_def s3_def s5_def note_event_def agent_defs is_done_def del: lit_Cons)
  have e: "llm_rejected E status body turn s = (case if status = 429 then rl_retry E turn adv s1 else None of Some s \<Rightarrow> (s, None)
      | None \<Rightarrow>
        if a_chain_id s1 \<noteq> None \<and> (says body (lit ''previous_response'') \<or> says body (lit ''No tool output found'')) then clm_agent_start_turn E (reset_chain s1)
        else if (case r of Inl _ \<Rightarrow> False | Inr n \<Rightarrow> n > 0) then clm_agent_start_turn E s2
        else if status = 404 \<and> ents (files s2) \<noteq> [] \<and> says body (lit ''File `file_'') then clm_agent_start_turn E s4
        else if status = 400 \<and> \<not> tools_unsupported s2 \<and> says body (lit ''does not support tools'') then clm_agent_start_turn E s5
        else agent_fail (http_failure E status body s2) E_IO s2)"
    unfolding llm_rejected_def Let_def x prod.case s1_def [symmetric] rp s2_def [symmetric] s3_def [symmetric] s4_def [symmetric] s5_def [symmetric] ..
  have st: "fares s1 (clm_agent_start_turn E s')" if "calm s1 s'" for s' by (rule start_turn_calm [OF that q1(1,2)])
  have fl: "fares s1 (agent_fail (http_failure E status body s2) E_IO s2)"
    using fares_frame [OF calm_frame [OF c(2)] agent_fail_settled] q1(1) calm_quiet [OF c(2)] by simp
  have "fares s1 (llm_rejected E status body turn s)"
  proof (cases "if status = 429 then rl_retry E turn adv s1 else None")
    case None
    show ?thesis unfolding e None option.case using st [OF c(1)] st [OF c(2)] st [OF c(3)] st [OF c(4)] fl by presburger
  next
    case (Some s6)
    then have "rl_retry E turn adv s1 = Some s6" by (simp split: if_splits)
    then show ?thesis unfolding e Some using rl_retry_settled q1 by simp
  qed
  then show ?thesis by (rule fares_frame [OF calm_frame [OF c1]])
qed

lemma llm_answer_settled:
  assumes "quiet s" "agent_busy s" "timers_work s"
  shows "fares s (llm_answer E body turn s)"
proof -
  define parsed where "parsed = (case Option.bind body (cj_parse (ae_api E)) of None \<Rightarrow> None | Some p \<Rightarrow> (case ae_normalize E of None \<Rightarrow> Some p | Some f \<Rightarrow> f p))"
  show ?thesis
  proof (cases "Option.bind parsed (response_message (ae_api E))")
    case None
    have "llm_answer E body turn s \<in> {agent_fail (lit ''could not parse llm response'') E_IO s, agent_fail (lit ''could not extract message from llm response'') E_IO s}"
      using None unfolding llm_answer_def Let_def parsed_def [symmetric] by (cases parsed) (simp_all del: lit_Cons)
    then show ?thesis using agent_fail_settled [OF assms(1)] by auto
  next
    case (Some m)
    then obtain p where p: "parsed = Some p" "response_message (ae_api E) p = Some m" by (cases parsed) auto
    define reason where "reason = response_finish_reason (ae_api E) p"
    define s1 where "s1 = emit_finish reason s"
    define s2 where "s2 = (case extract_usage (ae_stream E) p of None \<Rightarrow> s1 | Some u \<Rightarrow> emit_usage u s1)"
    define rt where "rt = (case (case cj_get (ae_api E) m (lit ''reasoning_content'') of None \<Rightarrow> cj_get (ae_api E) m (lit ''reasoning'') | Some r \<Rightarrow> Some r) of
                      None \<Rightarrow> None | Some r \<Rightarrow> if cj_is_string (ae_api E) r then cj_string_value (ae_api E) r else None)"
    define s3 where "s3 = (case rt of None \<Rightarrow> s2 | Some r \<Rightarrow> s2\<lparr>a_out := a_out s2 @ [OnReasoning r]\<rparr>)"
    define emsg where "emsg = response_error_message (ae_api E) p"
    define s4 where "s4 = (if emsg = None then s3 else set_error emsg s3)"
    obtain t s5 where n: "chain_note_response (ae_api E) p (t_msgs (lt turn)) (tp s4) s4 = (t, s5)" by fastforce
    define s6 where "s6 = s5\<lparr>tp := t\<rparr>"
    have c3: "calm s s3"
      by (simp add: s3_def s2_def s1_def emit_finish_def emit_usage_def note_event_def agent_defs is_done_def split: option.split)
    have c4: "calm s s4" using c3 calm_trans [OF c3 set_error_calm] by (simp add: s4_def)
    have "calm s4 s6" using n by (auto simp: s6_def chain_note_response_def agent_defs dup_def split: option.splits if_splits prod.splits)
    then have c6: "calm s s6" by (rule calm_trans [OF c4])
    have q: "quiet s3" "timers_work s3" "quiet s6" "agent_busy s6"
      using assms calm_quiet [OF c3] frame_timers [OF calm_frame [OF c3]] calm_quiet [OF c6] calm_busy [OF c6] by simp_all
    have e: "llm_answer E body turn s = (case if is_rate_limit_message emsg then rl_retry E turn emsg s3 else None of Some s \<Rightarrow> (s, None)
       | None \<Rightarrow> agent_finish E (cj_get (ae_api E) m (lit ''tool_calls'')) (case cj_get_string (ae_api E) m (lit ''content'') of None \<Rightarrow> [] | Some c \<Rightarrow> c) reason False s6)"
      unfolding llm_answer_def Let_def parsed_def [symmetric] p option.case reason_def [symmetric] s1_def [symmetric] s2_def [symmetric] rt_def [symmetric]
        s3_def [symmetric] emsg_def [symmetric] s4_def [symmetric] n prod.case s6_def [symmetric] ..
    show ?thesis
    proof (cases "if is_rate_limit_message emsg then rl_retry E turn emsg s3 else None")
      case None
      show ?thesis unfolding e None option.case by (rule fares_frame [OF calm_frame [OF c6] agent_finish_settled [OF q(3,4)]])
    next
      case (Some s7)
      then have "rl_retry E turn emsg s3 = Some s7" by (simp split: if_splits)
      then show ?thesis unfolding e Some option.case using fares_frame [OF calm_frame [OF c3] rl_retry_settled] q by blast
    qed
  qed
qed

lemma inflight_calm: "quiet s \<Longrightarrow> calm s (s\<lparr>inflight := False\<rparr>)"
  by (simp add: agent_defs quiet_def)

lemma http_success_settled:
  assumes "quiet s" "agent_busy s" "timers_work s"
  shows "fares s (clm_http_success_cb E status body turn s)"
proof -
  define s1 where "s1 = s\<lparr>inflight := False\<rparr>"
  have c: "calm s s1" unfolding s1_def by (rule inflight_calm [OF assms(1)])
  have q: "quiet s1" "agent_busy s1" "timers_work s1" using assms calm_quiet [OF c] calm_busy [OF c] frame_timers [OF calm_frame [OF c]] by simp_all
  have "fares s1 (clm_http_success_cb E status body turn s)"
    using llm_rejected_settled [OF q, where E = E] stream_finalize_settled [OF q, where E = E] llm_answer_settled [OF q, where E = E]
    unfolding clm_http_success_cb_def Let_def s1_def [symmetric] by simp
  then show ?thesis by (rule fares_frame [OF calm_frame [OF c]])
qed

lemma http_error_settled:
  assumes "quiet s"
  shows "fares s (clm_http_error_cb E code msg turn s)"
proof -
  define s1 where "s1 = s\<lparr>inflight := False\<rparr>"
  have c: "calm s s1" unfolding s1_def by (rule inflight_calm [OF assms])
  have k: "calm s1 (agent_keep_partial E turn s1)"
    using tape_calm calm_trans [OF tape_calm add_assistant_calm(1)] by (auto simp: agent_keep_partial_def Let_def split: prod.split)
  have "fares s1 (clm_http_error_cb E code msg turn s)"
    using fares_frame [OF calm_frame [OF k] complete_settled] error_settled [OF set_error_calm [of s1]] assms calm_quiet [OF c] calm_quiet [OF k]
    unfolding clm_http_error_cb_def Let_def s1_def [symmetric] by simp
  then show ?thesis by (rule fares_frame [OF calm_frame [OF c]])
qed

lemma upload_success_settled:
  assumes "quiet s" "agent_busy s"
  shows "fares s (file_upload_success E url status body s)"
proof -
  obtain i t where i: "(if 200 \<le> status \<and> status < 300 then clm_files_parse_id (ae_api E) body (tp (s\<lparr>inflight := False\<rparr>)) else (None, tp (s\<lparr>inflight := False\<rparr>))) = (i, t)" by fastforce
  define s1 where "s1 = (if status = 404 \<or> status = 405 then s\<lparr>inflight := False, tp := t, file_uploads := False\<rparr> else s\<lparr>inflight := False, tp := t\<rparr>)"
  have c: "calm s s1" using assms(1) by (simp add: s1_def agent_defs quiet_def)
  have "file_upload_success E url status body s = file_upload_finish E url i s1"
    unfolding file_upload_success_def Let_def i prod.case s1_def by (simp split: if_split)
  then show ?thesis using fares_frame [OF calm_frame [OF c] upload_finish_settled [where E = E]] assms calm_quiet [OF c] calm_busy [OF c] by simp
qed

lemma upload_error_settled:
  assumes "quiet s" "agent_busy s"
  shows "fares s (file_upload_error E url code s)"
proof -
  have c: "calm s (s\<lparr>inflight := False\<rparr>)" by (rule inflight_calm [OF assms(1)])
  show ?thesis
    using fares_frame [OF calm_frame [OF c] upload_finish_settled [where E = E]] fares_frame [OF calm_frame [OF c] complete_settled] assms calm_quiet [OF c] calm_busy [OF c]
    unfolding file_upload_error_def Let_def by simp
qed

end
