(* ===== verification/Agent_Steps.thy ===== *)
theory Agent_Steps
  imports Agent_Safety
begin

text \<open>
  The agent between its host, its tools and its embedder (\<^verbatim>\<open>libclm/agent.c\<close>): the end of a turn with the callbacks in it,
  cancelling, replacing the history, switching the provider, and the steps that can happen next in any state.
\<close>

section \<open>Callbacks only run where a turn ends\<close>

lemma http_post_frame: "http_post c s = (r, s') \<Longrightarrow> framed s s'"
  by (auto simp: http_post_def Let_def agent_defs split: if_splits)

lemma agent_fail_frame: "framed s (fst (agent_fail m e s))"
  unfolding agent_fail_def fst_conv by (rule frame_trans [OF calm_frame [OF set_error_calm] set_state_frame(1)])

lemma post_turn_frame: "framed s (fst (post_turn turn s))"
proof -
  obtain r s' where p: "http_post (LlmCall turn) s = (r, s')" by fastforce
  have f: "framed s s'" by (rule http_post_frame [OF p])
  show ?thesis using p f frame_trans [OF f agent_fail_frame] by (simp add: post_turn_def turn_post_failed_def)
qed

lemma on_llm_rl_timer_frame: "framed s (fst (on_llm_rl_timer E turn s))"
  unfolding on_llm_rl_timer_def Let_def by (rule frame_trans [OF _ post_turn_frame]) (simp add: drop_llm_timer_def agent_defs)

lemma llm_dispatch_frame: "framed s (fst (llm_dispatch E turn s))"
proof (cases "llm_rl s = None \<or> \<not> ae_has_timers E")
  case True
  show ?thesis unfolding llm_dispatch_def if_P [OF True] by (rule post_turn_frame)
next
  case False
  obtain ok rl where al: "clm_ratelimit_allow (ae_usec E) (llm_rl s) (est_cost turn) = (ok, rl)" by fastforce
  define s1 where "s1 = s\<lparr>llm_rl := rl\<rparr>"
  have s1: "framed s s1" by (simp add: s1_def agent_defs)
  obtain us rl2 where de: "clm_ratelimit_delay (ae_usec E) (llm_rl s1) (est_cost turn) = (us, rl2)" by fastforce
  define s2 where "s2 = set_state CLM_STATE_RATE_LIMITED (s1\<lparr>llm_rl := rl2\<rparr>)"
  obtain ok2 s3 where ti: "arm_timer (if us div 1000 = 0 then 1 else us div 1000) s2 = (ok2, s3)" by fastforce
  have "framed s s2" unfolding s2_def by (rule frame_trans [OF _ set_state_frame(1)]) (use s1 in \<open>simp add: agent_defs\<close>)
  then have f3: "framed s s3" using arm_timer_cases(1) [OF ti] calm_frame frame_trans by blast
  have "framed s (s3\<lparr>llm_rl_timer := False\<rparr>)" "framed s (s3\<lparr>llm_rl_timer := True, llm_timers := llm_timers s3 @ [turn], rl_parked_turn := Some turn\<rparr>)"
    using f3 by (simp_all add: agent_defs)
  then show ?thesis
    unfolding llm_dispatch_def if_not_P [OF False] Let_def al prod.case s1_def [symmetric] de s2_def [symmetric] ti
    using frame_trans [OF s1 post_turn_frame] frame_trans [OF _ on_llm_rl_timer_frame [where E = E]] by simp
qed

lemma upload_start_frame: "framed s (snd (file_upload_start E url s))"
proof -
  have o1: "framed s (upload_gives_up E url (s\<lparr>tp := t\<rparr>))" for t by (rule frame_trans [OF calm_frame [OF tape_calm] calm_frame [OF upload_gives_up_calm]])
  have "framed s s'" if "http_post c (s\<lparr>tp := t\<rparr>) = (r, s')" for c t r s' using http_post_frame [OF that] frame_trans [OF calm_frame [OF tape_calm]] by blast
  then have o2: "http_post c (s\<lparr>tp := t\<rparr>) = (r, s') \<Longrightarrow> framed s (s'\<lparr>file_uploads := False\<rparr>)" "http_post c (s\<lparr>tp := t\<rparr>) = (r, s') \<Longrightarrow> framed s s'" for c t r s'
    by (simp_all add: agent_defs)
  have o3: "framed s (s\<lparr>tp := t, file_uploads := False\<rparr>)" for t by (simp add: agent_defs)
  show ?thesis
    unfolding file_upload_start_def Let_def
    by (auto simp: o1 o3 split: prod.split intro: o2)
qed

lemma out_of_memory_frame: "framed s (fst (out_of_memory s))"
  unfolding out_of_memory_def by (rule agent_fail_frame)

lemma send_messages_frame: "framed s (fst (send_messages E msgs eds s))"
proof (cases "\<not> tools_unsupported s \<and> ae_schema E = None")
  case True
  show ?thesis unfolding send_messages_def if_P [OF True] by (rule out_of_memory_frame)
next
  case False
  obtain rest prev bad where c: "chain_cut (ae_api E) (a_chain_id s) (a_chain_sent s) msgs = (rest, prev, bad)" by (rule prod_cases3)
  define s1 where "s1 = (if bad then reset_chain s else s)"
  have s1: "framed s s1" using calm_frame [OF reset_chain_calm [of s]] by (simp add: s1_def)
  have o: "framed s (fst (out_of_memory s1))" "framed s (fst (out_of_memory (s1\<lparr>tp := t\<rparr>)))" "framed s (fst (llm_dispatch E tn (s1\<lparr>tp := t\<rparr>)))" for t tn
    using frame_trans [OF s1] out_of_memory_frame llm_dispatch_frame frame_trans [OF calm_frame [OF tape_calm]] by blast+
  show ?thesis
    unfolding send_messages_def if_not_P [OF False] c prod.case Let_def s1_def [symmetric]
    by (auto simp: o split: option.split prod.split)
qed

lemma start_turn_frame: "framed s (fst (clm_agent_start_turn E s))"
proof -
  define s1 where "s1 = agent_flush_pending_notify E s"
  define s2 where "s2 = (if prompt_parts_changed s1 then (reset_chain s1)\<lparr>prompt_parts_changed := False\<rparr> else s1)"
  have "framed s1 s2" using calm_frame [OF reset_chain_calm [of s1]] by (simp add: s2_def agent_defs)
  then have f: "framed s (s2\<lparr>tp := t\<rparr>)" for t
    using frame_trans [OF calm_frame [OF flush_calm [of s E]]] frame_trans calm_frame [OF tape_calm] by (metis s1_def)
  have u: "framed s (snd (file_upload_start E url (s2\<lparr>tp := t\<rparr>)))" for url t by (rule frame_trans [OF f upload_start_frame])
  then have u2: "file_upload_start E url (s2\<lparr>tp := t\<rparr>) = (b, s') \<Longrightarrow> framed s s'" for url t b s' by (metis snd_conv)
  show ?thesis
    unfolding clm_agent_start_turn_def Let_def s1_def [symmetric] s2_def [symmetric]
    by (auto split: prod.split option.split intro: u2 frame_trans [OF f out_of_memory_frame] frame_trans [OF f send_messages_frame] frame_trans [OF u2 send_messages_frame])
qed

text \<open>A submitted prompt: refused while a turn runs; otherwise the turn begins, and runs or is over.\<close>

lemma add_context_calm: "calm s (add_context E s)"
proof -
  define facts where "facts = (if facts_pending s then (case system_prompt_suffix s of None \<Rightarrow> [] | Some f \<Rightarrow> f) else [])"
  obtain ok t where a: "alloc (tp s) = (ok, t)" by fastforce
  define s1 where "s1 = (if ok then snd (add_user E (context_update (ae_stamp E) facts) (s\<lparr>tp := t, facts_pending := False\<rparr>)) else s\<lparr>tp := t\<rparr>)"
  have "calm s (s\<lparr>tp := t, facts_pending := False\<rparr>)" by (simp add: agent_defs)
  then have "calm s s1" using calm_trans [OF _ add_user_calm(1) [where E = E]] tape_calm [of s] by (simp add: s1_def)
  then have "calm s (s1\<lparr>last_time_stamp := ae_time E\<rparr>)" by (simp add: agent_defs)
  moreover have "add_context E s = (if ae_time E - last_time_stamp s \<ge> CLM_TIME_STAMP_INTERVAL \<or> facts \<noteq> [] then s1\<lparr>last_time_stamp := ae_time E\<rparr> else s)"
    unfolding add_context_def Let_def facts_def [symmetric] a prod.case s1_def by simp
  ultimately show ?thesis by simp
qed

lemma submit_cases:
  obtains (busy) "agent_busy s" "\<exists>r s'. clm_agent_submit E p s = (r, s', None) \<and> r \<noteq> 0 \<and> calm s s'"
  | (oom) "\<not> agent_busy s" "\<exists>r s' s1. clm_agent_submit E p s = (r, s', None) \<and> r \<noteq> 0 \<and> calm s s1 \<and> s' = s1\<lparr>ag_state := CLM_STATE_ERROR\<rparr>"
  | (begins) "\<not> agent_busy s" "\<exists>s1 s2. calm s s1 \<and> s2 = note_event Accepted (set_state CLM_STATE_THINKING (s1\<lparr>iteration := 0, gate_denials := 0, a_cancelling := False\<rparr>))
      \<and> clm_agent_submit E p s = (0, clm_agent_start_turn E s2)"
proof (cases "agent_busy s")
  case True
  then have "clm_agent_submit E p s = (E_BUSY, set_error (Some (lit ''turn already in progress'')) s, None)" by (simp add: clm_agent_submit_def del: lit_Cons)
  then show ?thesis using busy True set_error_calm by (auto simp: E_BUSY_def)
next
  case False
  define s0 where "s0 = add_context E (note_event (OnTurnStart p) s)"
  have "calm s (note_event (OnTurnStart p) s)" by (rule note_event_calm) (simp_all add: is_done_def)
  then have c0: "calm s s0" unfolding s0_def by (rule calm_trans [OF _ add_context_calm])
  obtain ok s1 where a: "add_user E p s0 = (ok, s1)" by fastforce
  have c1: "calm s s1" by (rule calm_trans [OF c0 add_user_calm(2) [OF a]])
  have e: "clm_agent_submit E p s = (if \<not> ok then (E_NOMEM, (set_error (Some (lit ''out of memory'')) s1)\<lparr>ag_state := CLM_STATE_ERROR\<rparr>, None)
      else (0, clm_agent_start_turn E (note_event Accepted (set_state CLM_STATE_THINKING (s1\<lparr>iteration := 0, gate_denials := 0, a_cancelling := False\<rparr>)))))"
    unfolding clm_agent_submit_def if_not_P [OF False] Let_def s0_def [symmetric] a prod.case ..
  show ?thesis
  proof (cases ok)
    case True
    then show ?thesis using begins [OF False] c1 e by auto
  next
    case f: False
    have "calm s (set_error (Some (lit ''out of memory'')) s1)" by (rule calm_trans [OF c1 set_error_calm])
    then show ?thesis using oom [OF False] e f by (auto simp: E_NOMEM_def)
  qed
qed

text \<open>What the end of a turn relies on: only a callback consumes the embedder's actions, and a prompt leaves no new text waiting.\<close>

definition hands_off :: "'p agent \<Rightarrow> 'p agent \<Rightarrow> bool" where
  "hands_off s s' \<longleftrightarrow> o_done s' = o_done s \<and> (pending_notify s' = pending_notify s \<or> pending_notify s' = None) \<and> ended s' = ended s \<and> set (o_timers s') \<subseteq> set (o_timers s)"

lemma frame_hands_off: "framed s s' \<Longrightarrow> hands_off s s'" by (simp add: framed_def hands_off_def)

lemma submit_hands_off:
  assumes e: "clm_agent_submit E p s = (r, s', d)"
  shows "hands_off s s'"
proof (rule submit_cases [of s E p])
  assume "\<exists>r s'. clm_agent_submit E p s = (r, s', None) \<and> r \<noteq> 0 \<and> calm s s'"
  then show ?thesis using e frame_hands_off calm_frame by auto
next
  assume "\<exists>r s' s1. clm_agent_submit E p s = (r, s', None) \<and> r \<noteq> 0 \<and> calm s s1 \<and> s' = s1\<lparr>ag_state := CLM_STATE_ERROR\<rparr>"
  then obtain s1 where "calm s s1" "s' = s1\<lparr>ag_state := CLM_STATE_ERROR\<rparr>" using e by auto
  then show ?thesis by (simp add: hands_off_def agent_defs)
next
  assume "\<exists>s1 s2. calm s s1 \<and> s2 = note_event Accepted (set_state CLM_STATE_THINKING (s1\<lparr>iteration := 0, gate_denials := 0, a_cancelling := False\<rparr>))
      \<and> clm_agent_submit E p s = (0, clm_agent_start_turn E s2)"
  then obtain s1 s2 where s2: "calm s s1" "s2 = note_event Accepted (set_state CLM_STATE_THINKING (s1\<lparr>iteration := 0, gate_denials := 0, a_cancelling := False\<rparr>))"
    "clm_agent_submit E p s = (0, clm_agent_start_turn E s2)" by blast
  then have "(r, s', d) = (0, clm_agent_start_turn E s2)" using e by simp
  then have "s' = fst (clm_agent_start_turn E s2)" by (metis fst_conv snd_conv)
  then have "framed s2 s'" using start_turn_frame [of s2 E] by simp
  moreover have "hands_off s s2" using s2(1) by (simp add: s2(2) hands_off_def note_event_def set_state_def is_done_def agent_defs)
  ultimately show ?thesis by (auto simp: hands_off_def framed_def)
qed

lemma notify_hands_off:
  assumes "clm_agent_notify E tx s = (r, s', d)"
  shows "o_done s' = o_done s \<and> ended s' = ended s \<and> set (o_timers s') \<subseteq> set (o_timers s) \<and> (agent_busy s \<longrightarrow> d = None)"
proof (cases "agent_busy s")
  case True
  obtain ok t where a: "alloc (tp s) = (ok, t)" by fastforce
  show ?thesis using assms unfolding clm_agent_notify_def if_P [OF True] a prod.case Let_def by (auto simp: ended_def split: if_splits)
next
  case False
  then have "clm_agent_submit E tx s = (r, s', d)" using assms by (simp add: clm_agent_notify_def)
  from submit_hands_off [OF this] show ?thesis using False by (simp add: hands_off_def)
qed

lemma notify_idle: "\<not> agent_busy s \<Longrightarrow> clm_agent_notify E tx s = clm_agent_submit E tx s"
  by (simp add: clm_agent_notify_def)

end
