(* ===== verification/Agent_Run.thy ===== *)
theory Agent_Run
  imports Agent_Steps
begin

text \<open>
  The agent as a state machine: the end of a turn with the embedder's callback in it, and the steps of the embedder, the host
  and the tools, in any order (\<^verbatim>\<open>libclm/agent.c\<close>).
\<close>

section \<open>The end of a turn\<close>

text \<open>
  \<^verbatim>\<open>agent_turn_done\<close>: the waiting text is taken, the callback runs (its action is the next of \<open>o_done\<close>), then the text is
  submitted. A submitted turn may fail at once, and then ends inside the call that began it.
\<close>

function agent_turn_done :: "('j, 'p) agent_env \<Rightarrow> task list \<Rightarrow> 'p agent \<Rightarrow> 'p agent" where
  "agent_turn_done E [] s = s"
| "agent_turn_done E (TDone st # ts) s =
     agent_turn_done E (TCallback # (case pending_notify s of None \<Rightarrow> [] | Some n \<Rightarrow> [TSubmit n]) @ ts) (turn_end E st s)"
| "agent_turn_done E (TCallback # ts) s =
     (case o_done s of [] \<Rightarrow> agent_turn_done E ts s
      | a # as \<Rightarrow>
        case a of CbNothing \<Rightarrow> agent_turn_done E ts (s\<lparr>o_done := as\<rparr>)
        | CbSubmit p \<Rightarrow> agent_turn_done E (TSubmit p # ts) (s\<lparr>o_done := as\<rparr>)
        | CbNotify p \<Rightarrow> (let (r, s', d) = clm_agent_notify E p (s\<lparr>o_done := as\<rparr>) in agent_turn_done E (done_tasks d @ ts) s'))"
| "agent_turn_done E (TSubmit p # ts) s = (let (r, s', d) = clm_agent_submit E p s in agent_turn_done E (done_tasks d @ ts) s')"
  by pat_completeness auto

lemma turn_end_state: "o_done (turn_end E st s) = o_done s" "pending_notify (turn_end E st s) = None" "resources (turn_end E st s) = resources s"
  "ag_state (turn_end E st s) = ag_state s" "begun (turn_end E st s) = begun s" "ended (turn_end E st s) = ended s + 1" "o_timers (turn_end E st s) = o_timers s"
  "a_cancelling (turn_end E st s) = a_cancelling s"
proof -
  obtain tx t where "(if st = 0 \<and> turn_hooks s > 0 then final_assistant_text E (hist s) (tp s) else (None, tp s)) = (tx, t)" by fastforce
  then have e: "turn_end E st s = note_event (OnTurnDone st) (note_event (OnTurnEnd st tx) (s\<lparr>pending_notify := None, tp := t\<rparr>))" by (simp add: turn_end_def)
  show "o_done (turn_end E st s) = o_done s" "pending_notify (turn_end E st s) = None" "resources (turn_end E st s) = resources s"
    "ag_state (turn_end E st s) = ag_state s" "begun (turn_end E st s) = begun s" "ended (turn_end E st s) = ended s + 1" "o_timers (turn_end E st s) = o_timers s"
    "a_cancelling (turn_end E st s) = a_cancelling s"
    by (simp_all add: e note_event_def resources_def begun_def ended_def is_done_def)
qed

lemma done_tasks_weight: "sum_list (map task_weight (done_tasks d)) \<le> 3"
  by (simp add: done_tasks_def task_weight_def split: option.split)

lemma submit_weight:
  assumes "clm_agent_submit E p s = (r, s', d)"
  shows "run_weight (done_tasks d @ ts) s' < run_weight (TSubmit p # ts) s"
  using submit_hands_off [OF assms] done_tasks_weight [of d] by (auto simp: run_weight_def hands_off_def task_weight_def)

lemma notify_weight:
  assumes "clm_agent_notify E p (s\<lparr>o_done := as\<rparr>) = (r, s', d)" "o_done s = a # as"
  shows "run_weight (done_tasks d @ ts) s' < run_weight (TCallback # ts) s"
proof (cases "agent_busy s")
  case True
  then have "d = None" "o_done s' = as" using notify_hands_off [OF assms(1)] by (simp_all add: agent_busy_def)
  then show ?thesis using assms(2) by (simp add: run_weight_def done_tasks_def task_weight_def)
next
  case False
  then have "\<not> agent_busy (s\<lparr>o_done := as\<rparr>)" by (simp add: agent_busy_def)
  then have "clm_agent_submit E p (s\<lparr>o_done := as\<rparr>) = (r, s', d)" using assms(1) by (simp add: notify_idle)
  from submit_hands_off [OF this] show ?thesis using done_tasks_weight [of d] assms(2) by (auto simp: run_weight_def hands_off_def task_weight_def)
qed

termination agent_turn_done
  apply (relation "measure (\<lambda>(E, ts, s). run_weight ts s)")
  subgoal by simp
  subgoal by (simp add: run_weight_def task_weight_def turn_end_state split: option.split)
  subgoal by (simp add: run_weight_def task_weight_def)
  subgoal by (simp add: run_weight_def task_weight_def)
  subgoal by (simp add: run_weight_def task_weight_def)
  subgoal by (auto intro: notify_weight [OF sym])
  subgoal by (auto intro: submit_weight [OF sym])
  done

section \<open>What holds between two steps\<close>

definition opened :: "'p agent \<Rightarrow> nat" where "opened s = (if agent_busy s then 1 else 0)"

text \<open>A cancelled request is still to be reported by the host.\<close>

definition aborting :: "'p agent \<Rightarrow> bool" where
  "aborting s \<longleftrightarrow> a_cancelling s \<and> (\<exists>c. resources s = (False, [(c, True)], False, False, [], None, False, 0))"

text \<open>A busy agent waits for exactly one thing, an idle one for nothing; turns begun are ended, running, or ending (\<open>k\<close> of them).\<close>

definition stands :: "nat \<Rightarrow> 'p agent \<Rightarrow> bool" where
  "stands k s \<longleftrightarrow> (if agent_busy s then awaits s \<or> aborting s else quiet s) \<and> begun s = ended s + opened s + k \<and> timers_work s"

lemma stands_same:
  assumes "resources s' = resources s" "ag_state s' = ag_state s" "begun s' = begun s" "ended s' = ended s + e" "set (o_timers s') \<subseteq> set (o_timers s)" "stands (k + e) s"
    "a_cancelling s' = a_cancelling s"
  shows "stands k s'"
proof -
  have "agent_busy s' = agent_busy s" "awaits s' = awaits s" "aborting s' = aborting s" "quiet s' = quiet s" "timers_work s \<Longrightarrow> timers_work s'"
    using assms(1,2,5,7) by (auto simp: agent_busy_def awaits_def quiet_def timers_work_def aborting_def)
  then show ?thesis using assms(3,4,6) by (simp add: stands_def opened_def)
qed

lemma stands_calm: "calm s s' \<Longrightarrow> stands k s \<Longrightarrow> stands k s'"
  by (rule stands_same [where e = 0 and s = s]) (simp_all add: calm_def framed_def)

lemma stands_fares:
  assumes "fares s1 out" "framed s s1" "stands k s" "agent_busy s"
  shows "stands (k + length (done_tasks (snd out))) (fst out)"
proof -
  have f: "framed s (fst out)" and o: "settled out" using assms(1,2) by (auto simp: fares_def intro: frame_trans)
  have "begun (fst out) = begun s" "ended (fst out) = ended s" using f by (simp_all add: framed_def)
  then show ?thesis using o assms(3,4) frame_timers [OF f] by (auto simp: stands_def settled_def opened_def done_tasks_def split: if_splits option.splits)
qed

lemma submit_stands:
  assumes "clm_agent_submit E p s = (r, s', d)" "stands k s"
  shows "stands (k + length (done_tasks d)) s'"
proof (rule submit_cases [of s E p])
  assume "\<exists>r s'. clm_agent_submit E p s = (r, s', None) \<and> r \<noteq> 0 \<and> calm s s'"
  then show ?thesis using assms stands_calm by (auto simp: done_tasks_def)
next
  assume b: "\<not> agent_busy s" and "\<exists>r s' s1. clm_agent_submit E p s = (r, s', None) \<and> r \<noteq> 0 \<and> calm s s1 \<and> s' = s1\<lparr>ag_state := CLM_STATE_ERROR\<rparr>"
  then obtain s1 where s1: "calm s s1" "s' = s1\<lparr>ag_state := CLM_STATE_ERROR\<rparr>" "d = None" using assms(1) by auto
  then have "stands k s1" using stands_calm assms(2) by blast
  moreover have "\<not> agent_busy s1" "\<not> agent_busy s'" using b calm_busy [OF s1(1)] s1(2) by (simp_all add: agent_busy_def)
  moreover have "quiet s' = quiet s1" "begun s' = begun s1" "ended s' = ended s1" "timers_work s' = timers_work s1"
    by (simp_all add: s1(2) quiet_def resources_def begun_def ended_def timers_work_def)
  ultimately show ?thesis using s1(3) by (simp add: stands_def opened_def done_tasks_def)
next
  assume b: "\<not> agent_busy s" and "\<exists>s1 s2. calm s s1 \<and> s2 = note_event Accepted (set_state CLM_STATE_THINKING (s1\<lparr>iteration := 0, gate_denials := 0, a_cancelling := False\<rparr>))
      \<and> clm_agent_submit E p s = (0, clm_agent_start_turn E s2)"
  then obtain s1 s2 where s2: "calm s s1" "s2 = note_event Accepted (set_state CLM_STATE_THINKING (s1\<lparr>iteration := 0, gate_denials := 0, a_cancelling := False\<rparr>))"
    "clm_agent_submit E p s = (0, clm_agent_start_turn E s2)" by blast
  then have o: "clm_agent_start_turn E s2 = (s', d)" using assms(1) by auto
  have st: "stands k s1" by (rule stands_calm [OF s2(1) assms(2)])
  have b1: "\<not> agent_busy s1" using b calm_busy [OF s2(1)] by simp
  have q: "quiet s2" "agent_busy s2" using st b1 by (simp_all add: s2(2) stands_def note_event_def set_state_def quiet_def resources_def agent_busy_def)
  have "begun s2 = begun s1 + 1" "ended s2 = ended s1" "timers_work s2 = timers_work s1"
    by (simp_all add: s2(2) note_event_def set_state_def begun_def ended_def is_done_def timers_work_def)
  moreover have f: "framed s2 s'" "settled (s', d)" using start_turn_settled [OF q, of E] o by (simp_all add: fares_def)
  ultimately show ?thesis using st b1 frame_timers [OF f(1)]
    by (auto simp: stands_def settled_def opened_def done_tasks_def framed_def split: if_splits option.splits)
qed

lemma notify_stands:
  assumes "clm_agent_notify E tx s = (r, s', d)" "stands k s"
  shows "stands (k + length (done_tasks d)) s'"
proof (cases "agent_busy s")
  case True
  obtain ok t where a: "alloc (tp s) = (ok, t)" by fastforce
  have "d = None \<and> a_cancelling s' = a_cancelling s \<and> resources s' = resources s \<and> ag_state s' = ag_state s \<and> begun s' = begun s \<and> ended s' = ended s \<and> o_timers s' = o_timers s"
    using assms(1) True a by (auto simp: clm_agent_notify_def Let_def agent_defs split: if_splits)
  then show ?thesis using assms(2) stands_same [of s' s 0 k] by (simp add: done_tasks_def)
next
  case False
  then have "clm_agent_submit E tx s = (r, s', d)" using assms(1) by (simp add: clm_agent_notify_def)
  from submit_stands [OF this assms(2)] show ?thesis .
qed

definition dones :: "task list \<Rightarrow> nat" where "dones ts = length (filter (\<lambda>t. \<exists>st. t = TDone st) ts)"

lemma dones_simps [simp]: "dones [] = 0" "dones (TDone st # ts) = dones ts + 1" "dones (TCallback # ts) = dones ts" "dones (TSubmit p # ts) = dones ts"
  "dones (ts @ us) = dones ts + dones us" "dones (done_tasks d) = length (done_tasks d)"
  by (simp_all add: dones_def done_tasks_def split: option.split)

lemma turn_done_stands: "stands (dones ts) s \<Longrightarrow> stands 0 (agent_turn_done E ts s)"
proof (induction E ts s rule: agent_turn_done.induct)
  case (2 E st ts s)
  have "stands (dones ts) (turn_end E st s)"
    using 2(2) by (intro stands_same [of "turn_end E st s" s 1]) (simp_all add: turn_end_state)
  then show ?case using 2(1) by (simp split: option.splits)
next
  case (3 E ts s)
  have k: "stands (dones ts) (s\<lparr>o_done := as\<rparr>)" for as
    using 3(5) by (intro stands_same [of "s\<lparr>o_done := as\<rparr>" s 0]) (simp_all add: resources_def begun_def ended_def)
  show ?case
  proof (cases "o_done s")
    case Nil
    then show ?thesis using 3(1,5) by simp
  next
    case (Cons a as)
    show ?thesis
    proof (cases a)
      case (CbNotify p)
      obtain r s' d where n: "clm_agent_notify E p (s\<lparr>o_done := as\<rparr>) = (r, s', d)" by (rule prod_cases3)
      have "stands (dones (done_tasks d @ ts)) s'" using notify_stands [OF n k] by (simp add: add.commute)
      then have "stands 0 (agent_turn_done E (done_tasks d @ ts) s')" using 3(4) [OF Cons CbNotify n [symmetric] refl] by blast
      then show ?thesis using Cons CbNotify n by simp
    qed (use 3(2,3) k Cons in simp_all)
  qed
next
  case (4 E p ts s)
  obtain r s' d where n: "clm_agent_submit E p s = (r, s', d)" by (rule prod_cases3)
  have "stands (dones (done_tasks d @ ts)) s'" using submit_stands [OF n, of "dones ts"] 4(2) by (simp add: add.commute)
  then show ?case using 4(1) [OF n [symmetric] refl] n by simp
qed simp

section \<open>Cancelling\<close>

definition mark_last :: "('p call \<times> bool) list \<Rightarrow> ('p call \<times> bool) list" where
  "mark_last cs = (if cs = [] then [] else butlast cs @ [(fst (last cs), True)])"

text \<open>
  \<^verbatim>\<open>clm_agent_cancel\<close>. The tools may wind up during \<^verbatim>\<open>clm_tools_cancel\<close>; \<open>over\<close> is the status of the batch if they do.
\<close>

definition clm_agent_cancel :: "('j, 'p) agent_env \<Rightarrow> int option \<Rightarrow> 'p agent \<Rightarrow> int \<times> 'p outcome" where
  "clm_agent_cancel E over s =
     (if a_cancelling s then (E_ALREADY, s, None)
      else if llm_rl_timer s \<or> compact_rl_timer s then
        let s = (drop_compact_timer (drop_llm_timer s))\<lparr>rl_parked_turn := None\<rparr>;
            s = (compact_done s)\<lparr>compact_resume_chain := False\<rparr>
        in (0, set_state CLM_STATE_COMPLETE s, Some E_CANCELED)
      else if inflight s then (0, s\<lparr>inflight := False, a_cancelling := True, calls := mark_last (calls s)\<rparr>, None)
      else if active_batch s then
        let s = s\<lparr>a_cancelling := True\<rparr> in
        (0, case over of None \<Rightarrow> (s, None) | Some st \<Rightarrow> clm_agent_tools_done E st (s\<lparr>active_batch := False\<rparr>))
      else (E_INVAL, s, None))"

section \<open>Steps\<close>

text \<open>
  The embedder submits, notifies, compacts and cancels at any time. The host delivers data and completions of the requests
  it holds, a cancelled one only as \<^verbatim>\<open>-ECANCELED\<close>, and fires the timers it holds. A running batch of tools adds messages and
  counts the calls a hook blocked, and ends with a status.
\<close>

inductive step :: "('j, 'p) agent_env \<Rightarrow> 'p agent \<Rightarrow> 'p agent \<Rightarrow> bool" for E where
  submits: "clm_agent_submit E p s = (r, s', d) \<Longrightarrow> step E s (agent_turn_done E (done_tasks d) s')"
| notifies: "clm_agent_notify E p s = (r, s', d) \<Longrightarrow> step E s (agent_turn_done E (done_tasks d) s')"
| compacts: "clm_agent_compact E s = (0, s') \<Longrightarrow> step E s (note_event Accepted s')"
| compact_refused: "clm_agent_compact E s = (r, s') \<Longrightarrow> r \<noteq> 0 \<Longrightarrow> step E s s'"
| cancels: "clm_agent_cancel E over s = (r, s', d) \<Longrightarrow> step E s (agent_turn_done E (done_tasks d) s')"
| streams: "calls s = pre @ (LlmCall turn, c) # post \<Longrightarrow> clm_http_data_cb (ae_stream E) bs (tp s) (lt turn) s = Some (t, l, s')
    \<Longrightarrow> step E s (s'\<lparr>tp := t, calls := pre @ (LlmCall (turn\<lparr>lt := l\<rparr>), c) # post\<rparr>)"
| llm_answers: "calls s = pre @ (LlmCall turn, False) # post \<Longrightarrow> clm_http_success_cb E status body turn (s\<lparr>calls := pre @ post\<rparr>) = (s', d)
    \<Longrightarrow> step E s (agent_turn_done E (done_tasks d) s')"
| llm_fails: "calls s = pre @ (LlmCall turn, c) # post \<Longrightarrow> c = (code = E_CANCELED) \<Longrightarrow> clm_http_error_cb E code msg turn (s\<lparr>calls := pre @ post\<rparr>) = (s', d)
    \<Longrightarrow> step E s (agent_turn_done E (done_tasks d) s')"
| upload_answers: "calls s = pre @ (UploadCall url, False) # post \<Longrightarrow> file_upload_success E url status body (s\<lparr>calls := pre @ post\<rparr>) = (s', d)
    \<Longrightarrow> step E s (agent_turn_done E (done_tasks d) s')"
| upload_fails: "calls s = pre @ (UploadCall url, c) # post \<Longrightarrow> c = (code = E_CANCELED) \<Longrightarrow> file_upload_error E url code (s\<lparr>calls := pre @ post\<rparr>) = (s', d)
    \<Longrightarrow> step E s (agent_turn_done E (done_tasks d) s')"
| compact_answers: "calls s = pre @ (CompactCall, False) # post \<Longrightarrow> compact_success_cb E status body (s\<lparr>calls := pre @ post\<rparr>) = (s', d)
    \<Longrightarrow> step E s (agent_turn_done E (done_tasks d) s')"
| compact_fails: "calls s = pre @ (CompactCall, c) # post \<Longrightarrow> c = (code = E_CANCELED) \<Longrightarrow> compact_error_cb E code msg (s\<lparr>calls := pre @ post\<rparr>) = (s', d)
    \<Longrightarrow> step E s (agent_turn_done E (done_tasks d) s')"
| llm_timer: "llm_timers s = pre @ turn # post \<Longrightarrow> on_llm_rl_timer E turn (s\<lparr>llm_timers := pre @ post\<rparr>) = (s', d)
    \<Longrightarrow> step E s (agent_turn_done E (done_tasks d) s')"
| compact_timer: "compact_timers s = Suc n \<Longrightarrow> on_compact_rl_timer E (s\<lparr>compact_timers := n\<rparr>) = (s', d)
    \<Longrightarrow> step E s (agent_turn_done E (done_tasks d) s')"
| tools_work: "active_batch s \<Longrightarrow> step E s (s\<lparr>hist := hist s @ ms, gate_denials := gate_denials s + n\<rparr>)"
| tools_end: "active_batch s \<Longrightarrow> clm_agent_tools_done E status (s\<lparr>active_batch := False\<rparr>) = (s', d)
    \<Longrightarrow> step E s (agent_turn_done E (done_tasks d) s')"

text \<open>The environment (the clocks, the configuration) may differ from one step to the next.\<close>

fun runs :: "('j, 'p) agent_env list \<Rightarrow> 'p agent \<Rightarrow> 'p agent \<Rightarrow> bool" where
  "runs [] s s' \<longleftrightarrow> s' = s"
| "runs (E # Es) s s' \<longleftrightarrow> (\<exists>s1. step E s s1 \<and> runs Es s1 s')"

definition new_agent :: "'p agent \<Rightarrow> bool" where
  "new_agent s \<longleftrightarrow> ag_state s = CLM_STATE_IDLE \<and> quiet s \<and> log s = []"

section \<open>The state after every step\<close>

text \<open>Data changes nothing of the agent but the message shown, the chain and the output.\<close>

lemma note_error_more: "stream_note_error e t turn a = (t', turn', a') \<Longrightarrow> stream_agent.more a' = stream_agent.more a \<and> a_cancelling a' = a_cancelling a"
  by (auto simp: stream_note_error_def clm_agent_set_error_def dup_def split: option.splits prod.splits if_splits)

lemma chain_more: "chain_note_response J ob n t a = (t', a') \<Longrightarrow> stream_agent.more a' = stream_agent.more a \<and> a_cancelling a' = a_cancelling a"
  by (auto simp: chain_note_response_def dup_def split: option.splits prod.splits if_splits)

lemma handle_delta_more: "handle_delta E delta t turn a = Some (t', turn', a') \<Longrightarrow> stream_agent.more a' = stream_agent.more a \<and> a_cancelling a' = a_cancelling a"
  by (auto simp: handle_delta_def emit_out_def Let_def split: option.splits prod.splits if_splits)

lemma handle_event_more: "handle_event E ob t turn a = Some (t', turn', a') \<Longrightarrow> stream_agent.more a' = stream_agent.more a \<and> a_cancelling a' = a_cancelling a"
proof (cases "event_choice (se_api E) ob")
  case (Some choice)
  assume h: "handle_event E ob t turn a = Some (t', turn', a')"
  define turn0 where "turn0 = note_usage E ob turn"
  obtain t1 turn1 where f: "(case get_str (se_api E) choice (lit ''finish_reason'') of None \<Rightarrow> (t, turn0) | Some r \<Rightarrow> let (s, t) = dup t r in (t, turn0\<lparr>t_finish := s\<rparr>)) = (t1, turn1)" by fastforce
  obtain t2 turn2 a2 where e: "stream_note_error (response_error_message (se_api E) ob) t1 turn1 a = (t2, turn2, a2)" by (rule prod_cases3)
  obtain t3 a3 where c: "chain_note_response (se_api E) ob (t_msgs turn2) t2 a2 = (t3, a3)" by fastforce
  have "(case cj_get (se_api E) choice (lit ''delta'') of None \<Rightarrow> Some (t3, turn2, a3) | Some delta \<Rightarrow> handle_delta E delta t3 turn2 a3) = Some (t', turn', a')"
    using h unfolding handle_event_def handle_choice_def Let_def Some option.case turn0_def [symmetric] f [unfolded Let_def] prod.case e c .
  then show ?thesis using note_error_more [OF e] chain_more [OF c] by (auto simp del: lit_Cons dest: handle_delta_more split: option.splits)
qed (simp add: handle_event_def)

lemma handle_line_more: "stream_handle_line E t turn a = Some (t', turn', a') \<Longrightarrow> stream_agent.more a' = stream_agent.more a \<and> a_cancelling a' = a_cancelling a"
proof (cases "a_cancelling a \<or> Option.bind (line_payload (sb_str (t_line turn))) (cj_parse (se_api E)) = None")
  case False
  assume h: "stream_handle_line E t turn a = Some (t', turn', a')"
  obtain ob where ob: "Option.bind (line_payload (sb_str (t_line turn))) (cj_parse (se_api E)) = Some ob" using False by blast
  obtain t2 turn2 a2 where e: "stream_note_error (stream_error_message (se_api E) ob) t turn a = (t2, turn2, a2)" by (rule prod_cases3)
  obtain r p where n: "normalize_event E ob (t_pstate turn2) = (r, p)" by fastforce
  have "(case r of None \<Rightarrow> Some (t2, turn2\<lparr>t_pstate := p\<rparr>, a2) | Some ob \<Rightarrow> handle_event E ob t2 (turn2\<lparr>t_pstate := p\<rparr>) a2) = Some (t', turn', a')"
    using h False ob e n by (simp add: stream_handle_line_def Let_def)
  then show ?thesis using note_error_more [OF e] by (auto dest: handle_event_more split: option.splits)
qed (auto simp: stream_handle_line_def split: option.splits)

lemma data_more: "clm_http_data_cb E bs t turn a = Some (t', turn', a') \<Longrightarrow> stream_agent.more a' = stream_agent.more a \<and> a_cancelling a' = a_cancelling a"
proof (induction E bs t turn a rule: clm_http_data_cb.induct)
  case (2 E b bs t turn a)
  obtain r t1 sb where s: "sb_append t (t_line turn) [b] = (r, t1, sb)" by (rule prod_cases3)
  show ?case using 2 s handle_line_more by (fastforce split: if_splits option.splits)
qed simp

lemma more_frame: "stream_agent.more s' = stream_agent.more (s :: 'p agent) \<Longrightarrow> framed s s' \<and> resources s' = resources s \<and> ag_state s' = ag_state s"
  by (cases s; cases s') (simp add: agent_defs)

text \<open>A completion or a timer of the only thing in flight.\<close>

lemma single: "pre @ x # post = [y] \<Longrightarrow> pre = [] \<and> post = [] \<and> x = y"
  by (cases pre) simp_all

lemma stands_call:
  assumes "stands 0 s" "calls s = pre @ (c, b) # post"
  shows "agent_busy s" "pre = []" "post = []" "resources s = (\<not> b, [(c, b)], False, False, [], None, False, 0)" "quiet (s\<lparr>calls := [], inflight := False\<rparr>)"
    "framed s (s\<lparr>calls := [], inflight := False\<rparr>)"
proof -
  have cs: "fst (snd (resources s)) = pre @ (c, b) # post" using assms(2) by (simp add: resources_def)
  then show busy: "agent_busy s" using assms(1) by (auto simp: stands_def quiet_def split: if_splits)
  then have w: "awaits s \<or> aborting s" using assms(1) by (simp add: stands_def)
  then have "(\<exists>c. resources s = (True, [(c, False)], False, False, [], None, False, 0)) \<or> (\<exists>c. resources s = (False, [(c, True)], False, False, [], None, False, 0))"
    using cs unfolding awaits_def aborting_def by auto
  then obtain c' b' where r: "resources s = (\<not> b', [(c', b')], False, False, [], None, False, 0)" by fastforce
  then have "pre @ (c, b) # post = [(c', b')]" using cs by simp
  note sg = single [OF this]
  then show "pre = []" "post = []" "resources s = (\<not> b, [(c, b)], False, False, [], None, False, 0)" using sg r by simp_all
  then show "quiet (s\<lparr>calls := [], inflight := False\<rparr>)" "framed s (s\<lparr>calls := [], inflight := False\<rparr>)" by (simp_all add: quiet_def agent_defs)
qed

lemma completes:
  assumes "stands 0 s" "calls s = pre @ (c, b) # post" "f (s\<lparr>calls := pre @ post\<rparr>) = (s', d)"
    "\<And>s. f s = f (s\<lparr>inflight := False\<rparr>)" "\<And>s1. quiet s1 \<Longrightarrow> agent_busy s1 \<Longrightarrow> timers_work s1 \<Longrightarrow> fares s1 (f s1)"
  shows "stands (length (done_tasks d)) s'"
proof -
  note c = stands_call [OF assms(1,2)]
  define s1 where "s1 = s\<lparr>calls := [], inflight := False\<rparr>"
  have "f (s\<lparr>calls := pre @ post\<rparr>) = f s1" using assms(4) [of "s\<lparr>calls := []\<rparr>"] c(2,3) by (simp add: s1_def)
  moreover have "agent_busy s1" using c(1) by (simp add: s1_def agent_busy_def)
  moreover have "timers_work s" using assms(1) by (simp add: stands_def)
  then have "timers_work s1" by (rule frame_timers [OF c(6) [folded s1_def]])
  ultimately have "fares s1 (s', d)" using assms(3,5) c(5) by (metis s1_def)
  from stands_fares [OF this _ assms(1) c(1)] show ?thesis using c(6) by (simp add: s1_def)
qed

lemma inflight_first:
  "clm_http_success_cb E status body turn s = clm_http_success_cb E status body turn (s\<lparr>inflight := False\<rparr>)"
  "clm_http_error_cb E code msg turn s = clm_http_error_cb E code msg turn (s\<lparr>inflight := False\<rparr>)"
  "file_upload_success E url status body s = file_upload_success E url status body (s\<lparr>inflight := False\<rparr>)"
  "file_upload_error E url code s = file_upload_error E url code (s\<lparr>inflight := False\<rparr>)"
  "compact_success_cb E status body s = compact_success_cb E status body (s\<lparr>inflight := False\<rparr>)"
  "compact_error_cb E code msg s = compact_error_cb E code msg (s\<lparr>inflight := False\<rparr>)"
proof -
  have i: "s\<lparr>inflight := False\<rparr>\<lparr>inflight := False\<rparr> = s\<lparr>inflight := False\<rparr>" by simp
  show "clm_http_success_cb E status body turn s = clm_http_success_cb E status body turn (s\<lparr>inflight := False\<rparr>)"
    "clm_http_error_cb E code msg turn s = clm_http_error_cb E code msg turn (s\<lparr>inflight := False\<rparr>)"
    "file_upload_success E url status body s = file_upload_success E url status body (s\<lparr>inflight := False\<rparr>)"
    "file_upload_error E url code s = file_upload_error E url code (s\<lparr>inflight := False\<rparr>)"
    unfolding clm_http_success_cb_def clm_http_error_cb_def file_upload_success_def file_upload_error_def i by (rule refl)+
  have c: "s\<lparr>inflight := False\<rparr>\<lparr>compact_resume_chain := False, inflight := False\<rparr> = s\<lparr>compact_resume_chain := False, inflight := False\<rparr>"
    "compact_resume_chain (s\<lparr>inflight := False\<rparr>) = compact_resume_chain s" by simp_all
  show "compact_success_cb E status body s = compact_success_cb E status body (s\<lparr>inflight := False\<rparr>)"
    "compact_error_cb E code msg s = compact_error_cb E code msg (s\<lparr>inflight := False\<rparr>)"
    unfolding compact_success_cb_def compact_error_cb_def c by (rule refl)+
qed

lemma stands_done: "stands (length (done_tasks d)) s' \<Longrightarrow> stands 0 (agent_turn_done E (done_tasks d) s')"
  by (rule turn_done_stands) simp

lemma compact_stands:
  assumes "clm_agent_compact E s = (r, s')" "stands 0 s"
  shows "stands 0 (if r = 0 then note_event Accepted s' else s')"
proof (cases "agent_busy s")
  case True
  then have "s' = set_error (Some (lit ''turn already in progress'')) s" "r \<noteq> 0" using assms(1) by (simp_all add: clm_agent_compact_def E_BUSY_def del: lit_Cons)
  then show ?thesis using stands_calm [OF set_error_calm assms(2)] by simp
next
  case False
  then have "quiet s" using assms(2) by (simp add: stands_def)
  note c = begin_compact_cases [OF assms(1) this]
  have t: "timers_work s'" using assms(2) c frame_timers by (auto simp: stands_def)
  have b: "begun s = ended s" "begun s' = begun s" "ended s' = ended s" using assms(2) c False by (simp_all add: stands_def opened_def framed_def)
  show ?thesis
  proof (cases "r = 0")
    case True
    have "resources (note_event Accepted s') = resources s'" "ag_state (note_event Accepted s') = ag_state s'" "o_timers (note_event Accepted s') = o_timers s'"
      "begun (note_event Accepted s') = begun s' + 1" "ended (note_event Accepted s') = ended s'"
      by (simp_all add: note_event_def agent_defs is_done_def)
    then show ?thesis using c t b True by (simp add: stands_def opened_def awaits_def agent_busy_def timers_work_def)
  qed (use c t b False in \<open>simp add: stands_def opened_def\<close>)
qed

lemma cancel_stands:
  assumes "clm_agent_cancel E over s = (r, s', d)" "stands 0 s"
  shows "stands (length (done_tasks d)) s'"
proof (cases "a_cancelling s")
  case True
  then show ?thesis using assms by (simp add: clm_agent_cancel_def done_tasks_def)
next
  case nc: False
  show ?thesis
  proof (cases "llm_rl_timer s \<or> compact_rl_timer s")
    case True
    then have busy: "agent_busy s" and w: "awaits s" using assms(2) nc by (auto simp: stands_def quiet_def resources_def aborting_def split: if_splits)
    define s1 where "s1 = (compact_done ((drop_compact_timer (drop_llm_timer s))\<lparr>rl_parked_turn := None\<rparr>))\<lparr>compact_resume_chain := False\<rparr>"
    have e: "s' = set_state CLM_STATE_COMPLETE s1" "d = Some E_CANCELED" using assms(1) nc True by (simp_all add: clm_agent_cancel_def s1_def)
    have "framed s s1" by (simp add: s1_def compact_done_def drop_compact_timer_def drop_llm_timer_def agent_defs)
    moreover have "quiet s1" using w True by (auto simp: s1_def compact_done_def drop_compact_timer_def drop_llm_timer_def quiet_def awaits_def resources_def)
    then have "fares s1 (s', d)" using complete_settled e by simp
    ultimately show ?thesis using stands_fares [OF _ _ assms(2) busy] by fastforce
  next
    case nt: False
    show ?thesis
    proof (cases "inflight s")
      case True
      then have busy: "agent_busy s" and w: "awaits s" using assms(2) nc by (auto simp: stands_def quiet_def resources_def aborting_def split: if_splits)
      then obtain c where c: "resources s = (True, [(c, False)], False, False, [], None, False, 0)" using True by (auto simp: awaits_def resources_def)
      have e: "s' = s\<lparr>inflight := False, a_cancelling := True, calls := mark_last (calls s)\<rparr>" "d = None" using assms(1) nc nt True by (simp_all add: clm_agent_cancel_def)
      have "resources s' = (False, [(c, True)], False, False, [], None, False, 0)" using c by (simp add: e resources_def mark_last_def)
      then have "aborting s'" by (simp add: aborting_def e)
      moreover have "agent_busy s'" "begun s' = begun s" "ended s' = ended s" "timers_work s' = timers_work s" using busy by (simp_all add: e agent_busy_def begun_def ended_def timers_work_def)
      ultimately show ?thesis using assms(2) busy e(2) by (simp add: stands_def opened_def done_tasks_def)
    next
      case ni: False
      show ?thesis
      proof (cases "active_batch s")
        case True
        then have busy: "agent_busy s" and w: "awaits s" using assms(2) nc by (auto simp: stands_def quiet_def resources_def aborting_def split: if_splits)
        then have w: "resources s = (False, [], True, False, [], None, False, 0)" using True by (auto simp: awaits_def resources_def)
        have e: "(s', d) = (case over of None \<Rightarrow> (s\<lparr>a_cancelling := True\<rparr>, None) | Some st \<Rightarrow> clm_agent_tools_done E st (s\<lparr>a_cancelling := True, active_batch := False\<rparr>))"
          using assms(1) nc nt ni True by (simp add: clm_agent_cancel_def Let_def)
        show ?thesis
        proof (cases over)
          case None
          have "awaits (s\<lparr>a_cancelling := True\<rparr>)" "agent_busy (s\<lparr>a_cancelling := True\<rparr>)" using w busy by (simp_all add: awaits_def resources_def agent_busy_def)
          moreover have "framed s (s\<lparr>a_cancelling := True\<rparr>)" by (simp add: agent_defs)
          ultimately show ?thesis using stands_fares [of s "(s\<lparr>a_cancelling := True\<rparr>, None)" s 0] e None assms(2) busy by (simp add: fares_def settled_def done_tasks_def)
        next
          case (Some st)
          define s1 where "s1 = s\<lparr>a_cancelling := True, active_batch := False\<rparr>"
          have "quiet s1" "agent_busy s1" "framed s s1" using w busy by (simp_all add: s1_def quiet_def agent_defs agent_busy_def)
          then have "fares s1 (s', d)" using tools_done_settled [of s1 E st] e Some by (simp add: s1_def)
          from stands_fares [OF this \<open>framed s s1\<close> assms(2) busy] show ?thesis by simp
        qed
      next
        case False
        then show ?thesis using assms nc nt ni by (simp add: clm_agent_cancel_def done_tasks_def)
      qed
    qed
  qed
qed

lemma llm_timer_stands:
  assumes "stands 0 s" "llm_timers s = pre @ turn # post" "on_llm_rl_timer E turn (s\<lparr>llm_timers := pre @ post\<rparr>) = (s', d)"
  shows "stands (length (done_tasks d)) s'"
proof -
  have busy: "agent_busy s" and w: "awaits s" using assms(1,2) by (auto simp: stands_def quiet_def resources_def aborting_def split: if_splits)
  then obtain t where r: "resources s = (False, [], False, True, [t], Some t, False, 0)" using assms(2) by (auto simp: awaits_def resources_def)
  then have "pre @ turn # post = [t]" using assms(2) by (simp add: resources_def)
  then have p: "pre = []" "post = []" using single by fastforce+
  define s1 where "s1 = s\<lparr>llm_timers := []\<rparr>"
  have "resources s1 = (False, [], False, True, [], Some t, False, 0)" "agent_busy s1" "framed s s1" using r busy by (simp_all add: s1_def agent_defs agent_busy_def)
  then show ?thesis using stands_fares [OF _ _ assms(1) busy, of s1 "(s', d)"] on_llm_rl_timer_settled [of s1 True "[]" "Some t" E turn] assms(3) p by (simp add: s1_def)
qed

lemma compact_timer_stands:
  assumes "stands 0 s" "compact_timers s = Suc n" "on_compact_rl_timer E (s\<lparr>compact_timers := n\<rparr>) = (s', d)"
  shows "stands (length (done_tasks d)) s'"
proof -
  have busy: "agent_busy s" and w: "awaits s" using assms(1,2) by (auto simp: stands_def quiet_def resources_def aborting_def split: if_splits)
  then have r: "resources s = (False, [], False, False, [], None, True, 1)" using assms(2) by (auto simp: awaits_def resources_def)
  define s1 where "s1 = drop_compact_timer (s\<lparr>compact_timers := n\<rparr>)"
  have "quiet s1" "framed s s1" using r by (simp_all add: s1_def quiet_def agent_defs drop_compact_timer_def)
  then show ?thesis using stands_fares [OF _ _ assms(1) busy, of s1 "(s', d)"] compact_post_settled [of s1 E] assms(3) by (simp add: s1_def on_compact_rl_timer_def)
qed

lemma batch_stands:
  assumes "stands 0 s" "active_batch s"
  shows "agent_busy s" "quiet (s\<lparr>active_batch := False\<rparr>)" "framed s (s\<lparr>active_batch := False\<rparr>)" "agent_busy (s\<lparr>active_batch := False\<rparr>)"
proof -
  show busy: "agent_busy s" using assms by (auto simp: stands_def quiet_def resources_def split: if_splits)
  then have "awaits s" using assms by (auto simp: stands_def aborting_def resources_def)
  then have "resources s = (False, [], True, False, [], None, False, 0)" using assms(2) by (auto simp: awaits_def resources_def)
  then show "quiet (s\<lparr>active_batch := False\<rparr>)" "framed s (s\<lparr>active_batch := False\<rparr>)" "agent_busy (s\<lparr>active_batch := False\<rparr>)"
    using busy by (simp_all add: quiet_def agent_defs agent_busy_def)
qed

lemma step_stands: "step E s s' \<Longrightarrow> stands 0 s \<Longrightarrow> stands 0 s'"
proof (induction rule: step.induct)
  case (submits p s r s' d)
  then show ?case using submit_stands [of E p s r s' d 0] by (simp add: stands_done)
next
  case (notifies p s r s' d)
  then show ?case using notify_stands [of E p s r s' d 0] by (simp add: stands_done)
next
  case (compacts s s')
  then show ?case using compact_stands by fastforce
next
  case (compact_refused s r s')
  then show ?case using compact_stands by fastforce
next
  case (cancels over s r s' d)
  then show ?case using cancel_stands stands_done by blast
next
  case (streams s pre turn c post bs t l s')
  have m: "framed s s' \<and> resources s' = resources s \<and> ag_state s' = ag_state s" "a_cancelling s' = a_cancelling s"
    using data_more [OF streams(2)] more_frame by blast+
  note st = stands_call [OF streams(3,1)]
  define s2 where "s2 = s'\<lparr>tp := t, calls := pre @ (LlmCall (turn\<lparr>lt := l\<rparr>), c) # post\<rparr>"
  have r: "resources s2 = (\<not> c, [(LlmCall (turn\<lparr>lt := l\<rparr>), c)], False, False, [], None, False, 0)"
    using m st(2-4) by (simp add: s2_def resources_def)
  have "c \<Longrightarrow> a_cancelling s" using streams(3) st(1,4) by (auto simp: stands_def aborting_def awaits_def)
  then have "c \<Longrightarrow> a_cancelling s2" using m by (simp add: s2_def)
  then have "awaits s2 \<or> aborting s2" using r by (cases c) (auto simp: awaits_def aborting_def)
  moreover have "agent_busy s2" "framed s s2" using m st(1) by (simp_all add: s2_def agent_defs agent_busy_def)
  moreover have "timers_work s2" using streams(3) by (intro frame_timers [OF \<open>framed s s2\<close>]) (simp add: stands_def)
  ultimately have "stands 0 s2" using streams(3) st(1) by (simp add: stands_def opened_def framed_def)
  then show ?case by (simp add: s2_def)
next
  case (llm_answers s pre turn post status body s' d)
  show ?case by (rule stands_done [OF completes [OF llm_answers(3,1,2) inflight_first(1) http_success_settled]])
next
  case (llm_fails s pre turn c post code msg s' d)
  show ?case by (rule stands_done [OF completes [OF llm_fails(4,1,3) inflight_first(2) http_error_settled]])
next
  case (upload_answers s pre url post status body s' d)
  show ?case by (rule stands_done [OF completes [OF upload_answers(3,1,2) inflight_first(3) upload_success_settled]])
next
  case (upload_fails s pre url c post code s' d)
  show ?case by (rule stands_done [OF completes [OF upload_fails(4,1,3) inflight_first(4) upload_error_settled]])
next
  case (compact_answers s pre post status body s' d)
  show ?case by (rule stands_done [OF completes [OF compact_answers(3,1,2) inflight_first(5) compact_success_settled]])
next
  case (compact_fails s pre c post code msg s' d)
  show ?case by (rule stands_done [OF completes [OF compact_fails(4,1,3) inflight_first(6) compact_error_settled]])
next
  case (llm_timer s pre turn post s' d)
  then show ?case using llm_timer_stands stands_done by blast
next
  case (compact_timer s n s' d)
  then show ?case using compact_timer_stands stands_done by blast
next
  case (tools_work s n ms)
  have "stands 0 (s\<lparr>hist := hist s @ ms, gate_denials := gate_denials s + n\<rparr>)"
    by (rule stands_calm [OF _ tools_work(2)]) (simp add: agent_defs)
  then show ?case .
next
  case (tools_end s status s' d)
  note b = batch_stands [OF tools_end(3,1)]
  show ?case using stands_fares [OF tools_done_settled [OF b(2,4), of E status] b(3) tools_end(3) b(1)] tools_end(2) stands_done by simp
qed

lemma runs_stands: "runs Es s s' \<Longrightarrow> stands 0 s \<Longrightarrow> stands 0 s'"
  by (induction Es s s' rule: runs.induct) (auto dest: step_stands)

lemma new_agent_stands: "new_agent s \<Longrightarrow> timers_work s \<Longrightarrow> stands 0 s"
  by (simp add: new_agent_def stands_def opened_def agent_busy_def begun_def ended_def)

section \<open>Properties\<close>


text \<open>A new agent and an environment, for the examples: the server takes any request, no message is compressed.\<close>

definition demo_env :: "(json, unit) agent_env" where
  "demo_env = \<lparr>ae_stream = \<lparr>se_api = json_api, se_int = (\<lambda>_. 0), se_num = (\<lambda>_. 0), se_normalize = None\<rparr>,
     ae_delay = \<lparr>scan_delay = (\<lambda>_. None), to_u64 = (\<lambda>_. 0)\<rparr>,
     ae_build = (\<lambda>_ _ _ _ _ _. Some (lit ''x'')), ae_size = length, ae_normalize = None, ae_schema = Some (cj_array json_api), ae_has_timers = True,
     ae_usec = 0, ae_time = 0, ae_stamp = [], ae_compressor = None, ae_stream_on = True, ae_provider = CLM_PROVIDER_OPENAI, ae_base_url = lit ''http://h/v1'',
     ae_effort = None, ae_auth = None, ae_system = []\<rparr>"

definition demo_agent :: "unit agent" where
  "demo_agent = \<lparr>a_error = None, a_chain_id = None, a_chain_sent = 0, a_cancelling = False, a_out = [],
     ag_state = CLM_STATE_IDLE, hist = [], tp = [], budget = \<lparr>ctx_max = 0, ctx_used = 0, autocompact_pct = 0, autocompact_tokens = 0\<rparr>,
     iteration = 0, max_iterations = 0, gate_denials = 0, pending_notify = None, inflight = False, active_batch = False, llm_rl = None,
     llm_rl_timer = False, rl_parked_turn = None, compact_rl_timer = False, compact_rl_retries = 0, compact_body = None, compact_effort_set = None,
     compact_effort_changed = False, compact_effort_fallback = False, compact_resume_chain = False, mid_chain_compact_started = False,
     mid_chain_compact_succeeded = False, mid_chain_compact_failed = False, turn_hooks = 0, tools_unsupported = False, vision = - 1, file_uploads = False,
     files = \<lparr>ents = [], cap_files = 0\<rparr>, files_lost = 0, prompt_parts = [], prompt_parts_changed = False, facts_pending = False,
     system_prompt_suffix = None, last_time_stamp = 0, log = [], calls = [], llm_timers = [], compact_timers = 0, o_posts = [], o_timers = [],
     o_disp = [], o_done = []\<rparr>"

definition demo_turn :: "unit llm_turn" where
  "demo_turn = \<lparr>lt = new_turn 0, lt_body = lit ''x'', lt_streaming = True, lt_ctx_bytes = 1, lt_hist = []\<rparr>"

text \<open>The demo agent while the model is asked.\<close>

definition demo_asking :: "unit agent" where
  "demo_asking = demo_agent\<lparr>ag_state := CLM_STATE_THINKING, inflight := True, calls := [(LlmCall demo_turn, False)]\<rparr>"

lemma demo_new: "new_agent demo_agent" "timers_work demo_agent"
  by (simp_all add: new_agent_def demo_agent_def quiet_def resources_def timers_work_def)


text \<open>What the host and the tools do after a cancel.\<close>

definition wind_up :: "('j, 'p) agent_env \<Rightarrow> int \<Rightarrow> 'p agent \<Rightarrow> 'p outcome" where
  "wind_up E status s =
     (case calls s of
        (LlmCall turn, True) # cs \<Rightarrow> clm_http_error_cb E E_CANCELED None turn (s\<lparr>calls := cs\<rparr>)
      | (UploadCall url, True) # cs \<Rightarrow> file_upload_error E url E_CANCELED (s\<lparr>calls := cs\<rparr>)
      | (CompactCall, True) # cs \<Rightarrow> compact_error_cb E E_CANCELED None (s\<lparr>calls := cs\<rparr>)
      | _ \<Rightarrow> if active_batch s then clm_agent_tools_done E status (s\<lparr>active_batch := False\<rparr>) else (s, None))"

lemma wind_up_canceled:
  assumes "a_cancelling s" "(\<exists>c. calls s = [(c, True)]) \<or> calls s = [] \<and> active_batch s"
  shows "snd (wind_up E status s) = Some E_CANCELED \<and> ag_state (fst (wind_up E status s)) = CLM_STATE_COMPLETE"
  using assms(2)
proof
  assume "\<exists>c. calls s = [(c, True)]"
  then obtain c where "calls s = [(c, True)]" by blast
  then show ?thesis
    by (cases c) (simp_all add: wind_up_def clm_http_error_cb_def file_upload_error_def compact_error_cb_def Let_def set_state_frame del: lit_Cons)
next
  assume "calls s = [] \<and> active_batch s"
  then show ?thesis using assms(1) by (simp add: wind_up_def clm_agent_tools_done_def set_state_frame del: lit_Cons)
qed


text \<open>The demo agent after its first prompt: the request is with the host.\<close>

definition demo_message :: clm_message where
  "demo_message = (blank_message CLM_ROLE_USER)\<lparr>content := Some (lit ''hi''), content_len := 2\<rparr>"

lemma demo_add: "clm_history_add_user [] [] (Some (lit ''hi'')) None = (True, [demo_message], [])"
proof -
  have c: "c_str (lit ''hi'') = lit ''hi''" by code_simp
  have u: "utf8_repair [] (lit ''hi'') = (None, [])" by code_simp
  have p: "try_pack None x = None" for x by (simp add: try_pack_def)
  have l: "length (lit ''hi'') = 2" "take 2 (lit ''hi'') = lit ''hi''" by simp_all
  have "message_set_content_len [] m (Some (lit ''hi'')) None = (Inr (), m\<lparr>content := Some (lit ''hi''), content_len := 2, content_compressed := False\<rparr>, [])" for m
    unfolding message_set_content_len_def option.case u prod.case Let_def p l by (simp del: lit_Cons add: l)
  then show ?thesis
    by (simp del: lit_Cons add: clm_history_add_user_def history_add_def clm_message_create_def message_set_content_def c blank_message_def demo_message_def)
qed

lemma demo_json: "\<exists>j. clm_history_to_json json_api [] [demo_message] None = (Some j, [])"
  by (simp add: clm_history_to_json_def clm_message_to_json_def blank_message_def demo_message_def message_plain_def)

definition demo_ready :: "unit agent \<Rightarrow> bool" where
  "demo_ready s \<longleftrightarrow> \<not> agent_busy s \<and> pending_notify s = None \<and> \<not> prompt_parts_changed s \<and> tp s = [] \<and> hist s = [] \<and> \<not> file_uploads s
     \<and> \<not> tools_unsupported s \<and> a_chain_id s = None \<and> llm_rl s = None \<and> o_posts s = [] \<and> prompt_parts s = [] \<and> last_time_stamp s = 0 \<and> \<not> facts_pending s"

lemma demo_env_simps:
  "ae_schema demo_env = Some (cj_array json_api)" "ae_build demo_env a b c d e f = Some (lit ''x'')" "ae_compressor demo_env = None"
  "ae_time demo_env = 0" "ae_api demo_env = json_api"
  by (simp_all add: demo_env_def del: lit_Cons)

lemma demo_submit:
  assumes "demo_ready s"
  shows "\<exists>s2. clm_agent_submit demo_env (lit ''hi'') s = (0, s2, None) \<and> agent_busy s2 \<and> \<not> a_cancelling s2"
proof -
  obtain j where j: "clm_history_to_json json_api [] [demo_message] None = (Some j, [])" using demo_json by blast
  define s0 where "s0 = note_event (OnTurnStart (lit ''hi'')) s"
  define s1 where "s1 = note_event Accepted (set_state CLM_STATE_THINKING ((emit_last (s0\<lparr>hist := [demo_message], tp := []\<rparr>))\<lparr>iteration := 0, gate_denials := 0, a_cancelling := False\<rparr>))"
  have s1: "pending_notify s1 = None" "\<not> prompt_parts_changed s1" "tp s1 = []" "hist s1 = [demo_message]" "\<not> file_uploads s1" "\<not> tools_unsupported s1"
    "a_chain_id s1 = None" "llm_rl s1 = None" "o_posts s1 = []" "\<not> a_cancelling s1" "prompt_parts s1 = []" "agent_busy s1"
    using assms by (simp_all add: s1_def s0_def note_event_def set_state_def emit_last_def demo_ready_def agent_busy_def del: lit_Cons)
  have m: "turn_messages demo_env s1 = (Some (cj_items json_api j, [], None), [])"
    by (simp add: turn_messages_def demo_env_simps s1 j apply_prompt_parts_def split: list.split option.split)
  have "\<exists>s2. clm_agent_start_turn demo_env s1 = (s2, None) \<and> agent_busy s2 \<and> \<not> a_cancelling s2"
    using s1(12) by (simp add: clm_agent_start_turn_def agent_flush_pending_notify_def s1 m send_messages_def chain_cut_def llm_dispatch_def post_turn_def
        http_post_def Let_def demo_env_simps agent_busy_def del: lit_Cons)
  moreover have c: "add_context demo_env s0 = s0"
    using assms by (simp add: add_context_def s0_def note_event_def demo_ready_def demo_env_simps CLM_TIME_STAMP_INTERVAL_def del: lit_Cons)
  have "tp s0 = []" "hist s0 = []" using assms by (simp_all add: s0_def note_event_def demo_ready_def del: lit_Cons)
  then have u: "add_user demo_env (lit ''hi'') s0 = (True, emit_last (s0\<lparr>hist := [demo_message], tp := []\<rparr>))"
    by (simp add: add_user_def demo_add demo_env_simps del: lit_Cons)
  have "clm_agent_submit demo_env (lit ''hi'') s = (0, clm_agent_start_turn demo_env s1)"
    using assms unfolding clm_agent_submit_def s0_def [symmetric] c u prod.case Let_def s1_def by (simp add: demo_ready_def)
  ultimately show ?thesis by auto
qed

lemma demo_agent_ready: "demo_ready demo_agent"
  by (simp add: demo_ready_def demo_agent_def agent_busy_def)

lemma demo_busy: "\<exists>s. runs [demo_env] demo_agent s \<and> agent_busy s \<and> \<not> a_cancelling s"
proof -
  obtain s2 where s2: "clm_agent_submit demo_env (lit ''hi'') demo_agent = (0, s2, None)" "agent_busy s2" "\<not> a_cancelling s2"
    using demo_submit [OF demo_agent_ready] by blast
  then have "step demo_env demo_agent (agent_turn_done demo_env (done_tasks None) s2)" by (intro submits)
  then show ?thesis using s2 by (auto simp: done_tasks_def)
qed


section \<open>Waiting out a server that never stops refusing\<close>

text \<open>The host against a server that answers every request with 429 and the same body: a request is answered, a timer fires.\<close>

fun storm :: "('j, 'p) agent_env \<Rightarrow> cstr option \<Rightarrow> nat \<Rightarrow> 'p outcome \<Rightarrow> 'p outcome" where
  "storm E body 0 out = out"
| "storm E body (Suc n) (s, Some st) = (s, Some st)"
| "storm E body (Suc n) (s, None) =
     storm E body n
       (case calls s of (LlmCall turn, False) # cs \<Rightarrow> clm_http_success_cb E 429 body turn (s\<lparr>calls := cs\<rparr>)
        | _ \<Rightarrow> (case llm_timers s of turn # ts \<Rightarrow> on_llm_rl_timer E turn (s\<lparr>llm_timers := ts\<rparr>) | [] \<Rightarrow> (s, None)))"

definition asking :: "'p llm_turn \<Rightarrow> 'p agent \<Rightarrow> bool" where
  "asking turn s \<longleftrightarrow> resources s = (True, [(LlmCall turn, False)], False, False, [], None, False, 0)
     \<and> o_posts s = [] \<and> timers_work s \<and> a_chain_id s = None"

lemma note_event_set_fields [simp]:
  "o_posts (note_event e s) = o_posts s" "a_chain_id (note_event e s) = a_chain_id s" "o_timers (note_event e s) = o_timers s" "tp (note_event e s) = tp s"
  "o_posts (set_state x s) = o_posts s" "a_chain_id (set_state x s) = a_chain_id s"
  by (simp_all add: note_event_def set_state_def)

lemma asking_answered:
  assumes "asking turn s" "\<not> says body (lit ''No tool output found'')" "ae_has_timers E"
  shows "if t_retries (lt turn) < CLM_RL_RETRY_MAX
    then \<exists>s1 s2. clm_http_success_cb E 429 body turn (s\<lparr>calls := []\<rparr>) = (s1, None) \<and> calls s1 = [] \<and> llm_timers s1 = [waited turn]
      \<and> on_llm_rl_timer E (waited turn) (s1\<lparr>llm_timers := []\<rparr>) = (s2, None) \<and> asking (waited turn) s2
    else \<exists>s1. clm_http_success_cb E 429 body turn (s\<lparr>calls := []\<rparr>) = (s1, Some E_IO)"
proof -
  define s0 where "s0 = s\<lparr>calls := [], inflight := False\<rparr>"
  obtain adv t where a: "(case body of None \<Rightarrow> (None, tp s0) | Some b \<Rightarrow> dup (tp s0) b) = (adv, t)" by fastforce
  define s1 where "s1 = s0\<lparr>tp := t\<rparr>"
  have s1: "quiet s1" "o_posts s1 = []" "a_chain_id s1 = None" "timers_work s1"
    using assms(1) by (auto simp: s1_def s0_def asking_def resources_def quiet_def timers_work_def)
  have e: "clm_http_success_cb E 429 body turn (s\<lparr>calls := []\<rparr>) = (case rl_retry E turn adv s1 of Some s \<Rightarrow> (s, None)
      | None \<Rightarrow> agent_fail (http_failure E 429 body s1) E_IO s1)"
    using assms(2) s1(3) by (simp add: clm_http_success_cb_def llm_rejected_def a s0_def [symmetric] s1_def [symmetric] Let_def del: lit_Cons split: option.split)
  show ?thesis
  proof (cases "t_retries (lt turn) < CLM_RL_RETRY_MAX")
    case False
    then have "rl_retry E turn adv s1 = None" by (simp add: rl_retry_def)
    then show ?thesis using False e by (simp add: agent_fail_def)
  next
    case True
    define sa where "sa = (set_state CLM_STATE_RATE_LIMITED s1)\<lparr>rl_parked_turn := Some (waited turn)\<rparr>"
    obtain ok s3 where ti: "arm_timer (clm_rl_retry_delay_ms (ae_delay E) adv (int (t_retries (lt turn)))) sa = (ok, s3)" by fastforce
    have sa: "o_posts sa = []" "a_chain_id sa = None" "timers_work sa" "resources sa = (False, [], False, False, [], Some (waited turn), False, 0)"
      using s1 by (auto simp: sa_def timers_work_def quiet_def set_state_def note_event_def resources_def)
    have ok: ok using arm_timer_cases [OF ti] sa(3) by blast
    have s3: "o_posts s3 = []" "a_chain_id s3 = None" "resources s3 = resources sa" "timers_work s3"
      using ti sa arm_timer_cases(1) [OF ti] frame_timers calm_frame by (auto simp: arm_timer_def Let_def calm_def)
    define s2 where "s2 = s3\<lparr>llm_rl_timer := True, llm_timers := llm_timers s3 @ [waited turn]\<rparr>"
    note s2 = s2_def
    have r: "rl_retry E turn adv s1 = Some s2" using ok True assms(3) unfolding rl_retry_def Let_def sa_def [symmetric] by (simp add: ti s2)
    have r2: "calls s2 = []" "llm_timers s2 = [waited turn]" using s3(3) sa(4) by (simp_all add: s2 resources_def)
    define s4 where "s4 = (drop_llm_timer (s2\<lparr>llm_timers := []\<rparr>))\<lparr>rl_parked_turn := None\<rparr>"
    define s5 where "s5 = s4\<lparr>llm_rl := clm_ratelimit_consume (ae_usec E) (llm_rl s4) (est_cost (waited turn))\<rparr>"
    have s5: "quiet s5" "o_posts s5 = []" "a_chain_id s5 = None" "timers_work s5"
      using s3 sa(4) by (auto simp: s5_def s4_def s2 drop_llm_timer_def quiet_def resources_def timers_work_def)
    define s6 where "s6 = s5\<lparr>o_posts := [], calls := calls s5 @ [(LlmCall (waited turn), False)], inflight := True\<rparr>"
    have "on_llm_rl_timer E (waited turn) (s2\<lparr>llm_timers := []\<rparr>) = (s6, None)"
      unfolding on_llm_rl_timer_def Let_def s4_def [symmetric] s5_def [symmetric] by (simp add: post_turn_def http_post_def s5(2) s6_def)
    moreover have "asking (waited turn) s6" using s5 by (auto simp: asking_def s6_def quiet_def resources_def timers_work_def)
    ultimately show ?thesis using True e r r2 by auto
  qed
qed

lemma storm_ends:
  assumes "asking turn s" "\<not> says body (lit ''No tool output found'')" "ae_has_timers E" "CLM_RL_RETRY_MAX - t_retries (lt turn) \<le> n"
  shows "snd (storm E body (2 * n + 1) (s, None)) = Some E_IO"
  using assms
proof (induction n arbitrary: s turn)
  case 0
  have c: "calls s = [(LlmCall turn, False)]" using 0(1) by (simp add: asking_def resources_def)
  show ?case using asking_answered [OF 0(1-3)] 0(4) c by auto
next
  case (Suc n)
  have c: "calls s = [(LlmCall turn, False)]" using Suc(2) by (simp add: asking_def resources_def)
  show ?case
  proof (cases "t_retries (lt turn) < CLM_RL_RETRY_MAX")
    case True
    then obtain s1 s2 where s: "clm_http_success_cb E 429 body turn (s\<lparr>calls := []\<rparr>) = (s1, None)" "calls s1 = []" "llm_timers s1 = [waited turn]"
      "on_llm_rl_timer E (waited turn) (s1\<lparr>llm_timers := []\<rparr>) = (s2, None)" "asking (waited turn) s2"
      using asking_answered [OF Suc(2-4)] by auto
    have "CLM_RL_RETRY_MAX - t_retries (lt (waited turn)) \<le> n" using Suc(5) True by (simp add: waited_def turn_reset_response_def)
    from Suc.IH [OF s(5) Suc(3,4) this] show ?thesis using c s by simp
  next
    case False
    then obtain s1 where "clm_http_success_cb E 429 body turn (s\<lparr>calls := []\<rparr>) = (s1, Some E_IO)" using asking_answered [OF Suc(2-4)] by auto
    then show ?thesis using c by simp
  qed
qed



end
