(* ===== verification/Agent_Edges.thy ===== *)
theory Agent_Edges
  imports Agent_Run
begin

text \<open>
  Where the agent (\<^verbatim>\<open>libclm/agent.c\<close>) does not keep its promises: a cancel that outlives its turn, a timer that cannot be
  armed, a notification that loses its turn; and what becomes of a notification otherwise.
\<close>

section \<open>A cancel that outlives its turn\<close>

lemma keep_partial_cancelling: "a_cancelling (agent_keep_partial E turn s) = a_cancelling s"
  using tape_calm [of s] add_assistant_calm(1) [where E = E] by (auto simp: agent_keep_partial_def Let_def calm_def split: prod.split)

lemma set_state_cancelling [simp]: "a_cancelling (set_state x s) = a_cancelling s" "a_cancelling (note_event e s) = a_cancelling s"
  by (simp_all add: set_state_def note_event_def)

lemma http_post_cancelling: "http_post c s = (r, s') \<Longrightarrow> a_cancelling s' = a_cancelling s"
  by (auto simp: http_post_def Let_def split: if_splits)

lemma compact_cancelling: "clm_agent_compact E s = (0, s') \<Longrightarrow> a_cancelling s' = a_cancelling s"
proof -
  assume a: "clm_agent_compact E s = (0, s')"
  then have nb: "\<not> agent_busy s" by (auto simp: clm_agent_compact_def E_BUSY_def)
  obtain r1 s1 where b: "compact_build E (compact_effort (compact_effort_set s) (ae_provider E) (ae_effort E)) s = (r1, s1)" by fastforce
  have c1: "a_cancelling s1 = a_cancelling s" using compact_build_calm [of s E] b by (metis calm_def snd_conv)
  define s2 where "s2 = set_state CLM_STATE_THINKING (s1\<lparr>compact_rl_retries := 0, compact_effort_fallback := False\<rparr>)"
  obtain r2 s3 where p: "http_post CompactCall s2 = (r2, s3)" by fastforce
  have "clm_agent_compact E s = (if r1 < 0 then (r1, s1) else if r2 < 0 then (r2, s3\<lparr>compact_body := None, ag_state := CLM_STATE_ERROR\<rparr>) else (0, s3))"
    unfolding clm_agent_compact_def if_not_P [OF nb] b prod.case Let_def s2_def [symmetric] p ..
  then have "s' = s3" using a by (auto split: if_splits)
  then show ?thesis using http_post_cancelling [OF p] c1 by (simp add: s2_def)
qed

text \<open>C7 (error). The flag of a cancel is cleared only where a prompt is submitted or a batch of tools ends. After a cancelled request a
  compaction can be started, and it cannot be cancelled: every attempt returns \<^verbatim>\<open>-EALREADY\<close> and does nothing.\<close>

theorem stale_cancel_blocks_next:
  assumes "calls s = [(LlmCall turn, False)]" "inflight s" "\<not> a_cancelling s" "\<not> llm_rl_timer s" "\<not> compact_rl_timer s"
    "clm_agent_cancel E over s = (r, s1, d1)" "wind_up E st s1 = (s2, d2)" "clm_agent_compact E (turn_end E E_CANCELED s2) = (0, s3)"
  shows "r = 0 \<and> d2 = Some E_CANCELED \<and> clm_agent_cancel E over' s3 = (E_ALREADY, s3, None)"
proof -
  have s1: "s1 = s\<lparr>inflight := False, a_cancelling := True, calls := [(LlmCall turn, True)]\<rparr>" "r = 0"
    using assms(1-6) by (auto simp: clm_agent_cancel_def mark_last_def)
  have "a_cancelling s2" "d2 = Some E_CANCELED" using assms(7) unfolding s1
    by (auto simp: wind_up_def clm_http_error_cb_def Let_def keep_partial_cancelling)
  then have "a_cancelling s3" using compact_cancelling [OF assms(8)] by (simp add: turn_end_state)
  then show ?thesis using s1 \<open>d2 = Some E_CANCELED\<close> by (simp add: clm_agent_cancel_def)
qed

lemma demo_compact: "demo_ready s \<Longrightarrow> \<exists>s'. clm_agent_compact demo_env s = (0, s')"
proof -
  assume d: "demo_ready s"
  obtain j where j: "clm_history_to_json json_api [] [] None = (Some j, [])" by (simp add: clm_history_to_json_def)
  have m: "turn_messages demo_env s = (Some (cj_items json_api j, [], None), [])"
    using d by (simp add: turn_messages_def demo_env_simps demo_ready_def j apply_prompt_parts_def split: list.split option.split)
  obtain msg where i: "compact_instruction demo_env s [] = (Some msg, [])" by (simp add: compact_instruction_def demo_env_simps cj_create_def del: lit_Cons)
  have "\<exists>s'. compact_build demo_env e s = (0, s') \<and> o_posts s' = []" for e
    using d by (simp add: compact_build_def m i demo_ready_def demo_env_simps Let_def del: lit_Cons)
  then obtain s1 where "compact_build demo_env (compact_effort (compact_effort_set s) (ae_provider demo_env) (ae_effort demo_env)) s = (0, s1)" "o_posts s1 = []"
    by blast
  then show ?thesis using d by (simp add: clm_agent_compact_def demo_ready_def http_post_def Let_def)
qed

theorem stale_cancel_blocks_next_witness:
  "\<exists>s1 s2 s3. clm_agent_cancel demo_env None demo_asking = (0, s1, None) \<and> wind_up demo_env 0 s1 = (s2, Some E_CANCELED)
    \<and> clm_agent_compact demo_env (turn_end demo_env E_CANCELED s2) = (0, s3) \<and> clm_agent_cancel demo_env None s3 = (E_ALREADY, s3, None)"
proof -
  have h: "calls demo_asking = [(LlmCall demo_turn, False)]" "inflight demo_asking" "\<not> a_cancelling demo_asking" "\<not> llm_rl_timer demo_asking" "\<not> compact_rl_timer demo_asking"
    by (simp_all add: demo_asking_def demo_agent_def)
  define s1 where "s1 = demo_asking\<lparr>inflight := False, a_cancelling := True, calls := [(LlmCall demo_turn, True)]\<rparr>"
  define s2 where "s2 = set_state CLM_STATE_COMPLETE (s1\<lparr>calls := [], inflight := False\<rparr>)"
  have c: "clm_agent_cancel demo_env None demo_asking = (0, s1, None)" using h by (simp add: clm_agent_cancel_def mark_last_def s1_def)
  have w: "wind_up demo_env 0 s1 = (s2, Some E_CANCELED)"
    by (simp add: wind_up_def s1_def s2_def clm_http_error_cb_def agent_keep_partial_def demo_turn_def new_turn_def sb_str_def sb_null_def del: lit_Cons)
  have "demo_ready (turn_end demo_env E_CANCELED s2)"
    by (simp add: demo_ready_def turn_end_def s2_def s1_def demo_asking_def demo_agent_def set_state_def note_event_def agent_busy_def E_CANCELED_def del: lit_Cons)
  then obtain s3 where k: "clm_agent_compact demo_env (turn_end demo_env E_CANCELED s2) = (0, s3)" using demo_compact by blast
  show ?thesis using stale_cancel_blocks_next [OF h c w k, of None] c w k by blast
qed

section \<open>A timer that cannot be armed\<close>

text \<open>C6 (error). When the host cannot arm the timer of a retry, the agent stays in the state RATE_LIMITED with nothing under way that could
  ever end the turn, and both ways out are closed: a prompt is refused as busy, and a cancel finds nothing to cancel.\<close>

theorem failed_timer_sticks:
  assumes "quiet s" "\<not> a_cancelling s" "ae_has_timers E" "t_retries (lt turn) < CLM_RL_RETRY_MAX" "o_timers s = False # w"
  shows "\<exists>s'. rl_retry E turn advice s = Some s' \<and> ag_state s' = CLM_STATE_RATE_LIMITED
    \<and> calls s' = [] \<and> llm_timers s' = [] \<and> compact_timers s' = 0 \<and> \<not> active_batch s'
    \<and> fst (clm_agent_submit E p s') = E_BUSY \<and> clm_agent_cancel E over s' = (E_INVAL, s', None)"
proof -
  define s1 where "s1 = (set_state CLM_STATE_RATE_LIMITED s)\<lparr>rl_parked_turn := Some (waited turn)\<rparr>"
  obtain ok s2 where ti: "arm_timer (clm_rl_retry_delay_ms (ae_delay E) advice (int (t_retries (lt turn)))) s1 = (ok, s2)" by fastforce
  have o: "o_timers s1 = False # w" using assms(5) by (simp add: s1_def set_state_def note_event_def)
  have s2: "\<not> ok" "resources s2 = resources s1" "ag_state s2 = CLM_STATE_RATE_LIMITED" "\<not> a_cancelling s2"
    using ti o assms(2) by (auto simp: arm_timer_def Let_def s1_def resources_def note_event_def set_state_def)
  have r: "rl_retry E turn advice s = Some s2"
    using assms(3,4) s2(1) unfolding rl_retry_def Let_def s1_def [symmetric] by (simp add: ti)
  have res: "resources s2 = (False, [], False, False, [], Some (waited turn), False, 0)"
    using assms(1) s2(2) by (simp add: s1_def quiet_def resources_def set_state_def note_event_def)
  have b: "fst (clm_agent_submit E p s2) = E_BUSY" using s2(3) by (simp add: clm_agent_submit_def agent_busy_def)
  have c: "clm_agent_cancel E over s2 = (E_INVAL, s2, None)" using s2(4) res by (simp add: clm_agent_cancel_def resources_def)
  show ?thesis using r res s2(3) b c by (auto simp: resources_def)
qed

theorem failed_timer_sticks_witness:
  "\<exists>s'. rl_retry demo_env demo_turn None (demo_agent\<lparr>o_timers := [False]\<rparr>) = Some s' \<and> fst (clm_agent_submit demo_env [] s') = E_BUSY
    \<and> clm_agent_cancel demo_env None s' = (E_INVAL, s', None)"
proof -
  have h: "quiet (demo_agent\<lparr>o_timers := [False]\<rparr>)" "\<not> a_cancelling (demo_agent\<lparr>o_timers := [False]\<rparr>)" "ae_has_timers demo_env"
    "t_retries (lt demo_turn) < CLM_RL_RETRY_MAX" "o_timers (demo_agent\<lparr>o_timers := [False]\<rparr>) = False # []"
    by (simp_all add: demo_agent_def quiet_def resources_def demo_env_def demo_turn_def new_turn_def CLM_RL_RETRY_MAX_def)
  show ?thesis using failed_timer_sticks [OF h, of None "[]" None] by blast
qed

section \<open>Notifications\<close>

text \<open>(error). A notification waits for the end of the turn, as the comment of \<^verbatim>\<open>agent_turn_done\<close> says, but when the embedder submits a prompt
  in its turn-done callback and that turn goes on, the notification is dropped: the final state is the same whatever it said.\<close>

theorem notification_dropped:
  assumes "pending_notify s = Some n" "o_done s = CbSubmit p # as" "clm_agent_submit E p ((turn_end E st s)\<lparr>o_done := as\<rparr>) = (r, s1, None)" "agent_busy s1"
  shows "agent_turn_done E [TDone st] s = set_error (Some (lit ''turn already in progress'')) s1
    \<and> agent_turn_done E [TDone st] (s\<lparr>pending_notify := Some n'\<rparr>) = agent_turn_done E [TDone st] s"
proof -
  have t: "turn_end E st (s\<lparr>pending_notify := Some n'\<rparr>) = turn_end E st s" for n'
    by (simp add: turn_end_def Let_def split: prod.split)
  have "agent_turn_done E [TSubmit m] s1 = set_error (Some (lit ''turn already in progress'')) s1" for m
    using assms(4) by (simp add: clm_agent_submit_def done_tasks_def del: lit_Cons)
  then show ?thesis using assms(1-3) by (simp add: t turn_end_state done_tasks_def del: lit_Cons)
qed

theorem notification_dropped_witness:
  "\<exists>s1. agent_turn_done demo_env [TDone 0] (demo_agent\<lparr>pending_notify := Some (lit ''job done''), o_done := [CbSubmit (lit ''hi'')]\<rparr>)
    = set_error (Some (lit ''turn already in progress'')) s1 \<and> agent_busy s1"
proof -
  define s where "s = demo_agent\<lparr>pending_notify := Some (lit ''job done''), o_done := [CbSubmit (lit ''hi'')]\<rparr>"
  have h: "pending_notify s = Some (lit ''job done'')" "o_done s = [CbSubmit (lit ''hi'')]" by (simp_all add: s_def)
  have "demo_ready ((turn_end demo_env 0 s)\<lparr>o_done := []\<rparr>)"
    by (simp add: demo_ready_def turn_end_def s_def demo_agent_def note_event_def agent_busy_def del: lit_Cons)
  then obtain s1 where s1: "clm_agent_submit demo_env (lit ''hi'') ((turn_end demo_env 0 s)\<lparr>o_done := []\<rparr>) = (0, s1, None)" "agent_busy s1"
    using demo_submit by blast
  show ?thesis using notification_dropped [OF h s1] s1(2) unfolding s_def by blast
qed

end
