(* ===== verification/Sha256.thy ===== *)
theory Sha256
  imports Clm_Prelude "HOL-Library.Monad_Syntax"
begin

text \<open>
  The SHA-256 digest of \<^verbatim>\<open>libclmsession/sha256.c\<close>, which names the image files of a session by their content. First the code: a
  block with its array \<open>w\<close>, the padded tail, the hexadecimal output. Then the standard (FIPS 180-4) as it is written there, with the
  message schedule as a recursion and rotations of the word library, and the proof that the code computes it.
\<close>

section \<open>The code\<close>

definition k256 :: "u32 list" where
  "k256 = concat [
     [0x428a2f98, 0x71374491, 0xb5c0fbcf, 0xe9b5dba5], [0x3956c25b, 0x59f111f1, 0x923f82a4, 0xab1c5ed5],
     [0xd807aa98, 0x12835b01, 0x243185be, 0x550c7dc3], [0x72be5d74, 0x80deb1fe, 0x9bdc06a7, 0xc19bf174],
     [0xe49b69c1, 0xefbe4786, 0x0fc19dc6, 0x240ca1cc], [0x2de92c6f, 0x4a7484aa, 0x5cb0a9dc, 0x76f988da],
     [0x983e5152, 0xa831c66d, 0xb00327c8, 0xbf597fc7], [0xc6e00bf3, 0xd5a79147, 0x06ca6351, 0x14292967],
     [0x27b70a85, 0x2e1b2138, 0x4d2c6dfc, 0x53380d13], [0x650a7354, 0x766a0abb, 0x81c2c92e, 0x92722c85],
     [0xa2bfe8a1, 0xa81a664b, 0xc24b8b70, 0xc76c51a3], [0xd192e819, 0xd6990624, 0xf40e3585, 0x106aa070],
     [0x19a4c116, 0x1e376c08, 0x2748774c, 0x34b0bcb5], [0x391c0cb3, 0x4ed8aa4a, 0x5b9cca4f, 0x682e6ff3],
     [0x748f82ee, 0x78a5636f, 0x84c87814, 0x8cc70208], [0x90befffa, 0xa4506ceb, 0xbef9a3f7, 0xc67178f2]]"

definition ror :: "u32 \<Rightarrow> nat \<Rightarrow> u32" where
  "ror x n = drop_bit n x OR push_bit (32 - n) x"

text \<open>The working variables \<open>a\<close> to \<open>hh\<close>.\<close>

record vars =
  va :: u32
  vb :: u32
  vc :: u32
  vd :: u32
  ve :: u32
  vf :: u32
  vg :: u32
  vh :: u32

text \<open>
  A read of a buffer gives \<open>None\<close> out of its bounds. The array \<open>w\<close> is the list of the elements written so far, so a read of an
  element that is not initialized gives \<open>None\<close> as well.
\<close>

definition rd :: "'a list \<Rightarrow> nat \<Rightarrow> 'a option" where
  "rd xs i = (if i < length xs then Some (xs ! i) else None)"

definition load_word :: "byte list \<Rightarrow> nat \<Rightarrow> nat \<Rightarrow> u32 option" where
  "load_word p off i = do {
     b0 \<leftarrow> rd p (off + 4 * i); b1 \<leftarrow> rd p (off + 4 * i + 1); b2 \<leftarrow> rd p (off + 4 * i + 2); b3 \<leftarrow> rd p (off + 4 * i + 3);
     Some (push_bit 24 (ucast b0) OR push_bit 16 (ucast b1) OR push_bit 8 (ucast b2) OR ucast b3) }"

fun load_words :: "byte list \<Rightarrow> nat \<Rightarrow> nat \<Rightarrow> u32 list \<Rightarrow> u32 list option" where
  "load_words p off 0 w = Some w"
| "load_words p off (Suc n) w = (case load_word p off (length w) of None \<Rightarrow> None | Some x \<Rightarrow> load_words p off n (w @ [x]))"

definition schedule_step :: "u32 list \<Rightarrow> u32 option" where
  "schedule_step w = (let i = length w in do {
     w15 \<leftarrow> rd w (i - 15); w2 \<leftarrow> rd w (i - 2); w16 \<leftarrow> rd w (i - 16); w7 \<leftarrow> rd w (i - 7);
     let s0 = ror w15 7 XOR ror w15 18 XOR drop_bit 3 w15;
         s1 = ror w2 17 XOR ror w2 19 XOR drop_bit 10 w2 in
     Some (w16 + s0 + w7 + s1) })"

fun schedule :: "nat \<Rightarrow> u32 list \<Rightarrow> u32 list option" where
  "schedule 0 w = Some w"
| "schedule (Suc n) w = (case schedule_step w of None \<Rightarrow> None | Some x \<Rightarrow> schedule n (w @ [x]))"

definition round_step :: "u32 \<Rightarrow> u32 \<Rightarrow> vars \<Rightarrow> vars" where
  "round_step ki wi v = (let
     e = ve v; a = va v;
     t1 = vh v + (ror e 6 XOR ror e 11 XOR ror e 25) + ((e AND vf v) XOR (NOT e AND vg v)) + ki + wi;
     t2 = (ror a 2 XOR ror a 13 XOR ror a 22) + ((a AND vb v) XOR (a AND vc v) XOR (vb v AND vc v)) in
     \<lparr>va = t1 + t2, vb = a, vc = vb v, vd = vc v, ve = vd v + t1, vf = e, vg = vf v, vh = vg v\<rparr>)"

fun rounds :: "u32 list \<Rightarrow> nat \<Rightarrow> nat \<Rightarrow> vars \<Rightarrow> vars option" where
  "rounds w i 0 v = Some v"
| "rounds w i (Suc n) v = do { ki \<leftarrow> rd k256 i; wi \<leftarrow> rd w i; rounds w (i + 1) n (round_step ki wi v) }"

text \<open>\<^verbatim>\<open>block(h, p)\<close>, with \<open>p\<close> a buffer and an offset.\<close>

definition block :: "vars \<Rightarrow> byte list \<Rightarrow> nat \<Rightarrow> vars option" where
  "block h p off = do {
     w \<leftarrow> load_words p off 16 [];
     w \<leftarrow> schedule 48 w;
     v \<leftarrow> rounds w 0 64 h;
     Some \<lparr>va = va h + va v, vb = vb h + vb v, vc = vc h + vc v, vd = vd h + vd v,
       ve = ve h + ve v, vf = vf h + vf v, vg = vg h + vg v, vh = vh h + vh v\<rparr> }"

definition h_init :: vars where
  "h_init = \<lparr>va = 0x6a09e667, vb = 0xbb67ae85, vc = 0x3c6ef372, vd = 0xa54ff53a,
     ve = 0x510e527f, vf = 0x9b05688c, vg = 0x1f83d9ab, vh = 0x5be0cd19\<rparr>"

text \<open>The loop over the full blocks, \<open>i\<close> from 0 to \<open>full\<close>.\<close>

fun blocks :: "vars \<Rightarrow> byte list \<Rightarrow> nat \<Rightarrow> nat \<Rightarrow> vars option" where
  "blocks h data i 0 = Some h"
| "blocks h data i (Suc n) = (case block h data i of None \<Rightarrow> None | Some h' \<Rightarrow> blocks h' data (i + 64) n)"

text \<open>A write into \<open>tail\<close>, None out of its bounds.\<close>

definition wr :: "'a list \<Rightarrow> nat \<Rightarrow> 'a \<Rightarrow> 'a list option" where
  "wr xs i x = (if i < length xs then Some (xs[i := x]) else None)"

fun put_bits :: "u64 \<Rightarrow> nat \<Rightarrow> nat \<Rightarrow> nat \<Rightarrow> byte list \<Rightarrow> byte list option" where
  "put_bits bits tlen i 0 tb = Some tb"
| "put_bits bits tlen i (Suc n) tb = (case wr tb (tlen - 1 - i) (ucast (drop_bit (8 * i) bits)) of
     None \<Rightarrow> None | Some tb \<Rightarrow> put_bits bits tlen (i + 1) n tb)"

definition tail_of :: "byte list \<Rightarrow> (byte list \<times> nat) option" where
  "tail_of data = (let
     full = length data div 64 * 64; rest = length data - full;
     bits = (word_of_nat (length data) :: u64) * 8;
     tb = replicate 128 0 in
     if length tb < rest then None
     else do {
       tb \<leftarrow> wr (take rest (drop full data) @ drop rest tb) rest 0x80;
       let tlen = (if rest + 1 + 8 \<le> 64 then 64 else 128) in do {
       tb \<leftarrow> put_bits bits tlen 0 8 tb;
       Some (tb, tlen) } })"

text \<open>\<^verbatim>\<open>%08x\<close>\<close>

definition hex8 :: "u32 \<Rightarrow> cstr" where
  "hex8 x = hex_fixed 8 (unat x)"

definition session_sha256_hex :: "byte list \<Rightarrow> cstr option" where
  "session_sha256_hex data = do {
     h \<leftarrow> blocks h_init data 0 (length data div 64);
     (tb, tlen) \<leftarrow> tail_of data;
     h \<leftarrow> block h tb 0;
     h \<leftarrow> (if tlen = 128 then block h tb 64 else Some h);
     Some (concat (map hex8 [va h, vb h, vc h, vd h, ve h, vf h, vg h, vh h])) }"

section \<open>The standard\<close>

definition sha_ch :: "u32 \<Rightarrow> u32 \<Rightarrow> u32 \<Rightarrow> u32" where "sha_ch x y z = (x AND y) XOR (NOT x AND z)"
definition sha_maj :: "u32 \<Rightarrow> u32 \<Rightarrow> u32 \<Rightarrow> u32" where "sha_maj x y z = (x AND y) XOR (x AND z) XOR (y AND z)"
definition big_sigma0 :: "u32 \<Rightarrow> u32" where "big_sigma0 x = word_rotr 2 x XOR word_rotr 13 x XOR word_rotr 22 x"
definition big_sigma1 :: "u32 \<Rightarrow> u32" where "big_sigma1 x = word_rotr 6 x XOR word_rotr 11 x XOR word_rotr 25 x"
definition sigma0 :: "u32 \<Rightarrow> u32" where "sigma0 x = word_rotr 7 x XOR word_rotr 18 x XOR drop_bit 3 x"
definition sigma1 :: "u32 \<Rightarrow> u32" where "sigma1 x = word_rotr 17 x XOR word_rotr 19 x XOR drop_bit 10 x"

text \<open>Big-endian words and the message schedule.\<close>

fun be_words :: "byte list \<Rightarrow> u32 list" where
  "be_words (b0 # b1 # b2 # b3 # bs) = (ucast b0 * 2 ^ 24 + ucast b1 * 2 ^ 16 + ucast b2 * 2 ^ 8 + ucast b3) # be_words bs"
| "be_words bs = []"

fun msg_word :: "u32 list \<Rightarrow> nat \<Rightarrow> u32" where
  "msg_word M t = (if t < 16 then M ! t
     else sigma1 (msg_word M (t - 2)) + msg_word M (t - 7) + sigma0 (msg_word M (t - 15)) + msg_word M (t - 16))"

declare msg_word.simps [simp del]

definition fips_round :: "u32 list \<Rightarrow> vars \<Rightarrow> nat \<Rightarrow> vars" where
  "fips_round M v t = (let
     t1 = vh v + big_sigma1 (ve v) + sha_ch (ve v) (vf v) (vg v) + k256 ! t + msg_word M t;
     t2 = big_sigma0 (va v) + sha_maj (va v) (vb v) (vc v) in
     \<lparr>va = t1 + t2, vb = va v, vc = vb v, vd = vc v, ve = vd v + t1, vf = ve v, vg = vf v, vh = vg v\<rparr>)"

definition fips_block :: "vars \<Rightarrow> byte list \<Rightarrow> vars" where
  "fips_block h m = (let v = foldl (fips_round (be_words m)) h [0..<64] in
     \<lparr>va = va h + va v, vb = vb h + vb v, vc = vc h + vc v, vd = vd h + vd v,
       ve = ve h + ve v, vf = vf h + vf v, vg = vg h + vg v, vh = vh h + vh v\<rparr>)"

fun fips_blocks :: "vars \<Rightarrow> byte list \<Rightarrow> vars" where
  "fips_blocks h m = (if length m < 64 then h else fips_blocks (fips_block h (take 64 m)) (drop 64 m))"

declare fips_blocks.simps [simp del]

text \<open>
  The padding: the bit 1, the smallest number of zeros that leaves room for the length, and the length in bits as 64 bits. The
  standard defines it for messages shorter than \<open>2 ^ 64\<close> bits.
\<close>

definition sha_pad :: "byte list \<Rightarrow> byte list" where
  "sha_pad m = m @ [0x80] @ replicate ((119 - length m mod 64) mod 64) 0
     @ map (\<lambda>i. word_of_nat (length m * 8 div 256 ^ (7 - i))) [0..<8]"

definition sha256 :: "byte list \<Rightarrow> byte list" where
  "sha256 m = (let h = fips_blocks h_init (sha_pad m) in
     concat (map (\<lambda>x. [word_of_nat (unat x div 2 ^ 24), word_of_nat (unat x div 2 ^ 16), word_of_nat (unat x div 2 ^ 8), word_of_nat (unat x)])
       [va h, vb h, vc h, vd h, ve h, vf h, vg h, vh h]))"

section \<open>The code computes the standard\<close>

lemma ror_rotr: "0 < n \<Longrightarrow> n < 32 \<Longrightarrow> ror x n = word_rotr n x"
proof (rule bit_word_eqI)
  fix i assume n: "0 < n" "n < 32" and "i < LENGTH(32)"
  then have i: "i < 32" by simp
  have "(n + i) mod 32 = (if n + i < 32 then n + i else n + i - 32)" using n i by (simp add: mod_if)
  then show "bit (ror x n) i = bit (word_rotr n x) i"
    using n i bit_imp_le_length [of x "n + i"] by (auto simp: ror_def bit_simps add.commute)
qed

lemmas ror_rotrs = ror_rotr [of 2] ror_rotr [of 13] ror_rotr [of 22] ror_rotr [of 6] ror_rotr [of 11] ror_rotr [of 25]
  ror_rotr [of 7] ror_rotr [of 18] ror_rotr [of 17] ror_rotr [of 19]

lemma add_or: "(\<And>n. bit a n \<Longrightarrow> bit b n \<Longrightarrow> False) \<Longrightarrow> a + b = a OR b" for a b :: u32
  by (rule disjunctive_add) blast

lemma or_bytes: "push_bit 24 (ucast b0) OR push_bit 16 (ucast b1) OR push_bit 8 (ucast b2) OR ucast b3
  = (ucast b0 * 2 ^ 24 + ucast b1 * 2 ^ 16 + ucast b2 * 2 ^ 8 + ucast b3 :: u32)" for b0 b1 b2 b3 :: byte
proof -
  have b: "bit x n \<Longrightarrow> n < 8" for x :: byte and n using bit_imp_le_length [of x n] by simp
  have 1: "push_bit 8 (ucast b2) + ucast b3 = (push_bit 8 (ucast b2) OR ucast b3 :: u32)"
    by (rule add_or) (auto simp: bit_simps dest: b)
  have 2: "push_bit 16 (ucast b1) + (push_bit 8 (ucast b2) OR ucast b3) = (push_bit 16 (ucast b1) OR push_bit 8 (ucast b2) OR ucast b3 :: u32)"
    by (rule add_or) (auto simp: bit_simps dest!: b)
  have 3: "push_bit 24 (ucast b0) + (push_bit 16 (ucast b1) OR push_bit 8 (ucast b2) OR ucast b3)
      = (push_bit 24 (ucast b0) OR push_bit 16 (ucast b1) OR push_bit 8 (ucast b2) OR ucast b3 :: u32)"
    by (rule add_or) (auto simp: bit_simps dest!: b)
  show ?thesis unfolding push_bit_eq_mult [symmetric] add.assoc 1 2 3 ..
qed

lemma load_word_sum:
  "off + 4 * i + 3 < length p \<Longrightarrow> load_word p off i = Some (ucast (p ! (off + 4 * i)) * 2 ^ 24 + ucast (p ! (off + 4 * i + 1)) * 2 ^ 16
     + ucast (p ! (off + 4 * i + 2)) * 2 ^ 8 + ucast (p ! (off + 4 * i + 3)))"
  by (simp add: load_word_def rd_def or_bytes del: semiring_norm) 

lemma be_words_drop4: "4 \<le> length bs \<Longrightarrow>
  be_words bs = (ucast (bs ! 0) * 2 ^ 24 + ucast (bs ! 1) * 2 ^ 16 + ucast (bs ! 2) * 2 ^ 8 + ucast (bs ! 3)) # be_words (drop 4 bs)"
  by (cases bs rule: be_words.cases) (simp_all add: numeral_eq_Suc)

lemma load_words_be: "off + 4 * length w + 4 * n \<le> length p \<Longrightarrow>
  load_words p off n w = Some (w @ be_words (take (4 * n) (drop (off + 4 * length w) p)))"
proof (induction p off n w rule: load_words.induct)
  case (2 p off n w)
  have "be_words (take (4 * Suc n) (drop (off + 4 * length w) p))
      = (ucast (p ! (off + 4 * length w)) * 2 ^ 24 + ucast (p ! (off + 4 * length w + 1)) * 2 ^ 16
         + ucast (p ! (off + 4 * length w + 2)) * 2 ^ 8 + ucast (p ! (off + 4 * length w + 3))) # be_words (take (4 * n) (drop (off + 4 * length w + 4) p))"
    using 2(2) by (subst be_words_drop4) (simp_all add: drop_take add.commute)
  then show ?case using 2 by (simp add: load_word_sum algebra_simps)
qed simp

lemma length_be_words: "length (be_words bs) = length bs div 4"
  by (induction bs rule: be_words.induct) auto

lemma schedule_msg: "16 \<le> n \<Longrightarrow> schedule k (map (msg_word M) [0..<n]) = Some (map (msg_word M) [0..<n + k])"
proof (induction k arbitrary: n)
  case (Suc k)
  have "schedule_step (map (msg_word M) [0..<n]) = Some (msg_word M n)"
    using Suc.prems by (subst msg_word.simps) (simp add: schedule_step_def rd_def ror_rotrs sigma0_def sigma1_def ac_simps)
  then show ?case using Suc.IH [of "Suc n"] Suc.prems by simp
qed simp

lemma schedule_block: "length M = 16 \<Longrightarrow> schedule 48 M = Some (map (msg_word M) [0..<64])"
proof -
  assume M: "length M = 16"
  have "M = map (msg_word M) [0..<16]" by (rule nth_equalityI) (simp_all add: M msg_word.simps)
  then show ?thesis using schedule_msg [of 16 48 M] by simp
qed

lemma round_fips: "round_step (k256 ! t) (msg_word M t) v = fips_round M v t"
  by (simp add: round_step_def fips_round_def ror_rotrs big_sigma0_def big_sigma1_def sha_ch_def sha_maj_def Let_def)

lemma length_k256: "length k256 = 64" by (simp add: k256_def)

lemma rounds_fips: "length w = 64 \<Longrightarrow> (\<And>t. t < 64 \<Longrightarrow> w ! t = msg_word M t) \<Longrightarrow> i + n \<le> 64 \<Longrightarrow>
  rounds w i n v = Some (foldl (fips_round M) v [i..<i + n])"
proof (induction n arbitrary: i v)
  case (Suc n)
  then show ?case by (simp add: rd_def length_k256 round_fips upt_conv_Cons del: upt_Suc)
qed simp

lemma block_fips: "off + 64 \<le> length p \<Longrightarrow> block h p off = Some (fips_block h (take 64 (drop off p)))"
  using load_words_be [of off "[]" 16 p] schedule_block [of "be_words (take 64 (drop off p))"]
    rounds_fips [of "map (msg_word (be_words (take 64 (drop off p)))) [0..<64]" _ 0 64]
  by (simp add: block_def fips_block_def Let_def length_be_words del: upt_rec_numeral)

lemma blocks_fips: "i + 64 * n \<le> length data \<Longrightarrow> blocks h data i n = Some (fips_blocks h (take (64 * n) (drop i data)))"
proof (induction n arbitrary: i h)
  case 0
  then show ?case by (simp add: fips_blocks.simps)
next
  case (Suc n)
  then show ?case by (subst fips_blocks.simps) (simp add: block_fips drop_take add.commute min_def)
qed

lemma fips_blocks_append: "64 dvd length m \<Longrightarrow> fips_blocks h (m @ m') = fips_blocks (fips_blocks h m) m'"
proof (induction h m rule: fips_blocks.induct)
  case (1 h m)
  show ?case
  proof (cases "length m < 64")
    case True
    then have "m = []" using 1(2) by (auto dest: dvd_imp_le)
    then show ?thesis by (simp add: fips_blocks.simps [of h "[]"])
  next
    case False
    then have "64 dvd length (drop 64 m)" using 1(2) by simp
    then show ?thesis using 1(1) False fips_blocks.simps [of h m] fips_blocks.simps [of h "m @ m'"] by simp
  qed
qed

lemma fips_blocks_short: "length m < 64 \<Longrightarrow> fips_blocks h m = h"
  by (simp add: fips_blocks.simps)

lemma fips_blocks_one: "length m = 64 \<Longrightarrow> fips_blocks h m = fips_block h m"
  by (subst fips_blocks.simps) (simp add: fips_blocks_short)

lemma fips_blocks_two: "length a = 64 \<Longrightarrow> length b = 64 \<Longrightarrow> fips_blocks h (a @ b) = fips_block (fips_block h a) b"
  by (simp add: fips_blocks_append fips_blocks_one)

text \<open>The padded tail.\<close>

lemma put_bits_nth: "n + i \<le> 8 \<Longrightarrow> 8 \<le> tlen \<Longrightarrow> tlen \<le> length tb \<Longrightarrow>
  \<exists>tb'. put_bits bits tlen i n tb = Some tb' \<and> length tb' = length tb
    \<and> (\<forall>k < length tb. tb' ! k = (if k + i + n < tlen \<or> tlen \<le> k + i then tb ! k else ucast (drop_bit (8 * (tlen - 1 - k)) bits)))"
proof (induction n arbitrary: i tb)
  case (Suc n)
  let ?x = "ucast (drop_bit (8 * i) bits) :: byte"
  obtain tb' where tb': "put_bits bits tlen (Suc i) n (tb[tlen - Suc i := ?x]) = Some tb'" "length tb' = length tb"
    "\<And>k. k < length tb \<Longrightarrow> tb' ! k = (if k + Suc i + n < tlen \<or> tlen \<le> k + Suc i then tb[tlen - Suc i := ?x] ! k
      else ucast (drop_bit (8 * (tlen - 1 - k)) bits))"
    using Suc.IH [of "Suc i" "tb[tlen - Suc i := ?x]"] Suc.prems by auto
  have "put_bits bits tlen i (Suc n) tb = Some tb'" using tb'(1) Suc.prems by (simp add: wr_def)
  moreover have "tb' ! k = (if k + i + Suc n < tlen \<or> tlen \<le> k + i then tb ! k else ucast (drop_bit (8 * (tlen - 1 - k)) bits))"
    if "k < length tb" for k
    using tb'(3) [OF that] that Suc.prems by (cases "k = tlen - Suc i") (auto simp: nth_list_update)
  ultimately show ?case using tb'(2) by blast
qed auto

lemma tail_pad:
  assumes "length data < 2 ^ 61"
  shows "\<exists>tb. tail_of data = Some (tb, if length data mod 64 + 1 + 8 \<le> 64 then 64 else 128) \<and> length tb = 128
    \<and> take (if length data mod 64 + 1 + 8 \<le> 64 then 64 else 128) tb = drop (length data div 64 * 64) (sha_pad data)"
proof -
  define rest where "rest = length data mod 64"
  define full where "full = length data div 64 * 64"
  define bits where "bits = (word_of_nat (length data) :: u64) * 8"
  define tlen where "tlen = (if rest + 1 + 8 \<le> 64 then 64 else 128 :: nat)"
  let ?tb = "(take rest (drop full data) @ drop rest (replicate 128 0))[rest := 0x80]"
  have len: "length data = full + rest" "rest < 64" by (simp_all add: full_def rest_def)
  have tlen: "8 \<le> tlen" "tlen \<le> length ?tb" using len by (auto simp: tlen_def)
  from put_bits_nth [of 8 0, OF _ tlen] obtain tb' where
    tb': "put_bits bits tlen 0 8 ?tb = Some tb'" "length tb' = 128"
    "\<And>k. k < 128 \<Longrightarrow> tb' ! k = (if k + 8 < tlen \<or> tlen \<le> k then ?tb ! k else ucast (drop_bit (8 * (tlen - 1 - k)) bits))"
    using len by auto
  have rest: "length data - full = rest" using len by simp
  have "tail_of data = Some (tb', tlen)"
    unfolding tail_of_def Let_def full_def [symmetric] rest bits_def [symmetric] wr_def tlen_def [symmetric]
    using tb'(1) len(2) by (simp add: len(1))
  moreover have "take tlen tb' = drop full (sha_pad data)"
  proof (rule nth_equalityI)
    have "(119 - rest) mod 64 + rest + 9 = tlen"
      using len(2) by (auto simp: tlen_def mod_if split: if_splits)
    then have zl: "(119 - length data mod 64) mod 64 + rest + 9 = tlen" by (simp add: rest_def)
    then show "length (take tlen tb') = length (drop full (sha_pad data))"
      using tb'(2) len by (simp add: sha_pad_def tlen_def)
    fix k assume "k < length (take tlen tb')"
    then have k: "k < tlen" "k < 128" using tb'(2) by auto
    have "unat bits = length data * 8"
      using assms by (simp add: bits_def unat_word_ariths unat_of_nat)
    then have b: "ucast (drop_bit (8 * j) bits) = (word_of_nat (length data * 8 div 256 ^ j) :: byte)" for j
    proof -
      have "unat (drop_bit (8 * j) bits) = drop_bit (8 * j) (unat bits)" by (rule unat_drop_bit_eq)
      also have "\<dots> = length data * 8 div 256 ^ j"
        using \<open>unat bits = length data * 8\<close> by (simp add: drop_bit_eq_div power_mult)
      finally have "unat (drop_bit (8 * j) bits) = length data * 8 div 256 ^ j" .
      then show ?thesis by (metis of_nat_unat)
    qed
    show "take tlen tb' ! k = drop full (sha_pad data) ! k"
    proof (cases "k + 8 < tlen")
      case True
      then show ?thesis
        using k tb'(3) [of k] len zl by (auto simp: sha_pad_def nth_append nth_list_update nth_Cons')
    next
      case False
      define j where "j = k + 8 - tlen"
      then have j: "k = tlen - 8 + j" "j < 8" using False k tlen(1) by auto
      define hd_part where "hd_part = drop full (data @ [0x80] @ replicate ((119 - length data mod 64) mod 64) 0)"
      have "drop full (sha_pad data) = hd_part @ map (\<lambda>i. word_of_nat (length data * 8 div 256 ^ (7 - i))) [0..<8]"
        using len(1) by (simp add: sha_pad_def hd_part_def)
      moreover have "length hd_part = tlen - 8" using len(1) zl unfolding hd_part_def length_drop length_append length_replicate list.size by linarith
      ultimately have "drop full (sha_pad data) ! k = word_of_nat (length data * 8 div 256 ^ (7 - j))"
        using j by (simp add: nth_append del: upt_rec_numeral)
      moreover have "tlen - 1 - k = 7 - j" using j tlen(1) by simp
      ultimately show ?thesis using k tb'(3) [of k] False b [of "7 - j"] by simp
    qed
  qed
  ultimately show ?thesis using tb'(2) by (auto simp: tlen_def rest_def full_def)
qed

lemma length_sha_pad: "64 dvd length (sha_pad m)"
proof -
  define r where "r = length m mod 64"
  define q where "q = length m div 64"
  have r: "length m = q * 64 + r" "r < 64" by (simp_all add: q_def r_def)
  have "(119 - r) mod 64 = (if r \<le> 55 then 55 - r else 119 - r)" using r(2) by (auto simp: mod_if)
  then have "length (sha_pad m) = q * 64 + (if r \<le> 55 then 64 else 128)"
    using r(2) unfolding sha_pad_def r_def [symmetric] by (simp add: r(1))
  then show ?thesis by simp
qed

lemma hex_fixed_split: "hex_fixed (w + 2) n = hex_fixed w (n div 256) @ hex_fixed 2 n"
  by (simp add: numeral_2_eq_2 div_mult2_eq [symmetric])

lemma hex_fixed_byte: "hex_fixed 2 (n mod 256) = hex_fixed 2 n"
  by (simp add: numeral_2_eq_2 mod_mod_cancel) (simp add: mod_mult2_eq [of n 16 16, simplified])

lemma hex8_bytes: "hex8 x = concat (map (\<lambda>b. hex_fixed 2 (unat b))
  [word_of_nat (unat x div 2 ^ 24), word_of_nat (unat x div 2 ^ 16), word_of_nat (unat x div 2 ^ 8), word_of_nat (unat x) :: byte])"
  using hex_fixed_split [of 6 "unat x"] hex_fixed_split [of 4 "unat x div 256"] hex_fixed_split [of 2 "unat x div 65536"]
  by (simp add: hex8_def unat_of_nat hex_fixed_byte div_mult2_eq [symmetric] del: hex_fixed.simps of_nat_unat)

text \<open>C14 (equivalence). The digest that names an image file is the SHA-256 of the standard, in lower-case hexadecimal, for every
  content whose length in bits fits into 64 bits; no read of the data, of the array \<open>w\<close> or of the padded tail is out of bounds.\<close>

theorem sha256_is_standard:
  assumes "length data < 2 ^ 61"
  shows "session_sha256_hex data = Some (concat (map (\<lambda>b. hex_fixed 2 (unat b)) (sha256 data)))"
proof -
  let ?full = "length data div 64 * 64"
  obtain tb where tb: "tail_of data = Some (tb, if length data mod 64 + 1 + 8 \<le> 64 then 64 else 128)" "length tb = 128"
    "take (if length data mod 64 + 1 + 8 \<le> 64 then 64 else 128) tb = drop ?full (sha_pad data)"
    using tail_pad [OF assms] by blast
  define h1 where "h1 = fips_blocks h_init (take ?full (sha_pad data))"
  have "take ?full (sha_pad data) = take ?full data" by (simp add: sha_pad_def)
  then have 1: "blocks h_init data 0 (length data div 64) = Some h1"
    using blocks_fips [of 0 "length data div 64" data h_init] by (simp add: h1_def mult.commute)
  have "?full \<le> length (sha_pad data)" by (simp add: sha_pad_def)
  then have 2: "fips_blocks h_init (sha_pad data) = fips_blocks h1 (drop ?full (sha_pad data))"
    using fips_blocks_append [of "take ?full (sha_pad data)" h_init "drop ?full (sha_pad data)"] by (simp add: h1_def)
  show ?thesis
  proof (cases "length data mod 64 + 1 + 8 \<le> 64")
    case True
    then have "fips_blocks h_init (sha_pad data) = fips_blocks h1 (take 64 tb)" using tb 2 by simp
    then have "block h1 tb 0 = Some (fips_blocks h_init (sha_pad data))"
      using tb(2) block_fips [of 0 tb h1] by (simp add: fips_blocks_one)
    then show ?thesis using True 1 tb(1) by (simp add: session_sha256_hex_def sha256_def Let_def hex8_bytes)
  next
    case False
    then have "drop ?full (sha_pad data) = tb" using tb(2,3) by simp
    then have "block (fips_block h1 (take 64 tb)) tb 64 = Some (fips_blocks h_init (sha_pad data))"
      using 2 tb(2) block_fips [of 64 tb] fips_blocks_two [of "take 64 tb" "drop 64 tb"] by simp
    then show ?thesis using False 1 tb(1,2) block_fips [of 0 tb h1]
      by (simp add: session_sha256_hex_def sha256_def Let_def hex8_bytes)
  qed
qed

lemma sha256_is_standard_witness:
  "session_sha256_hex [0x61, 0x62, 0x63] = Some (concat (map (\<lambda>b. hex_fixed 2 (unat b)) (sha256 [0x61, 0x62, 0x63])))"
  using sha256_is_standard [of "[0x61, 0x62, 0x63]"] by simp

end
