(* ===== verification/Provider_Json.thy ===== *)
theory Provider_Json
  imports Agent_Request "HOL-Library.State_Monad"
begin

text \<open>
  What the providers (\<^verbatim>\<open>libclm/provider_*.c\<close>) share: the cJSON functions on numbers and booleans, and the building of
  objects, where every created item may be NULL. A function that builds JSON is a computation on the tape of allocation outcomes;
  the simplification rules \<open>nofail\<close> run it on the empty tape, where every allocation succeeds. Then the chunks that carry
  one piece of a streamed answer, which two providers build with the same code.
\<close>

section \<open>Building JSON\<close>

type_synonym 'a mem = "(tape, 'a) state"

text \<open>
  \<open>pe_num\<close> is \<^verbatim>\<open>valuedouble\<close>, a real number here, and \<open>pe_int\<close> its conversion to \<^verbatim>\<open>int\<close>; \<open>pe_number\<close> and
  \<open>pe_bool\<close> are the items that \<^verbatim>\<open>cJSON_CreateNumber\<close> and \<^verbatim>\<open>cJSON_CreateBool\<close> make.
\<close>

record 'j provider_env =
  pe_api :: "'j cjson_api"
  pe_num :: "'j \<Rightarrow> real"
  pe_int :: "'j \<Rightarrow> int"
  pe_number :: "real \<Rightarrow> 'j"
  pe_bool :: "bool \<Rightarrow> 'j"

definition create :: "'j \<Rightarrow> 'j option mem" where
  "create j = State (\<lambda>t. cj_create t j)"

definition copy_string :: "cstr \<Rightarrow> cstr option mem" where
  "copy_string s = State (\<lambda>t. dup t s)"

text \<open>\<^verbatim>\<open>cJSON_AddItemToObject\<close> of an item just created: without the item when it is NULL.\<close>

definition put_new :: "'j cjson_api \<Rightarrow> 'j \<Rightarrow> cstr \<Rightarrow> 'j \<Rightarrow> 'j mem" where
  "put_new J ob k v = do { v \<leftarrow> create v; State_Monad.return (cj_add_opt J ob k v) }"

definition put_string :: "'j cjson_api \<Rightarrow> 'j \<Rightarrow> cstr \<Rightarrow> cstr \<Rightarrow> 'j mem" where
  "put_string J ob k s = put_new J ob k (cj_string J s)"

text \<open>\<^verbatim>\<open>cJSON_AddStringToObject\<close>, whose NULL the callers test.\<close>

definition add_string :: "'j cjson_api \<Rightarrow> 'j \<Rightarrow> cstr \<Rightarrow> cstr \<Rightarrow> 'j option mem" where
  "add_string J ob k s = State (\<lambda>t. cj_add_string J t ob k s)"

text \<open>\<^verbatim>\<open>cJSON_IsString(x) ? x->valuestring : ""\<close> of the item under a key.\<close>

definition str_or_empty :: "'j cjson_api \<Rightarrow> 'j \<Rightarrow> cstr \<Rightarrow> cstr" where
  "str_or_empty J ob k = (case get_str J ob k of None \<Rightarrow> [] | Some s \<Rightarrow> s)"

definition num_or_zero :: "'j provider_env \<Rightarrow> 'j \<Rightarrow> cstr \<Rightarrow> real" where
  "num_or_zero P ob k = (case cj_get (pe_api P) ob k of None \<Rightarrow> 0 | Some v \<Rightarrow> if cj_is_number (pe_api P) v then pe_num P v else 0)"

definition int_or_zero :: "'j provider_env \<Rightarrow> 'j \<Rightarrow> cstr \<Rightarrow> int" where
  "int_or_zero P ob k = (case cj_get (pe_api P) ob k of None \<Rightarrow> 0 | Some v \<Rightarrow> if cj_is_number (pe_api P) v then pe_int P v else 0)"

named_theorems nofail

lemma nofail_basic [nofail]:
  "run_state (create j) [] = (Some j, [])"
  "run_state (copy_string s) [] = (Some s, [])"
  "run_state (put_new J ob k v) [] = (cj_add J ob k v, [])"
  "run_state (put_string J ob k s) [] = (cj_add J ob k (cj_string J s), [])"
  "run_state (add_string J ob k s) [] = (Some (cj_add J ob k (cj_string J (c_str s))), [])"
  by (simp_all add: create_def copy_string_def put_new_def put_string_def add_string_def cj_create_def cj_add_string_def cj_add_opt_def dup_def)

section \<open>The model settings\<close>

record clm_llm =
  llm_provider :: clm_provider
  llm_api_key :: cstr
  llm_base_url :: cstr
  llm_model :: cstr
  llm_parallel_off :: bool
  llm_effort :: "cstr option"
  llm_prev_response :: "cstr option"
  llm_cache_system :: bool
  llm_response_schema :: "cstr option"

definition clm_provider_from_str :: "cstr option \<Rightarrow> clm_provider" where
  "clm_provider_from_str kind =
     (if kind = Some (lit ''ollama'') then CLM_PROVIDER_OLLAMA
      else if kind = Some (lit ''anthropic'') then CLM_PROVIDER_ANTHROPIC
      else if kind = Some (lit ''openai-responses'') then CLM_PROVIDER_OPENAI_RESPONSES
      else CLM_PROVIDER_OPENAI)"

definition clm_llm_new :: "clm_provider \<Rightarrow> cstr option \<Rightarrow> cstr option \<Rightarrow> cstr option \<Rightarrow> bool \<Rightarrow> (errno + clm_llm) mem" where
  "clm_llm_new prov key url mdl off =
     (case (key, url, mdl) of
        (Some key, Some url, Some mdl) \<Rightarrow> do {
          ok \<leftarrow> State alloc;
          if \<not> ok then State_Monad.return (Inl ENOMEM) else do {
          k \<leftarrow> copy_string key; u \<leftarrow> copy_string url; m \<leftarrow> copy_string mdl;
          State_Monad.return (case (k, u, m) of
            (Some k, Some u, Some m) \<Rightarrow> Inr \<lparr>llm_provider = prov, llm_api_key = k, llm_base_url = u, llm_model = m, llm_parallel_off = off,
               llm_effort = None, llm_prev_response = None, llm_cache_system = False, llm_response_schema = None\<rparr>
          | _ \<Rightarrow> Inl ENOMEM) } }
      | _ \<Rightarrow> State_Monad.return (Inl EINVAL))"

text \<open>A setting given as NULL or as the empty string is cleared; when the copy fails the old one stays.\<close>

definition copy_setting :: "cstr option \<Rightarrow> (errno + cstr option) mem" where
  "copy_setting v = (case v of None \<Rightarrow> State_Monad.return (Inr None)
     | Some s \<Rightarrow> if s = [] then State_Monad.return (Inr None)
       else do { r \<leftarrow> copy_string s; State_Monad.return (case r of None \<Rightarrow> Inl ENOMEM | Some s \<Rightarrow> Inr (Some s)) })"

definition clm_llm_set_effort :: "cstr option \<Rightarrow> clm_llm \<Rightarrow> ((errno + unit) \<times> clm_llm) mem" where
  "clm_llm_set_effort v llm = do { r \<leftarrow> copy_setting v;
     State_Monad.return (case r of Inl e \<Rightarrow> (Inl e, llm) | Inr v \<Rightarrow> (Inr (), llm\<lparr>llm_effort := v\<rparr>)) }"

definition clm_llm_set_response_schema :: "cstr option \<Rightarrow> clm_llm \<Rightarrow> ((errno + unit) \<times> clm_llm) mem" where
  "clm_llm_set_response_schema v llm = do { r \<leftarrow> copy_setting v;
     State_Monad.return (case r of Inl e \<Rightarrow> (Inl e, llm) | Inr v \<Rightarrow> (Inr (), llm\<lparr>llm_response_schema := v\<rparr>)) }"

text \<open>The address a request is posted to, and the path each dialect ends it with.\<close>

definition endpoint_path :: "clm_provider \<Rightarrow> cstr" where
  "endpoint_path prov = (case prov of CLM_PROVIDER_ANTHROPIC \<Rightarrow> lit ''messages''
     | CLM_PROVIDER_OPENAI_RESPONSES \<Rightarrow> lit ''responses'' | _ \<Rightarrow> lit ''chat/completions'')"

definition clm_provider_build_url :: "nat \<Rightarrow> cstr \<Rightarrow> clm_provider \<Rightarrow> cstr" where
  "clm_provider_build_url bufsz base_url prov =
     snprintf bufsz (rev (dropWhile (\<lambda>b. b = 0x2F) (rev base_url)) @ lit ''/'' @ endpoint_path prov)"

section \<open>The items of an array that is built\<close>

text \<open>An array under construction is the list of its items; \<open>array_of\<close> is the cJSON array.\<close>

definition array_of :: "'j cjson_api \<Rightarrow> 'j list \<Rightarrow> 'j" where
  "array_of J xs = foldl (cj_push J) (cj_array J) xs"

section \<open>Chunks of a streamed answer\<close>

text \<open>\<^verbatim>\<open>{"choices":[choice]}\<close>\<close>

definition one_choice :: "'j cjson_api \<Rightarrow> 'j \<Rightarrow> 'j" where
  "one_choice J c = cj_add J (cj_object J) (lit ''choices'') (array_of J [c])"

definition one_delta :: "'j cjson_api \<Rightarrow> 'j \<Rightarrow> 'j" where
  "one_delta J d = one_choice J (cj_add J (cj_object J) (lit ''delta'') d)"

definition make_delta_chunk :: "'j cjson_api \<Rightarrow> cstr option \<Rightarrow> cstr option \<Rightarrow> 'j option mem" where
  "make_delta_chunk J key val = do {
     out \<leftarrow> create (cj_object J);
     if out = None then State_Monad.return None else do {
     choices \<leftarrow> create (cj_array J); choice0 \<leftarrow> create (cj_object J); delta \<leftarrow> create (cj_object J);
     if choices = None \<or> choice0 = None \<or> delta = None then State_Monad.return None else do {
     d \<leftarrow> (case key of None \<Rightarrow> State_Monad.return (cj_object J)
       | Some k \<Rightarrow> put_string J (cj_object J) k (case val of None \<Rightarrow> [] | Some v \<Rightarrow> v));
     State_Monad.return (Some (one_delta J d)) } } }"

definition make_tool_delta_chunk :: "'j provider_env \<Rightarrow> int \<Rightarrow> cstr option \<Rightarrow> cstr option \<Rightarrow> cstr option \<Rightarrow> 'j option mem" where
  "make_tool_delta_chunk P ix i nm frag = (let J = pe_api P in do {
     out \<leftarrow> create (cj_object J); choices \<leftarrow> create (cj_array J); choice0 \<leftarrow> create (cj_object J); delta \<leftarrow> create (cj_object J);
     tool_calls \<leftarrow> create (cj_array J); tc \<leftarrow> create (cj_object J); func \<leftarrow> create (cj_object J);
     if out = None \<or> choices = None \<or> choice0 = None \<or> delta = None \<or> tool_calls = None \<or> tc = None \<or> func = None
     then State_Monad.return None else do {
     tc \<leftarrow> put_new J (cj_object J) (lit ''index'') (pe_number P (real_of_int ix));
     tc \<leftarrow> (case i of None \<Rightarrow> State_Monad.return tc | Some s \<Rightarrow> put_string J tc (lit ''id'') s);
     func \<leftarrow> (case nm of None \<Rightarrow> State_Monad.return (cj_object J) | Some s \<Rightarrow> put_string J (cj_object J) (lit ''name'') s);
     func \<leftarrow> put_string J func (lit ''arguments'') (case frag of None \<Rightarrow> [] | Some s \<Rightarrow> s);
     State_Monad.return (Some (one_delta J (cj_add J (cj_object J) (lit ''tool_calls'') (array_of J [cj_add J tc (lit ''function'') func])))) } })"

section \<open>The laws\<close>

lemma lit_inj: "lit s = lit s' \<longleftrightarrow> s = s'"
proof
  assume eq: "lit s = lit s'"
  have "inj (of_char :: char \<Rightarrow> byte)"
  proof (rule injI)
    fix c d :: char assume "of_char c = (of_char d :: byte)"
    moreover have "unat (of_char e :: byte) = of_char e" for e :: char
    proof -
      have "(of_char e :: byte) = word_of_nat (of_char e)" by (rule of_nat_of_char [symmetric])
      then show ?thesis by (simp add: unat_of_nat)
    qed
    ultimately have "(of_char c :: nat) = of_char d" by metis
    then show "c = d" using inj_of_char [where 'a = nat] by (simp add: inj_eq)
  qed
  then show "s = s'" using eq by (simp add: lit_def inj_map_eq_map)
qed simp

lemma lit_empty: "[] = lit s \<longleftrightarrow> s = []" "lit s = [] \<longleftrightarrow> s = []"
  by (cases s; simp)+

lemmas lits = lit_inj lit_empty
declare lit_Cons [simp del]

text \<open>A cJSON item has one type. Integers up to \<open>2 ^ 53\<close> are kept exactly, and \<^verbatim>\<open>int\<close> is that of C.\<close>

locale cjson_types = cjson_laws J for J :: "'j cjson_api" +
  assumes string_not_array: "\<not> cj_is_array J (cj_string J s)"
    and array_not_string: "cj_is_array J a \<Longrightarrow> \<not> cj_is_string J a"

locale provider_laws = cjson_types "pe_api P" for P :: "'j provider_env" +
  assumes number_is_number: "cj_is_number (pe_api P) (pe_number P x)"
    and number_int: "\<bar>n\<bar> < 2 ^ 31 \<Longrightarrow> pe_int P (pe_number P (real_of_int n)) = n"
    and number_num: "\<bar>n\<bar> \<le> 2 ^ 53 \<Longrightarrow> pe_num P (pe_number P (real_of_int n)) = real_of_int n"

definition json_provider :: "json provider_env" where
  "json_provider = \<lparr>pe_api = json_api, pe_num = (\<lambda>j. case j of JNumber n \<Rightarrow> real_of_int n | _ \<Rightarrow> 0),
     pe_int = (\<lambda>j. case j of JNumber n \<Rightarrow> n | _ \<Rightarrow> 0), pe_number = (\<lambda>x. JNumber \<lfloor>x\<rfloor>), pe_bool = (\<lambda>b. JNumber (of_bool b))\<rparr>"

interpretation json_types: cjson_types json_api
  by unfold_locales (auto simp: json_api_def split: json.splits)

interpretation json_provider: provider_laws json_provider
proof -
  have "cjson_types (pe_api json_provider)" using json_types.cjson_types_axioms by (simp add: json_provider_def)
  moreover have "provider_laws_axioms json_provider"
    by standard (auto simp: json_provider_def json_api_def split: json.splits)
  ultimately show "provider_laws json_provider" by (rule provider_laws.intro)
qed

text \<open>The laws say nothing of the parser and the printer, so these can be any.\<close>

definition json_io :: "(cstr \<Rightarrow> json option) \<Rightarrow> (json \<Rightarrow> cstr option) \<Rightarrow> json provider_env" where
  "json_io parse print = json_provider\<lparr>pe_api := json_api\<lparr>cj_parse := parse, cj_print := print\<rparr>\<rparr>"

lemma json_io_laws: "provider_laws (json_io parse print)"
proof -
  have 1: "cjson_laws (J\<lparr>cj_parse := parse, cj_print := print\<rparr>)" if "cjson_laws J" for J :: "json cjson_api"
    using that by (simp add: cjson_laws_def)
  have "cjson_types (pe_api (json_io parse print))"
    using 1 [OF json.cjson_laws_axioms] json_types.cjson_types_axioms by (simp add: cjson_types_def cjson_types_axioms_def json_io_def)
  moreover have "provider_laws_axioms (json_io parse print)"
    using json_provider.provider_laws_axioms by (simp add: provider_laws_def provider_laws_axioms_def json_io_def json_provider_def)
  ultimately show ?thesis by (rule provider_laws.intro)
qed

context cjson_laws
begin

lemma array_of_items [simp]: "cj_items J (array_of J xs) = xs" "cj_is_array J (array_of J xs)"
  by (simp_all add: array_of_def items_foldl is_array_foldl array_laws)

lemma push_array_of [simp]: "cj_push J (array_of J xs) x = array_of J (xs @ [x])"
  by (simp add: array_of_def)

lemma get_str_string: "cj_get J ob k = Some (cj_string J s) \<Longrightarrow> get_str J ob k = Some s"
  by (simp add: get_str_def string_value is_string_string)

lemma get_str_put_other: "k \<noteq> k' \<Longrightarrow> get_str J (cj_put J ob k v) k' = get_str J ob k'"
  by (simp add: get_str_def get_put_other)

lemma get_str_add_other: "cj_is_object J ob \<Longrightarrow> k \<noteq> k' \<Longrightarrow> get_str J (cj_add J ob k v) k' = get_str J ob k'"
  by (simp add: get_str_def get_add_other)

lemma get_str_add_same: "cj_is_object J ob \<Longrightarrow> cj_get J ob k = None \<Longrightarrow> get_str J (cj_add J ob k (cj_string J s)) k = Some s"
  by (simp add: get_str_string get_add_same)

lemma get_str_empty: "get_str J (cj_object J) k = None"
  by (simp add: get_str_def get_empty)

lemmas str_laws = get_str_put_other get_str_add_other get_str_add_same get_str_empty

end

end
