(* ===== verification/Anthropic_Request.thy ===== *)
theory Anthropic_Request
  imports Provider_Json
begin

text \<open>
  The request side of \<^verbatim>\<open>libclm/provider_anthropic.c\<close>: the canonical messages become messages of content blocks, system messages
  go into a field of their own, the results of one batch of tool calls share one user message, and cache breakpoints are set. The
  messages under construction are the list of the items of the array \<^verbatim>\<open>out\<close>; a change through the pointer to the last item is the
  list with its last item replaced.
\<close>

section \<open>Blocks\<close>

definition CLM_ANTHROPIC_MAX_TOKENS :: int where "CLM_ANTHROPIC_MAX_TOKENS = 64000"

definition append_system_text :: "cstr option \<Rightarrow> cstr \<Rightarrow> cstr option mem" where
  "append_system_text sys txt =
     copy_string (case sys of None \<Rightarrow> txt | Some s \<Rightarrow> (if s \<noteq> [] then s @ [0x0A, 0x0A] @ txt else txt))"

definition tool_call_to_tool_use :: "'j cjson_api \<Rightarrow> 'j \<Rightarrow> 'j option mem" where
  "tool_call_to_tool_use J tc = do {
     block \<leftarrow> create (cj_object J);
     case block of None \<Rightarrow> State_Monad.return None
     | Some block \<Rightarrow> do {
       block \<leftarrow> put_string J block (lit ''type'') (lit ''tool_use'');
       block \<leftarrow> put_string J block (lit ''id'') (str_or_empty J tc (lit ''id''));
       let func = cj_get J tc (lit ''function'');
       block \<leftarrow> put_string J block (lit ''name'') (case func of None \<Rightarrow> [] | Some f \<Rightarrow> str_or_empty J f (lit ''name''));
       let args = Option.bind func (\<lambda>f. get_str J f (lit ''arguments''));
       input \<leftarrow> (case Option.bind args (cj_parse J) of
           Some i \<Rightarrow> if cj_is_object J i then State_Monad.return (Some i) else create (cj_object J)
         | None \<Rightarrow> create (cj_object J));
       State_Monad.return (case input of None \<Rightarrow> None | Some i \<Rightarrow> Some (cj_add J block (lit ''input'') i)) } }"

definition last_item :: "'j list \<Rightarrow> 'j option" where
  "last_item xs = (if xs = [] then None else Some (last xs))"

definition is_tool_result_carrier :: "'j cjson_api \<Rightarrow> 'j option \<Rightarrow> bool" where
  "is_tool_result_carrier J msg =
     (case msg of None \<Rightarrow> False
      | Some m \<Rightarrow>
        if get_str J m (lit ''role'') \<noteq> Some (lit ''user'') then False
        else case cj_get J m (lit ''content'') of None \<Rightarrow> False
        | Some c \<Rightarrow> if \<not> cj_is_array J c then False
          else case array_head J c of None \<Rightarrow> False
          | Some b \<Rightarrow> get_str J b (lit ''type'') = Some (lit ''tool_result''))"

text \<open>The position of the first comma, \<^verbatim>\<open>strchr(url, ',')\<close>.\<close>

definition comma_at :: "cstr \<Rightarrow> nat option" where
  "comma_at url = find_sub [0x2C] url"

definition image_source :: "'j cjson_api \<Rightarrow> 'j \<Rightarrow> cstr \<Rightarrow> cstr option \<Rightarrow> 'j option mem" where
  "image_source J src url file_id =
     (case file_id of
        Some f \<Rightarrow> do {
          src \<leftarrow> add_string J src (lit ''type'') (lit ''file'');
          case src of None \<Rightarrow> State_Monad.return None | Some src \<Rightarrow> add_string J src (lit ''file_id'') f }
      | None \<Rightarrow>
        (case find_sub (lit '';base64,'') url of
           Some semi \<Rightarrow>
             if starts_with (lit ''data:'') url \<and> comma_at url = Some (semi + 7) then do {
               mt \<leftarrow> copy_string (take (semi - 5) (drop 5 url));
               case mt of None \<Rightarrow> State_Monad.return None
               | Some mt \<Rightarrow> do {
                 src \<leftarrow> add_string J src (lit ''type'') (lit ''base64'');
                 case src of None \<Rightarrow> State_Monad.return None
                 | Some src \<Rightarrow> do {
                   src \<leftarrow> add_string J src (lit ''media_type'') mt;
                   case src of None \<Rightarrow> State_Monad.return None
                   | Some src \<Rightarrow> add_string J src (lit ''data'') (drop (semi + 8) url) } } }
             else do {
               src \<leftarrow> add_string J src (lit ''type'') (lit ''url'');
               case src of None \<Rightarrow> State_Monad.return None | Some src \<Rightarrow> add_string J src (lit ''url'') url }
         | None \<Rightarrow> do {
             src \<leftarrow> add_string J src (lit ''type'') (lit ''url'');
             case src of None \<Rightarrow> State_Monad.return None | Some src \<Rightarrow> add_string J src (lit ''url'') url }))"

definition image_block :: "'j cjson_api \<Rightarrow> cstr \<Rightarrow> cstr option \<Rightarrow> 'j option mem" where
  "image_block J url file_id = do {
     block \<leftarrow> create (cj_object J); src \<leftarrow> create (cj_object J);
     case (block, src) of
       (Some block, Some src) \<Rightarrow> do {
         src \<leftarrow> image_source J src url file_id;
         case src of None \<Rightarrow> State_Monad.return None
         | Some src \<Rightarrow> do {
           block \<leftarrow> add_string J block (lit ''type'') (lit ''image'');
           State_Monad.return (map_option (\<lambda>b. cj_add J b (lit ''source'') src) block) } }
     | _ \<Rightarrow> State_Monad.return None }"

text \<open>A text block, NULL when out of memory.\<close>

definition text_block :: "'j cjson_api \<Rightarrow> cstr \<Rightarrow> 'j option mem" where
  "text_block J txt = do {
     b \<leftarrow> create (cj_object J);
     case b of None \<Rightarrow> State_Monad.return None
     | Some b \<Rightarrow> do {
       b \<leftarrow> add_string J b (lit ''type'') (lit ''text'');
       case b of None \<Rightarrow> State_Monad.return None | Some b \<Rightarrow> add_string J b (lit ''text'') txt } }"

text \<open>What becomes of one part: nothing, or a block, or an error.\<close>

definition part_block :: "'j cjson_api \<Rightarrow> 'j \<Rightarrow> (unit + 'j option) mem" where
  "part_block J p =
     (if cj_get_string J p (lit ''type'') = Some (lit ''text'') then
        (case cj_get_string J p (lit ''text'') of None \<Rightarrow> State_Monad.return (Inr None)
         | Some t \<Rightarrow> if t = [] then State_Monad.return (Inr None)
           else do { b \<leftarrow> text_block J t; State_Monad.return (case b of None \<Rightarrow> Inl () | Some b \<Rightarrow> Inr (Some b)) })
      else if cj_get_string J p (lit ''type'') = Some (lit ''image_url'') then
        (case cj_get J p (lit ''image_url'') of None \<Rightarrow> State_Monad.return (Inr None)
         | Some iu \<Rightarrow>
           case cj_get_string J iu (lit ''url'') of None \<Rightarrow> State_Monad.return (Inr None)
           | Some url \<Rightarrow> do { b \<leftarrow> image_block J url (cj_get_string J iu (lit ''file_id''));
               State_Monad.return (case b of None \<Rightarrow> Inl () | Some b \<Rightarrow> Inr (Some b)) })
      else State_Monad.return (Inr None))"

fun append_part_blocks :: "'j cjson_api \<Rightarrow> 'j list \<Rightarrow> 'j list \<Rightarrow> (unit + 'j list) mem" where
  "append_part_blocks J blocks [] = State_Monad.return (Inr blocks)"
| "append_part_blocks J blocks (p # ps) = do {
     r \<leftarrow> part_block J p;
     case r of Inl _ \<Rightarrow> State_Monad.return (Inl ())
     | Inr None \<Rightarrow> append_part_blocks J blocks ps
     | Inr (Some b) \<Rightarrow> append_part_blocks J (blocks @ [b]) ps }"

definition anth_convert_content :: "'j cjson_api \<Rightarrow> 'j option \<Rightarrow> 'j option mem" where
  "anth_convert_content J jc =
     (case jc of
        Some c \<Rightarrow>
          if cj_is_array J c then do {
            arr \<leftarrow> create (cj_array J);
            case arr of None \<Rightarrow> State_Monad.return None
            | Some _ \<Rightarrow> do {
              r \<leftarrow> append_part_blocks J [] (cj_items J c);
              State_Monad.return (case r of Inl _ \<Rightarrow> None | Inr bs \<Rightarrow> Some (array_of J bs)) } }
          else create (cj_string J (if cj_is_string J c then (case cj_string_value J c of None \<Rightarrow> [] | Some s \<Rightarrow> s) else []))
      | None \<Rightarrow> create (cj_string J []))"

definition append_text_block :: "'j cjson_api \<Rightarrow> 'j list \<Rightarrow> cstr option \<Rightarrow> (unit + 'j list) mem" where
  "append_text_block J blocks txt =
     (case txt of None \<Rightarrow> State_Monad.return (Inr blocks)
      | Some t \<Rightarrow> if t = [] then State_Monad.return (Inr blocks)
        else do { b \<leftarrow> text_block J t; State_Monad.return (case b of None \<Rightarrow> Inl () | Some b \<Rightarrow> Inr (blocks @ [b])) })"

definition append_queued_user :: "'j cjson_api \<Rightarrow> 'j \<Rightarrow> 'j option \<Rightarrow> (unit + 'j) mem" where
  "append_queued_user J carrier jc =
     (let blocks = (case cj_get J carrier (lit ''content'') of None \<Rightarrow> [] | Some c \<Rightarrow> cj_items J c) in do {
       r \<leftarrow> (case jc of
           Some c \<Rightarrow> if cj_is_array J c then append_part_blocks J blocks (cj_items J c) else append_text_block J blocks (cj_string_value J c)
         | None \<Rightarrow> append_text_block J blocks None);
       State_Monad.return (case r of Inl _ \<Rightarrow> Inl () | Inr bs \<Rightarrow> Inr (cj_put J carrier (lit ''content'') (array_of J bs))) })"

section \<open>Messages\<close>

text \<open>The carrier of a batch of results: the last message, if it is one, or a new one.\<close>

definition result_carrier :: "'j cjson_api \<Rightarrow> 'j list \<Rightarrow> ('j list \<times> 'j) option mem" where
  "result_carrier J out =
     (case last_item out of
        Some l \<Rightarrow> if is_tool_result_carrier J (Some l) then State_Monad.return (Some (butlast out, l)) else do {
          c \<leftarrow> create (cj_object J);
          case c of None \<Rightarrow> State_Monad.return None
          | Some c \<Rightarrow> do { c \<leftarrow> put_string J c (lit ''role'') (lit ''user''); arr \<leftarrow> create (cj_array J);
              State_Monad.return (map_option (\<lambda>a. (out, cj_add J c (lit ''content'') a)) arr) } }
      | None \<Rightarrow> do {
          c \<leftarrow> create (cj_object J);
          case c of None \<Rightarrow> State_Monad.return None
          | Some c \<Rightarrow> do { c \<leftarrow> put_string J c (lit ''role'') (lit ''user''); arr \<leftarrow> create (cj_array J);
              State_Monad.return (map_option (\<lambda>a. (out, cj_add J c (lit ''content'') a)) arr) } })"

definition tool_result_block :: "'j cjson_api \<Rightarrow> 'j \<Rightarrow> 'j option mem" where
  "tool_result_block J m = do {
     block \<leftarrow> create (cj_object J);
     case block of None \<Rightarrow> State_Monad.return None
     | Some b \<Rightarrow> do {
       b \<leftarrow> put_string J b (lit ''type'') (lit ''tool_result'');
       b \<leftarrow> put_string J b (lit ''tool_use_id'') (str_or_empty J m (lit ''tool_call_id''));
       c \<leftarrow> anth_convert_content J (cj_get J m (lit ''content''));
       State_Monad.return (Some (cj_add_opt J b (lit ''content'') c)) } }"

definition add_result :: "'j cjson_api \<Rightarrow> 'j \<Rightarrow> 'j list \<Rightarrow> 'j list option mem" where
  "add_result J m out = do {
     r \<leftarrow> result_carrier J out;
     case r of None \<Rightarrow> State_Monad.return None
     | Some (before, carrier) \<Rightarrow> do {
       block \<leftarrow> tool_result_block J m;
       State_Monad.return (case block of None \<Rightarrow> None
         | Some b \<Rightarrow> Some (before @ [cj_put J carrier (lit ''content'')
             (case cj_get J carrier (lit ''content'') of None \<Rightarrow> array_of J [b] | Some arr \<Rightarrow> cj_push J arr b)])) } }"

fun tool_use_blocks :: "'j cjson_api \<Rightarrow> 'j list \<Rightarrow> 'j list \<Rightarrow> 'j list mem" where
  "tool_use_blocks J blocks [] = State_Monad.return blocks"
| "tool_use_blocks J blocks (tc # tcs) = do {
     b \<leftarrow> tool_call_to_tool_use J tc;
     tool_use_blocks J (case b of None \<Rightarrow> blocks | Some b \<Rightarrow> blocks @ [b]) tcs }"

definition calls_blocks :: "'j cjson_api \<Rightarrow> cstr option \<Rightarrow> 'j list \<Rightarrow> 'j option mem" where
  "calls_blocks J txt tcs = do {
     arr \<leftarrow> create (cj_array J);
     case arr of None \<Rightarrow> State_Monad.return None
     | Some _ \<Rightarrow> do {
       blocks \<leftarrow> (case txt of None \<Rightarrow> State_Monad.return []
         | Some t \<Rightarrow> if t = [] then State_Monad.return []
           else do {
             tb \<leftarrow> create (cj_object J);
             case tb of None \<Rightarrow> State_Monad.return []
             | Some tb \<Rightarrow> do { tb \<leftarrow> put_string J tb (lit ''type'') (lit ''text''); tb \<leftarrow> put_string J tb (lit ''text'') t;
                 State_Monad.return [tb] } });
       blocks \<leftarrow> tool_use_blocks J blocks tcs;
       State_Monad.return (Some (array_of J blocks)) } }"

definition has_calls :: "'j cjson_api \<Rightarrow> 'j \<Rightarrow> 'j list option" where
  "has_calls J m = (case cj_get J m (lit ''tool_calls'') of None \<Rightarrow> None
     | Some a \<Rightarrow> if cj_is_array J a \<and> cj_items J a \<noteq> [] then Some (cj_items J a) else None)"

definition plain_message :: "'j cjson_api \<Rightarrow> 'j \<Rightarrow> 'j option mem" where
  "plain_message J m = do {
     out_msg \<leftarrow> create (cj_object J);
     case out_msg of None \<Rightarrow> State_Monad.return None
     | Some om \<Rightarrow> do {
       om \<leftarrow> put_string J om (lit ''role'') (str_or_empty J m (lit ''role''));
       case has_calls J m of
         Some tcs \<Rightarrow> do { bs \<leftarrow> calls_blocks J (get_str J m (lit ''content'')) tcs;
           State_Monad.return (map_option (cj_add J om (lit ''content'')) bs) }
       | None \<Rightarrow> do { c \<leftarrow> anth_convert_content J (cj_get J m (lit ''content''));
           State_Monad.return (Some (cj_add_opt J om (lit ''content'') c)) } } }"

definition convert_message :: "'j cjson_api \<Rightarrow> 'j \<Rightarrow> cstr option \<Rightarrow> 'j list \<Rightarrow> (cstr option \<times> 'j list) option mem" where
  "convert_message J m sys out =
     (let role = str_or_empty J m (lit ''role''); jcontent = cj_get J m (lit ''content'') in
      if role = lit ''system'' then
        (case get_str J m (lit ''content'') of None \<Rightarrow> State_Monad.return (Some (sys, out))
         | Some t \<Rightarrow> do { r \<leftarrow> append_system_text sys t;
             State_Monad.return (case r of None \<Rightarrow> None | Some s \<Rightarrow> Some (Some s, out)) })
      else if role = lit ''tool'' then do { r \<leftarrow> add_result J m out; State_Monad.return (map_option (Pair sys) r) }
      else if role = lit ''user'' \<and> is_tool_result_carrier J (last_item out) then do {
        r \<leftarrow> append_queued_user J (last out) jcontent;
        State_Monad.return (case r of Inl _ \<Rightarrow> None | Inr c \<Rightarrow> Some (sys, butlast out @ [c])) }
      else do { r \<leftarrow> plain_message J m; State_Monad.return (map_option (\<lambda>x. (sys, out @ [x])) r) })"

fun convert_from :: "'j cjson_api \<Rightarrow> 'j list \<Rightarrow> cstr option \<Rightarrow> 'j list \<Rightarrow> (cstr option \<times> 'j list) option mem" where
  "convert_from J [] sys out = State_Monad.return (Some (sys, out))"
| "convert_from J (m # ms) sys out = do {
     r \<leftarrow> convert_message J m sys out;
     case r of None \<Rightarrow> State_Monad.return None | Some (sys, out) \<Rightarrow> convert_from J ms sys out }"

definition anth_convert_messages :: "'j cjson_api \<Rightarrow> 'j list \<Rightarrow> (cstr option \<times> 'j list) option mem" where
  "anth_convert_messages J ms = do {
     arr \<leftarrow> create (cj_array J);
     if arr = None then State_Monad.return None else convert_from J ms None [] }"

section \<open>Tools\<close>

definition anth_convert_tool :: "'j cjson_api \<Rightarrow> 'j \<Rightarrow> 'j option mem" where
  "anth_convert_tool J func = do {
     ob \<leftarrow> create (cj_object J);
     case ob of None \<Rightarrow> State_Monad.return None
     | Some ob \<Rightarrow> do {
       ob \<leftarrow> put_string J ob (lit ''type'') (lit ''custom'');
       ob \<leftarrow> put_string J ob (lit ''name'') (str_or_empty J func (lit ''name''));
       ob \<leftarrow> put_string J ob (lit ''description'') (str_or_empty J func (lit ''description''));
       ps \<leftarrow> (case cj_get J func (lit ''parameters'') of Some p \<Rightarrow> State_Monad.return (Some p) | None \<Rightarrow> create (cj_object J));
       State_Monad.return (Some (cj_add_opt J ob (lit ''input_schema'') ps)) } }"

fun anth_tools_from :: "'j cjson_api \<Rightarrow> 'j list \<Rightarrow> 'j list \<Rightarrow> 'j list option mem" where
  "anth_tools_from J [] out = State_Monad.return (Some out)"
| "anth_tools_from J (t # ts) out =
     (case cj_get J t (lit ''function'') of None \<Rightarrow> anth_tools_from J ts out
      | Some func \<Rightarrow> do {
          r \<leftarrow> anth_convert_tool J func;
          case r of None \<Rightarrow> State_Monad.return None | Some x \<Rightarrow> anth_tools_from J ts (out @ [x]) })"

definition anth_convert_tools :: "'j cjson_api \<Rightarrow> 'j option \<Rightarrow> 'j list option mem" where
  "anth_convert_tools J tools = do {
     arr \<leftarrow> create (cj_array J);
     if arr = None then State_Monad.return None
     else anth_tools_from J (case tools of None \<Rightarrow> [] | Some a \<Rightarrow> cj_items J a) [] }"

section \<open>Cache breakpoints\<close>

definition make_cache_control :: "'j cjson_api \<Rightarrow> 'j option mem" where
  "make_cache_control J = do {
     cc \<leftarrow> create (cj_object J);
     case cc of None \<Rightarrow> State_Monad.return None
     | Some cc \<Rightarrow> do { cc \<leftarrow> put_string J cc (lit ''type'') (lit ''ephemeral''); State_Monad.return (Some cc) } }"

definition block_is_cacheable :: "'j cjson_api \<Rightarrow> 'j \<Rightarrow> bool" where
  "block_is_cacheable J block =
     (case get_str J block (lit ''type'') of None \<Rightarrow> False
      | Some ty \<Rightarrow> if ty \<noteq> lit ''text'' then True
        else case get_str J block (lit ''text'') of None \<Rightarrow> False | Some t \<Rightarrow> t \<noteq> [])"

text \<open>The breakpoint on the last of the given blocks, the content of a message.\<close>

definition mark_blocks :: "'j cjson_api \<Rightarrow> 'j \<Rightarrow> 'j list \<Rightarrow> 'j mem" where
  "mark_blocks J m blocks = do {
     cc \<leftarrow> make_cache_control J;
     State_Monad.return (case cc of None \<Rightarrow> m
       | Some cc \<Rightarrow> cj_put J m (lit ''content'') (array_of J (butlast blocks @ [cj_add J (last blocks) (lit ''cache_control'') cc]))) }"

text \<open>The loop runs from the last message to the first, so the argument is the reversed list.\<close>

fun mark_rev :: "'j cjson_api \<Rightarrow> 'j list \<Rightarrow> 'j list mem" where
  "mark_rev J [] = State_Monad.return []"
| "mark_rev J (m # ms) =
     (case cj_get J m (lit ''content'') of None \<Rightarrow> do { ms \<leftarrow> mark_rev J ms; State_Monad.return (m # ms) }
      | Some c \<Rightarrow>
        if cj_is_string J c then
          (let s = (case cj_string_value J c of None \<Rightarrow> [] | Some s \<Rightarrow> s) in
           if s = [] then do { ms \<leftarrow> mark_rev J ms; State_Monad.return (m # ms) }
           else do {
             blocks \<leftarrow> create (cj_array J); tblock \<leftarrow> create (cj_object J);
             case (blocks, tblock) of
               (Some _, Some tb) \<Rightarrow> do {
                 tb \<leftarrow> put_string J tb (lit ''type'') (lit ''text''); tb \<leftarrow> put_string J tb (lit ''text'') s;
                 let m = cj_put J m (lit ''content'') (array_of J [tb]);
                 if block_is_cacheable J tb then do { m \<leftarrow> mark_blocks J m [tb]; State_Monad.return (m # ms) }
                 else do { ms \<leftarrow> mark_rev J ms; State_Monad.return (m # ms) } }
             | _ \<Rightarrow> State_Monad.return (m # ms) })
        else if cj_is_array J c \<and> cj_items J c \<noteq> [] \<and> block_is_cacheable J (last (cj_items J c)) then do {
          m \<leftarrow> mark_blocks J m (cj_items J c); State_Monad.return (m # ms) }
        else do { ms \<leftarrow> mark_rev J ms; State_Monad.return (m # ms) })"

definition mark_history_breakpoint :: "'j cjson_api \<Rightarrow> 'j list \<Rightarrow> 'j list mem" where
  "mark_history_breakpoint J ms = do { r \<leftarrow> mark_rev J (rev ms); State_Monad.return (rev r) }"

definition system_blocks :: "'j cjson_api \<Rightarrow> cstr \<Rightarrow> 'j option mem" where
  "system_blocks J txt =
     (if txt = [] then State_Monad.return None else do {
        arr \<leftarrow> create (cj_array J); block \<leftarrow> create (cj_object J);
        case (arr, block) of
          (Some _, Some b) \<Rightarrow> do {
            b \<leftarrow> put_string J b (lit ''type'') (lit ''text''); b \<leftarrow> put_string J b (lit ''text'') txt;
            cc \<leftarrow> make_cache_control J;
            State_Monad.return (Some (array_of J [cj_add_opt J b (lit ''cache_control'') cc])) }
        | _ \<Rightarrow> State_Monad.return None })"

section \<open>The request\<close>

definition output_config :: "'j cjson_api \<Rightarrow> clm_llm \<Rightarrow> 'j \<Rightarrow> 'j mem" where
  "output_config J llm req =
     (if llm_effort llm = None \<and> llm_response_schema llm = None then State_Monad.return req else do {
        oc \<leftarrow> create (cj_object J);
        case oc of None \<Rightarrow> State_Monad.return req
        | Some oc \<Rightarrow> do {
          oc \<leftarrow> (case llm_effort llm of None \<Rightarrow> State_Monad.return oc | Some e \<Rightarrow> put_string J oc (lit ''effort'') e);
          oc \<leftarrow> (case llm_response_schema llm of None \<Rightarrow> State_Monad.return oc
            | Some sc \<Rightarrow> do {
                fmt \<leftarrow> create (cj_object J);
                case (cj_parse J sc, fmt) of
                  (Some schema, Some fmt) \<Rightarrow> do {
                    fmt \<leftarrow> put_string J fmt (lit ''type'') (lit ''json_schema'');
                    State_Monad.return (cj_add J oc (lit ''format'') (cj_add J fmt (lit ''schema'') schema)) }
                | _ \<Rightarrow> State_Monad.return oc });
          State_Monad.return (cj_add J req (lit ''output_config'') oc) } })"

definition anth_tools_field :: "'j provider_env \<Rightarrow> clm_llm \<Rightarrow> 'j list \<Rightarrow> 'j \<Rightarrow> 'j mem" where
  "anth_tools_field P llm tools req = (let J = pe_api P in
     if tools = [] then State_Monad.return req
     else let req = cj_add J req (lit ''tools'') (array_of J tools) in
       if \<not> llm_parallel_off llm then State_Monad.return req else do {
         tc \<leftarrow> create (cj_object J);
         case tc of None \<Rightarrow> State_Monad.return req
         | Some tc \<Rightarrow> do {
           tc \<leftarrow> put_string J tc (lit ''type'') (lit ''auto'');
           tc \<leftarrow> put_new J tc (lit ''disable_parallel_tool_use'') (pe_bool P True);
           State_Monad.return (cj_add J req (lit ''tool_choice'') tc) } })"

definition anthropic_build_request :: "'j provider_env \<Rightarrow> clm_llm \<Rightarrow> 'j list \<Rightarrow> 'j option \<Rightarrow> bool \<Rightarrow> 'j option mem" where
  "anthropic_build_request P llm ms tools stream = (let J = pe_api P in do {
     r \<leftarrow> anth_convert_messages J ms;
     case r of None \<Rightarrow> State_Monad.return None
     | Some (sys, out) \<Rightarrow> do {
       ts \<leftarrow> anth_convert_tools J tools;
       case ts of None \<Rightarrow> State_Monad.return None
       | Some ts \<Rightarrow> do {
         req \<leftarrow> create (cj_object J);
         case req of None \<Rightarrow> State_Monad.return None
         | Some req \<Rightarrow> do {
           req \<leftarrow> put_string J req (lit ''model'') (llm_model llm);
           req \<leftarrow> (case sys of None \<Rightarrow> State_Monad.return req
             | Some s \<Rightarrow> do {
                 sb \<leftarrow> system_blocks J s;
                 case sb of Some sb \<Rightarrow> State_Monad.return (cj_add J req (lit ''system'') sb)
                 | None \<Rightarrow> put_string J req (lit ''system'') s });
           out \<leftarrow> mark_history_breakpoint J out;
           let req = cj_add J req (lit ''messages'') (array_of J out);
           req \<leftarrow> put_new J req (lit ''max_tokens'') (pe_number P (real_of_int CLM_ANTHROPIC_MAX_TOKENS));
           req \<leftarrow> put_new J req (lit ''stream'') (pe_bool P stream);
           req \<leftarrow> output_config J llm req;
           req \<leftarrow> anth_tools_field P llm ts req;
           State_Monad.return (Some req) } } } })"

definition anthropic_forbid_tool_calls :: "'j cjson_api \<Rightarrow> 'j \<Rightarrow> 'j mem" where
  "anthropic_forbid_tool_calls J req = do {
     tc \<leftarrow> create (cj_object J);
     case tc of None \<Rightarrow> State_Monad.return req
     | Some tc \<Rightarrow> do {
       tc \<leftarrow> put_string J tc (lit ''type'') (lit ''none'');
       State_Monad.return (cj_add J (cj_delete J req (lit ''tool_choice'')) (lit ''tool_choice'') tc) } }"

definition anthropic_build_auth_headers :: "clm_llm \<Rightarrow> cstr list option mem" where
  "anthropic_build_auth_headers llm = do {
     ok \<leftarrow> State alloc;
     if \<not> ok then State_Monad.return None else do {
     h1 \<leftarrow> copy_string (lit ''Content-Type: application/json'');
     case h1 of None \<Rightarrow> State_Monad.return None
     | Some h1 \<Rightarrow> do {
       h2 \<leftarrow> (if llm_api_key llm = [] then State_Monad.return (Some [])
         else do { h \<leftarrow> copy_string (lit ''x-api-key: '' @ llm_api_key llm); State_Monad.return (map_option (\<lambda>h. [h]) h) });
       case h2 of None \<Rightarrow> State_Monad.return None
       | Some h2 \<Rightarrow> do {
         h3 \<leftarrow> copy_string (lit ''anthropic-version: 2023-06-01'');
         State_Monad.return (map_option (\<lambda>h3. h1 # h2 @ [h3]) h3) } } } }"

end
