(* ===== verification/Anthropic_Wire.thy ===== *)
theory Anthropic_Wire
  imports Anthropic_Request History_Repair History_Json
begin

text \<open>
  That the conversion for Anthropic keeps the pairing of calls and results. A converted message is viewed as its role, the ids of
  its \<^verbatim>\<open>tool_use\<close> blocks and those of its \<^verbatim>\<open>tool_result\<close> blocks; \<open>view_step\<close> is the conversion on views, and the code refines it.
\<close>

declare lit_Cons [simp del]

section \<open>Views\<close>

definition block_uses :: "'j cjson_api \<Rightarrow> 'j \<Rightarrow> cstr list" where
  "block_uses J b = (if get_str J b (lit ''type'') = Some (lit ''tool_use'') then [str_or_empty J b (lit ''id'')] else [])"

definition block_results :: "'j cjson_api \<Rightarrow> 'j \<Rightarrow> cstr list" where
  "block_results J b = (if get_str J b (lit ''type'') = Some (lit ''tool_result'') then [str_or_empty J b (lit ''tool_use_id'')] else [])"

definition content_blocks :: "'j cjson_api \<Rightarrow> 'j \<Rightarrow> 'j list" where
  "content_blocks J m = (case cj_get J m (lit ''content'') of None \<Rightarrow> [] | Some c \<Rightarrow> if cj_is_array J c then cj_items J c else [])"

definition uses_of :: "'j cjson_api \<Rightarrow> 'j \<Rightarrow> cstr list" where
  "uses_of J m = concat (map (block_uses J) (content_blocks J m))"

definition results_of :: "'j cjson_api \<Rightarrow> 'j \<Rightarrow> cstr list" where
  "results_of J m = concat (map (block_results J) (content_blocks J m))"

text \<open>The results stand in front of everything else in the content, as the server requires.\<close>

definition results_first :: "'j cjson_api \<Rightarrow> 'j \<Rightarrow> bool" where
  "results_first J m \<longleftrightarrow> (\<exists>rs os. map (block_results J) (content_blocks J m) = rs @ os \<and> [] \<notin> set rs \<and> set os \<subseteq> {[]})"

text \<open>
  The view keeps track of two more things: whether the text of a user may have been added behind the results (\<open>v_closed\<close>), and
  that no result was added after that (\<open>v_sound\<close>).
\<close>

record view_msg =
  v_role :: cstr
  v_uses :: "cstr list"
  v_results :: "cstr list"
  v_closed :: bool
  v_sound :: bool

definition call_ids :: "'j cjson_api \<Rightarrow> 'j \<Rightarrow> cstr list" where
  "call_ids J m = (case has_calls J m of None \<Rightarrow> [] | Some tcs \<Rightarrow> map (\<lambda>tc. str_or_empty J tc (lit ''id'')) tcs)"

definition view_step :: "'j cjson_api \<Rightarrow> view_msg list \<Rightarrow> 'j \<Rightarrow> view_msg list" where
  "view_step J vs m =
     (let role = str_or_empty J m (lit ''role''); carrier = vs \<noteq> [] \<and> v_results (last vs) \<noteq> [] in
      if role = lit ''system'' then vs
      else if role = lit ''tool'' then
        (let i = str_or_empty J m (lit ''tool_call_id'') in
         if carrier then butlast vs @ [(last vs)\<lparr>v_results := v_results (last vs) @ [i], v_sound := v_sound (last vs) \<and> \<not> v_closed (last vs)\<rparr>]
         else vs @ [\<lparr>v_role = lit ''user'', v_uses = [], v_results = [i], v_closed = False, v_sound = True\<rparr>])
      else if role = lit ''user'' \<and> carrier then butlast vs @ [(last vs)\<lparr>v_closed := True\<rparr>]
      else vs @ [\<lparr>v_role = role, v_uses = call_ids J m, v_results = [], v_closed = False, v_sound = True\<rparr>])"

definition viewed :: "'j cjson_api \<Rightarrow> 'j \<Rightarrow> view_msg \<Rightarrow> bool" where
  "viewed J m v \<longleftrightarrow> get_str J m (lit ''role'') = Some (v_role v) \<and> uses_of J m = v_uses v \<and> results_of J m = v_results v
     \<and> (v_results v \<noteq> [] \<longrightarrow> v_role v = lit ''user'' \<and> content_blocks J m \<noteq> [] \<and> block_results J (hd (content_blocks J m)) \<noteq> []
          \<and> (\<not> v_closed v \<longrightarrow> (\<forall>b \<in> set (content_blocks J m). block_results J b \<noteq> [])))
     \<and> (v_sound v \<longrightarrow> results_first J m)"

section \<open>The code refines the views\<close>

context cjson_types
begin

definition other_block :: "'j \<Rightarrow> bool" where
  "other_block b \<longleftrightarrow> (\<exists>ty. get_str J b (lit ''type'') = Some ty \<and> ty \<noteq> lit ''tool_use'' \<and> ty \<noteq> lit ''tool_result'')"

lemma other_block_view: "other_block b \<Longrightarrow> block_uses J b = [] \<and> block_results J b = []"
  by (auto simp: other_block_def block_uses_def block_results_def)

lemma c_str_lit [simp]: "c_str (lit ''text'') = lit ''text''" "c_str (lit ''image'') = lit ''image''"
  by (simp_all add: c_str_def lit_Cons)

lemma text_block_ok: "\<exists>b. run_state (text_block J txt) [] = (Some b, []) \<and> other_block b"
  by (simp add: text_block_def nofail other_block_def object_laws str_laws lits)

lemma image_source_ok: "\<exists>s. run_state (image_source J src url fid) [] = (Some s, [])"
  by (simp add: image_source_def nofail split: option.split)

lemma image_block_ok: "\<exists>b. run_state (image_block J url fid) [] = (Some b, []) \<and> other_block b"
proof -
  obtain s where "run_state (image_source J (cj_object J) url fid) [] = (Some s, [])" using image_source_ok by blast
  then show ?thesis by (simp add: image_block_def nofail other_block_def object_laws str_laws lits)
qed

lemma run_some: "run_state f [] = (Some b, []) \<Longrightarrow>
  run_state (do { b \<leftarrow> f; State_Monad.return (case b of None \<Rightarrow> Inl () | Some b \<Rightarrow> Inr (g b)) }) [] = (Inr (g b), [])"
  by simp

lemma part_block_ok: "\<exists>r. run_state (part_block J p) [] = (Inr r, []) \<and> (\<forall>b. r = Some b \<longrightarrow> other_block b)"
proof -
  have T: "\<exists>r. run_state (do { b \<leftarrow> text_block J t; State_Monad.return (case b of None \<Rightarrow> Inl () | Some b \<Rightarrow> Inr (Some b)) }) [] = (Inr r, [])
      \<and> (\<forall>b. r = Some b \<longrightarrow> other_block b)" for t
    using text_block_ok [of t] by (auto simp: run_some)
  have I: "\<exists>r. run_state (do { b \<leftarrow> image_block J u f; State_Monad.return (case b of None \<Rightarrow> Inl () | Some b \<Rightarrow> Inr (Some b)) }) [] = (Inr r, [])
      \<and> (\<forall>b. r = Some b \<longrightarrow> other_block b)" for u f
    using image_block_ok [of u f] by (auto simp: run_some)
  show ?thesis
    unfolding part_block_def
    by (auto simp only: run_state_return T I split: option.split if_split)
qed

lemma append_part_blocks_ok:
  "\<exists>os. run_state (append_part_blocks J blocks ps) [] = (Inr (blocks @ os), []) \<and> (\<forall>b \<in> set os. other_block b)"
proof (induction ps arbitrary: blocks)
  case (Cons p ps)
  obtain r where r: "run_state (part_block J p) [] = (Inr r, [])" "\<forall>b. r = Some b \<longrightarrow> other_block b" using part_block_ok by blast
  show ?case
  proof (cases r)
    case None
    then show ?thesis using r Cons.IH [of blocks] by simp
  next
    case (Some b)
    then obtain os where "run_state (append_part_blocks J (blocks @ [b]) ps) [] = (Inr ((blocks @ [b]) @ os), [])" "\<forall>b \<in> set os. other_block b"
      using Cons.IH by blast
    then show ?thesis using r Some by (intro exI [of _ "b # os"]) auto
  qed
qed simp

lemma append_text_block_ok:
  "\<exists>os. run_state (append_text_block J blocks txt) [] = (Inr (blocks @ os), []) \<and> (\<forall>b \<in> set os. other_block b)"
proof (cases "txt = None \<or> txt = Some []")
  case True
  then show ?thesis by (auto simp: append_text_block_def)
next
  case False
  then obtain t where t: "txt = Some t" "t \<noteq> []" by auto
  obtain b where "run_state (text_block J t) [] = (Some b, [])" "other_block b" using text_block_ok by blast
  then show ?thesis using t by (intro exI [of _ "[b]"]) (simp add: append_text_block_def)
qed

text \<open>The content of a message that is no carrier: a string, or blocks without calls and results.\<close>

definition plain_content :: "'j option \<Rightarrow> bool" where
  "plain_content c \<longleftrightarrow> (\<exists>c'. c = Some c' \<and> (cj_is_array J c' \<longrightarrow> (\<forall>b \<in> set (cj_items J c'). other_block b)))"

lemma convert_content_ok: "\<exists>c. run_state (anth_convert_content J jc) [] = (c, []) \<and> plain_content c"
proof (cases "\<exists>c. jc = Some c \<and> cj_is_array J c")
  case True
  then obtain c where c: "jc = Some c" "cj_is_array J c" by blast
  obtain os where "run_state (append_part_blocks J [] (cj_items J c)) [] = (Inr os, [])" "\<forall>b \<in> set os. other_block b"
    using append_part_blocks_ok [of "[]"] by auto
  then show ?thesis using c by (auto simp: anth_convert_content_def nofail plain_content_def)
next
  case False
  then have "\<exists>s. run_state (anth_convert_content J jc) [] = (Some (cj_string J s), [])"
    by (auto simp: anth_convert_content_def nofail split: option.split)
  then show ?thesis by (auto simp: plain_content_def string_not_array)
qed

lemma carrier_viewed: "viewed J m v \<Longrightarrow> is_tool_result_carrier J (Some m) \<longleftrightarrow> v_results v \<noteq> []"
  by (auto simp: viewed_def is_tool_result_carrier_def content_blocks_def results_of_def array_head_def block_results_def
      split: option.splits list.splits if_splits)

lemma carrier_content: "viewed J m v \<Longrightarrow> v_results v \<noteq> [] \<Longrightarrow>
    \<exists>arr. cj_get J m (lit ''content'') = Some arr \<and> cj_is_array J arr \<and> content_blocks J m = cj_items J arr"
  by (auto simp: viewed_def content_blocks_def split: option.splits if_splits)

lemma put_blocks: "cj_get J m (lit ''content'') \<noteq> None \<Longrightarrow> cj_is_array J a \<Longrightarrow> content_blocks J (cj_put J m (lit ''content'') a) = cj_items J a"
  by (simp add: content_blocks_def get_put_same)

lemma put_role: "get_str J (cj_put J m (lit ''content'') a) (lit ''role'') = get_str J m (lit ''role'')"
  by (simp add: get_str_put_other lits)

lemma tool_result_block_ok:
  "\<exists>b. run_state (tool_result_block J m) [] = (Some b, []) \<and> block_results J b = [str_or_empty J m (lit ''tool_call_id'')] \<and> block_uses J b = []"
proof -
  obtain c where c: "run_state (anth_convert_content J (cj_get J m (lit ''content''))) [] = (c, [])" "plain_content c" using convert_content_ok by blast
  then obtain c' where "c = Some c'" by (auto simp: plain_content_def)
  then show ?thesis using c
    by (simp add: tool_result_block_def nofail cj_add_opt_def block_results_def block_uses_def str_or_empty_def object_laws str_laws lits)
qed

lemma results_all: "\<forall>b \<in> set bs. block_results J b \<noteq> [] \<Longrightarrow> block_results J b \<noteq> [] \<Longrightarrow> content_blocks J m = bs @ [b] \<Longrightarrow> results_first J m"
  unfolding results_first_def by (intro exI [of _ "map (block_results J) (bs @ [b])"] exI [of _ "[]"]) auto

lemma viewed_add_result:
  assumes "viewed J m v" "v_results v \<noteq> []" "block_results J b = [i]" "block_uses J b = []"
    and "cj_get J m (lit ''content'') = Some arr"
  shows "viewed J (cj_put J m (lit ''content'') (cj_push J arr b)) (v\<lparr>v_results := v_results v @ [i], v_sound := v_sound v \<and> \<not> v_closed v\<rparr>)"
proof -
  obtain arr' where "cj_get J m (lit ''content'') = Some arr'" "cj_is_array J arr'" "content_blocks J m = cj_items J arr'"
    using carrier_content [OF assms(1,2)] by blast
  then have "content_blocks J (cj_put J m (lit ''content'') (cj_push J arr b)) = content_blocks J m @ [b]"
    using assms(5) by (simp add: put_blocks array_laws)
  then show ?thesis
    using assms(1-4) results_all [of "content_blocks J m" b]
    by (auto simp: viewed_def put_role uses_of_def results_of_def)
qed

lemma new_carrier:
  assumes "block_results J b = [i]" "block_uses J b = []"
    and "c = cj_add J (cj_add J (cj_object J) (lit ''role'') (cj_string J (lit ''user''))) (lit ''content'') (cj_array J)"
  shows "viewed J (cj_put J c (lit ''content'') (cj_push J (cj_array J) b))
    \<lparr>v_role = lit ''user'', v_uses = [], v_results = [i], v_closed = False, v_sound = True\<rparr>"
    and "cj_get J c (lit ''content'') = Some (cj_array J)"
proof -
  show c: "cj_get J c (lit ''content'') = Some (cj_array J)" using assms(3) by (simp add: object_laws lits)
  then have "content_blocks J (cj_put J c (lit ''content'') (cj_push J (cj_array J) b)) = [b]" by (simp add: put_blocks array_laws)
  moreover have "get_str J c (lit ''role'') = Some (lit ''user'')" using assms(3) by (simp add: object_laws str_laws lits)
  ultimately show "viewed J (cj_put J c (lit ''content'') (cj_push J (cj_array J) b))
    \<lparr>v_role = lit ''user'', v_uses = [], v_results = [i], v_closed = False, v_sound = True\<rparr>"
    using assms(1,2) results_all [of "[]" b] by (auto simp: viewed_def put_role uses_of_def results_of_def)
qed

lemma viewed_queue:
  assumes "viewed J m v" "v_results v \<noteq> []" "cj_get J m (lit ''content'') = Some arr" "\<forall>b \<in> set os. other_block b"
  shows "viewed J (cj_put J m (lit ''content'') (array_of J (cj_items J arr @ os))) (v\<lparr>v_closed := True\<rparr>)"
proof -
  obtain arr' where "cj_get J m (lit ''content'') = Some arr'" "content_blocks J m = cj_items J arr'"
    using carrier_content [OF assms(1,2)] by blast
  then have cb: "content_blocks J (cj_put J m (lit ''content'') (array_of J (cj_items J arr @ os))) = content_blocks J m @ os"
    using assms(3) by (simp add: put_blocks)
  have os: "\<forall>b \<in> set os. block_uses J b = [] \<and> block_results J b = []" using assms(4) other_block_view by blast
  then have none: "concat (map (block_uses J) os) = []" "concat (map (block_results J) os) = []" by auto
  have "set (map (block_results J) os) \<subseteq> {[]}" using os by auto
  then have "results_first J m \<Longrightarrow> results_first J (cj_put J m (lit ''content'') (array_of J (cj_items J arr @ os)))"
    unfolding results_first_def cb map_append by (metis append.assoc set_append Un_subset_iff)
  then show ?thesis
    using assms(1,2) none by (auto simp: viewed_def put_role uses_of_def results_of_def cb)
qed

lemma viewed_plain:
  assumes "get_str J om (lit ''role'') = Some r" "content_blocks J om = os @ us" "\<forall>b \<in> set os. other_block b"
    and "map (block_uses J) us = map (\<lambda>i. [i]) is" "\<forall>b \<in> set us. block_results J b = []"
  shows "viewed J om \<lparr>v_role = r, v_uses = is, v_results = [], v_closed = False, v_sound = True\<rparr>"
proof -
  have os: "\<forall>b \<in> set os. block_uses J b = [] \<and> block_results J b = []" using assms(3) other_block_view by blast
  then have "concat (map (block_uses J) os) = []" "concat (map (block_results J) (os @ us)) = []" using assms(5) by auto
  moreover have "concat (map (\<lambda>i. [i]) is) = is" by (induction "is") auto
  moreover have "results_first J om"
    unfolding results_first_def using os assms(2,5) by (intro exI [of _ "[]"] exI [of _ "map (block_results J) (os @ us)"]) auto
  ultimately show ?thesis using assms(1,2,4) by (simp add: viewed_def uses_of_def results_of_def)
qed

lemma use_block: "get_str J b (lit ''type'') = Some (lit ''tool_use'') \<Longrightarrow> get_str J b (lit ''id'') = Some i \<Longrightarrow>
    block_uses J b = [i] \<and> block_results J b = []"
  by (simp add: block_uses_def block_results_def str_or_empty_def lits)

lemma tool_use_ok:
  "\<exists>b. run_state (tool_call_to_tool_use J tc) [] = (Some b, []) \<and> block_uses J b = [str_or_empty J tc (lit ''id'')] \<and> block_results J b = []"
proof -
  let ?x = "Option.bind (Option.bind (cj_get J tc (lit ''function'')) (\<lambda>f. get_str J f (lit ''arguments''))) (cj_parse J)"
  let ?nm = "case cj_get J tc (lit ''function'') of None \<Rightarrow> [] | Some f \<Rightarrow> str_or_empty J f (lit ''name'')"
  let ?b = "cj_add J (cj_add J (cj_add J (cj_object J) (lit ''type'') (cj_string J (lit ''tool_use''))) (lit ''id'')
    (cj_string J (str_or_empty J tc (lit ''id'')))) (lit ''name'') (cj_string J ?nm)"
  have "\<exists>i. run_state (case ?x of Some i \<Rightarrow> if cj_is_object J i then State_Monad.return (Some i) else create (cj_object J)
      | None \<Rightarrow> create (cj_object J)) [] = (Some i, [])"
    by (cases ?x) (simp_all add: nofail)
  then obtain i where "run_state (case ?x of Some i \<Rightarrow> if cj_is_object J i then State_Monad.return (Some i) else create (cj_object J)
      | None \<Rightarrow> create (cj_object J)) [] = (Some i, [])" by blast
  then have "run_state (tool_call_to_tool_use J tc) [] = (Some (cj_add J ?b (lit ''input'') i), [])"
    by (simp add: tool_call_to_tool_use_def nofail Let_def)
  moreover have "get_str J (cj_add J ?b (lit ''input'') i) (lit ''type'') = Some (lit ''tool_use'')"
    "get_str J (cj_add J ?b (lit ''input'') i) (lit ''id'') = Some (str_or_empty J tc (lit ''id''))"
    by (simp_all add: object_laws str_laws lits)
  ultimately show ?thesis using use_block by blast
qed

lemma tool_use_blocks_ok:
  "\<exists>us. run_state (tool_use_blocks J blocks tcs) [] = (blocks @ us, []) \<and> map (block_uses J) us = map (\<lambda>tc. [str_or_empty J tc (lit ''id'')]) tcs
    \<and> (\<forall>b \<in> set us. block_results J b = [])"
proof (induction tcs arbitrary: blocks)
  case (Cons tc tcs)
  obtain b where b: "run_state (tool_call_to_tool_use J tc) [] = (Some b, [])" "block_uses J b = [str_or_empty J tc (lit ''id'')]" "block_results J b = []"
    using tool_use_ok by blast
  obtain us where "run_state (tool_use_blocks J (blocks @ [b]) tcs) [] = ((blocks @ [b]) @ us, [])"
    "map (block_uses J) us = map (\<lambda>tc. [str_or_empty J tc (lit ''id'')]) tcs" "\<forall>b \<in> set us. block_results J b = []"
    using Cons.IH by blast
  then show ?case using b by (intro exI [of _ "b # us"]) simp
qed simp

lemma calls_blocks_ok:
  "\<exists>os us. run_state (calls_blocks J txt tcs) [] = (Some (array_of J (os @ us)), []) \<and> (\<forall>b \<in> set os. other_block b)
    \<and> map (block_uses J) us = map (\<lambda>tc. [str_or_empty J tc (lit ''id'')]) tcs \<and> (\<forall>b \<in> set us. block_results J b = [])"
proof (cases "txt = None \<or> txt = Some []")
  case True
  obtain us where "run_state (tool_use_blocks J [] tcs) [] = (us, [])" "map (block_uses J) us = map (\<lambda>tc. [str_or_empty J tc (lit ''id'')]) tcs"
    "\<forall>b \<in> set us. block_results J b = []" using tool_use_blocks_ok [of "[]"] by auto
  then show ?thesis using True by (intro exI [of _ "[]"] exI [of _ us]) (auto simp: calls_blocks_def nofail)
next
  case False
  then obtain t where t: "txt = Some t" "t \<noteq> []" by auto
  let ?b = "cj_add J (cj_add J (cj_object J) (lit ''type'') (cj_string J (lit ''text''))) (lit ''text'') (cj_string J t)"
  have "other_block ?b" by (simp add: other_block_def object_laws str_laws lits)
  moreover obtain us where "run_state (tool_use_blocks J [?b] tcs) [] = ([?b] @ us, [])" "map (block_uses J) us = map (\<lambda>tc. [str_or_empty J tc (lit ''id'')]) tcs"
    "\<forall>b \<in> set us. block_results J b = []" using tool_use_blocks_ok [of "[?b]"] by blast
  ultimately show ?thesis using t by (intro exI [of _ "[?b]"] exI [of _ us]) (auto simp: calls_blocks_def nofail)
qed

lemma plain_message_ok:
  "\<exists>om. run_state (plain_message J m) [] = (Some om, [])
    \<and> viewed J om \<lparr>v_role = str_or_empty J m (lit ''role''), v_uses = call_ids J m, v_results = [], v_closed = False, v_sound = True\<rparr>"
proof -
  let ?om = "cj_add J (cj_object J) (lit ''role'') (cj_string J (str_or_empty J m (lit ''role'')))"
  have role: "get_str J (cj_add J ?om (lit ''content'') c) (lit ''role'') = Some (str_or_empty J m (lit ''role''))"
    and cont: "cj_get J (cj_add J ?om (lit ''content'') c) (lit ''content'') = Some c" for c
    by (simp_all add: object_laws str_laws lits)
  show ?thesis
  proof (cases "has_calls J m")
    case None
    obtain c where c: "run_state (anth_convert_content J (cj_get J m (lit ''content''))) [] = (c, [])" "plain_content c" using convert_content_ok by blast
    then obtain c' where c': "c = Some c'" "cj_is_array J c' \<longrightarrow> (\<forall>b \<in> set (cj_items J c'). other_block b)" by (auto simp: plain_content_def)
    have "viewed J (cj_add J ?om (lit ''content'') c') \<lparr>v_role = str_or_empty J m (lit ''role''), v_uses = call_ids J m, v_results = [], v_closed = False, v_sound = True\<rparr>"
      by (rule viewed_plain [of _ _ "if cj_is_array J c' then cj_items J c' else []" "[]"])
        (use role c' None in \<open>auto simp: content_blocks_def cont call_ids_def\<close>)
    then show ?thesis using c(1) c'(1) None by (simp add: plain_message_def nofail cj_add_opt_def)
  next
    case (Some tcs)
    obtain os us where b: "run_state (calls_blocks J (get_str J m (lit ''content'')) tcs) [] = (Some (array_of J (os @ us)), [])" "\<forall>b \<in> set os. other_block b"
      "map (block_uses J) us = map (\<lambda>tc. [str_or_empty J tc (lit ''id'')]) tcs" "\<forall>b \<in> set us. block_results J b = []"
      using calls_blocks_ok by blast
    have "viewed J (cj_add J ?om (lit ''content'') (array_of J (os @ us)))
        \<lparr>v_role = str_or_empty J m (lit ''role''), v_uses = call_ids J m, v_results = [], v_closed = False, v_sound = True\<rparr>"
      by (rule viewed_plain [of _ _ os us]) (use role b Some in \<open>auto simp: content_blocks_def cont call_ids_def\<close>)
    then show ?thesis using b(1) Some by (simp add: plain_message_def nofail)
  qed
qed

text \<open>One message, and all of them.\<close>

lemma last_viewed:
  assumes "list_all2 (viewed J) out vs" "vs \<noteq> [] \<and> v_results (last vs) \<noteq> []"
  obtains arr where "out = butlast out @ [last out]" "out \<noteq> []" "viewed J (last out) (last vs)" "list_all2 (viewed J) (butlast out) (butlast vs)"
    "is_tool_result_carrier J (Some (last out))" "cj_get J (last out) (lit ''content'') = Some arr"
proof -
  have ne: "out \<noteq> []" "vs \<noteq> []" using assms by (auto simp: list_all2_Cons2)
  have "list_all2 (viewed J) (butlast out @ [last out]) (butlast vs @ [last vs])" using assms(1) ne by simp
  then have "list_all2 (viewed J) (butlast out) (butlast vs)" "viewed J (last out) (last vs)"
    using list_all2_lengthD [OF assms(1)] by (auto simp: list_all2_append)
  then show ?thesis using that ne carrier_viewed carrier_content assms(2) by fastforce
qed

lemma carrier_iff:
  assumes "list_all2 (viewed J) out vs"
  shows "is_tool_result_carrier J (last_item out) \<longleftrightarrow> vs \<noteq> [] \<and> v_results (last vs) \<noteq> []"
proof (cases "vs = []")
  case True
  then show ?thesis using assms by (simp add: last_item_def is_tool_result_carrier_def)
next
  case False
  then have "out \<noteq> []" using assms by (auto simp: list_all2_Cons2)
  then have "viewed J (last out) (last vs)" using assms False list_all2_lengthD [OF assms]
    by (simp add: list_all2_conv_all_nth last_conv_nth)
  then show ?thesis using False \<open>out \<noteq> []\<close> carrier_viewed by (simp add: last_item_def)
qed

lemma add_result_ok:
  assumes "list_all2 (viewed J) out vs" "str_or_empty J m (lit ''role'') = lit ''tool''"
  shows "\<exists>out'. run_state (add_result J m out) [] = (Some out', []) \<and> list_all2 (viewed J) out' (view_step J vs m)"
proof -
  obtain b where b: "run_state (tool_result_block J m) [] = (Some b, [])" "block_results J b = [str_or_empty J m (lit ''tool_call_id'')]" "block_uses J b = []"
    using tool_result_block_ok by blast
  show ?thesis
  proof (cases "vs \<noteq> [] \<and> v_results (last vs) \<noteq> []")
    case True
    obtain arr where l: "out = butlast out @ [last out]" "out \<noteq> []" "viewed J (last out) (last vs)" "list_all2 (viewed J) (butlast out) (butlast vs)"
      "is_tool_result_carrier J (Some (last out))" "cj_get J (last out) (lit ''content'') = Some arr"
      using last_viewed [OF assms(1) True] .
    have "run_state (add_result J m out) [] = (Some (butlast out @ [cj_put J (last out) (lit ''content'') (cj_push J arr b)]), [])"
      using l b(1) by (simp add: add_result_def result_carrier_def last_item_def)
    then show ?thesis
      using viewed_add_result [OF l(3) _ b(2,3) l(6)] True assms(2) l(4) by (simp add: view_step_def Let_def lits list_all2_appendI)
  next
    case False
    let ?c = "cj_add J (cj_add J (cj_object J) (lit ''role'') (cj_string J (lit ''user''))) (lit ''content'') (cj_array J)"
    have nc: "\<not> is_tool_result_carrier J (last_item out)" using carrier_iff [OF assms(1)] False by blast
    have "run_state (result_carrier J out) [] = (Some (out, ?c), [])"
      using nc by (auto simp: result_carrier_def nofail split: option.split)
    then have "run_state (add_result J m out) [] = (Some (out @ [cj_put J ?c (lit ''content'') (cj_push J (cj_array J) b)]), [])"
      using b(1) new_carrier(2) [OF b(2,3) refl] by (simp add: add_result_def)
    then show ?thesis
      using new_carrier(1) [OF b(2,3) refl] False assms by (auto simp: view_step_def Let_def lits list_all2_appendI)
  qed
qed

lemma convert_message_ok:
  assumes "list_all2 (viewed J) out vs"
  shows "\<exists>sys' out'. run_state (convert_message J m sys out) [] = (Some (sys', out'), []) \<and> list_all2 (viewed J) out' (view_step J vs m)"
proof -
  let ?role = "str_or_empty J m (lit ''role'')"
  consider "?role = lit ''system''" | "?role = lit ''tool''" | "?role = lit ''user''" "is_tool_result_carrier J (last_item out)"
    | "?role \<noteq> lit ''system''" "?role \<noteq> lit ''tool''" "\<not> (?role = lit ''user'' \<and> is_tool_result_carrier J (last_item out))" by blast
  then show ?thesis
  proof cases
    case 1
    then show ?thesis using assms by (auto simp: convert_message_def view_step_def append_system_text_def nofail split: option.split)
  next
    case 2
    then show ?thesis using add_result_ok [OF assms 2] by (auto simp: convert_message_def lits)
  next
    case 3
    then have c: "vs \<noteq> [] \<and> v_results (last vs) \<noteq> []" using carrier_iff [OF assms] by blast
    obtain arr where l: "out = butlast out @ [last out]" "out \<noteq> []" "viewed J (last out) (last vs)" "list_all2 (viewed J) (butlast out) (butlast vs)"
      "is_tool_result_carrier J (Some (last out))" "cj_get J (last out) (lit ''content'') = Some arr"
      using last_viewed [OF assms c] .
    have "\<exists>os. run_state (append_queued_user J (last out) (cj_get J m (lit ''content''))) [] = (Inr (cj_put J (last out) (lit ''content'') (array_of J (cj_items J arr @ os))), [])
        \<and> (\<forall>b \<in> set os. other_block b)"
    proof (cases "\<exists>c. cj_get J m (lit ''content'') = Some c \<and> cj_is_array J c")
      case True
      then obtain c where c': "cj_get J m (lit ''content'') = Some c" "cj_is_array J c" by blast
      obtain os where "run_state (append_part_blocks J (cj_items J arr) (cj_items J c)) [] = (Inr (cj_items J arr @ os), [])" "\<forall>b \<in> set os. other_block b"
        using append_part_blocks_ok by blast
      then show ?thesis using c' l(6) by (intro exI [of _ os]) (simp add: append_queued_user_def)
    next
      case False
      define s where "s = Option.bind (cj_get J m (lit ''content'')) (cj_string_value J)"
      have "run_state (append_queued_user J (last out) (cj_get J m (lit ''content''))) [] =
          run_state (do { r \<leftarrow> append_text_block J (cj_items J arr) s;
            State_Monad.return (case r of Inl _ \<Rightarrow> Inl () | Inr bs \<Rightarrow> Inr (cj_put J (last out) (lit ''content'') (array_of J bs))) }) []"
        using l(6) False by (cases "cj_get J m (lit ''content'')") (simp_all add: append_queued_user_def s_def Let_def)
      moreover obtain os where "run_state (append_text_block J (cj_items J arr) s) [] = (Inr (cj_items J arr @ os), [])" "\<forall>b \<in> set os. other_block b"
        using append_text_block_ok by blast
      ultimately show ?thesis by (intro exI [of _ os]) simp
    qed
    then show ?thesis
      using 3 c l viewed_queue [OF l(3) _ l(6)] by (auto simp: convert_message_def view_step_def Let_def lits list_all2_appendI)
  next
    case 4
    then have "\<not> (?role = lit ''user'' \<and> vs \<noteq> [] \<and> v_results (last vs) \<noteq> [])" using carrier_iff [OF assms] by blast
    then show ?thesis
      using 4 assms plain_message_ok [of m] by (auto simp: convert_message_def view_step_def Let_def list_all2_appendI)
  qed
qed

lemma convert_from_ok:
  "list_all2 (viewed J) out vs \<Longrightarrow>
    \<exists>sys' out'. run_state (convert_from J ms sys out) [] = (Some (sys', out'), []) \<and> list_all2 (viewed J) out' (foldl (view_step J) vs ms)"
proof (induction ms arbitrary: sys out vs)
  case (Cons m ms)
  obtain sys1 out1 where "run_state (convert_message J m sys out) [] = (Some (sys1, out1), [])" "list_all2 (viewed J) out1 (view_step J vs m)"
    using convert_message_ok [OF Cons.prems] by blast
  then show ?case using Cons.IH [of out1 "view_step J vs m" sys1] by simp
qed simp

text \<open>Setting a cache breakpoint does not change the view of a message.\<close>

lemma make_cache_control_ok: "run_state (make_cache_control J) [] = (Some (cj_add J (cj_object J) (lit ''type'') (cj_string J (lit ''ephemeral''))), [])"
  by (simp add: make_cache_control_def nofail)

lemma viewed_same:
  assumes "viewed J m v" "get_str J m' (lit ''role'') = get_str J m (lit ''role'')"
    and "map (block_uses J) (content_blocks J m') = map (block_uses J) (content_blocks J m)"
    and "map (block_results J) (content_blocks J m') = map (block_results J) (content_blocks J m)"
  shows "viewed J m' v"
proof -
  have ne: "content_blocks J m' = [] \<longleftrightarrow> content_blocks J m = []" using assms(3) by (metis Nil_is_map_conv)
  have all: "(\<forall>b \<in> set (content_blocks J m'). block_results J b \<noteq> []) \<longleftrightarrow> (\<forall>b \<in> set (content_blocks J m). block_results J b \<noteq> [])"
  proof -
    have "(\<forall>b \<in> set xs. block_results J b \<noteq> []) \<longleftrightarrow> [] \<notin> set (map (block_results J) xs)" for xs by (induction xs) auto
    then show ?thesis using assms(4) by presburger
  qed
  have hd: "content_blocks J m \<noteq> [] \<Longrightarrow> block_results J (hd (content_blocks J m')) = block_results J (hd (content_blocks J m))"
    using assms(4) ne by (metis list.map_sel(1))
  have "uses_of J m' = uses_of J m" "results_of J m' = results_of J m" "results_first J m' = results_first J m"
    by (simp_all add: uses_of_def results_of_def results_first_def assms(3,4))
  then show ?thesis using assms(1,2) ne all hd unfolding viewed_def by metis
qed

lemma mark_blocks_array:
  assumes "cj_get J m (lit ''content'') = Some c" "cj_items J c \<noteq> []" "cj_is_array J c" "block_is_cacheable J (last (cj_items J c))" "viewed J m v"
  shows "\<exists>m'. run_state (mark_blocks J m (cj_items J c)) [] = (m', []) \<and> viewed J m' v"
proof -
  let ?cc = "cj_add J (cj_object J) (lit ''type'') (cj_string J (lit ''ephemeral''))"
  let ?b = "last (cj_items J c)"
  let ?m = "cj_put J m (lit ''content'') (array_of J (butlast (cj_items J c) @ [cj_add J ?b (lit ''cache_control'') ?cc]))"
  have "cj_get J ?b (lit ''type'') \<noteq> None" using assms(4) by (cases "cj_get J ?b (lit ''type'')") (auto simp: block_is_cacheable_def get_str_def)
  then have ob: "cj_is_object J ?b" by (rule get_object)
  have b: "block_uses J (cj_add J ?b (lit ''cache_control'') ?cc) = block_uses J ?b" "block_results J (cj_add J ?b (lit ''cache_control'') ?cc) = block_results J ?b"
    using ob by (simp_all add: block_uses_def block_results_def str_or_empty_def str_laws lits)
  have cb: "content_blocks J m = butlast (cj_items J c) @ [?b]" "content_blocks J ?m = butlast (cj_items J c) @ [cj_add J ?b (lit ''cache_control'') ?cc]"
    using assms(1-3) by (simp_all add: content_blocks_def put_blocks [unfolded content_blocks_def] get_put_same)
  have "viewed J ?m v"
    by (rule viewed_same [OF assms(5)]) (simp_all add: put_role cb b)
  then show ?thesis using assms(2) by (auto simp: mark_blocks_def make_cache_control_ok)
qed

lemma mark_blocks_string:
  assumes "cj_get J m (lit ''content'') = Some c" "cj_is_string J c" "viewed J m v"
    and "tb = cj_add J (cj_add J (cj_object J) (lit ''type'') (cj_string J (lit ''text''))) (lit ''text'') (cj_string J s)"
    and "m1 = cj_put J m (lit ''content'') (array_of J [tb])"
  shows "\<exists>m'. run_state (mark_blocks J m1 [tb]) [] = (m', []) \<and> viewed J m' v"
proof -
  let ?cc = "cj_add J (cj_object J) (lit ''type'') (cj_string J (lit ''ephemeral''))"
  let ?b = "cj_add J tb (lit ''cache_control'') ?cc"
  let ?m = "cj_put J m1 (lit ''content'') (array_of J [?b])"
  have o1: "other_block ?b" using assms(4) by (simp add: other_block_def object_laws str_laws lits)
  have "cj_get J m1 (lit ''content'') \<noteq> None" using assms(1,5) by (simp add: get_put_same)
  then have cb: "content_blocks J ?m = [?b]" by (simp add: put_blocks)
  have nil: "content_blocks J m = []" using assms(1,2) array_not_string by (auto simp: content_blocks_def)
  have role: "get_str J ?m (lit ''role'') = get_str J m (lit ''role'')" using assms(5) by (simp add: put_role)
  have "results_first J ?m" using other_block_view [OF o1] unfolding results_first_def cb by (intro exI [of _ "[]"] exI [of _ "[[]]"]) simp
  then have "viewed J ?m v"
    using assms(3) other_block_view [OF o1] by (auto simp: viewed_def uses_of_def results_of_def cb nil role)
  then show ?thesis by (auto simp: mark_blocks_def make_cache_control_ok)
qed

lemma mark_rev_ok: "list_all2 (viewed J) ms vs \<Longrightarrow> \<exists>ms'. run_state (mark_rev J ms) [] = (ms', []) \<and> list_all2 (viewed J) ms' vs"
proof (induction ms arbitrary: vs)
  case (Cons m ms)
  then obtain v vs1 where v: "vs = v # vs1" "viewed J m v" "list_all2 (viewed J) ms vs1" by (auto simp: list_all2_Cons1)
  then obtain ms' where ms': "run_state (mark_rev J ms) [] = (ms', [])" "list_all2 (viewed J) ms' vs1" using Cons.IH by blast
  show ?case
  proof (cases "cj_get J m (lit ''content'')")
    case None
    then show ?thesis using v ms' by simp
  next
    case (Some c)
    show ?thesis
    proof (cases "cj_is_string J c")
      case True
      let ?s = "case cj_string_value J c of None \<Rightarrow> [] | Some s \<Rightarrow> s"
      let ?tb = "cj_add J (cj_add J (cj_object J) (lit ''type'') (cj_string J (lit ''text''))) (lit ''text'') (cj_string J ?s)"
      let ?m1 = "cj_put J m (lit ''content'') (array_of J [?tb])"
      obtain m' where m': "run_state (mark_blocks J ?m1 [?tb]) [] = (m', [])" "viewed J m' v"
        using mark_blocks_string [OF Some True v(2) refl refl] by blast
      have "?s \<noteq> [] \<Longrightarrow> block_is_cacheable J ?tb" by (simp add: block_is_cacheable_def object_laws str_laws lits)
      then show ?thesis using Some True v ms' m' by (auto simp: nofail Let_def)
    next
      case False
      show ?thesis
      proof (cases "cj_is_array J c \<and> cj_items J c \<noteq> [] \<and> block_is_cacheable J (last (cj_items J c))")
        case True
        then obtain m' where "run_state (mark_blocks J m (cj_items J c)) [] = (m', [])" "viewed J m' v"
          using mark_blocks_array [OF Some _ _ _ v(2)] by blast
        then show ?thesis using Some False True v by auto
      next
        case False': False
        then show ?thesis using Some False v ms' by auto
      qed
    qed
  qed
qed simp

lemma mark_ok: "list_all2 (viewed J) ms vs \<Longrightarrow> \<exists>ms'. run_state (mark_history_breakpoint J ms) [] = (ms', []) \<and> list_all2 (viewed J) ms' vs"
  using mark_rev_ok [of "rev ms" "rev vs"] by (auto simp: mark_history_breakpoint_def list_all2_rev1)

end

end
