(* ===== verification/Anthropic_Properties.thy ===== *)
theory Anthropic_Properties
  imports Anthropic_Wire
begin

text \<open>
  What Anthropic's server insists on, and that a request made of a history with its calls and results in order has it: the
  history (\<open>wire_ok\<close>), its canonical JSON, the converted messages and the request with its cache breakpoint.
\<close>

section \<open>What the server accepts\<close>

text \<open>\<open>ids\<close> are the calls of the message before.\<close>

fun server_accepts :: "'j cjson_api \<Rightarrow> cstr list \<Rightarrow> 'j list \<Rightarrow> bool" where
  "server_accepts J ids [] \<longleftrightarrow> ids = []"
| "server_accepts J ids (m # ms) \<longleftrightarrow>
     set (results_of J m) = set ids \<and> results_first J m \<and> (ids \<noteq> [] \<longrightarrow> get_str J m (lit ''role'') = Some (lit ''user''))
     \<and> server_accepts J (uses_of J m) ms"

text \<open>The server takes no two user messages in a row; after results the next message is never one.\<close>

definition no_user_after_results :: "'j cjson_api \<Rightarrow> 'j list \<Rightarrow> bool" where
  "no_user_after_results J ms \<longleftrightarrow> successively (\<lambda>m n. results_of J m \<noteq> [] \<longrightarrow> get_str J n (lit ''role'') \<noteq> Some (lit ''user'')) ms"

text \<open>The same on views, split into a condition on each step and the calls that are open at the end.\<close>

fun chain :: "cstr list \<Rightarrow> view_msg list \<Rightarrow> bool" where
  "chain ids [] \<longleftrightarrow> True"
| "chain ids (v # vs) \<longleftrightarrow> set (v_results v) = set ids \<and> v_sound v \<and> chain (v_uses v) vs"

fun open_ids :: "cstr list \<Rightarrow> view_msg list \<Rightarrow> cstr list" where
  "open_ids ids [] = ids"
| "open_ids ids (v # vs) = open_ids (v_uses v) vs"

lemma chain_append: "chain ids (xs @ ys) \<longleftrightarrow> chain ids xs \<and> chain (open_ids ids xs) ys"
  by (induction ids xs rule: chain.induct) auto

lemma open_ids_append [simp]: "open_ids ids (xs @ ys) = open_ids (open_ids ids xs) ys"
  by (induction ids xs rule: open_ids.induct) auto

lemma viewedD: "viewed J m v \<Longrightarrow> results_of J m = v_results v \<and> uses_of J m = v_uses v \<and> (v_sound v \<longrightarrow> results_first J m)
    \<and> (v_results v \<noteq> [] \<longrightarrow> get_str J m (lit ''role'') = Some (lit ''user''))"
  by (auto simp: viewed_def)

lemma accepts_chain: "list_all2 (viewed J) ms vs \<Longrightarrow> chain ids vs \<Longrightarrow> open_ids ids vs = [] \<Longrightarrow> server_accepts J ids ms"
proof (induction ms arbitrary: ids vs)
  case (Cons m ms)
  then obtain v vs1 where v: "vs = v # vs1" "viewed J m v" "list_all2 (viewed J) ms vs1" by (auto simp: list_all2_Cons1)
  then have "server_accepts J (v_uses v) ms" using Cons.IH [OF v(3)] Cons.prems(2,3) by simp
  moreover have "ids \<noteq> [] \<longrightarrow> v_results v \<noteq> []" using Cons.prems(2) v(1) by auto
  ultimately show ?case using viewedD [OF v(2)] Cons.prems(2) v(1) by simp
qed simp

definition apart :: "view_msg list \<Rightarrow> bool" where
  "apart vs \<longleftrightarrow> successively (\<lambda>v w. v_results v \<noteq> [] \<longrightarrow> v_role w \<noteq> lit ''user'') vs"

lemma viewed_apart: "list_all2 (viewed J) ms vs \<Longrightarrow> apart vs \<Longrightarrow> no_user_after_results J ms"
proof (induction ms arbitrary: vs)
  case (Cons m ms)
  then obtain v vs1 where v: "vs = v # vs1" "viewed J m v" "list_all2 (viewed J) ms vs1" by (auto simp: list_all2_Cons1)
  have IH: "no_user_after_results J ms" using Cons.IH [OF v(3)] Cons.prems(2) v(1) by (cases vs1) (simp_all add: apart_def)
  show ?case
  proof (cases ms)
    case (Cons n ns)
    then obtain w ws where "vs1 = w # ws" "viewed J n w" using v(3) by (auto simp: list_all2_Cons1)
    then show ?thesis using IH Cons.prems(2) v Cons by (auto simp: no_user_after_results_def apart_def viewed_def)
  qed (simp add: no_user_after_results_def)
qed (simp add: no_user_after_results_def)

section \<open>The conversion of a history\<close>

definition key :: "cstr option \<Rightarrow> cstr" where
  "key i = (case i of None \<Rightarrow> [] | Some s \<Rightarrow> c_str s)"

definition plain_view :: "cstr \<Rightarrow> cstr list \<Rightarrow> view_msg" where
  "plain_view r is = \<lparr>v_role = r, v_uses = is, v_results = [], v_closed = False, v_sound = True\<rparr>"

definition is_carrier :: "view_msg list \<Rightarrow> bool" where
  "is_carrier vs \<longleftrightarrow> vs \<noteq> [] \<and> v_results (last vs) \<noteq> []"

definition hist_step :: "view_msg list \<Rightarrow> clm_message \<Rightarrow> view_msg list" where
  "hist_step vs m =
     (case role m of
        CLM_ROLE_SYSTEM \<Rightarrow> vs
      | CLM_ROLE_TOOL \<Rightarrow>
          if is_carrier vs then butlast vs @ [(last vs)\<lparr>v_results := v_results (last vs) @ [key (tool_call_id m)],
            v_sound := v_sound (last vs) \<and> \<not> v_closed (last vs)\<rparr>]
          else vs @ [\<lparr>v_role = lit ''user'', v_uses = [], v_results = [key (tool_call_id m)], v_closed = False, v_sound = True\<rparr>]
      | CLM_ROLE_USER \<Rightarrow> if is_carrier vs then butlast vs @ [(last vs)\<lparr>v_closed := True\<rparr>] else vs @ [plain_view (lit ''user'') []]
      | CLM_ROLE_ASSISTANT \<Rightarrow> vs @ [plain_view (lit ''assistant'') (map (\<lambda>tc. key (tc_id tc)) (tool_calls m))])"

lemma apart_snoc: "apart vs \<Longrightarrow> v_role w \<noteq> lit ''user'' \<or> \<not> is_carrier vs \<Longrightarrow> apart (vs @ [w])"
  by (auto simp: apart_def is_carrier_def successively_append_iff)

lemma apart_last: "apart vs \<Longrightarrow> vs \<noteq> [] \<Longrightarrow> v_role w = v_role (last vs) \<Longrightarrow> apart (butlast vs @ [w])"
proof (cases vs rule: rev_cases)
  case (snoc xs x)
  then show "apart vs \<Longrightarrow> v_role w = v_role (last vs) \<Longrightarrow> ?thesis" by (auto simp: apart_def successively_append_iff)
qed simp

lemma hist_step_apart: "apart vs \<Longrightarrow> apart (hist_step vs m)"
  using apart_snoc apart_last
  by (cases "role m") (auto simp: hist_step_def is_carrier_def plain_view_def lits)

lemma history_apart: "apart vs \<Longrightarrow> apart (foldl hist_step vs h)"
  by (induction h arbitrary: vs) (simp_all add: hist_step_apart)

text \<open>Nothing is lost: the calls and the results of the history, in order.\<close>

definition said_calls :: "clm_message \<Rightarrow> cstr list" where
  "said_calls m = (if role m = CLM_ROLE_ASSISTANT then map (\<lambda>tc. key (tc_id tc)) (tool_calls m) else [])"

definition said_results :: "clm_message \<Rightarrow> cstr list" where
  "said_results m = (if role m = CLM_ROLE_TOOL then [key (tool_call_id m)] else [])"

lemma hist_step_said:
  "concat (map v_uses (hist_step vs m)) = concat (map v_uses vs) @ said_calls m"
  "concat (map v_results (hist_step vs m)) = concat (map v_results vs) @ said_results m"
  by (cases vs rule: rev_cases; cases "role m"; simp add: hist_step_def said_calls_def said_results_def is_carrier_def plain_view_def)+

lemma history_said:
  "concat (map v_uses (foldl hist_step vs h)) = concat (map v_uses vs) @ concat (map said_calls h)"
  "concat (map v_results (foldl hist_step vs h)) = concat (map v_results vs) @ concat (map said_results h)"
  by (induction h arbitrary: vs) (simp_all add: hist_step_said)

lemma viewed_said: "list_all2 (viewed J) ms vs \<Longrightarrow> map (uses_of J) ms = map v_uses vs \<and> map (results_of J) ms = map v_results vs"
  by (induction ms vs rule: list_all2_induct) (simp_all add: viewed_def)

definition settled :: "view_msg list \<Rightarrow> bool" where
  "settled vs \<longleftrightarrow> chain [] vs \<and> open_ids [] vs = []"

lemma settled_snoc: "settled vs \<Longrightarrow> settled (vs @ [plain_view r []])"
  by (simp add: settled_def chain_append plain_view_def)

lemma settled_close: "settled vs \<Longrightarrow> vs \<noteq> [] \<Longrightarrow> settled (butlast vs @ [(last vs)\<lparr>v_closed := True\<rparr>])"
proof (cases vs rule: rev_cases)
  case (snoc xs x)
  then show "settled vs \<Longrightarrow> ?thesis" by (simp add: settled_def chain_append)
qed simp

lemma plain_step: "\<not> is_tool m \<Longrightarrow> \<not> is_head m \<Longrightarrow> settled vs \<Longrightarrow> settled (hist_step vs m)"
  using settled_snoc settled_close
  by (cases "role m") (auto simp: hist_step_def is_carrier_def is_head_def)

lemma run_steps:
  "list_all is_tool ms \<Longrightarrow> v_results c \<noteq> [] \<Longrightarrow> \<not> v_closed c \<Longrightarrow>
    foldl hist_step (vs @ [c]) ms = vs @ [c\<lparr>v_results := v_results c @ map (\<lambda>m. key (tool_call_id m)) ms\<rparr>]"
proof (induction ms arbitrary: c)
  case (Cons m ms)
  then have "role m = CLM_ROLE_TOOL" by simp
  then have "hist_step (vs @ [c]) m = vs @ [c\<lparr>v_results := v_results c @ [key (tool_call_id m)]\<rparr>]"
    using Cons.prems by (simp add: hist_step_def is_carrier_def)
  then show ?case using Cons.IH [of "c\<lparr>v_results := v_results c @ [key (tool_call_id m)]\<rparr>"] Cons.prems by simp
qed simp

lemma batch_step:
  assumes "is_head m" "list_all is_tool ms" "ms \<noteq> []" "settled vs"
    and "key ` tool_call_id ` set ms = (\<lambda>tc. key (tc_id tc)) ` set (tool_calls m)"
  shows "settled (foldl hist_step vs (m # ms))"
proof -
  let ?h = "plain_view (lit ''assistant'') (map (\<lambda>tc. key (tc_id tc)) (tool_calls m))"
  obtain r rs where ms: "ms = r # rs" using assms(3) by (cases ms) auto
  let ?c = "\<lparr>v_role = lit ''user'', v_uses = [], v_results = [key (tool_call_id r)], v_closed = False, v_sound = True\<rparr>"
  have "hist_step vs m = vs @ [?h]" using assms(1) by (simp add: hist_step_def is_head_def)
  moreover have "hist_step (vs @ [?h]) r = (vs @ [?h]) @ [?c]"
    using assms(2) ms by (simp add: hist_step_def is_carrier_def plain_view_def)
  ultimately have "foldl hist_step vs (m # ms) = (vs @ [?h]) @ [?c\<lparr>v_results := v_results ?c @ map (\<lambda>m. key (tool_call_id m)) rs\<rparr>]"
    using run_steps [of rs ?c "vs @ [?h]"] assms(2) ms by simp
  moreover have "set (key (tool_call_id r) # map (\<lambda>m. key (tool_call_id m)) rs) = (\<lambda>tc. key (tc_id tc)) ` set (tool_calls m)"
    using assms(5) by (simp add: ms image_image)
  ultimately show ?thesis using assms(4) by (simp add: settled_def chain_append plain_view_def)
qed

lemma paired_views: "paired ids h \<Longrightarrow> tool_call_id ` set (takeWhile is_tool h) \<subseteq> set ids \<and> paired [] (dropWhile is_tool h)"
proof (induction ids h rule: paired.induct)
  case (2 ids m ms)
  then show ?case by (cases "is_tool m") auto
qed simp

lemma history_settled:
  "paired [] h \<Longrightarrow> answered h \<Longrightarrow> \<forall>m \<in> set h. \<forall>tc \<in> set (tool_calls m). tc_id tc \<noteq> None \<Longrightarrow> settled vs \<Longrightarrow> settled (foldl hist_step vs h)"
proof (induction h arbitrary: vs rule: length_induct)
  case (1 h)
  show ?case
  proof (cases h)
    case (Cons m ms)
    have nt: "\<not> is_tool m" using "1.prems"(1) Cons by auto
    show ?thesis
    proof (cases "is_head m")
      case False
      have "settled (hist_step vs m)" using plain_step nt False "1.prems"(4) by blast
      then show ?thesis using 1 Cons False nt by simp
    next
      case True
      let ?run = "takeWhile is_tool ms" and ?rest = "dropWhile is_tool ms"
      let ?ids = "map tc_id (tool_calls m)"
      have p: "paired ?ids ms" using "1.prems"(1) Cons nt True by simp
      then have sub: "tool_call_id ` set ?run \<subseteq> set ?ids" "paired [] ?rest" using paired_views by blast+
      have "\<forall>tc \<in> set (tool_calls m). tc_id tc \<in> tool_call_id ` set ?run"
        using "1.prems"(2,3) Cons True by (auto simp: list_all_iff list_ex_iff tool_result_present_def) (metis imageI)
      then have eq: "tool_call_id ` set ?run = tc_id ` set (tool_calls m)" using sub(1) by auto
      have ne: "?run \<noteq> []" using eq True by (auto simp: is_head_def)
      have "settled (foldl hist_step vs (m # ?run))"
      proof (rule batch_step [OF True _ ne "1.prems"(4)])
        show "list_all is_tool ?run" by (auto simp: list_all_iff dest: set_takeWhileD)
        show "key ` tool_call_id ` set ?run = (\<lambda>tc. key (tc_id tc)) ` set (tool_calls m)" unfolding eq by (rule image_image)
      qed
      moreover have "answered ?rest"
      proof -
        have "answered (takeWhile is_tool ms @ dropWhile is_tool ms)" using "1.prems"(2) Cons by simp
        then show ?thesis by (simp only: answered_append no_tool_first_dropWhile)
      qed
      moreover have "\<forall>m \<in> set ?rest. \<forall>tc \<in> set (tool_calls m). tc_id tc \<noteq> None"
        using "1.prems"(3) Cons by (auto dest: set_dropWhileD)
      moreover have "length ?rest < length h" using Cons by (simp add: le_imp_less_Suc length_dropWhile_le)
      ultimately have "settled (foldl hist_step (foldl hist_step vs (m # ?run)) ?rest)"
        using "1.IH" sub(2) by blast
      moreover have "h = (m # ?run) @ ?rest" using Cons by simp
      ultimately show ?thesis by (metis foldl_append)
    qed
  qed (use "1.prems" in simp)
qed

section \<open>The JSON of a history\<close>

context cjson_laws
begin

definition fresh :: "clm_role \<Rightarrow> 'j \<Rightarrow> bool" where
  "fresh r msg \<longleftrightarrow> cj_is_object J msg \<and> cj_get J msg (lit ''role'') = Some (cj_string J (role_to_str r))
     \<and> cj_get J msg (lit ''tool_call_id'') = None \<and> cj_get J msg (lit ''tool_calls'') = None"

lemma fresh_content: "fresh r msg \<Longrightarrow> fresh r (cj_add J msg (lit ''content'') v)"
  by (simp add: fresh_def object_laws lits)

lemma fresh_delete: "fresh r msg \<Longrightarrow> fresh r (cj_delete J msg (lit ''content''))"
  by (simp add: fresh_def get_delete_other is_object_delete lits)

lemma attachment_part_nofail: "\<exists>p. attachment_part J [] a = (Some p, [])"
  by (simp add: attachment_part_def cj_add_string_def)

lemma attachment_parts_nofail: "\<exists>ps. attachment_parts J [] parts as = (Some ps, [])"
proof (induction "as" arbitrary: parts)
  case (Cons a as)
  obtain p where "attachment_part J [] a = (Some p, [])" using attachment_part_nofail by blast
  then show ?case using Cons.IH by simp
qed simp

lemma content_to_parts_nofail: "\<exists>ps. content_to_parts J [] msg m = (Some (cj_add J (cj_delete J msg (lit ''content'')) (lit ''content'') ps), [])"
proof -
  define parts where "parts = (case cj_get_string J msg (lit ''content'') of
      Some (c # cs) \<Rightarrow> cj_push J (cj_array J) (cj_add J (cj_add J (cj_object J) (lit ''type'') (cj_string J (c_str (lit ''text'')))) (lit ''text'') (cj_string J (c_str (c # cs))))
    | _ \<Rightarrow> cj_array J)"
  obtain ps where "attachment_parts J [] parts (attachments m) = (Some ps, [])" using attachment_parts_nofail by blast
  then show ?thesis by (intro exI [of _ ps]) (simp add: content_to_parts_def parts_def cj_add_string_def split: option.splits list.splits)
qed

definition call_tree_of :: "clm_tool_call \<Rightarrow> 'j" where
  "call_tree_of tc = the (fst (clm_tool_call_to_json J [] tc))"

lemma call_to_json_ok: "clm_tool_call_to_json J [] tc = (Some (call_tree_of tc), [])"
  by (simp add: call_tree_of_def clm_tool_call_to_json_def Let_def split: option.split)

lemma call_tree_id: "str_or_empty J (call_tree_of tc) (lit ''id'') = key (tc_id tc)"
  by (cases "tc_id tc")
    (simp_all add: call_tree_of_def clm_tool_call_to_json_def Let_def str_or_empty_def key_def cj_add_opt_def object_laws str_laws lits split: option.split)

lemma tool_calls_to_json_ok: "tool_calls_to_json J [] arr tcs = (Some (foldl (cj_push J) arr (map call_tree_of tcs)), [])"
  by (induction tcs arbitrary: arr) (simp_all add: call_to_json_ok)

lemma message_json_body:
  assumes "clm_message_to_json J [] m cz = (Some j, t')"
  shows "\<exists>msg. fresh (role m) msg \<and> t' = [] \<and>
    j = (let msg = (case (role m, tool_call_id m) of (CLM_ROLE_TOOL, Some i) \<Rightarrow> cj_add J msg (lit ''tool_call_id'') (cj_string J (c_str i)) | _ \<Rightarrow> msg)
      in if role m = CLM_ROLE_ASSISTANT \<and> tool_calls m \<noteq> [] then cj_add J msg (lit ''tool_calls'') (array_of J (map call_tree_of (tool_calls m))) else msg)"
proof -
  let ?msg1 = "cj_add J (cj_object J) (lit ''role'') (cj_string J (role_to_str (role m)))"
  have f1: "fresh (role m) ?msg1" by (simp add: fresh_def object_laws lits)
  let ?tail = "\<lambda>msg. let msg = (case (role m, tool_call_id m) of (CLM_ROLE_TOOL, Some i) \<Rightarrow> cj_add J msg (lit ''tool_call_id'') (cj_string J (c_str i)) | _ \<Rightarrow> msg)
      in if role m = CLM_ROLE_ASSISTANT \<and> tool_calls m \<noteq> [] then cj_add J msg (lit ''tool_calls'') (array_of J (map call_tree_of (tool_calls m))) else msg"
  have tail: "obind (case (role m, tool_call_id m) of (CLM_ROLE_TOOL, Some i) \<Rightarrow> obind (cj_create [] (cj_string J (c_str i)))
                (\<lambda>j t5. (Some (cj_add J msg (lit ''tool_call_id'') j), t5)) | _ \<Rightarrow> (Some msg, []))
     (\<lambda>msg t5. if role m = CLM_ROLE_ASSISTANT \<and> tool_calls m \<noteq> [] then
          obind (cj_create t5 (cj_array J)) (\<lambda>arr t6. obind (tool_calls_to_json J t6 arr (tool_calls m)) (\<lambda>arr t7. (Some (cj_add J msg (lit ''tool_calls'') arr), t7)))
        else (Some msg, t5)) = (Some (?tail msg), [])" for msg
    by (auto simp: tool_calls_to_json_ok array_of_def Let_def split: clm_role.split option.split)
  let ?content = "if content m \<noteq> None then
        (case message_plain cz m of None \<Rightarrow> (None, []) | Some plain \<Rightarrow> (Some (cj_add J ?msg1 (lit ''content'') (cj_string J (c_str plain))), []))
      else if role m = CLM_ROLE_ASSISTANT then (Some (cj_add J ?msg1 (lit ''content'') (cj_null J)), []) else (Some ?msg1, [])"
  have "clm_message_to_json J [] m cz = obind ?content (\<lambda>msg t3. obind (if attachments m \<noteq> [] then content_to_parts J t3 msg m else (Some msg, t3))
      (\<lambda>msg t4. obind (case (role m, tool_call_id m) of (CLM_ROLE_TOOL, Some i) \<Rightarrow> obind (cj_create t4 (cj_string J (c_str i)))
                (\<lambda>j t5. (Some (cj_add J msg (lit ''tool_call_id'') j), t5)) | _ \<Rightarrow> (Some msg, t4))
     (\<lambda>msg t5. if role m = CLM_ROLE_ASSISTANT \<and> tool_calls m \<noteq> [] then
          obind (cj_create t5 (cj_array J)) (\<lambda>arr t6. obind (tool_calls_to_json J t6 arr (tool_calls m)) (\<lambda>arr t7. (Some (cj_add J msg (lit ''tool_calls'') arr), t7)))
        else (Some msg, t5))))"
    by (simp add: clm_message_to_json_def cj_add_opt_def Let_def cong: option.case_cong)
  note eq = this
  obtain msg3 t3 where c: "?content = (Some msg3, t3)" and rest: "obind (if attachments m \<noteq> [] then content_to_parts J t3 msg3 m else (Some msg3, t3))
      (\<lambda>msg t4. obind (case (role m, tool_call_id m) of (CLM_ROLE_TOOL, Some i) \<Rightarrow> obind (cj_create t4 (cj_string J (c_str i)))
                (\<lambda>j t5. (Some (cj_add J msg (lit ''tool_call_id'') j), t5)) | _ \<Rightarrow> (Some msg, t4))
     (\<lambda>msg t5. if role m = CLM_ROLE_ASSISTANT \<and> tool_calls m \<noteq> [] then
          obind (cj_create t5 (cj_array J)) (\<lambda>arr t6. obind (tool_calls_to_json J t6 arr (tool_calls m)) (\<lambda>arr t7. (Some (cj_add J msg (lit ''tool_calls'') arr), t7)))
        else (Some msg, t5))) = (Some j, t')"
    by (rule obind_SomeE [OF assms [unfolded eq]])
  have f3: "fresh (role m) msg3" "t3 = []" using c f1 fresh_content by (auto split: if_splits option.splits)
  obtain msg4 where m4: "(if attachments m \<noteq> [] then content_to_parts J [] msg3 m else (Some msg3, [])) = (Some msg4, [])" "fresh (role m) msg4"
    using content_to_parts_nofail [of msg3 m] fresh_content [OF fresh_delete [OF f3(1)]] f3(1) by (cases "attachments m = []") auto
  have "(Some (?tail msg4), []) = (Some j, t')" using rest unfolding f3(2) m4(1) obind_simps tail .
  then show ?thesis using m4(2) by (intro exI [of _ msg4]) simp
qed

end

context cjson_laws
begin

lemma message_json_view:
  assumes "clm_message_to_json J [] m cz = (Some j, t')"
  shows "view_step J vs j = hist_step vs m \<and> t' = []"
proof -
  obtain msg where f: "fresh (role m) msg" "t' = []" and
    j: "j = (let msg = (case (role m, tool_call_id m) of (CLM_ROLE_TOOL, Some i) \<Rightarrow> cj_add J msg (lit ''tool_call_id'') (cj_string J (c_str i)) | _ \<Rightarrow> msg)
      in if role m = CLM_ROLE_ASSISTANT \<and> tool_calls m \<noteq> [] then cj_add J msg (lit ''tool_calls'') (array_of J (map call_tree_of (tool_calls m))) else msg)"
    using message_json_body [OF assms] by blast
  have r: "str_or_empty J j (lit ''role'') = role_to_str (role m)"
    using f(1) by (simp add: j Let_def fresh_def str_or_empty_def get_str_def object_laws string_value is_string_string lits split: clm_role.split option.split)
  have i: "role m = CLM_ROLE_TOOL \<Longrightarrow> str_or_empty J j (lit ''tool_call_id'') = key (tool_call_id m)"
    using f(1) by (simp add: j Let_def fresh_def str_or_empty_def get_str_def object_laws string_value is_string_string lits key_def split: option.split)
  have c: "call_ids J j = (if role m = CLM_ROLE_ASSISTANT then map (\<lambda>tc. key (tc_id tc)) (tool_calls m) else [])"
    using f(1) by (auto simp: j Let_def fresh_def call_ids_def has_calls_def object_laws lits call_tree_id split: clm_role.split option.split)
  show ?thesis
    using f(2) i c by (cases "role m") (simp_all add: view_step_def hist_step_def r role_to_str_def is_carrier_def plain_view_def lits Let_def)
qed

lemma messages_json_view:
  "messages_to_json J [] (array_of J xs) h cz = (Some arr, t') \<Longrightarrow>
    \<exists>js. cj_items J arr = xs @ js \<and> t' = [] \<and> (\<forall>vs. foldl (view_step J) vs js = foldl hist_step vs h)"
proof (induction h arbitrary: xs)
  case Nil
  then show ?case by auto
next
  case (Cons m h)
  then obtain j t1 where j: "clm_message_to_json J [] m cz = (Some j, t1)" "messages_to_json J t1 (cj_push J (array_of J xs) j) h cz = (Some arr, t')"
    by (auto elim: obind_SomeE)
  have t1: "t1 = []" "view_step J vs j = hist_step vs m" for vs using message_json_view [OF j(1)] by blast+
  have "messages_to_json J [] (array_of J (xs @ [j])) h cz = (Some arr, t')" using j(2) t1(1) by simp
  then obtain js where "cj_items J arr = (xs @ [j]) @ js" "t' = []" "\<forall>vs. foldl (view_step J) vs js = foldl hist_step vs h"
    using Cons.IH by blast
  then show ?case using t1(2) by (intro exI [of _ "j # js"]) simp
qed

lemma history_json_view:
  "clm_history_to_json J [] h cz = (Some arr, t') \<Longrightarrow> foldl (view_step J) vs (cj_items J arr) = foldl hist_step vs h"
  using messages_json_view [of "[]" h cz arr t'] by (auto simp: clm_history_to_json_def array_of_def)

end

section \<open>The request\<close>

context cjson_types
begin

lemma anth_tools_nofail: "\<exists>ts. run_state (anth_tools_from J tools out) [] = (Some ts, [])"
proof (induction tools arbitrary: out)
  case (Cons t ts)
  have "\<exists>x. run_state (anth_convert_tool J func) [] = (Some x, [])" for func
    by (simp add: anth_convert_tool_def nofail split: option.split)
  then show ?case using Cons.IH by (auto split: option.split) (metis (no_types, lifting) old.prod.case option.simps(5))
qed simp

definition keeps_messages :: "'j \<Rightarrow> 'j \<Rightarrow> bool" where
  "keeps_messages req req' \<longleftrightarrow> cj_is_object J req' \<and> cj_get J req' (lit ''messages'') = cj_get J req (lit ''messages'')"

lemma keeps_add: "keeps_messages r req \<Longrightarrow> k \<noteq> lit ''messages'' \<Longrightarrow> keeps_messages r (cj_add J req k v)"
  by (simp add: keeps_messages_def object_laws)

lemma output_config_ok: "keeps_messages r req \<Longrightarrow> \<exists>req'. run_state (output_config J llm req) [] = (req', []) \<and> keeps_messages r req'"
  by (auto simp: output_config_def nofail lits keeps_add split: option.splits)

lemma anth_tools_field_ok: "pe_api P = J \<Longrightarrow> keeps_messages r req \<Longrightarrow> \<exists>req'. run_state (anth_tools_field P llm ts req) [] = (req', []) \<and> keeps_messages r req'"
  by (auto simp: anth_tools_field_def nofail lits keeps_add Let_def)

lemma build_request_messages:
  assumes "pe_api P = J" "list_all2 (viewed J) [] []"
  shows "\<exists>req out. run_state (anthropic_build_request P llm ms tools stream) [] = (Some req, [])
    \<and> cj_get J req (lit ''messages'') = Some (array_of J out) \<and> list_all2 (viewed J) out (foldl (view_step J) [] ms)"
proof -
  obtain sys out1 where 1: "run_state (convert_from J ms None []) [] = (Some (sys, out1), [])" "list_all2 (viewed J) out1 (foldl (view_step J) [] ms)"
    using convert_from_ok [OF assms(2)] by blast
  obtain ts where 2: "run_state (anth_tools_from J (case tools of None \<Rightarrow> [] | Some a \<Rightarrow> cj_items J a) []) [] = (Some ts, [])"
    using anth_tools_nofail by blast
  obtain out where 3: "run_state (mark_history_breakpoint J out1) [] = (out, [])" "list_all2 (viewed J) out (foldl (view_step J) [] ms)"
    using mark_ok [OF 1(2)] by blast
  let ?r0 = "cj_add J (cj_object J) (lit ''model'') (cj_string J (llm_model llm))"
  have "\<exists>r1. run_state (case sys of None \<Rightarrow> State_Monad.return ?r0
      | Some s \<Rightarrow> do { sb \<leftarrow> system_blocks J s;
          case sb of Some sb \<Rightarrow> State_Monad.return (cj_add J ?r0 (lit ''system'') sb) | None \<Rightarrow> put_string J ?r0 (lit ''system'') s }) [] = (r1, [])
      \<and> cj_is_object J r1 \<and> cj_get J r1 (lit ''messages'') = None"
    by (auto simp: system_blocks_def nofail make_cache_control_ok object_laws lits split: option.split)
  then obtain r1 where r1: "run_state (case sys of None \<Rightarrow> State_Monad.return ?r0
      | Some s \<Rightarrow> do { sb \<leftarrow> system_blocks J s;
          case sb of Some sb \<Rightarrow> State_Monad.return (cj_add J ?r0 (lit ''system'') sb) | None \<Rightarrow> put_string J ?r0 (lit ''system'') s }) [] = (r1, [])"
      "cj_is_object J r1" "cj_get J r1 (lit ''messages'') = None" by blast
  let ?r2 = "cj_add J r1 (lit ''messages'') (array_of J out)"
  let ?r3 = "cj_add J (cj_add J ?r2 (lit ''max_tokens'') (pe_number P (real_of_int CLM_ANTHROPIC_MAX_TOKENS))) (lit ''stream'') (pe_bool P stream)"
  have get: "cj_get J ?r2 (lit ''messages'') = Some (array_of J out)" using r1 by (simp add: object_laws)
  have "keeps_messages ?r2 ?r3" using r1(2) by (simp add: keeps_messages_def object_laws lits)
  then obtain r4 where 4: "run_state (output_config J llm ?r3) [] = (r4, [])" "keeps_messages ?r2 r4" using output_config_ok by blast
  obtain r5 where 5: "run_state (anth_tools_field P llm ts r4) [] = (r5, [])" "keeps_messages ?r2 r5" using anth_tools_field_ok [OF assms(1) 4(2)] by blast
  have "run_state (anthropic_build_request P llm ms tools stream) [] = (Some r5, [])"
    unfolding anthropic_build_request_def Let_def assms(1)
    by (simp only: anth_convert_messages_def anth_convert_tools_def run_state_bind nofail option.simps prod.case if_False run_state_return 1 2 3 4 5 r1)
  then show ?thesis using 5(2) get 3(2) by (auto simp: keeps_messages_def)
qed

end

text \<open>C8 (functional). A request made of a history in which every result follows its call and every call has its result is one that
  the server accepts: each message carries results for exactly the calls of the message before, in a user message and in front of
  everything else in it, and no user message follows one with results. It has the calls and the results of the history, all of them
  and in order. This holds after the cache breakpoint is set, whatever the tools, settings and contents are.\<close>

theorem anthropic_request_accepted:
  assumes "cjson_types (pe_api P)" "wire_ok h" "\<forall>m \<in> set h. \<forall>tc \<in> set (tool_calls m). tc_id tc \<noteq> None"
    and "clm_history_to_json (pe_api P) [] h cz = (Some arr, t')"
  shows "\<exists>req out. run_state (anthropic_build_request P llm (cj_items (pe_api P) arr) tools stream) [] = (Some req, [])
    \<and> cj_get (pe_api P) req (lit ''messages'') = Some (array_of (pe_api P) out) \<and> server_accepts (pe_api P) [] out \<and> no_user_after_results (pe_api P) out
    \<and> concat (map (uses_of (pe_api P)) out) = concat (map said_calls h) \<and> concat (map (results_of (pe_api P)) out) = concat (map said_results h)"
proof -
  note laws = assms(1) cjson_types.axioms(1) [OF assms(1)]
  obtain req out where r: "run_state (anthropic_build_request P llm (cj_items (pe_api P) arr) tools stream) [] = (Some req, [])"
    "cj_get (pe_api P) req (lit ''messages'') = Some (array_of (pe_api P) out)"
    "list_all2 (viewed (pe_api P)) out (foldl (view_step (pe_api P)) [] (cj_items (pe_api P) arr))"
    using cjson_types.build_request_messages [OF laws(1) refl] by blast
  have "settled (foldl hist_step [] h)"
    using history_settled [of h "[]"] assms(2,3) by (simp add: wire_ok_def settled_def)
  moreover have "apart (foldl hist_step [] h)" by (rule history_apart) (simp add: apart_def)
  ultimately show ?thesis
    using r accepts_chain [OF r(3)] viewed_apart [OF r(3)] viewed_said [OF r(3)] cjson_laws.history_json_view [OF laws(2) assms(4)]
    by (auto simp: settled_def history_said)
qed

lemma json_provider_api: "pe_api json_provider = json_api"
  by (simp add: json_provider_def)

definition demo_llm :: clm_llm where
  "demo_llm = \<lparr>llm_provider = CLM_PROVIDER_ANTHROPIC, llm_api_key = [], llm_base_url = [], llm_model = lit ''m'', llm_parallel_off = True,
     llm_effort = Some (lit ''low''), llm_prev_response = None, llm_cache_system = False, llm_response_schema = None\<rparr>"

theorem anthropic_request_accepted_witness:
  "\<exists>req out. run_state (anthropic_build_request json_provider demo_llm
       (cj_items json_api (the (fst (clm_history_to_json json_api [] (exchange ''1'') None)))) None True) [] = (Some req, [])
    \<and> cj_get json_api req (lit ''messages'') = Some (array_of json_api out) \<and> server_accepts json_api [] out \<and> no_user_after_results json_api out
    \<and> concat (map (uses_of json_api) out) = concat (map said_calls (exchange ''1'')) \<and> concat (map (results_of json_api) out) = concat (map said_results (exchange ''1''))"
proof -
  let ?arr = "the (fst (clm_history_to_json json_api [] (exchange ''1'') None))"
  have "clm_history_to_json json_api [] (exchange ''1'') None = (Some ?arr, [])"
    by (simp add: clm_history_to_json_def clm_message_to_json_def exchange_def text_message_def blank_message_def message_plain_def Let_def
        clm_tool_call_to_json_def)
  moreover have "wire_ok (exchange ''1'')" by (simp add: wire_eval)
  moreover have "\<forall>m \<in> set (exchange ''1''). \<forall>tc \<in> set (tool_calls m). tc_id tc \<noteq> None"
    by (simp add: exchange_def text_message_def blank_message_def)
  ultimately show ?thesis
    using anthropic_request_accepted [of json_provider "exchange ''1''" None ?arr "[]" demo_llm None True] json_types.cjson_types_axioms
    by (simp add: json_provider_api)
qed

end
