(* ===== verification/Responses_Request.thy ===== *)
theory Responses_Request
  imports Provider_Json
begin

text \<open>
  The request side of \<^verbatim>\<open>libclm/provider_responses.c\<close>: the canonical messages become the items of an input list, tool calls and their
  results items of their own.
\<close>

section \<open>Items\<close>

definition CLM_RESPONSES_MAX_OUTPUT_TOKENS :: int where "CLM_RESPONSES_MAX_OUTPUT_TOKENS = 64000"

definition tool_call_to_function_call_item :: "'j cjson_api \<Rightarrow> 'j \<Rightarrow> 'j option mem" where
  "tool_call_to_function_call_item J tc = do {
     item \<leftarrow> create (cj_object J);
     case item of None \<Rightarrow> State_Monad.return None
     | Some item \<Rightarrow> do {
       item \<leftarrow> put_string J item (lit ''type'') (lit ''function_call'');
       item \<leftarrow> put_string J item (lit ''call_id'') (str_or_empty J tc (lit ''id''));
       let func = cj_get J tc (lit ''function'');
       item \<leftarrow> put_string J item (lit ''name'') (case func of None \<Rightarrow> [] | Some f \<Rightarrow> str_or_empty J f (lit ''name''));
       item \<leftarrow> put_string J item (lit ''arguments'')
         (case Option.bind func (\<lambda>f. get_str J f (lit ''arguments'')) of None \<Rightarrow> lit ''{}'' | Some s \<Rightarrow> s);
       State_Monad.return (Some item) } }"

text \<open>One part of a content: an error, a part that is left out, or its item. The item is created before the part is looked at.\<close>

definition resp_part :: "'j cjson_api \<Rightarrow> 'j \<Rightarrow> (unit + 'j option) mem" where
  "resp_part J p =
     (let type = cj_get_string J p (lit ''type'');
          (ntype, key, val) =
            (if type = Some (lit ''text'') then (Some (lit ''input_text''), lit ''text'', cj_get_string J p (lit ''text''))
             else if type = Some (lit ''image_url'') then (Some (lit ''input_image''), lit ''image_url'',
               Option.bind (cj_get J p (lit ''image_url'')) (\<lambda>iu. cj_get_string J iu (lit ''url'')))
             else (None, [], None)) in do {
      item \<leftarrow> create (cj_object J);
      case item of None \<Rightarrow> State_Monad.return (Inl ())
      | Some item \<Rightarrow>
        (case (ntype, val) of
           (Some nt, Some v) \<Rightarrow> do {
             item \<leftarrow> add_string J item (lit ''type'') nt;
             case item of None \<Rightarrow> State_Monad.return (Inl ())
             | Some item \<Rightarrow> do {
               item \<leftarrow> add_string J item key v;
               State_Monad.return (case item of None \<Rightarrow> Inl () | Some item \<Rightarrow> Inr (Some item)) } }
         | _ \<Rightarrow> State_Monad.return (Inr None)) })"

fun resp_parts_from :: "'j cjson_api \<Rightarrow> 'j list \<Rightarrow> 'j list \<Rightarrow> 'j list option mem" where
  "resp_parts_from J [] out = State_Monad.return (Some out)"
| "resp_parts_from J (p # ps) out = do {
     r \<leftarrow> resp_part J p;
     case r of Inl _ \<Rightarrow> State_Monad.return None
     | Inr None \<Rightarrow> resp_parts_from J ps out
     | Inr (Some item) \<Rightarrow> resp_parts_from J ps (out @ [item]) }"

definition convert_parts :: "'j cjson_api \<Rightarrow> 'j list \<Rightarrow> 'j option mem" where
  "convert_parts J parts = do {
     out \<leftarrow> create (cj_array J);
     if out = None then State_Monad.return None
     else do { r \<leftarrow> resp_parts_from J parts []; State_Monad.return (map_option (array_of J) r) } }"

definition resp_convert_content :: "'j cjson_api \<Rightarrow> 'j option \<Rightarrow> 'j option mem" where
  "resp_convert_content J jc =
     (case jc of None \<Rightarrow> create (cj_string J [])
      | Some c \<Rightarrow> if cj_is_array J c then convert_parts J (cj_items J c)
        else create (cj_string J (if cj_is_string J c then (case cj_string_value J c of None \<Rightarrow> [] | Some s \<Rightarrow> s) else [])))"

definition role_of :: "'j cjson_api \<Rightarrow> 'j \<Rightarrow> cstr" where
  "role_of J m = str_or_empty J m (lit ''role'')"

text \<open>The parts of the developer message: a string is wrapped into one part, and the last part gets the breakpoint.\<close>

definition wrap_string :: "'j cjson_api \<Rightarrow> 'j \<Rightarrow> 'j list option mem" where
  "wrap_string J parts =
     (if cj_is_string J parts then do {
        arr \<leftarrow> create (cj_array J); p \<leftarrow> create (cj_object J);
        case (arr, p) of
          (Some _, Some p) \<Rightarrow> do {
            p \<leftarrow> put_string J p (lit ''type'') (lit ''input_text'');
            p \<leftarrow> put_string J p (lit ''text'') (case cj_string_value J parts of None \<Rightarrow> [] | Some s \<Rightarrow> s);
            State_Monad.return (Some [p]) }
        | _ \<Rightarrow> State_Monad.return None }
      else State_Monad.return (Some (cj_items J parts)))"

definition set_breakpoint :: "'j cjson_api \<Rightarrow> 'j list \<Rightarrow> 'j list mem" where
  "set_breakpoint J ps = do {
     bp \<leftarrow> create (cj_object J);
     case bp of None \<Rightarrow> State_Monad.return ps
     | Some bp \<Rightarrow> if ps = [] then State_Monad.return ps else do {
         bp \<leftarrow> put_string J bp (lit ''mode'') (lit ''explicit'');
         State_Monad.return (butlast ps @ [cj_add J (last ps) (lit ''prompt_cache_breakpoint'') bp]) } }"

definition cached_system_item :: "'j cjson_api \<Rightarrow> 'j option \<Rightarrow> 'j option mem" where
  "cached_system_item J jcontent = do {
     item \<leftarrow> create (cj_object J); parts \<leftarrow> resp_convert_content J jcontent;
     case (item, parts) of
       (Some item, Some parts) \<Rightarrow> do {
         ps \<leftarrow> wrap_string J parts;
         case ps of None \<Rightarrow> State_Monad.return None
         | Some ps \<Rightarrow> do {
           ps \<leftarrow> set_breakpoint J ps;
           item \<leftarrow> put_string J item (lit ''role'') (lit ''developer'');
           State_Monad.return (Some (cj_add J item (lit ''content'') (array_of J ps))) } }
     | _ \<Rightarrow> State_Monad.return None }"

section \<open>Messages\<close>

definition output_item :: "'j cjson_api \<Rightarrow> 'j \<Rightarrow> 'j option mem" where
  "output_item J m = do {
     item \<leftarrow> create (cj_object J);
     case item of None \<Rightarrow> State_Monad.return None
     | Some item \<Rightarrow> do {
       item \<leftarrow> put_string J item (lit ''type'') (lit ''function_call_output'');
       item \<leftarrow> put_string J item (lit ''call_id'') (str_or_empty J m (lit ''tool_call_id''));
       c \<leftarrow> resp_convert_content J (cj_get J m (lit ''content''));
       State_Monad.return (Some (cj_add_opt J item (lit ''output'') c)) } }"

definition message_item :: "'j cjson_api \<Rightarrow> 'j \<Rightarrow> 'j option mem" where
  "message_item J m = do {
     item \<leftarrow> create (cj_object J);
     case item of None \<Rightarrow> State_Monad.return None
     | Some item \<Rightarrow> do {
       item \<leftarrow> put_string J item (lit ''role'') (role_of J m);
       c \<leftarrow> resp_convert_content J (cj_get J m (lit ''content''));
       State_Monad.return (Some (cj_add_opt J item (lit ''content'') c)) } }"

fun call_items :: "'j cjson_api \<Rightarrow> 'j list \<Rightarrow> 'j list \<Rightarrow> 'j list mem" where
  "call_items J out [] = State_Monad.return out"
| "call_items J out (tc # tcs) = do {
     item \<leftarrow> tool_call_to_function_call_item J tc;
     call_items J (case item of None \<Rightarrow> out | Some i \<Rightarrow> out @ [i]) tcs }"

definition some_calls :: "'j cjson_api \<Rightarrow> 'j \<Rightarrow> 'j list option" where
  "some_calls J m = (case cj_get J m (lit ''tool_calls'') of None \<Rightarrow> None
     | Some a \<Rightarrow> if cj_is_array J a \<and> cj_items J a \<noteq> [] then Some (cj_items J a) else None)"

text \<open>The body of the loop; \<open>at_end\<close> says that the message ends the leading run of system messages.\<close>

definition resp_convert_message :: "'j cjson_api \<Rightarrow> bool \<Rightarrow> 'j \<Rightarrow> 'j list \<Rightarrow> 'j list option mem" where
  "resp_convert_message J at_end m out =
     (if at_end then do { r \<leftarrow> cached_system_item J (cj_get J m (lit ''content'')); State_Monad.return (map_option (\<lambda>i. out @ [i]) r) }
      else if role_of J m = lit ''tool'' then do { r \<leftarrow> output_item J m; State_Monad.return (map_option (\<lambda>i. out @ [i]) r) }
      else case (if role_of J m = lit ''assistant'' then some_calls J m else None) of
        Some tcs \<Rightarrow> do { out \<leftarrow> call_items J out tcs; State_Monad.return (Some out) }
      | None \<Rightarrow> do { r \<leftarrow> message_item J m; State_Monad.return (map_option (\<lambda>i. out @ [i]) r) })"

fun resp_convert_from :: "'j cjson_api \<Rightarrow> int \<Rightarrow> int \<Rightarrow> 'j list \<Rightarrow> 'j list \<Rightarrow> 'j list option mem" where
  "resp_convert_from J sys_end i [] out = State_Monad.return (Some out)"
| "resp_convert_from J sys_end i (m # ms) out = do {
     r \<leftarrow> resp_convert_message J (i = sys_end) m out;
     case r of None \<Rightarrow> State_Monad.return None | Some out \<Rightarrow> resp_convert_from J sys_end (i + 1) ms out }"

text \<open>The loop that finds the end of the leading run of system messages.\<close>

fun sys_end_from :: "'j cjson_api \<Rightarrow> int \<Rightarrow> 'j list \<Rightarrow> int" where
  "sys_end_from J e [] = e"
| "sys_end_from J e (m # ms) = (if role_of J m = lit ''system'' then sys_end_from J (e + 1) ms else e)"

definition resp_convert_messages :: "'j cjson_api \<Rightarrow> 'j list \<Rightarrow> bool \<Rightarrow> 'j list option mem" where
  "resp_convert_messages J ms cache_system = do {
     out \<leftarrow> create (cj_array J);
     if out = None then State_Monad.return None
     else resp_convert_from J (if cache_system then sys_end_from J (-1) ms else -1) 0 ms [] }"

section \<open>Tools\<close>

definition resp_convert_tool :: "'j cjson_api \<Rightarrow> 'j \<Rightarrow> 'j option mem" where
  "resp_convert_tool J func = do {
     ob \<leftarrow> create (cj_object J);
     case ob of None \<Rightarrow> State_Monad.return None
     | Some ob \<Rightarrow> do {
       ob \<leftarrow> put_string J ob (lit ''type'') (lit ''function'');
       ob \<leftarrow> put_string J ob (lit ''name'') (str_or_empty J func (lit ''name''));
       ob \<leftarrow> put_string J ob (lit ''description'') (str_or_empty J func (lit ''description''));
       ps \<leftarrow> (case cj_get J func (lit ''parameters'') of Some p \<Rightarrow> State_Monad.return (Some p) | None \<Rightarrow> create (cj_object J));
       State_Monad.return (Some (cj_add_opt J ob (lit ''parameters'') ps)) } }"

fun resp_tools_from :: "'j cjson_api \<Rightarrow> 'j list \<Rightarrow> 'j list \<Rightarrow> 'j list option mem" where
  "resp_tools_from J [] out = State_Monad.return (Some out)"
| "resp_tools_from J (t # ts) out =
     (case cj_get J t (lit ''function'') of None \<Rightarrow> resp_tools_from J ts out
      | Some func \<Rightarrow> do {
          r \<leftarrow> resp_convert_tool J func;
          case r of None \<Rightarrow> State_Monad.return None | Some x \<Rightarrow> resp_tools_from J ts (out @ [x]) })"

definition resp_convert_tools :: "'j cjson_api \<Rightarrow> 'j \<Rightarrow> 'j list option mem" where
  "resp_convert_tools J tools = do {
     out \<leftarrow> create (cj_array J);
     if out = None then State_Monad.return None else resp_tools_from J (cj_items J tools) [] }"

section \<open>The request\<close>

text \<open>The optional fields: the response to continue, the effort, the tools.\<close>

definition chain_fields :: "'j cjson_api \<Rightarrow> clm_llm \<Rightarrow> 'j \<Rightarrow> 'j mem" where
  "chain_fields J llm req = do {
     req \<leftarrow> (case llm_prev_response llm of None \<Rightarrow> State_Monad.return req
       | Some i \<Rightarrow> put_string J req (lit ''previous_response_id'') i);
     case llm_effort llm of None \<Rightarrow> State_Monad.return req
     | Some e \<Rightarrow> do {
       rz \<leftarrow> create (cj_object J);
       case rz of None \<Rightarrow> State_Monad.return req
       | Some rz \<Rightarrow> do { rz \<leftarrow> put_string J rz (lit ''effort'') e; State_Monad.return (cj_add J req (lit ''reasoning'') rz) } } }"

definition resp_tools_field :: "'j provider_env \<Rightarrow> clm_llm \<Rightarrow> 'j option \<Rightarrow> 'j \<Rightarrow> 'j option mem" where
  "resp_tools_field P llm tools req = (let J = pe_api P in
     case tools of None \<Rightarrow> State_Monad.return (Some req)
     | Some tools \<Rightarrow> do {
       rtools \<leftarrow> resp_convert_tools J tools;
       case rtools of None \<Rightarrow> State_Monad.return None
       | Some [] \<Rightarrow> State_Monad.return (Some req)
       | Some ts \<Rightarrow> do {
         let req = cj_add J req (lit ''tools'') (array_of J ts);
         req \<leftarrow> (if llm_parallel_off llm then put_new J req (lit ''parallel_tool_calls'') (pe_bool P False) else State_Monad.return req);
         tool_choice \<leftarrow> create (cj_string J (lit ''auto''));
         State_Monad.return (Some (cj_add_opt J req (lit ''tool_choice'') tool_choice)) } })"

definition responses_build_request :: "'j provider_env \<Rightarrow> clm_llm \<Rightarrow> 'j list \<Rightarrow> 'j option \<Rightarrow> bool \<Rightarrow> 'j option mem" where
  "responses_build_request P llm ms tools stream = (let J = pe_api P in do {
     input \<leftarrow> resp_convert_messages J ms (llm_cache_system llm);
     case input of None \<Rightarrow> State_Monad.return None
     | Some input \<Rightarrow> do {
       req \<leftarrow> create (cj_object J);
       case req of None \<Rightarrow> State_Monad.return None
       | Some req \<Rightarrow> do {
         req \<leftarrow> put_string J req (lit ''model'') (llm_model llm);
         let req = cj_add J req (lit ''input'') (array_of J input);
         req \<leftarrow> put_new J req (lit ''stream'') (pe_bool P stream);
         req \<leftarrow> put_new J req (lit ''max_output_tokens'') (pe_number P (real_of_int CLM_RESPONSES_MAX_OUTPUT_TOKENS));
         req \<leftarrow> chain_fields J llm req;
         resp_tools_field P llm tools req } } })"

definition responses_forbid_tool_calls :: "'j cjson_api \<Rightarrow> 'j \<Rightarrow> 'j mem" where
  "responses_forbid_tool_calls J req = do {
     tc \<leftarrow> create (cj_string J (lit ''none''));
     State_Monad.return (case tc of None \<Rightarrow> req
       | Some tc \<Rightarrow> cj_add J (cj_delete J req (lit ''tool_choice'')) (lit ''tool_choice'') tc) }"

end
