(* ===== verification/Responses_Properties.thy ===== *)
theory Responses_Properties
  imports Responses_Request Anthropic_Properties
begin

text \<open>
  What the server reads in the input of a Responses request: every call and every result of the history, in order, calls with their
  name and arguments, and one message for each other message.
\<close>

section \<open>Entries of the input\<close>

datatype entry = ECall cstr cstr cstr | EOut cstr | EMsg cstr

definition entry_of :: "'j cjson_api \<Rightarrow> 'j \<Rightarrow> entry" where
  "entry_of J item =
     (if get_str J item (lit ''type'') = Some (lit ''function_call'')
      then ECall (str_or_empty J item (lit ''call_id'')) (str_or_empty J item (lit ''name'')) (str_or_empty J item (lit ''arguments''))
      else if get_str J item (lit ''type'') = Some (lit ''function_call_output'') then EOut (str_or_empty J item (lit ''call_id''))
      else EMsg (role_of J item))"

text \<open>The entries of a canonical message, and of a message of the history.\<close>

definition call_entry :: "'j cjson_api \<Rightarrow> 'j \<Rightarrow> entry" where
  "call_entry J tc = ECall (str_or_empty J tc (lit ''id''))
     (case cj_get J tc (lit ''function'') of None \<Rightarrow> [] | Some f \<Rightarrow> str_or_empty J f (lit ''name''))
     (case Option.bind (cj_get J tc (lit ''function'')) (\<lambda>f. get_str J f (lit ''arguments'')) of None \<Rightarrow> lit ''{}'' | Some s \<Rightarrow> s)"

definition entries_of :: "'j cjson_api \<Rightarrow> bool \<Rightarrow> 'j \<Rightarrow> entry list" where
  "entries_of J at_end m =
     (if at_end then [EMsg (lit ''developer'')]
      else if role_of J m = lit ''tool'' then [EOut (str_or_empty J m (lit ''tool_call_id''))]
      else case (if role_of J m = lit ''assistant'' then some_calls J m else None) of
        Some tcs \<Rightarrow> map (call_entry J) tcs | None \<Rightarrow> [EMsg (role_of J m)])"

definition said_call :: "clm_tool_call \<Rightarrow> entry" where
  "said_call tc = ECall (key (tc_id tc)) (key (tc_name tc)) (case tc_args tc of None \<Rightarrow> lit ''{}'' | Some a \<Rightarrow> c_str a)"

definition said :: "bool \<Rightarrow> clm_message \<Rightarrow> entry list" where
  "said at_end m =
     (if at_end then [EMsg (lit ''developer'')]
      else if role m = CLM_ROLE_TOOL then [EOut (key (tool_call_id m))]
      else if role m = CLM_ROLE_ASSISTANT \<and> tool_calls m \<noteq> [] then map said_call (tool_calls m)
      else [EMsg (role_to_str (role m))])"

text \<open>The number of messages in the leading run of system messages, when its end is to be marked.\<close>

definition prologue :: "bool \<Rightarrow> clm_message list \<Rightarrow> nat" where
  "prologue mark h = (if mark then length (takeWhile (\<lambda>m. role m = CLM_ROLE_SYSTEM) h) else 0)"

definition said_all :: "bool \<Rightarrow> clm_message list \<Rightarrow> entry list" where
  "said_all mark h = concat (map (\<lambda>(i, m). said (Suc i = prologue mark h) m) (enumerate 0 h))"

section \<open>The conversion of canonical messages\<close>

context cjson_types
begin

lemma resp_parts_nofail: "\<exists>r. run_state (resp_parts_from J ps out) [] = (Some r, [])"
proof (induction ps arbitrary: out)
  case (Cons p ps)
  have "\<exists>r. run_state (resp_part J p) [] = (Inr r, [])"
    by (auto simp: resp_part_def nofail Let_def split: option.split)
  then obtain r where "run_state (resp_part J p) [] = (Inr r, [])" by blast
  then show ?case using Cons.IH by (cases r) auto
qed simp

lemma resp_content_nofail: "\<exists>c. run_state (resp_convert_content J jc) [] = (Some c, [])"
proof (cases jc)
  case (Some c)
  obtain r where "run_state (resp_parts_from J (cj_items J c) []) [] = (Some r, [])" using resp_parts_nofail by blast
  then show ?thesis using Some by (simp add: resp_convert_content_def convert_parts_def nofail)
qed (simp add: resp_convert_content_def nofail)

lemma wrap_string_nofail: "\<exists>ps. run_state (wrap_string J c) [] = (Some ps, [])"
  by (cases "cj_is_string J c") (simp_all add: wrap_string_def nofail)

lemma cached_system_item_ok: "\<exists>i. run_state (cached_system_item J jc) [] = (Some i, []) \<and> entry_of J i = EMsg (lit ''developer'')"
proof -
  obtain c where c: "run_state (resp_convert_content J jc) [] = (Some c, [])" using resp_content_nofail by blast
  obtain ps where ps: "run_state (wrap_string J c) [] = (Some ps, [])" using wrap_string_nofail by blast
  obtain qs where qs: "run_state (set_breakpoint J ps) [] = (qs, [])" by (cases "ps = []") (simp_all add: set_breakpoint_def nofail)
  show ?thesis using c ps qs
    by (simp add: cached_system_item_def nofail entry_of_def role_of_def str_or_empty_def object_laws str_laws lits)
qed

lemma output_item_ok: "\<exists>i. run_state (output_item J m) [] = (Some i, []) \<and> entry_of J i = EOut (str_or_empty J m (lit ''tool_call_id''))"
proof -
  obtain c where c: "run_state (resp_convert_content J (cj_get J m (lit ''content''))) [] = (Some c, [])" using resp_content_nofail by blast
  then show ?thesis
    by (simp add: output_item_def nofail cj_add_opt_def entry_of_def str_or_empty_def object_laws str_laws lits)
qed

lemma message_item_ok: "\<exists>i. run_state (message_item J m) [] = (Some i, []) \<and> entry_of J i = EMsg (role_of J m)"
proof -
  obtain c where c: "run_state (resp_convert_content J (cj_get J m (lit ''content''))) [] = (Some c, [])" using resp_content_nofail by blast
  have "str_or_empty J (cj_add J (cj_add J (cj_object J) (lit ''role'') (cj_string J (role_of J m))) (lit ''content'') c) (lit ''role'') = role_of J m"
    by (simp add: str_or_empty_def object_laws str_laws lits)
  then show ?thesis using c
    by (simp add: message_item_def nofail cj_add_opt_def entry_of_def role_of_def object_laws str_laws lits)
qed

lemma function_call_item_ok: "\<exists>i. run_state (tool_call_to_function_call_item J tc) [] = (Some i, []) \<and> entry_of J i = call_entry J tc"
  by (simp add: tool_call_to_function_call_item_def nofail Let_def entry_of_def call_entry_def object_laws str_laws lits)
    (simp add: str_or_empty_def object_laws str_laws lits)

lemma call_items_ok: "\<exists>is. run_state (call_items J out tcs) [] = (out @ is, []) \<and> map (entry_of J) is = map (call_entry J) tcs"
proof (induction tcs arbitrary: out)
  case (Cons tc tcs)
  obtain i where i: "run_state (tool_call_to_function_call_item J tc) [] = (Some i, [])" "entry_of J i = call_entry J tc"
    using function_call_item_ok by blast
  obtain is' where "run_state (call_items J (out @ [i]) tcs) [] = ((out @ [i]) @ is', [])" "map (entry_of J) is' = map (call_entry J) tcs"
    using Cons.IH by blast
  then show ?case using i by (intro exI [of _ "i # is'"]) simp
qed simp

lemma convert_message_items:
  "\<exists>is. run_state (resp_convert_message J at_end m out) [] = (Some (out @ is), []) \<and> map (entry_of J) is = entries_of J at_end m"
proof -
  obtain i1 where 1: "run_state (cached_system_item J (cj_get J m (lit ''content''))) [] = (Some i1, [])" "entry_of J i1 = EMsg (lit ''developer'')"
    using cached_system_item_ok by blast
  obtain i2 where 2: "run_state (output_item J m) [] = (Some i2, [])" "entry_of J i2 = EOut (str_or_empty J m (lit ''tool_call_id''))"
    using output_item_ok by blast
  obtain i3 where 3: "run_state (message_item J m) [] = (Some i3, [])" "entry_of J i3 = EMsg (role_of J m)"
    using message_item_ok by blast
  have 4: "\<exists>is. run_state (call_items J out tcs) [] = (out @ is, []) \<and> map (entry_of J) is = map (call_entry J) tcs" for tcs
    by (rule call_items_ok)
  show ?thesis
  proof (cases "if role_of J m = lit ''assistant'' then some_calls J m else None")
    case None
    then show ?thesis using 1 2 3 by (simp add: resp_convert_message_def entries_of_def)
  next
    case (Some tcs)
    obtain cs where "run_state (call_items J out tcs) [] = (out @ cs, [])" "map (entry_of J) cs = map (call_entry J) tcs" using 4 by blast
    then show ?thesis using 1 2 Some by (simp add: resp_convert_message_def entries_of_def)
  qed
qed

lemma convert_from_items:
  "\<exists>is. run_state (resp_convert_from J e (int k) ms out) [] = (Some (out @ is), [])
    \<and> map (entry_of J) is = concat (map (\<lambda>(i, m). entries_of J (int i = e) m) (enumerate k ms))"
proof (induction ms arbitrary: k out)
  case (Cons m ms)
  obtain js where js: "run_state (resp_convert_message J (int k = e) m out) [] = (Some (out @ js), [])" "map (entry_of J) js = entries_of J (int k = e) m"
    using convert_message_items by blast
  have "int k + 1 = int (Suc k)" by simp
  moreover obtain ks where "run_state (resp_convert_from J e (int (Suc k)) ms (out @ js)) [] = (Some ((out @ js) @ ks), [])"
    "map (entry_of J) ks = concat (map (\<lambda>(i, m). entries_of J (int i = e) m) (enumerate (Suc k) ms))" using Cons.IH by blast
  ultimately show ?case using js by (intro exI [of _ "js @ ks"]) (simp add: ac_simps)
qed simp

lemma sys_end_run: "sys_end_from J e ms = e + int (length (takeWhile (\<lambda>m. role_of J m = lit ''system'') ms))"
  by (induction ms arbitrary: e) simp_all

lemma resp_tools_nofail: "\<exists>ts. run_state (resp_tools_from J tools out) [] = (Some ts, [])"
proof (induction tools arbitrary: out)
  case (Cons t ts)
  have "\<exists>x. run_state (resp_convert_tool J func) [] = (Some x, [])" for func
    by (simp add: resp_convert_tool_def nofail split: option.split)
  then show ?case using Cons.IH by (auto split: option.split) (metis (no_types, lifting) old.prod.case option.simps(5))
qed simp

definition keeps_input :: "'j \<Rightarrow> 'j \<Rightarrow> bool" where
  "keeps_input req req' \<longleftrightarrow> cj_is_object J req' \<and> cj_get J req' (lit ''input'') = cj_get J req (lit ''input'')"

lemma keeps_input_add: "keeps_input r req \<Longrightarrow> k \<noteq> lit ''input'' \<Longrightarrow> keeps_input r (cj_add J req k v)"
  by (simp add: keeps_input_def object_laws)

lemma chain_fields_ok: "keeps_input r req \<Longrightarrow> \<exists>req'. run_state (chain_fields J llm req) [] = (req', []) \<and> keeps_input r req'"
  by (auto simp: chain_fields_def nofail lits keeps_input_add split: option.splits)

lemma resp_tools_field_ok:
  assumes "pe_api P = J" "keeps_input r req"
  shows "\<exists>req'. run_state (resp_tools_field P llm tools req) [] = (Some req', []) \<and> keeps_input r req'"
proof (cases tools)
  case (Some a)
  obtain ts where ts: "run_state (resp_tools_from J (cj_items J a) []) [] = (Some ts, [])" using resp_tools_nofail by blast
  then show ?thesis using assms Some
    by (cases ts; cases "llm_parallel_off llm")
      (simp_all add: resp_tools_field_def resp_convert_tools_def nofail lits keeps_input_add Let_def cj_add_opt_def)
qed (use assms in \<open>simp add: resp_tools_field_def\<close>)

lemma build_request_input:
  assumes "pe_api P = J"
  shows "\<exists>req out. run_state (responses_build_request P llm ms tools stream) [] = (Some req, []) \<and> cj_get J req (lit ''input'') = Some (array_of J out)
    \<and> map (entry_of J) out = concat (map (\<lambda>(i, m). entries_of J
        (Suc i = (if llm_cache_system llm then length (takeWhile (\<lambda>m. role_of J m = lit ''system'') ms) else 0)) m) (enumerate 0 ms))"
proof -
  define e where "e = (if llm_cache_system llm then sys_end_from J (-1) ms else -1)"
  obtain out where 1: "run_state (resp_convert_from J e 0 ms []) [] = (Some out, [])"
    "map (entry_of J) out = concat (map (\<lambda>(i, m). entries_of J (int i = e) m) (enumerate 0 ms))"
    using convert_from_items [of e 0 ms "[]"] by auto
  have e: "int i = e \<longleftrightarrow> Suc i = (if llm_cache_system llm then length (takeWhile (\<lambda>m. role_of J m = lit ''system'') ms) else 0)" for i
    by (auto simp: e_def sys_end_run)
  have input: "run_state (resp_convert_messages J ms (llm_cache_system llm)) [] = (Some out, [])"
    using 1(1) by (simp add: resp_convert_messages_def nofail e_def)
  let ?r0 = "cj_add J (cj_add J (cj_object J) (lit ''model'') (cj_string J (llm_model llm))) (lit ''input'') (array_of J out)"
  let ?r1 = "cj_add J (cj_add J ?r0 (lit ''stream'') (pe_bool P stream)) (lit ''max_output_tokens'') (pe_number P (real_of_int CLM_RESPONSES_MAX_OUTPUT_TOKENS))"
  have "keeps_input ?r0 ?r1" by (simp add: keeps_input_def object_laws lits)
  then obtain r2 where 2: "run_state (chain_fields J llm ?r1) [] = (r2, [])" "keeps_input ?r0 r2" using chain_fields_ok by blast
  obtain r3 where 3: "run_state (resp_tools_field P llm tools r2) [] = (Some r3, [])" "keeps_input ?r0 r3"
    using resp_tools_field_ok [OF assms 2(2)] by blast
  have "run_state (responses_build_request P llm ms tools stream) [] = (Some r3, [])"
    using input 2(1) 3(1) by (simp add: responses_build_request_def assms nofail Let_def)
  moreover have "cj_get J r3 (lit ''input'') = Some (array_of J out)" using 3(2) by (simp add: keeps_input_def object_laws lits)
  ultimately show ?thesis using 1(2) unfolding e by blast
qed

end

section \<open>The history\<close>

context cjson_laws
begin

lemma call_tree_entry: "call_entry J (call_tree_of tc) = said_call tc"
  by (cases "tc_id tc"; cases "tc_name tc"; cases "tc_args tc")
    (simp_all add: call_tree_of_def clm_tool_call_to_json_def Let_def str_or_empty_def key_def cj_add_opt_def object_laws str_laws lits call_entry_def said_call_def)

lemma message_json_entries:
  assumes "clm_message_to_json J [] m cz = (Some j, t')"
  shows "entries_of J e j = said e m \<and> role_of J j = role_to_str (role m) \<and> t' = []"
proof -
  obtain msg where f: "fresh (role m) msg" "t' = []" and
    j: "j = (let msg = (case (role m, tool_call_id m) of (CLM_ROLE_TOOL, Some i) \<Rightarrow> cj_add J msg (lit ''tool_call_id'') (cj_string J (c_str i)) | _ \<Rightarrow> msg)
      in if role m = CLM_ROLE_ASSISTANT \<and> tool_calls m \<noteq> [] then cj_add J msg (lit ''tool_calls'') (array_of J (map call_tree_of (tool_calls m))) else msg)"
    using message_json_body [OF assms] by blast
  have r: "role_of J j = role_to_str (role m)"
    using f(1) by (simp add: j Let_def fresh_def role_of_def str_or_empty_def get_str_def object_laws string_value is_string_string lits split: clm_role.split option.split)
  have i: "role m = CLM_ROLE_TOOL \<Longrightarrow> str_or_empty J j (lit ''tool_call_id'') = key (tool_call_id m)"
    using f(1) by (simp add: j Let_def fresh_def str_or_empty_def get_str_def object_laws string_value is_string_string lits key_def split: option.split)
  have c: "role m = CLM_ROLE_ASSISTANT \<Longrightarrow> some_calls J j = (if tool_calls m \<noteq> [] then Some (map call_tree_of (tool_calls m)) else None)"
    using f(1) by (auto simp: j Let_def fresh_def some_calls_def object_laws lits)
  show ?thesis using f(2) i c
    by (cases "role m") (simp_all add: entries_of_def said_def r role_to_str_def lits call_tree_entry o_def)
qed

lemma messages_json_each:
  "messages_to_json J [] (array_of J xs) h cz = (Some arr, t') \<Longrightarrow>
    \<exists>js. cj_items J arr = xs @ js \<and> list_all2 (\<lambda>j m. clm_message_to_json J [] m cz = (Some j, [])) js h"
proof (induction h arbitrary: xs)
  case (Cons m h)
  then obtain j t1 where j: "clm_message_to_json J [] m cz = (Some j, t1)" "messages_to_json J t1 (cj_push J (array_of J xs) j) h cz = (Some arr, t')"
    by (auto elim: obind_SomeE)
  have t1: "t1 = []" using message_json_entries [OF j(1)] by blast
  then have "messages_to_json J [] (array_of J (xs @ [j])) h cz = (Some arr, t')" using j(2) by simp
  then obtain js where "cj_items J arr = (xs @ [j]) @ js" "list_all2 (\<lambda>j m. clm_message_to_json J [] m cz = (Some j, [])) js h"
    using Cons.IH by blast
  then show ?case using j(1) t1 by (intro exI [of _ "j # js"]) simp
qed auto

lemma history_json_each:
  "clm_history_to_json J [] h cz = (Some arr, t') \<Longrightarrow> list_all2 (\<lambda>j m. clm_message_to_json J [] m cz = (Some j, [])) (cj_items J arr) h"
  using messages_json_each [of "[]" h cz arr t'] by (auto simp: clm_history_to_json_def array_of_def)

lemma history_entries:
  assumes "clm_history_to_json J [] h cz = (Some arr, t')"
  shows "concat (map (\<lambda>(i, m). entries_of J (Suc i = (if mark then length (takeWhile (\<lambda>m. role_of J m = lit ''system'') (cj_items J arr)) else 0)) m)
    (enumerate 0 (cj_items J arr))) = said_all mark h"
proof -
  have each: "list_all2 (\<lambda>j m. (\<forall>e. entries_of J e j = said e m) \<and> role_of J j = role_to_str (role m)) (cj_items J arr) h"
    using history_json_each [OF assms] by (rule list_all2_mono) (use message_json_entries in blast)
  have sys: "role_to_str r = lit ''system'' \<longleftrightarrow> r = CLM_ROLE_SYSTEM" for r
    by (cases r) (simp_all add: role_to_str_def lits)
  have "list_all2 (\<lambda>j m. (\<forall>e. entries_of J e j = said e m) \<and> role_of J j = role_to_str (role m)) js ms \<Longrightarrow>
      length (takeWhile (\<lambda>m. role_of J m = lit ''system'') js) = length (takeWhile (\<lambda>m. role m = CLM_ROLE_SYSTEM) ms)" for js ms
    by (induction js ms rule: list_all2_induct) (simp_all add: sys)
  note len = this [OF each]
  have "list_all2 (\<lambda>j m. (\<forall>e. entries_of J e j = said e m) \<and> role_of J j = role_to_str (role m)) js ms \<Longrightarrow>
      map (\<lambda>(i, m). entries_of J (Suc i = n) m) (enumerate k js) = map (\<lambda>(i, m). said (Suc i = n) m) (enumerate k ms)" for js ms n k
    by (induction js ms arbitrary: k rule: list_all2_induct) simp_all
  from this [OF each] show ?thesis by (simp add: said_all_def prologue_def len)
qed

end

text \<open>C10 (functional). The input of a Responses request has, in the order of the history, every call with its id, name and arguments, every
  result with the id of its call, and one message with its role for every other message; only the message that ends the system
  prompt becomes a developer message, when the prompt is to be cached. So a history in which every result follows its call gives
  an input in which it does.\<close>

theorem responses_request_complete:
  assumes "cjson_types (pe_api P)" "clm_history_to_json (pe_api P) [] h cz = (Some arr, t')"
  shows "\<exists>req out. run_state (responses_build_request P llm (cj_items (pe_api P) arr) tools stream) [] = (Some req, [])
    \<and> cj_get (pe_api P) req (lit ''input'') = Some (array_of (pe_api P) out) \<and> map (entry_of (pe_api P)) out = said_all (llm_cache_system llm) h"
  using cjson_types.build_request_input [OF assms(1) refl, of llm "cj_items (pe_api P) arr" tools stream]
  unfolding cjson_laws.history_entries [OF cjson_types.axioms(1) [OF assms(1)] assms(2)] .

definition asked_history :: "clm_message list" where
  "asked_history = text_message CLM_ROLE_SYSTEM ''s'' # exchange ''1''"

theorem responses_request_complete_witness:
  "\<exists>req out. run_state (responses_build_request json_provider (demo_llm\<lparr>llm_cache_system := True\<rparr>)
       (cj_items json_api (the (fst (clm_history_to_json json_api [] asked_history None)))) None True) [] = (Some req, [])
    \<and> cj_get json_api req (lit ''input'') = Some (array_of json_api out)
    \<and> map (entry_of json_api) out = [EMsg (lit ''developer''), ECall (lit ''1'') (lit ''sh'') (lit ''{}''), EOut (lit ''1'')]"
proof -
  let ?arr = "the (fst (clm_history_to_json json_api [] asked_history None))"
  have "clm_history_to_json json_api [] asked_history None = (Some ?arr, [])"
    by (simp add: asked_history_def clm_history_to_json_def clm_message_to_json_def exchange_def text_message_def blank_message_def message_plain_def Let_def
        clm_tool_call_to_json_def)
  moreover have "said_all True asked_history = [EMsg (lit ''developer''), ECall (lit ''1'') (lit ''sh'') (lit ''{}''), EOut (lit ''1'')]"
    by (simp add: said_all_def prologue_def asked_history_def exchange_def text_message_def blank_message_def said_def said_call_def key_def c_str_def lit_Cons)
  ultimately show ?thesis
    using responses_request_complete [of json_provider asked_history None ?arr "[]" "demo_llm\<lparr>llm_cache_system := True\<rparr>" None True] json_types.cjson_types_axioms
    by (simp add: json_provider_api)
qed

end
