(* ===== verification/Provider_Stream.thy ===== *)
theory Provider_Stream
  imports Provider_Json
begin

text \<open>
  What the agent's parser makes of the chunks that the providers' normalizers produce. A piece is what a chunk carries; the text
  and the tool calls that \<open>Agent_Stream\<close> assembles are computed from the pieces, and from the blocks of the answer they came from.
\<close>

section \<open>Pieces of an answer\<close>

datatype piece = PText cstr | PThink cstr | PStart nat cstr cstr | PArgs nat cstr

context provider_laws
begin

abbreviation J where "J \<equiv> pe_api P"

definition tool_delta :: "nat \<Rightarrow> cstr option \<Rightarrow> cstr option \<Rightarrow> cstr \<Rightarrow> 'j" where
  "tool_delta k i nm frag =
     (let tc = cj_add J (cj_object J) (lit ''index'') (pe_number P (real k));
          tc = (case i of None \<Rightarrow> tc | Some s \<Rightarrow> cj_add J tc (lit ''id'') (cj_string J s));
          func = (case nm of None \<Rightarrow> cj_object J | Some s \<Rightarrow> cj_add J (cj_object J) (lit ''name'') (cj_string J s));
          func = cj_add J func (lit ''arguments'') (cj_string J frag)
      in cj_add J tc (lit ''function'') func)"

fun delta_of :: "piece \<Rightarrow> 'j" where
  "delta_of (PText s) = cj_add J (cj_object J) (lit ''content'') (cj_string J s)"
| "delta_of (PThink s) = cj_add J (cj_object J) (lit ''reasoning_content'') (cj_string J s)"
| "delta_of (PStart k i n) = cj_add J (cj_object J) (lit ''tool_calls'') (array_of J [tool_delta k (Some i) (Some n) []])"
| "delta_of (PArgs k f) = cj_add J (cj_object J) (lit ''tool_calls'') (array_of J [tool_delta k None None f])"

definition chunk :: "piece \<Rightarrow> 'j" where "chunk p = one_delta J (delta_of p)"

lemma chunk_made:
  "run_state (make_delta_chunk J (Some (lit ''content'')) (Some s)) [] = (Some (chunk (PText s)), [])"
  "run_state (make_delta_chunk J (Some (lit ''reasoning_content'')) (Some s)) [] = (Some (chunk (PThink s)), [])"
  "run_state (make_tool_delta_chunk P (int k) (Some i) (Some n) None) [] = (Some (chunk (PStart k i n)), [])"
  "run_state (make_tool_delta_chunk P (int k) None None (Some f)) [] = (Some (chunk (PArgs k f)), [])"
  by (simp_all add: make_delta_chunk_def make_tool_delta_chunk_def nofail chunk_def tool_delta_def Let_def)

lemma chunk_delta: "event_delta J (chunk p) = Some (delta_of p)"
  by (simp add: chunk_def event_delta_def event_choice_def array_head_def one_delta_def one_choice_def object_laws)

lemma get_str_array: "cj_get J d k = Some a \<Longrightarrow> cj_is_array J a \<Longrightarrow> get_str J d k = None"
  by (simp add: get_str_def array_not_string)

lemma chunk_text: "event_text J (chunk p) = (case p of PText s \<Rightarrow> s | _ \<Rightarrow> [])"
  by (cases p) (simp_all add: event_text_def chunk_delta delta_text_def str_laws object_laws lits)

definition piece_deltas :: "piece \<Rightarrow> 'j list" where
  "piece_deltas p = (case p of PStart k i n \<Rightarrow> [tool_delta k (Some i) (Some n) []] | PArgs k f \<Rightarrow> [tool_delta k None None f] | _ \<Rightarrow> [])"

lemma chunk_calls: "event_calls J (chunk p) = piece_deltas p"
  by (cases p) (simp_all add: event_calls_def chunk_delta piece_deltas_def object_laws lits)

lemma tool_delta_views:
  "delta_id J (tool_delta k i nm f) = i" "delta_name_str J (tool_delta k i nm f) = nm" "delta_args J (tool_delta k i nm f) = Some f"
  "cj_get J (tool_delta k i nm f) (lit ''index'') = Some (pe_number P (real k))"
  "typed J (tool_delta k i nm f)"
  by (simp_all add: tool_delta_def delta_id_def delta_name_str_def delta_name_def delta_args_def cj_get_string_def object_laws lits typed_def Let_def
      string_value split: option.split)

end

section \<open>Blocks of an answer\<close>

text \<open>
  An answer is a list of blocks: text and reasoning with the fragments in which they are streamed, and tool calls with their id, name, the fragments of
  their arguments and the arguments as JSON.
\<close>

datatype 'j ablock = TextBlock "cstr list" | ThinkBlock "cstr list" | ToolBlock cstr cstr "cstr list" 'j

definition block_text :: "'j ablock \<Rightarrow> cstr" where
  "block_text b = (case b of TextBlock fs \<Rightarrow> concat fs | _ \<Rightarrow> [])"

definition answer_text :: "'j ablock list \<Rightarrow> cstr" where
  "answer_text bs = concat (map block_text bs)"

definition pieces_of :: "nat \<Rightarrow> 'j ablock \<Rightarrow> piece list" where
  "pieces_of k b = (case b of TextBlock fs \<Rightarrow> map PText fs | ThinkBlock fs \<Rightarrow> map PThink fs
     | ToolBlock i n fs inp \<Rightarrow> PStart k i n # map (PArgs k) fs)"

definition answer_pieces :: "nat \<Rightarrow> 'j ablock list \<Rightarrow> piece list" where
  "answer_pieces k bs = concat (map (\<lambda>(i, b). pieces_of i b) (enumerate k bs))"

definition block_call :: "'j ablock \<Rightarrow> call_view" where
  "block_call b = (case b of ToolBlock i n fs inp \<Rightarrow> (Some i, Some n, Some (concat fs)) | _ \<Rightarrow> (None, None, None))"

definition answer_call :: "'j ablock list \<Rightarrow> nat \<Rightarrow> call_view" where
  "answer_call bs k = (if k < length bs then block_call (bs ! k) else (None, None, None))"

lemma answer_pieces_Cons: "answer_pieces k (b # bs) = pieces_of k b @ answer_pieces (Suc k) bs"
  by (simp add: answer_pieces_def)

context provider_laws
begin

definition env_for :: "('j, 'p) stream_env \<Rightarrow> bool" where
  "env_for E \<longleftrightarrow> se_api E = J \<and> se_int E = pe_int P"

lemma number_nat: "j < 2 ^ 31 \<Longrightarrow> pe_int P (pe_number P (real j)) = int j"
  using number_int [of "int j"] by simp

definition piece_index :: "piece \<Rightarrow> nat option" where
  "piece_index p = (case p of PStart k i n \<Rightarrow> Some k | PArgs k f \<Rightarrow> Some k | _ \<Rightarrow> None)"

lemma piece_call_deltas:
  assumes "env_for E" "\<forall>j. piece_index p = Some j \<longrightarrow> j < 2 ^ 31"
  shows "call_deltas E k 0 (event_calls J (chunk p)) = (if piece_index p = Some k then piece_deltas p else [])"
proof -
  have "j < 2 ^ 31 \<Longrightarrow> delta_index E 0 (tool_delta j i nm f) = int j" for j i nm f
    using assms(1) by (simp add: delta_index_def env_for_def tool_delta_views number_nat)
  then show ?thesis
    using assms(2) by (cases p) (simp_all add: chunk_calls piece_deltas_def call_deltas_def piece_index_def)
qed

lemma text_of_pieces: "concat (map (event_text J) (map chunk (pieces_of k b))) = block_text b"
proof -
  have "concat (map (event_text J \<circ> chunk \<circ> PText) fs) = concat fs" "concat (map (event_text J \<circ> chunk \<circ> PThink) fs) = []"
    "concat (map (event_text J \<circ> chunk \<circ> PArgs k) fs) = []" for fs
    by (induction fs) (simp_all add: chunk_text)
  then show ?thesis by (cases b) (simp_all add: pieces_of_def block_text_def chunk_text comp_assoc)
qed

lemma text_of_answer: "concat (map (event_text J) (map chunk (answer_pieces k bs))) = answer_text bs"
proof (induction bs arbitrary: k)
  case (Cons b bs)
  then show ?case using text_of_pieces [of k b] by (simp add: answer_pieces_Cons answer_text_def)
qed (simp add: answer_pieces_def answer_text_def)

definition deltas_for :: "('j, 'p) stream_env \<Rightarrow> nat \<Rightarrow> piece list \<Rightarrow> 'j list" where
  "deltas_for E k ps = concat (map (\<lambda>p. call_deltas E k 0 (event_calls J (chunk p))) ps)"

lemma deltas_for_simps [simp]: "deltas_for E k [] = []" "deltas_for E k (p # ps) = call_deltas E k 0 (event_calls J (chunk p)) @ deltas_for E k ps"
  "deltas_for E k (ps @ qs) = deltas_for E k ps @ deltas_for E k qs"
  by (simp_all add: deltas_for_def)

lemma joined_args: "join2 (Some x) (foldr join2 (map Some fs) None) = Some (x @ concat fs)"
proof (induction fs arbitrary: x)
  case (Cons f fs)
  then show ?case using Cons.IH [of f] by (simp add: join2_def split: option.splits)
qed (simp add: join2_def)

lemma deltas_of_block:
  assumes "env_for E" "j < 2 ^ 31"
  shows "deltas_for E k (pieces_of j b) = (if k = j then (case b of ToolBlock i n fs inp \<Rightarrow> tool_delta k (Some i) (Some n) [] # map (tool_delta k None None) fs | _ \<Rightarrow> []) else [])"
proof -
  note d = piece_call_deltas [OF assms(1)]
  have "deltas_for E k (map PText fs) = []" "deltas_for E k (map PThink fs) = []"
    "deltas_for E k (map (PArgs j) fs) = (if k = j then map (tool_delta k None None) fs else [])" for fs
    using assms(2) by (induction fs) (simp_all add: d piece_index_def piece_deltas_def)
  then show ?thesis using assms(2) by (cases b) (auto simp: pieces_of_def d piece_index_def piece_deltas_def)
qed

lemma deltas_of_answer:
  assumes "env_for E" "j + length bs \<le> 2 ^ 31"
  shows "deltas_for E k (answer_pieces j bs) = (if j \<le> k \<and> k < j + length bs then deltas_for E k (pieces_of k (bs ! (k - j))) else [])"
  using assms(2)
proof (induction bs arbitrary: j)
  case (Cons b bs)
  have b: "deltas_for E k (pieces_of j b) = (if k = j then deltas_for E k (pieces_of k b) else [])"
    using deltas_of_block [OF assms(1), of j _ b] Cons.prems by auto
  then show ?case
    using Cons.IH [of "Suc j"] Cons.prems by (auto simp: answer_pieces_Cons nth_Cons' Suc_diff_Suc)
qed (auto simp: answer_pieces_def)

lemma calls_of_answer:
  assumes "env_for E" "length bs \<le> 2 ^ 31"
  shows "deltas_view J (deltas_for E k (answer_pieces 0 bs)) = answer_call bs k"
proof (cases "k < length bs")
  case True
  then have lt: "k < 2 ^ 31" using assms(2) by simp
  have "deltas_for E k (answer_pieces 0 bs) = (case bs ! k of ToolBlock i n fs inp \<Rightarrow> tool_delta k (Some i) (Some n) [] # map (tool_delta k None None) fs | _ \<Rightarrow> [])"
    using deltas_of_answer [OF assms(1), of 0 bs k] deltas_of_block [OF assms(1) lt, of k "bs ! k"] True assms(2) by simp
  moreover have "joined (map (delta_args J) (tool_delta k (Some i) (Some n) [] # map (tool_delta k None None) fs)) = Some (concat fs)" for i n fs
    using joined_args [of "[]" fs] by (simp add: joined_def tool_delta_views o_def)
  moreover have "joined [] = None" by (simp add: joined_def)
  moreover have "foldr first_of (map (\<lambda>_. None) fs) None = (None :: cstr option)" for fs :: "cstr list"
    by (induction fs) simp_all
  ultimately show ?thesis
    using True by (simp add: answer_call_def block_call_def deltas_view_def first_some_def tool_delta_views o_def first_of_def split: ablock.split)
next
  case False
  then show ?thesis
    using deltas_of_answer [OF assms(1), of 0 bs k] assms(2) by (simp add: answer_call_def deltas_view_def first_some_def joined_def)
qed

lemma answer_typed: "\<forall>ob \<in> set (map chunk ps). \<forall>d \<in> set (event_calls J ob). typed J d"
  by (auto simp: chunk_calls piece_deltas_def tool_delta_views split: piece.splits)

text \<open>The assembled calls, in order: those of the blocks that are tool calls.\<close>

end

definition answer_calls :: "'j ablock list \<Rightarrow> call_view list" where
  "answer_calls bs = filter (\<lambda>v. fst (snd v) \<noteq> None) (map block_call bs)"

lemma has_name_view: "has_name c \<longleftrightarrow> fst (snd (view c)) \<noteq> None"
  by (simp add: has_name_def view_def)

lemma filter_upto_same:
  assumes "\<And>k. k \<ge> n \<Longrightarrow> \<not> P (f k)" "n \<le> m"
  shows "filter P (map f [0..<m]) = filter P (map f [0..<n])"
proof -
  have "filter P (map f [n..<m]) = []" using assms(1) by (auto simp: filter_empty_conv)
  moreover have "[0..<m] = [0..<n] @ [n..<m]" using upt_add_eq_append [of 0 n "m - n"] assms(2) by simp
  ultimately show ?thesis by simp
qed

lemma assembled_calls:
  assumes "\<forall>k. call_view cls k = answer_call bs k"
  shows "map view (filter has_name cls) = answer_calls bs"
proof -
  let ?P = "\<lambda>v :: call_view. fst (snd v) \<noteq> None"
  have 1: "map view cls = map (answer_call bs) [0..<length cls]"
  proof (rule nth_equalityI)
    fix i assume "i < length (map view cls)"
    then show "map view cls ! i = map (answer_call bs) [0..<length cls] ! i" using assms [rule_format, of i] by (simp add: call_view_def)
  qed simp
  have 2: "map block_call bs = map (answer_call bs) [0..<length bs]"
    by (intro nth_equalityI) (simp_all add: answer_call_def)
  have none: "k \<ge> length bs \<Longrightarrow> \<not> ?P (answer_call bs k)" "k \<ge> length cls \<Longrightarrow> \<not> ?P (answer_call bs k)" for k
    using assms by (simp add: answer_call_def) (metis assms call_view_def fst_conv leD snd_conv)
  have "map view (filter has_name cls) = filter ?P (map view cls)"
    by (induction cls) (simp_all add: has_name_view)
  also have "\<dots> = filter ?P (map (answer_call bs) [0..<max (length cls) (length bs)])"
    unfolding 1 by (rule filter_upto_same [symmetric]) (use none in auto)
  also have "\<dots> = filter ?P (map block_call bs)"
    unfolding 2 by (rule filter_upto_same) (use none in auto)
  finally show ?thesis by (simp add: answer_calls_def)
qed

text \<open>A call of the canonical format, read back.\<close>

definition read_call :: "'j cjson_api \<Rightarrow> 'j \<Rightarrow> call_view" where
  "read_call J j = (cj_get_string J j (lit ''id''), Option.bind (cj_get J j (lit ''function'')) (\<lambda>f. cj_get_string J f (lit ''name'')),
     Option.bind (cj_get J j (lit ''function'')) (\<lambda>f. cj_get_string J f (lit ''arguments'')))"

definition items_or_none :: "'j cjson_api \<Rightarrow> 'j option \<Rightarrow> 'j list" where
  "items_or_none J a = (case a of None \<Rightarrow> [] | Some a \<Rightarrow> cj_items J a)"

lemma listed_calls:
  assumes "list_all2 (call_named J) cs js" "map view cs = answer_calls bs"
  shows "map (read_call J) js = answer_calls bs"
proof -
  have "read_call J j = v" if c: "call_named J c j" "view c = v" "v \<in> set (answer_calls bs)" for c j v
  proof -
    obtain i n fs inp where "v = (Some i, Some n, Some (concat fs))"
      using c(3) by (auto simp: answer_calls_def block_call_def split: ablock.splits)
    then show ?thesis using c by (auto simp: read_call_def call_named_def view_def)
  qed
  then have eq: "call_named J c j \<Longrightarrow> view c \<in> set (map view cs) \<Longrightarrow> read_call J j = view c" for c j
    using assms(2) by simp
  have "map (read_call J) js = map view cs"
  proof (rule nth_equalityI)
    show "length (map (read_call J) js) = length (map view cs)" using assms(1) by (simp add: list_all2_lengthD)
    fix i assume "i < length (map (read_call J) js)"
    then have i: "i < length js" "i < length cs" using assms(1) by (simp_all add: list_all2_lengthD)
    then have "call_named J (cs ! i) (js ! i)" using assms(1) by (simp add: list_all2_conv_all_nth)
    then show "map (read_call J) js ! i = map view cs ! i" using eq [of "cs ! i" "js ! i"] i by simp
  qed
  then show ?thesis using assms(2) by simp
qed

section \<open>A stream of events\<close>

text \<open>The JSON of a line, if it carries any.\<close>

definition line_json :: "'j cjson_api \<Rightarrow> byte list \<Rightarrow> 'j option" where
  "line_json J l = Option.bind (line_payload l) (cj_parse J)"

context provider_laws
begin

definition quiet :: "'j \<Rightarrow> bool" where
  "quiet ob \<longleftrightarrow> event_text J ob = [] \<and> event_calls J ob = []"

text \<open>The normalizer makes of an event the chunk of its piece, or nothing that matters.\<close>

definition carries :: "('j, 'p) stream_env \<Rightarrow> 'j \<Rightarrow> piece option \<Rightarrow> bool" where
  "carries E raw e \<longleftrightarrow> (\<forall>p. case e of Some pc \<Rightarrow> fst (normalize_event E raw p) = Some (chunk pc)
     | None \<Rightarrow> (\<forall>ob. fst (normalize_event E raw p) = Some ob \<longrightarrow> quiet ob))"

lemma events_pieces:
  assumes "env_for E"
  shows "list_all2 (carries E) (List.map_filter (line_json J) ls) es \<Longrightarrow>
    concat (map (event_text J) (events E p ls)) = concat (map (event_text J) (map chunk (List.map_filter id es)))
    \<and> concat (map (\<lambda>ob. call_deltas E k 0 (event_calls J ob)) (events E p ls)) = deltas_for E k (List.map_filter id es)
    \<and> (\<forall>ob \<in> set (events E p ls). \<forall>d \<in> set (event_calls J ob). typed J d)"
proof (induction ls arbitrary: p es)
  case (Cons l ls)
  show ?case
  proof (cases "line_json J l")
    case None
    then have "line_event E p l = (None, p)" using assms by (simp add: line_event_def line_json_def env_for_def)
    then show ?thesis using Cons.IH [of es p] Cons.prems None by (simp add: map_filter_simps)
  next
    case (Some raw)
    then obtain e es1 where es: "es = e # es1" "carries E raw e" "list_all2 (carries E) (List.map_filter (line_json J) ls) es1"
      using Cons.prems by (auto simp: map_filter_simps list_all2_Cons1)
    obtain r p' where r: "normalize_event E raw p = (r, p')" by fastforce
    have le: "line_event E p l = (r, p')" using Some assms r by (simp add: line_event_def line_json_def env_for_def)
    note IH = Cons.IH [OF es(3), of p']
    show ?thesis
    proof (cases e)
      case None
      then have "r = Some ob \<Longrightarrow> quiet ob" for ob using es(2) r by (auto simp: carries_def) (metis fst_conv)
      then show ?thesis using IH le None es(1) by (cases r) (auto simp: map_filter_simps quiet_def call_deltas_def)
    next
      case (Some pc)
      then have "r = Some (chunk pc)" using es(2) r by (auto simp: carries_def) (metis fst_conv)
      moreover have "\<forall>d \<in> set (event_calls J (chunk pc)). typed J d" using answer_typed [of "[pc]"] by simp
      ultimately show ?thesis using IH le Some es(1) by (simp add: map_filter_simps)
    qed
  qed
qed (simp add: map_filter_simps)

lemma stream_of_answer:
  assumes "env_for E" "length bs \<le> 2 ^ 31" "\<not> a_cancelling a" "sb_str (t_line turn) = []" "sb_str (t_content turn) = []" "t_calls turn = []"
    and "list_all2 (carries E) (List.map_filter (line_json J) (fst (split_lines [] (concat cs)))) es" "List.map_filter id es = answer_pieces 0 bs"
  shows "\<exists>turn' a' r. feed E cs [] turn a = Some ([], turn', a') \<and> sb_str (t_content turn') = answer_text bs
    \<and> stream_build_tool_calls J turn' [] = (r, []) \<and> map (read_call J) (items_or_none J r) = answer_calls bs"
proof -
  let ?os = "events E (t_pstate turn) (fst (split_lines [] (concat cs)))"
  have api: "se_api E = J" using assms(1) by (simp add: env_for_def)
  note ev = events_pieces [OF assms(1,7), of "t_pstate turn", unfolded assms(8)]
  obtain turn' a' where t: "clm_http_data_cb E (concat cs) [] turn a = Some ([], turn', a')" "sb_str (t_content turn') = concat (map (event_text J) ?os)"
    "\<forall>k. call_view (t_calls turn') k = foldl (merge_view J) (call_view (t_calls turn) k) (concat (map (\<lambda>ob. call_deltas E k 0 (event_calls J ob)) ?os))"
    using data_cb_assembles [of a E turn "concat cs", unfolded api assms(4)] ev assms(3,5) by auto
  have "foldl (merge_view J) (call_view [] k) ds = deltas_view J ds" for k ds
    by (simp add: call_view_def deltas_view_def foldl_merge_view)
  then have calls: "\<forall>k. call_view (t_calls turn') k = answer_call bs k"
    using t(3) ev calls_of_answer [OF assms(1,2)] assms(6) by simp
  obtain r where r: "stream_build_tool_calls J turn' [] = (r, [])" "case r of None \<Rightarrow> filter has_name (t_calls turn') = []
     | Some arr \<Rightarrow> list_all2 (call_named J) (filter has_name (t_calls turn')) (cj_items J arr)"
    using build_tool_calls_ok [of turn'] by (fastforce split: option.splits)
  have "list_all2 (call_named J) (filter has_name (t_calls turn')) (items_or_none J r)"
    using r(2) by (cases r) (simp_all add: items_or_none_def)
  then have "map (read_call J) (items_or_none J r) = answer_calls bs"
    using listed_calls assembled_calls [OF calls] by blast
  then show ?thesis using t(1,2) ev r(1) text_of_answer [of 0 bs] by (simp add: feed_concat)
qed

end

end
