(* ===== verification/Anthropic_Response.thy ===== *)
theory Anthropic_Response
  imports Provider_Stream
begin

text \<open>
  The response side of \<^verbatim>\<open>libclm/provider_anthropic.c\<close>: a whole answer and the events of a streamed one become the canonical format.
  The property is that both ways lead to the same text and the same tool calls.
\<close>

section \<open>Usage\<close>

definition usage_number :: "'j provider_env \<Rightarrow> 'j \<Rightarrow> cstr \<Rightarrow> real" where
  "usage_number P usage name = num_or_zero P usage name"

definition anthropic_prompt_tokens :: "'j provider_env \<Rightarrow> 'j \<Rightarrow> real" where
  "anthropic_prompt_tokens P usage = usage_number P usage (lit ''input_tokens'') + usage_number P usage (lit ''cache_read_input_tokens'')
     + usage_number P usage (lit ''cache_creation_input_tokens'')"

text \<open>The canonical usage object, left out when it cannot be created.\<close>

definition put_usage :: "'j provider_env \<Rightarrow> 'j \<Rightarrow> real \<Rightarrow> real \<Rightarrow> real \<Rightarrow> real \<Rightarrow> 'j mem" where
  "put_usage P ob itok otok cread cwrite = (let J = pe_api P in do {
     u \<leftarrow> create (cj_object J);
     case u of None \<Rightarrow> State_Monad.return ob
     | Some u \<Rightarrow> do {
       u \<leftarrow> put_new J u (lit ''prompt_tokens'') (pe_number P itok);
       u \<leftarrow> put_new J u (lit ''completion_tokens'') (pe_number P otok);
       u \<leftarrow> put_new J u (lit ''total_tokens'') (pe_number P (itok + otok));
       u \<leftarrow> put_new J u (lit ''cache_read_tokens'') (pe_number P cread);
       u \<leftarrow> put_new J u (lit ''cache_write_tokens'') (pe_number P cwrite);
       State_Monad.return (cj_add J ob (lit ''usage'') u) } })"

definition map_stop_reason :: "cstr option \<Rightarrow> cstr option" where
  "map_stop_reason reason =
     (if reason = None then None
      else if reason = Some (lit ''end_turn'') \<or> reason = Some (lit ''stop_sequence'') then Some (lit ''stop'')
      else if reason = Some (lit ''max_tokens'') then Some (lit ''length'')
      else if reason = Some (lit ''tool_use'') then Some (lit ''tool_calls'')
      else reason)"

section \<open>A whole answer\<close>

record 'j gathered =
  g_text :: "cstr option"
  g_think :: "cstr option"
  g_calls :: "'j list option"

definition grow :: "cstr option \<Rightarrow> cstr \<Rightarrow> cstr option mem" where
  "grow old s = copy_string ((case old of None \<Rightarrow> [] | Some x \<Rightarrow> x) @ s)"

definition canonical_call :: "'j cjson_api \<Rightarrow> cstr \<Rightarrow> cstr \<Rightarrow> cstr \<Rightarrow> 'j option mem" where
  "canonical_call J i nm args = do {
     call \<leftarrow> create (cj_object J);
     case call of None \<Rightarrow> State_Monad.return None
     | Some call \<Rightarrow> do {
       call \<leftarrow> put_string J call (lit ''id'') i;
       call \<leftarrow> put_string J call (lit ''type'') (lit ''function'');
       func \<leftarrow> create (cj_object J);
       case func of None \<Rightarrow> State_Monad.return None
       | Some func \<Rightarrow> do {
         func \<leftarrow> put_string J func (lit ''name'') nm;
         func \<leftarrow> put_string J func (lit ''arguments'') args;
         State_Monad.return (Some (cj_add J call (lit ''function'') func)) } } }"

definition add_canonical_call :: "'j cjson_api \<Rightarrow> cstr \<Rightarrow> cstr \<Rightarrow> cstr \<Rightarrow> 'j gathered \<Rightarrow> 'j gathered option mem" where
  "add_canonical_call J i nm args g = do {
     arr \<leftarrow> (case g_calls g of Some cs \<Rightarrow> State_Monad.return (Some cs)
       | None \<Rightarrow> do { a \<leftarrow> create (cj_array J); State_Monad.return (map_option (\<lambda>_. []) a) });
     case arr of None \<Rightarrow> State_Monad.return None
     | Some cs \<Rightarrow> do {
       call \<leftarrow> canonical_call J i nm args;
       State_Monad.return (map_option (\<lambda>c. g\<lparr>g_calls := Some (cs @ [c])\<rparr>) call) } }"

definition gather_block :: "'j cjson_api \<Rightarrow> 'j \<Rightarrow> 'j gathered \<Rightarrow> 'j gathered option mem" where
  "gather_block J b g =
     (let btype = str_or_empty J b (lit ''type'') in
      if btype = lit ''text'' then
        (case get_str J b (lit ''text'') of None \<Rightarrow> State_Monad.return (Some g)
         | Some s \<Rightarrow> do { p \<leftarrow> grow (g_text g) s; State_Monad.return (map_option (\<lambda>p. g\<lparr>g_text := Some p\<rparr>) p) })
      else if btype = lit ''thinking'' then
        (case get_str J b (lit ''thinking'') of None \<Rightarrow> State_Monad.return (Some g)
         | Some s \<Rightarrow> do { p \<leftarrow> grow (g_think g) s; State_Monad.return (map_option (\<lambda>p. g\<lparr>g_think := Some p\<rparr>) p) })
      else if btype = lit ''tool_use'' then
        add_canonical_call J (str_or_empty J b (lit ''id'')) (str_or_empty J b (lit ''name''))
          (case Option.bind (cj_get J b (lit ''input'')) (cj_print J) of None \<Rightarrow> lit ''{}'' | Some s \<Rightarrow> s) g
      else State_Monad.return (Some g))"

fun gather_blocks :: "'j cjson_api \<Rightarrow> 'j list \<Rightarrow> 'j gathered \<Rightarrow> 'j gathered option mem" where
  "gather_blocks J [] g = State_Monad.return (Some g)"
| "gather_blocks J (b # bs) g = do {
     r \<leftarrow> gather_block J b g;
     case r of None \<Rightarrow> State_Monad.return None | Some g \<Rightarrow> gather_blocks J bs g }"

text \<open>The canonical message of what was gathered.\<close>

definition canonical_message :: "'j cjson_api \<Rightarrow> 'j gathered \<Rightarrow> 'j mem" where
  "canonical_message J g = do {
     m \<leftarrow> put_string J (cj_object J) (lit ''role'') (lit ''assistant'');
     m \<leftarrow> put_new J m (lit ''content'') (case g_text g of Some s \<Rightarrow> cj_string J s | None \<Rightarrow> cj_null J);
     m \<leftarrow> (case g_think g of None \<Rightarrow> State_Monad.return m | Some s \<Rightarrow> put_string J m (lit ''reasoning_content'') s);
     State_Monad.return (case g_calls g of None \<Rightarrow> m | Some cs \<Rightarrow> cj_add J m (lit ''tool_calls'') (array_of J cs)) }"

definition nothing_gathered :: "'j gathered" where
  "nothing_gathered = \<lparr>g_text = None, g_think = None, g_calls = None\<rparr>"

definition anthropic_normalize_response :: "'j provider_env \<Rightarrow> 'j \<Rightarrow> 'j option mem" where
  "anthropic_normalize_response P raw = (let J = pe_api P in
     case cj_get J raw (lit ''content'') of None \<Rightarrow> State_Monad.return None
     | Some content_blocks \<Rightarrow>
       if \<not> cj_is_array J content_blocks then State_Monad.return None
       else do {
         g \<leftarrow> gather_blocks J (cj_items J content_blocks) nothing_gathered;
         case g of None \<Rightarrow> State_Monad.return None
         | Some g \<Rightarrow> do {
           out \<leftarrow> create (cj_object J);
           if out = None then State_Monad.return None else do {
           choices \<leftarrow> create (cj_array J); choice0 \<leftarrow> create (cj_object J); message \<leftarrow> create (cj_object J);
           if choices = None \<or> choice0 = None \<or> message = None then State_Monad.return None else do {
           m \<leftarrow> canonical_message J g;
           let c = cj_add J (cj_object J) (lit ''message'') m;
           c \<leftarrow> (case map_stop_reason (get_str J raw (lit ''stop_reason'')) of None \<Rightarrow> State_Monad.return c
             | Some r \<Rightarrow> put_string J c (lit ''finish_reason'') r);
           let out = one_choice J c;
           out \<leftarrow> (case cj_get J raw (lit ''usage'') of None \<Rightarrow> State_Monad.return out
             | Some u \<Rightarrow> if \<not> cj_is_object J u then State_Monad.return out
               else put_usage P out (anthropic_prompt_tokens P u) (num_or_zero P u (lit ''output_tokens''))
                 (usage_number P u (lit ''cache_read_input_tokens'')) (usage_number P u (lit ''cache_creation_input_tokens'')));
           State_Monad.return (Some out) } } } })"

section \<open>A streamed answer\<close>

record anth_stream_state =
  ast_input :: real
  ast_cache_read :: real
  ast_cache_write :: real

definition anth_stream_state_of :: "anth_stream_state option \<Rightarrow> anth_stream_state option mem" where
  "anth_stream_state_of st = (case st of Some s \<Rightarrow> State_Monad.return (Some s)
     | None \<Rightarrow> do { ok \<leftarrow> State alloc; State_Monad.return (if ok then Some \<lparr>ast_input = 0, ast_cache_read = 0, ast_cache_write = 0\<rparr> else None) })"

definition anth_block_start :: "'j provider_env \<Rightarrow> 'j \<Rightarrow> 'j option mem" where
  "anth_block_start P raw = (let J = pe_api P in
     case cj_get J raw (lit ''content_block'') of None \<Rightarrow> State_Monad.return None
     | Some block \<Rightarrow>
       if get_str J block (lit ''type'') = Some (lit ''tool_use'') then
         make_tool_delta_chunk P (int_or_zero P raw (lit ''index'')) (Some (str_or_empty J block (lit ''id'')))
           (Some (str_or_empty J block (lit ''name''))) None
       else State_Monad.return None)"

definition anth_block_delta :: "'j provider_env \<Rightarrow> 'j \<Rightarrow> 'j option mem" where
  "anth_block_delta P raw = (let J = pe_api P in
     case cj_get J raw (lit ''delta'') of None \<Rightarrow> State_Monad.return None
     | Some delta \<Rightarrow>
       let dtype = str_or_empty J delta (lit ''type'') in
       if dtype = lit ''text_delta'' then make_delta_chunk J (Some (lit ''content'')) (Some (str_or_empty J delta (lit ''text'')))
       else if dtype = lit ''thinking_delta'' then
         make_delta_chunk J (Some (lit ''reasoning_content'')) (Some (str_or_empty J delta (lit ''thinking'')))
       else if dtype = lit ''input_json_delta'' then
         make_tool_delta_chunk P (int_or_zero P raw (lit ''index'')) None None (Some (str_or_empty J delta (lit ''partial_json'')))
       else State_Monad.return None)"

definition anth_message_start :: "'j provider_env \<Rightarrow> 'j \<Rightarrow> anth_stream_state option \<Rightarrow> anth_stream_state option mem" where
  "anth_message_start P raw st = (let J = pe_api P; usage = Option.bind (cj_get J raw (lit ''message'')) (\<lambda>m. cj_get J m (lit ''usage'')) in do {
     st \<leftarrow> anth_stream_state_of st;
     State_Monad.return (case (st, usage) of
       (Some s, Some u) \<Rightarrow> Some (if cj_is_object J u then \<lparr>ast_input = anthropic_prompt_tokens P u,
          ast_cache_read = usage_number P u (lit ''cache_read_input_tokens''), ast_cache_write = usage_number P u (lit ''cache_creation_input_tokens'')\<rparr> else s)
     | _ \<Rightarrow> st) })"

definition anth_message_delta :: "'j provider_env \<Rightarrow> 'j \<Rightarrow> anth_stream_state option \<Rightarrow> ('j option \<times> anth_stream_state option) mem" where
  "anth_message_delta P raw st = (let J = pe_api P;
     stop = Option.bind (cj_get J raw (lit ''delta'')) (\<lambda>d. get_str J d (lit ''stop_reason''));
     jout = Option.bind (cj_get J raw (lit ''usage'')) (\<lambda>u. cj_get J u (lit ''output_tokens'')) in do {
     st \<leftarrow> anth_stream_state_of st;
     out \<leftarrow> create (cj_object J); choices \<leftarrow> create (cj_array J); choice0 \<leftarrow> create (cj_object J);
     if out = None \<or> choices = None \<or> choice0 = None then State_Monad.return (None, st) else do {
     c \<leftarrow> (case map_stop_reason stop of None \<Rightarrow> State_Monad.return (cj_object J)
       | Some r \<Rightarrow> put_string J (cj_object J) (lit ''finish_reason'') r);
     let out = one_choice J c;
     out \<leftarrow> (case jout of None \<Rightarrow> State_Monad.return out
       | Some v \<Rightarrow> if \<not> cj_is_number J v then State_Monad.return out
         else (case st of
             Some s \<Rightarrow> put_usage P out (ast_input s) (pe_num P v) (ast_cache_read s) (ast_cache_write s)
           | None \<Rightarrow> put_usage P out 0 (pe_num P v) 0 0));
     State_Monad.return (Some out, st) } })"

definition anthropic_normalize_stream_event :: "'j provider_env \<Rightarrow> 'j \<Rightarrow> anth_stream_state option \<Rightarrow> ('j option \<times> anth_stream_state option) mem" where
  "anthropic_normalize_stream_event P raw st =
     (let type = str_or_empty (pe_api P) raw (lit ''type'') in
      if type = lit ''content_block_start'' then do { r \<leftarrow> anth_block_start P raw; State_Monad.return (r, st) }
      else if type = lit ''content_block_delta'' then do { r \<leftarrow> anth_block_delta P raw; State_Monad.return (r, st) }
      else if type = lit ''message_start'' then do { st \<leftarrow> anth_message_start P raw st; State_Monad.return (None, st) }
      else if type = lit ''message_delta'' then anth_message_delta P raw st
      else State_Monad.return (None, st))"

section \<open>What the server sends\<close>

text \<open>A block of a whole answer.\<close>

fun anth_block_is :: "'j cjson_api \<Rightarrow> 'j \<Rightarrow> 'j ablock \<Rightarrow> bool" where
  "anth_block_is J b (TextBlock fs) \<longleftrightarrow> get_str J b (lit ''type'') = Some (lit ''text'') \<and> get_str J b (lit ''text'') = Some (concat fs)"
| "anth_block_is J b (ThinkBlock fs) \<longleftrightarrow> get_str J b (lit ''type'') = Some (lit ''thinking'') \<and> get_str J b (lit ''thinking'') = Some (concat fs)"
| "anth_block_is J b (ToolBlock i n fs inp) \<longleftrightarrow> get_str J b (lit ''type'') = Some (lit ''tool_use'') \<and> get_str J b (lit ''id'') = Some i
     \<and> get_str J b (lit ''name'') = Some n \<and> cj_get J b (lit ''input'') = Some inp"

definition anth_answer_is :: "'j cjson_api \<Rightarrow> 'j \<Rightarrow> 'j ablock list \<Rightarrow> bool" where
  "anth_answer_is J raw bs \<longleftrightarrow> (\<exists>arr. cj_get J raw (lit ''content'') = Some arr \<and> cj_is_array J arr \<and> list_all2 (anth_block_is J) (cj_items J arr) bs)"

text \<open>An event of a streamed answer; \<open>None\<close> for the ones that carry no text and no call.\<close>

definition index_is :: "'j provider_env \<Rightarrow> 'j \<Rightarrow> nat \<Rightarrow> bool" where
  "index_is P raw k \<longleftrightarrow> int_or_zero P raw (lit ''index'') = int k"

fun anth_event_is :: "'j provider_env \<Rightarrow> 'j \<Rightarrow> piece option \<Rightarrow> bool" where
  "anth_event_is P raw (Some (PText s)) \<longleftrightarrow> get_str (pe_api P) raw (lit ''type'') = Some (lit ''content_block_delta'')
     \<and> (\<exists>d. cj_get (pe_api P) raw (lit ''delta'') = Some d \<and> get_str (pe_api P) d (lit ''type'') = Some (lit ''text_delta'')
        \<and> get_str (pe_api P) d (lit ''text'') = Some s)"
| "anth_event_is P raw (Some (PThink s)) \<longleftrightarrow> get_str (pe_api P) raw (lit ''type'') = Some (lit ''content_block_delta'')
     \<and> (\<exists>d. cj_get (pe_api P) raw (lit ''delta'') = Some d \<and> get_str (pe_api P) d (lit ''type'') = Some (lit ''thinking_delta'')
        \<and> get_str (pe_api P) d (lit ''thinking'') = Some s)"
| "anth_event_is P raw (Some (PStart k i n)) \<longleftrightarrow> get_str (pe_api P) raw (lit ''type'') = Some (lit ''content_block_start'') \<and> index_is P raw k
     \<and> (\<exists>b. cj_get (pe_api P) raw (lit ''content_block'') = Some b \<and> get_str (pe_api P) b (lit ''type'') = Some (lit ''tool_use'')
        \<and> get_str (pe_api P) b (lit ''id'') = Some i \<and> get_str (pe_api P) b (lit ''name'') = Some n)"
| "anth_event_is P raw (Some (PArgs k f)) \<longleftrightarrow> get_str (pe_api P) raw (lit ''type'') = Some (lit ''content_block_delta'') \<and> index_is P raw k
     \<and> (\<exists>d. cj_get (pe_api P) raw (lit ''delta'') = Some d \<and> get_str (pe_api P) d (lit ''type'') = Some (lit ''input_json_delta'')
        \<and> get_str (pe_api P) d (lit ''partial_json'') = Some f)"
| "anth_event_is P raw None \<longleftrightarrow> get_str (pe_api P) raw (lit ''type'') \<noteq> Some (lit ''content_block_delta'')
     \<and> (get_str (pe_api P) raw (lit ''type'') = Some (lit ''content_block_start'') \<longrightarrow>
        Option.bind (cj_get (pe_api P) raw (lit ''content_block'')) (\<lambda>b. get_str (pe_api P) b (lit ''type'')) \<noteq> Some (lit ''tool_use''))"

text \<open>The agent's parser with this provider, while memory lasts.\<close>

definition anthropic_stream_env :: "'j provider_env \<Rightarrow> ('j, anth_stream_state) stream_env" where
  "anthropic_stream_env P = \<lparr>se_api = pe_api P, se_int = pe_int P, se_num = pe_num P,
     se_normalize = Some (\<lambda>raw st. fst (run_state (anthropic_normalize_stream_event P raw st) []))\<rparr>"

text \<open>The calls of an answer with their arguments as cJSON prints them.\<close>

definition printed_calls :: "'j cjson_api \<Rightarrow> 'j ablock list \<Rightarrow> call_view list" where
  "printed_calls J bs = List.map_filter (\<lambda>b. case b of ToolBlock i n fs inp \<Rightarrow>
     Some (Some i, Some n, Some (case cj_print J inp of None \<Rightarrow> lit ''{}'' | Some s \<Rightarrow> s)) | _ \<Rightarrow> None) bs"

section \<open>Both ways agree\<close>

context provider_laws
begin

lemma env_for_anthropic: "env_for (anthropic_stream_env P)"
  by (simp add: env_for_def anthropic_stream_env_def)

definition usage_json :: "real \<Rightarrow> real \<Rightarrow> real \<Rightarrow> real \<Rightarrow> 'j" where
  "usage_json x y z w = cj_add J (cj_add J (cj_add J (cj_add J (cj_add J (cj_object J) (lit ''prompt_tokens'') (pe_number P x))
     (lit ''completion_tokens'') (pe_number P y)) (lit ''total_tokens'') (pe_number P (x + y))) (lit ''cache_read_tokens'') (pe_number P z))
     (lit ''cache_write_tokens'') (pe_number P w)"

lemma put_usage_ok: "run_state (put_usage P ob x y z w) [] = (cj_add J ob (lit ''usage'') (usage_json x y z w), [])"
  by (simp add: put_usage_def nofail Let_def usage_json_def)

lemma one_choice_quiet:
  assumes "cj_is_object J c" "cj_get J c (lit ''delta'') = None"
  shows "quiet (one_choice J c)" "quiet (cj_add J (one_choice J c) (lit ''usage'') u)"
  using assms by (simp_all add: quiet_def event_text_def event_calls_def event_delta_def event_choice_def array_head_def one_choice_def object_laws lits)

lemma message_delta_quiet: "\<exists>ob st'. run_state (anth_message_delta P raw st) [] = ((Some ob, st'), []) \<and> quiet ob"
proof -
  obtain st1 where st: "run_state (anth_stream_state_of st) [] = (Some st1, [])"
    by (cases st) (simp_all add: anth_stream_state_of_def)
  let ?stop = "Option.bind (cj_get J raw (lit ''delta'')) (\<lambda>d. get_str J d (lit ''stop_reason''))"
  let ?c = "case map_stop_reason ?stop of None \<Rightarrow> cj_object J | Some r \<Rightarrow> cj_add J (cj_object J) (lit ''finish_reason'') (cj_string J r)"
  have c: "run_state (case map_stop_reason ?stop of None \<Rightarrow> State_Monad.return (cj_object J)
      | Some r \<Rightarrow> put_string J (cj_object J) (lit ''finish_reason'') r) [] = (?c, [])"
    by (simp add: nofail split: option.split)
  have q: "quiet (one_choice J ?c)" "quiet (cj_add J (one_choice J ?c) (lit ''usage'') u)" for u
    by (rule one_choice_quiet; simp add: object_laws lits split: option.split)+
  show ?thesis
  proof (cases "Option.bind (cj_get J raw (lit ''usage'')) (\<lambda>u. cj_get J u (lit ''output_tokens''))")
    case None
    then show ?thesis using st c q(1) by (simp add: anth_message_delta_def nofail Let_def)
  next
    case (Some v)
    then show ?thesis using st c q by (simp add: anth_message_delta_def nofail Let_def put_usage_ok)
  qed
qed

lemma anth_carries: "anth_event_is P raw e \<Longrightarrow> carries (anthropic_stream_env P) raw e"
proof -
  assume e: "anth_event_is P raw e"
  have n: "normalize_event (anthropic_stream_env P) raw p = fst (run_state (anthropic_normalize_stream_event P raw p) [])" for p
    by (simp add: normalize_event_def anthropic_stream_env_def)
  show ?thesis
  proof (cases e)
    case None
    have "quiet ob" if "fst (normalize_event (anthropic_stream_env P) raw p) = Some ob" for p ob
    proof (cases "get_str J raw (lit ''type'') = Some (lit ''message_delta'')")
      case True
      then show ?thesis using that message_delta_quiet [of raw p]
        by (auto simp: n anthropic_normalize_stream_event_def str_or_empty_def lits)
    next
      case False
      then show ?thesis using that e None
        by (auto simp: n anthropic_normalize_stream_event_def str_or_empty_def lits Let_def anth_block_start_def
            split: if_splits option.splits prod.splits)
    qed
    then show ?thesis using None by (simp add: carries_def)
  next
    case (Some pc)
    then show ?thesis using e
      by (cases pc) (auto simp: carries_def n anthropic_normalize_stream_event_def str_or_empty_def lits Let_def anth_block_start_def
          anth_block_delta_def index_is_def chunk_made)
  qed
qed

text \<open>The whole answer.\<close>

lemma canonical_call_ok: "\<exists>c. run_state (canonical_call J i n args) [] = (Some c, []) \<and> read_call J c = (Some i, Some n, Some args)"
  by (simp add: canonical_call_def nofail read_call_def cj_get_string_def object_laws lits string_value)

definition gathered_text :: "'j gathered \<Rightarrow> cstr" where
  "gathered_text g = (case g_text g of None \<Rightarrow> [] | Some s \<Rightarrow> s)"

definition gathered_calls :: "'j gathered \<Rightarrow> 'j list" where
  "gathered_calls g = (case g_calls g of None \<Rightarrow> [] | Some cs \<Rightarrow> cs)"

lemma gather_block_ok:
  assumes "anth_block_is J x b"
  shows "\<exists>g'. run_state (gather_block J x g) [] = (Some g', []) \<and> gathered_text g' = gathered_text g @ block_text b
    \<and> map (read_call J) (gathered_calls g') = map (read_call J) (gathered_calls g) @ printed_calls J [b]"
proof (cases b)
  case (ToolBlock i n fs inp)
  obtain c where c: "run_state (canonical_call J i n (case cj_print J inp of None \<Rightarrow> lit ''{}'' | Some s \<Rightarrow> s)) [] = (Some c, [])"
    "read_call J c = (Some i, Some n, Some (case cj_print J inp of None \<Rightarrow> lit ''{}'' | Some s \<Rightarrow> s))" using canonical_call_ok by blast
  then have "run_state (gather_block J x g) [] = (Some (g\<lparr>g_calls := Some (gathered_calls g @ [c])\<rparr>), [])"
    using assms ToolBlock
    by (simp add: gather_block_def str_or_empty_def lits add_canonical_call_def gathered_calls_def nofail split: option.split)
  then show ?thesis using c(2) ToolBlock
    by (simp add: gathered_text_def gathered_calls_def block_text_def printed_calls_def)
qed (use assms in \<open>simp_all add: gather_block_def str_or_empty_def lits grow_def nofail gathered_text_def gathered_calls_def block_text_def printed_calls_def
    split: option.split\<close>)

lemma gather_blocks_ok:
  "list_all2 (anth_block_is J) xs bs \<Longrightarrow> \<exists>g'. run_state (gather_blocks J xs g) [] = (Some g', []) \<and> gathered_text g' = gathered_text g @ answer_text bs
    \<and> map (read_call J) (gathered_calls g') = map (read_call J) (gathered_calls g) @ printed_calls J bs"
proof (induction xs arbitrary: bs g)
  case (Cons x xs)
  then obtain b bs1 where bs: "bs = b # bs1" "anth_block_is J x b" "list_all2 (anth_block_is J) xs bs1" by (auto simp: list_all2_Cons1)
  obtain g1 where g1: "run_state (gather_block J x g) [] = (Some g1, [])" "gathered_text g1 = gathered_text g @ block_text b"
    "map (read_call J) (gathered_calls g1) = map (read_call J) (gathered_calls g) @ printed_calls J [b]" using gather_block_ok [OF bs(2)] by blast
  have "printed_calls J (b # bs1) = printed_calls J [b] @ printed_calls J bs1" by (simp add: printed_calls_def split: option.split)
  then show ?case using Cons.IH [OF bs(3), of g1] g1 bs(1) by (auto simp: answer_text_def)
qed (simp add: answer_text_def printed_calls_def)

lemma message_found: "response_message J (one_choice J c) = cj_get J c (lit ''message'')"
  "response_message J (cj_add J (one_choice J c) (lit ''usage'') u) = cj_get J c (lit ''message'')"
  by (simp_all add: response_message_def one_choice_def array_head_def object_laws lits)

lemma canonical_message_ok:
  "\<exists>m. run_state (canonical_message J g) [] = (m, []) \<and> (g_text g \<noteq> None \<longrightarrow> get_str J m (lit ''content'') = g_text g)
    \<and> items_or_none J (cj_get J m (lit ''tool_calls'')) = gathered_calls g"
  by (cases "g_text g"; cases "g_think g"; cases "g_calls g")
    (simp_all add: canonical_message_def nofail object_laws str_laws lits items_or_none_def gathered_calls_def)

lemma normalize_response_ok:
  assumes "anth_answer_is J raw bs"
  shows "\<exists>resp msg. run_state (anthropic_normalize_response P raw) [] = (Some resp, []) \<and> response_message J resp = Some msg
    \<and> (answer_text bs \<noteq> [] \<longrightarrow> get_str J msg (lit ''content'') = Some (answer_text bs))
    \<and> map (read_call J) (items_or_none J (cj_get J msg (lit ''tool_calls''))) = printed_calls J bs"
proof -
  obtain arr where arr: "cj_get J raw (lit ''content'') = Some arr" "cj_is_array J arr" "list_all2 (anth_block_is J) (cj_items J arr) bs"
    using assms by (auto simp: anth_answer_is_def)
  obtain g where g: "run_state (gather_blocks J (cj_items J arr) nothing_gathered) [] = (Some g, [])" "gathered_text g = answer_text bs"
    "map (read_call J) (gathered_calls g) = printed_calls J bs"
    using gather_blocks_ok [OF arr(3), of nothing_gathered] by (auto simp: nothing_gathered_def gathered_text_def gathered_calls_def)
  obtain m where m: "run_state (canonical_message J g) [] = (m, [])" "g_text g \<noteq> None \<longrightarrow> get_str J m (lit ''content'') = g_text g"
    "items_or_none J (cj_get J m (lit ''tool_calls'')) = gathered_calls g" using canonical_message_ok by blast
  let ?base = "cj_add J (cj_object J) (lit ''message'') m"
  let ?c = "case map_stop_reason (get_str J raw (lit ''stop_reason'')) of None \<Rightarrow> ?base | Some r \<Rightarrow> cj_add J ?base (lit ''finish_reason'') (cj_string J r)"
  have c: "run_state (case map_stop_reason (get_str J raw (lit ''stop_reason'')) of None \<Rightarrow> State_Monad.return ?base
      | Some r \<Rightarrow> put_string J ?base (lit ''finish_reason'') r) [] = (?c, [])" by (simp add: nofail split: option.split)
  have cm: "cj_get J ?c (lit ''message'') = Some m" by (simp add: object_laws lits split: option.split)
  have "\<exists>resp. run_state (anthropic_normalize_response P raw) [] = (Some resp, []) \<and> response_message J resp = Some m"
  proof (cases "\<exists>u. cj_get J raw (lit ''usage'') = Some u \<and> cj_is_object J u")
    case True
    then show ?thesis using arr g(1) m(1) c cm
      by (auto simp: anthropic_normalize_response_def Let_def nofail put_usage_ok message_found)
  next
    case False
    then show ?thesis using arr g(1) m(1) c cm
      by (cases "cj_get J raw (lit ''usage'')") (auto simp: anthropic_normalize_response_def Let_def nofail message_found)
  qed
  moreover have "answer_text bs \<noteq> [] \<longrightarrow> get_str J m (lit ''content'') = Some (answer_text bs)"
    using m(2) g(2) by (auto simp: gathered_text_def split: option.splits)
  ultimately show ?thesis using m(3) g(3) by auto
qed

end


text \<open>An answer with a text and a call, in seven lines.\<close>

definition demo_blocks :: "json ablock list" where
  "demo_blocks = [TextBlock [lit ''he'', lit ''y''], ToolBlock (lit ''7'') (lit ''sh'') [lit ''{}''] (JObject [])]"

definition demo_event :: "cstr \<Rightarrow> json option" where
  "demo_event s = map_of [
     (lit ''a'', JObject [(lit ''type'', JString (lit ''content_block_delta'')), (lit ''index'', JNumber 0),
        (lit ''delta'', JObject [(lit ''type'', JString (lit ''text_delta'')), (lit ''text'', JString (lit ''he''))])]),
     (lit ''b'', JObject [(lit ''type'', JString (lit ''content_block_delta'')), (lit ''index'', JNumber 0),
        (lit ''delta'', JObject [(lit ''type'', JString (lit ''text_delta'')), (lit ''text'', JString (lit ''y''))])]),
     (lit ''c'', JObject [(lit ''type'', JString (lit ''content_block_start'')), (lit ''index'', JNumber 1),
        (lit ''content_block'', JObject [(lit ''type'', JString (lit ''tool_use'')), (lit ''id'', JString (lit ''7'')), (lit ''name'', JString (lit ''sh''))])]),
     (lit ''d'', JObject [(lit ''type'', JString (lit ''content_block_delta'')), (lit ''index'', JNumber 1),
        (lit ''delta'', JObject [(lit ''type'', JString (lit ''input_json_delta'')), (lit ''partial_json'', JString (lit ''{}''))])]),
     (lit ''e'', JObject [(lit ''type'', JString (lit ''message_delta''))])] s"

definition demo_answer :: json where
  "demo_answer = JObject [(lit ''content'', JArray [
     JObject [(lit ''type'', JString (lit ''text'')), (lit ''text'', JString (lit ''hey''))],
     JObject [(lit ''type'', JString (lit ''tool_use'')), (lit ''id'', JString (lit ''7'')), (lit ''name'', JString (lit ''sh'')), (lit ''input'', JObject [])]])]"

definition demo_lines :: "byte list list" where
  "demo_lines = [lit ''data:a'', lit ''event: x'', lit ''data:b'', [], lit ''data:c'', lit ''data:d'', lit ''data:e'']"

definition demo_io :: "json provider_env" where
  "demo_io = json_io demo_event (\<lambda>_. Some (lit ''{}''))"

lemma demo_split: "split_lines [] (concat (map (\<lambda>l. l @ [0x0A]) demo_lines)) = (demo_lines, [])"
  by (simp add: demo_lines_def lit_Cons)

lemma demo_line:
  "line_json (pe_api demo_io) (lit ''data:a'') = demo_event (lit ''a'')" "line_json (pe_api demo_io) (lit ''data:b'') = demo_event (lit ''b'')"
  "line_json (pe_api demo_io) (lit ''data:c'') = demo_event (lit ''c'')" "line_json (pe_api demo_io) (lit ''data:d'') = demo_event (lit ''d'')"
  "line_json (pe_api demo_io) (lit ''data:e'') = demo_event (lit ''e'')" "line_json (pe_api demo_io) (lit ''event: x'') = None"
  "line_json (pe_api demo_io) [] = None"
  by (simp_all add: line_json_def line_payload_def c_str_def demo_io_def json_io_def lit_Cons)

lemma demo_payloads: "List.map_filter (line_json (pe_api demo_io)) demo_lines = List.map_filter demo_event [lit ''a'', lit ''b'', lit ''c'', lit ''d'', lit ''e'']"
  by (simp add: demo_lines_def demo_line split: option.split)


end
