(* ===== verification/Responses_Response.thy ===== *)
theory Responses_Response
  imports Anthropic_Response
begin

text \<open>
  The response side of \<^verbatim>\<open>libclm/provider_responses.c\<close>: a whole answer, a list of typed items, and the events of a streamed one become
  the canonical format. What is gathered from the items has the record of \<open>Anthropic_Response\<close>, as both functions keep the same three
  variables, and a canonical call is built by the same statements.
\<close>

section \<open>Status, errors, usage\<close>

definition map_status :: "'j cjson_api \<Rightarrow> 'j option \<Rightarrow> cstr option \<Rightarrow> bool \<Rightarrow> cstr option" where
  "map_status J response status has_tool_calls =
     (if has_tool_calls then Some (lit ''tool_calls'')
      else case status of None \<Rightarrow> None
      | Some s \<Rightarrow>
        if s = lit ''completed'' then Some (lit ''stop'')
        else if s = lit ''incomplete'' then
          (case Option.bind response (\<lambda>r. cj_get J r (lit ''incomplete_details'')) of
             Some det \<Rightarrow> if cj_is_object J det \<and> get_str J det (lit ''reason'') = Some (lit ''content_filter'')
               then Some (lit ''content_filter'') else Some (lit ''length'')
           | None \<Rightarrow> Some (lit ''length''))
        else if s = lit ''failed'' \<or> s = lit ''cancelled'' then Some (lit ''error'')
        else Some s)"

definition carry_error :: "'j cjson_api \<Rightarrow> 'j \<Rightarrow> 'j \<Rightarrow> 'j mem" where
  "carry_error J out response =
     (case cj_get J response (lit ''error'') of None \<Rightarrow> State_Monad.return out
      | Some err \<Rightarrow>
        case (if cj_is_object J err then get_str J err (lit ''message'') else None) of None \<Rightarrow> State_Monad.return out
        | Some msg \<Rightarrow> do {
            copy \<leftarrow> create (cj_object J);
            case copy of None \<Rightarrow> State_Monad.return out
            | Some copy \<Rightarrow> do { copy \<leftarrow> put_string J copy (lit ''message'') msg; State_Monad.return (cj_add J out (lit ''error'') copy) } })"

definition responses_input_detail :: "'j provider_env \<Rightarrow> 'j \<Rightarrow> cstr \<Rightarrow> real" where
  "responses_input_detail P usage field =
     (case cj_get (pe_api P) usage (lit ''input_tokens_details'') of None \<Rightarrow> 0
      | Some d \<Rightarrow> if cj_is_object (pe_api P) d then num_or_zero P d field else 0)"

definition resp_usage :: "'j provider_env \<Rightarrow> 'j option \<Rightarrow> 'j \<Rightarrow> 'j mem" where
  "resp_usage P usage out =
     (case usage of None \<Rightarrow> State_Monad.return out
      | Some u \<Rightarrow> if \<not> cj_is_object (pe_api P) u then State_Monad.return out
        else put_usage P out (num_or_zero P u (lit ''input_tokens'')) (num_or_zero P u (lit ''output_tokens''))
          (responses_input_detail P u (lit ''cached_tokens'')) (responses_input_detail P u (lit ''cache_write_tokens'')))"

definition put_finish :: "'j cjson_api \<Rightarrow> cstr option \<Rightarrow> 'j \<Rightarrow> 'j mem" where
  "put_finish J mapped c = (case mapped of None \<Rightarrow> State_Monad.return c | Some s \<Rightarrow> put_string J c (lit ''finish_reason'') s)"

text \<open>The end of both translations: the response id, which the agent keeps to continue the chain, the finish reason of the choice, the error,
  the usage.\<close>

definition finish_object :: "'j provider_env \<Rightarrow> 'j option \<Rightarrow> cstr option \<Rightarrow> 'j \<Rightarrow> 'j mem" where
  "finish_object P response mapped c = (let J = pe_api P in do {
     ident \<leftarrow> (case Option.bind response (\<lambda>r. get_str J r (lit ''id'')) of None \<Rightarrow> State_Monad.return None | Some i \<Rightarrow> create (cj_string J i));
     c \<leftarrow> put_finish J mapped c;
     let out = cj_add_opt J (one_choice J c) (lit ''provider_response_id'') ident;
     out \<leftarrow> (case response of None \<Rightarrow> State_Monad.return out
       | Some r \<Rightarrow> if mapped = Some (lit ''error'') then carry_error J out r else State_Monad.return out);
     resp_usage P (Option.bind response (\<lambda>r. cj_get J r (lit ''usage''))) out })"

section \<open>A whole answer\<close>

definition str_append :: "cstr option \<Rightarrow> cstr \<Rightarrow> cstr option mem" where
  "str_append buf s = copy_string ((case buf of None \<Rightarrow> [] | Some x \<Rightarrow> x) @ s)"

text \<open>The texts of a list of parts, appended to a buffer; \<open>want\<close> says which parts have one.\<close>

fun append_texts :: "'j cjson_api \<Rightarrow> ('j \<Rightarrow> bool) \<Rightarrow> 'j list \<Rightarrow> cstr option \<Rightarrow> (unit + cstr option) mem" where
  "append_texts J want [] buf = State_Monad.return (Inr buf)"
| "append_texts J want (c # cs) buf =
     (case (if want c then get_str J c (lit ''text'') else None) of None \<Rightarrow> append_texts J want cs buf
      | Some s \<Rightarrow> do {
          p \<leftarrow> str_append buf s;
          case p of None \<Rightarrow> State_Monad.return (Inl ()) | Some p \<Rightarrow> append_texts J want cs (Some p) })"

definition array_items :: "'j cjson_api \<Rightarrow> 'j \<Rightarrow> cstr \<Rightarrow> 'j list" where
  "array_items J ob k = (case cj_get J ob k of None \<Rightarrow> [] | Some a \<Rightarrow> if cj_is_array J a then cj_items J a else [])"

definition child_items :: "'j cjson_api \<Rightarrow> 'j \<Rightarrow> cstr \<Rightarrow> 'j list" where
  "child_items J ob k = (case cj_get J ob k of None \<Rightarrow> [] | Some a \<Rightarrow> cj_items J a)"

definition gather_item :: "'j cjson_api \<Rightarrow> 'j \<Rightarrow> 'j gathered \<Rightarrow> 'j gathered option mem" where
  "gather_item J item g =
     (let itype = str_or_empty J item (lit ''type'') in
      if itype = lit ''message'' then do {
        r \<leftarrow> append_texts J (\<lambda>c. get_str J c (lit ''type'') = Some (lit ''output_text'')) (array_items J item (lit ''content'')) (g_text g);
        State_Monad.return (case r of Inl _ \<Rightarrow> None | Inr b \<Rightarrow> Some (g\<lparr>g_text := b\<rparr>)) }
      else if itype = lit ''reasoning'' then do {
        r \<leftarrow> append_texts J (\<lambda>_. True) (child_items J item (lit ''summary'')) (g_think g);
        case r of Inl _ \<Rightarrow> State_Monad.return None
        | Inr b \<Rightarrow> do {
            r \<leftarrow> append_texts J (\<lambda>_. True) (child_items J item (lit ''content'')) b;
            State_Monad.return (case r of Inl _ \<Rightarrow> None | Inr b \<Rightarrow> Some (g\<lparr>g_think := b\<rparr>)) } }
      else if itype = lit ''function_call'' then
        add_canonical_call J (str_or_empty J item (lit ''call_id'')) (str_or_empty J item (lit ''name''))
          (case get_str J item (lit ''arguments'') of None \<Rightarrow> lit ''{}'' | Some s \<Rightarrow> s) g
      else State_Monad.return (Some g))"

fun gather_items :: "'j cjson_api \<Rightarrow> 'j list \<Rightarrow> 'j gathered \<Rightarrow> 'j gathered option mem" where
  "gather_items J [] g = State_Monad.return (Some g)"
| "gather_items J (x # xs) g = do {
     r \<leftarrow> gather_item J x g;
     case r of None \<Rightarrow> State_Monad.return None | Some g \<Rightarrow> gather_items J xs g }"

definition responses_normalize_response :: "'j provider_env \<Rightarrow> 'j \<Rightarrow> 'j option mem" where
  "responses_normalize_response P raw = (let J = pe_api P in
     case cj_get J raw (lit ''output'') of None \<Rightarrow> State_Monad.return None
     | Some output \<Rightarrow>
       if \<not> cj_is_array J output then State_Monad.return None
       else do {
         g \<leftarrow> gather_items J (cj_items J output) nothing_gathered;
         case g of None \<Rightarrow> State_Monad.return None
         | Some g \<Rightarrow> do {
           out \<leftarrow> create (cj_object J);
           if out = None then State_Monad.return None else do {
           choices \<leftarrow> create (cj_array J); choice0 \<leftarrow> create (cj_object J); message \<leftarrow> create (cj_object J);
           if choices = None \<or> choice0 = None \<or> message = None then State_Monad.return None else do {
           m \<leftarrow> canonical_message J g;
           let mapped = map_status J (Some raw) (get_str J raw (lit ''status'')) (g_calls g \<noteq> None);
           out \<leftarrow> finish_object P (Some raw) mapped (cj_add J (cj_object J) (lit ''message'') m);
           State_Monad.return (Some out) } } } })"

section \<open>A streamed answer\<close>

text \<open>The state is whether a call was seen; \<^verbatim>\<open>NULL\<close> before it is allocated.\<close>

record resp_stream_state = saw_tool_call :: bool

definition resp_stream_state_of :: "resp_stream_state option \<Rightarrow> resp_stream_state option mem" where
  "resp_stream_state_of st = (case st of Some s \<Rightarrow> State_Monad.return (Some s)
     | None \<Rightarrow> do { ok \<leftarrow> State alloc; State_Monad.return (if ok then Some \<lparr>saw_tool_call = False\<rparr> else None) })"

text \<open>These two are the same functions in \<^verbatim>\<open>provider_anthropic.c\<close>.\<close>

definition resp_make_delta_chunk :: "'j cjson_api \<Rightarrow> cstr option \<Rightarrow> cstr option \<Rightarrow> 'j option mem" where
  "resp_make_delta_chunk = make_delta_chunk"

definition resp_make_tool_delta_chunk :: "'j provider_env \<Rightarrow> int \<Rightarrow> cstr option \<Rightarrow> cstr option \<Rightarrow> cstr option \<Rightarrow> 'j option mem" where
  "resp_make_tool_delta_chunk = make_tool_delta_chunk"

definition resp_item_added :: "'j provider_env \<Rightarrow> 'j \<Rightarrow> resp_stream_state option \<Rightarrow> ('j option \<times> resp_stream_state option) mem" where
  "resp_item_added P raw st = (let J = pe_api P in
     case cj_get J raw (lit ''item'') of None \<Rightarrow> State_Monad.return (None, st)
     | Some item \<Rightarrow>
       if get_str J item (lit ''type'') = Some (lit ''function_call'') then do {
         st \<leftarrow> resp_stream_state_of st;
         let st = map_option (\<lambda>s. s\<lparr>saw_tool_call := True\<rparr>) st;
         r \<leftarrow> resp_make_tool_delta_chunk P (int_or_zero P raw (lit ''output_index'')) (Some (str_or_empty J item (lit ''call_id'')))
           (Some (str_or_empty J item (lit ''name''))) None;
         State_Monad.return (r, st) }
       else State_Monad.return (None, st))"

definition resp_finished :: "'j provider_env \<Rightarrow> 'j \<Rightarrow> resp_stream_state option \<Rightarrow> ('j option \<times> resp_stream_state option) mem" where
  "resp_finished P raw st = (let J = pe_api P; response = cj_get J raw (lit ''response'') in do {
     st \<leftarrow> resp_stream_state_of st;
     out \<leftarrow> create (cj_object J); choices \<leftarrow> create (cj_array J); choice0 \<leftarrow> create (cj_object J);
     if out = None \<or> choices = None \<or> choice0 = None then State_Monad.return (None, st) else do {
     let mapped = map_status J response (Option.bind response (\<lambda>r. get_str J r (lit ''status'')))
       (case st of None \<Rightarrow> False | Some s \<Rightarrow> saw_tool_call s);
     out \<leftarrow> finish_object P response mapped (cj_object J);
     State_Monad.return (Some out, st) } })"

definition responses_normalize_stream_event :: "'j provider_env \<Rightarrow> 'j \<Rightarrow> resp_stream_state option \<Rightarrow> ('j option \<times> resp_stream_state option) mem" where
  "responses_normalize_stream_event P raw st =
     (let J = pe_api P; type = str_or_empty J raw (lit ''type'') in
      if type = lit ''response.output_text.delta'' then do {
        r \<leftarrow> resp_make_delta_chunk J (Some (lit ''content'')) (Some (str_or_empty J raw (lit ''delta''))); State_Monad.return (r, st) }
      else if type = lit ''response.reasoning_summary_text.delta'' \<or> type = lit ''response.reasoning_text.delta'' then do {
        r \<leftarrow> resp_make_delta_chunk J (Some (lit ''reasoning_content'')) (Some (str_or_empty J raw (lit ''delta''))); State_Monad.return (r, st) }
      else if type = lit ''response.output_item.added'' then resp_item_added P raw st
      else if type = lit ''response.function_call_arguments.delta'' then do {
        r \<leftarrow> resp_make_tool_delta_chunk P (int_or_zero P raw (lit ''output_index'')) None None (Some (str_or_empty J raw (lit ''delta'')));
        State_Monad.return (r, st) }
      else if type = lit ''response.completed'' \<or> type = lit ''response.incomplete'' \<or> type = lit ''response.failed''
        then resp_finished P raw st
      else State_Monad.return (None, st))"

section \<open>What the server sends\<close>

text \<open>The items of a whole answer: a message and its texts, a reasoning summary, a call.\<close>

fun resp_item_is :: "'j cjson_api \<Rightarrow> 'j \<Rightarrow> 'j ablock \<Rightarrow> bool" where
  "resp_item_is J x (TextBlock fs) \<longleftrightarrow> get_str J x (lit ''type'') = Some (lit ''message'')
     \<and> (\<exists>ss. list_all2 (\<lambda>c s. get_str J c (lit ''type'') = Some (lit ''output_text'') \<and> get_str J c (lit ''text'') = Some s)
           (array_items J x (lit ''content'')) ss \<and> concat ss = concat fs)"
| "resp_item_is J x (ThinkBlock fs) \<longleftrightarrow> get_str J x (lit ''type'') = Some (lit ''reasoning'')"
| "resp_item_is J x (ToolBlock i n fs inp) \<longleftrightarrow> get_str J x (lit ''type'') = Some (lit ''function_call'') \<and> get_str J x (lit ''call_id'') = Some i
     \<and> get_str J x (lit ''name'') = Some n \<and> get_str J x (lit ''arguments'') = Some (concat fs)"

definition resp_answer_is :: "'j cjson_api \<Rightarrow> 'j \<Rightarrow> 'j ablock list \<Rightarrow> bool" where
  "resp_answer_is J raw bs \<longleftrightarrow> (\<exists>arr. cj_get J raw (lit ''output'') = Some arr \<and> cj_is_array J arr \<and> list_all2 (resp_item_is J) (cj_items J arr) bs)"

fun resp_event_is :: "'j provider_env \<Rightarrow> 'j \<Rightarrow> piece option \<Rightarrow> bool" where
  "resp_event_is P raw (Some (PText s)) \<longleftrightarrow> get_str (pe_api P) raw (lit ''type'') = Some (lit ''response.output_text.delta'')
     \<and> get_str (pe_api P) raw (lit ''delta'') = Some s"
| "resp_event_is P raw (Some (PThink s)) \<longleftrightarrow>
     get_str (pe_api P) raw (lit ''type'') \<in> {Some (lit ''response.reasoning_summary_text.delta''), Some (lit ''response.reasoning_text.delta'')}
     \<and> get_str (pe_api P) raw (lit ''delta'') = Some s"
| "resp_event_is P raw (Some (PStart k i n)) \<longleftrightarrow> get_str (pe_api P) raw (lit ''type'') = Some (lit ''response.output_item.added'')
     \<and> int_or_zero P raw (lit ''output_index'') = int k
     \<and> (\<exists>x. cj_get (pe_api P) raw (lit ''item'') = Some x \<and> get_str (pe_api P) x (lit ''type'') = Some (lit ''function_call'')
        \<and> get_str (pe_api P) x (lit ''call_id'') = Some i \<and> get_str (pe_api P) x (lit ''name'') = Some n)"
| "resp_event_is P raw (Some (PArgs k f)) \<longleftrightarrow> get_str (pe_api P) raw (lit ''type'') = Some (lit ''response.function_call_arguments.delta'')
     \<and> int_or_zero P raw (lit ''output_index'') = int k \<and> get_str (pe_api P) raw (lit ''delta'') = Some f"
| "resp_event_is P raw None \<longleftrightarrow>
     get_str (pe_api P) raw (lit ''type'') \<notin> {Some (lit ''response.output_text.delta''), Some (lit ''response.reasoning_summary_text.delta''),
        Some (lit ''response.reasoning_text.delta''), Some (lit ''response.function_call_arguments.delta'')}
     \<and> (get_str (pe_api P) raw (lit ''type'') = Some (lit ''response.output_item.added'') \<longrightarrow>
        Option.bind (cj_get (pe_api P) raw (lit ''item'')) (\<lambda>x. get_str (pe_api P) x (lit ''type'')) \<noteq> Some (lit ''function_call''))"

definition responses_stream_env :: "'j provider_env \<Rightarrow> ('j, resp_stream_state) stream_env" where
  "responses_stream_env P = \<lparr>se_api = pe_api P, se_int = pe_int P, se_num = pe_num P,
     se_normalize = Some (\<lambda>raw st. fst (run_state (responses_normalize_stream_event P raw st) []))\<rparr>"

section \<open>Both ways agree\<close>

context provider_laws
begin

lemma env_for_responses: "env_for (responses_stream_env P)"
  by (simp add: env_for_def responses_stream_env_def)

lemma one_choice_object [simp]: "cj_is_object J (one_choice J c)"
  by (simp add: one_choice_def object_laws)

text \<open>The end of both translations adds fields beside the choice.\<close>

definition beside :: "'j \<Rightarrow> 'j \<Rightarrow> bool" where
  "beside r ob \<longleftrightarrow> cj_is_object J ob \<and> cj_get J ob (lit ''choices'') = cj_get J r (lit ''choices'')"

lemma beside_add: "beside r ob \<Longrightarrow> k \<noteq> lit ''choices'' \<Longrightarrow> beside r (cj_add J ob k v)"
  by (simp add: beside_def object_laws)

lemma beside_quiet: "beside r ob \<Longrightarrow> quiet ob \<longleftrightarrow> quiet r"
  by (simp add: beside_def quiet_def event_text_def event_calls_def event_delta_def event_choice_def)

lemma beside_message: "beside r ob \<Longrightarrow> response_message J ob = response_message J r"
  by (simp add: beside_def response_message_def)

lemma carry_error_ok: "beside r ob \<Longrightarrow> \<exists>ob'. run_state (carry_error J ob x) [] = (ob', []) \<and> beside r ob'"
  by (auto simp: carry_error_def nofail lits beside_add split: option.split)

lemma resp_usage_ok: "beside r ob \<Longrightarrow> \<exists>ob'. run_state (resp_usage P u ob) [] = (ob', []) \<and> beside r ob'
    \<and> cj_get J ob' (lit ''error'') = cj_get J ob (lit ''error'')"
  by (auto simp: resp_usage_def put_usage_ok lits beside_add split: option.split) (simp_all add: beside_def object_laws lits)

definition with_finish :: "cstr option \<Rightarrow> 'j \<Rightarrow> 'j" where
  "with_finish mapped c = (case mapped of None \<Rightarrow> c | Some s \<Rightarrow> cj_add J c (lit ''finish_reason'') (cj_string J s))"

lemma finish_object_ok: "\<exists>ob. run_state (finish_object P response mapped c) [] = (ob, []) \<and> beside (one_choice J (with_finish mapped c)) ob
    \<and> (mapped \<noteq> Some (lit ''error'') \<longrightarrow> cj_get J ob (lit ''error'') = None)"
proof -
  let ?c = "with_finish mapped c"
  have 1: "run_state (put_finish J mapped c) [] = (?c, [])" by (simp add: put_finish_def with_finish_def nofail split: option.split)
  let ?ident = "case Option.bind response (\<lambda>r. get_str J r (lit ''id'')) of None \<Rightarrow> State_Monad.return None | Some i \<Rightarrow> create (cj_string J i)"
  obtain ident where 2: "run_state ?ident [] = (ident, [])"
    by (cases "Option.bind response (\<lambda>r. get_str J r (lit ''id''))") (simp_all add: nofail)
  let ?o1 = "cj_add_opt J (one_choice J ?c) (lit ''provider_response_id'') ident"
  have o1: "beside (one_choice J ?c) ?o1"
    by (cases ident) (simp_all add: cj_add_opt_def beside_def object_laws lits)
  have e1: "cj_get J ?o1 (lit ''error'') = None" by (simp add: cj_add_opt_def one_choice_def object_laws lits split: option.split)
  have "\<exists>o2. run_state (case response of None \<Rightarrow> State_Monad.return ?o1
       | Some r \<Rightarrow> if mapped = Some (lit ''error'') then carry_error J ?o1 r else State_Monad.return ?o1) [] = (o2, []) \<and> beside (one_choice J ?c) o2
    \<and> (mapped \<noteq> Some (lit ''error'') \<longrightarrow> cj_get J o2 (lit ''error'') = None)"
    using carry_error_ok [OF o1] o1 e1 by (auto split: option.split)
  then obtain o2 where 3: "run_state (case response of None \<Rightarrow> State_Monad.return ?o1
       | Some r \<Rightarrow> if mapped = Some (lit ''error'') then carry_error J ?o1 r else State_Monad.return ?o1) [] = (o2, [])" "beside (one_choice J ?c) o2"
    "mapped \<noteq> Some (lit ''error'') \<longrightarrow> cj_get J o2 (lit ''error'') = None" by blast
  obtain o3 where 4: "run_state (resp_usage P (Option.bind response (\<lambda>r. cj_get J r (lit ''usage''))) o2) [] = (o3, [])" "beside (one_choice J ?c) o3"
    "cj_get J o3 (lit ''error'') = cj_get J o2 (lit ''error'')"
    using resp_usage_ok [OF 3(2)] by blast
  have "run_state (finish_object P response mapped c) [] = (o3, [])"
    unfolding finish_object_def Let_def by (simp only: run_state_bind 1 2 3 4 prod.case)
  then show ?thesis using 3(3) 4(2,3) by auto
qed

lemma finished_quiet: "\<exists>ob st'. run_state (resp_finished P raw st) [] = ((Some ob, st'), []) \<and> quiet ob"
proof -
  obtain st1 where st: "run_state (resp_stream_state_of st) [] = (Some st1, [])"
    by (cases st) (simp_all add: resp_stream_state_of_def)
  let ?m = "map_status J (cj_get J raw (lit ''response'')) (Option.bind (cj_get J raw (lit ''response'')) (\<lambda>r. get_str J r (lit ''status''))) (saw_tool_call st1)"
  obtain ob where ob: "run_state (finish_object P (cj_get J raw (lit ''response'')) ?m (cj_object J)) [] = (ob, [])"
    "beside (one_choice J (with_finish ?m (cj_object J))) ob" using finish_object_ok by blast
  have "quiet (one_choice J (with_finish ?m (cj_object J)))"
    by (rule one_choice_quiet; simp add: with_finish_def object_laws lits split: option.split)
  then have "quiet ob" using beside_quiet [OF ob(2)] by simp
  moreover have "run_state (resp_finished P raw st) [] = ((Some ob, Some st1), [])"
    using st ob(1) by (simp add: resp_finished_def nofail Let_def)
  ultimately show ?thesis by blast
qed

lemma resp_carries: "resp_event_is P raw e \<Longrightarrow> carries (responses_stream_env P) raw e"
proof -
  assume e: "resp_event_is P raw e"
  have n: "normalize_event (responses_stream_env P) raw p = fst (run_state (responses_normalize_stream_event P raw p) [])" for p
    by (simp add: normalize_event_def responses_stream_env_def)
  note defs = resp_make_delta_chunk_def resp_make_tool_delta_chunk_def
  show ?thesis
  proof (cases e)
    case None
    have "quiet ob" if "fst (normalize_event (responses_stream_env P) raw p) = Some ob" for p ob
    proof (cases "get_str J raw (lit ''type'') \<in> Some ` {lit ''response.completed'', lit ''response.incomplete'', lit ''response.failed''}")
      case True
      then show ?thesis using that finished_quiet [of raw p]
        by (auto simp: n responses_normalize_stream_event_def str_or_empty_def lits Let_def)
    next
      case False
      then show ?thesis using that e None
        by (auto simp: n responses_normalize_stream_event_def str_or_empty_def lits Let_def resp_item_added_def
            split: if_splits option.splits prod.splits)
    qed
    then show ?thesis using None by (simp add: carries_def)
  next
    case (Some pc)
    have st: "\<exists>s. run_state (resp_stream_state_of p) [] = (s, [])" for p
      by (cases p) (simp_all add: resp_stream_state_of_def)
    show ?thesis
    proof (cases pc)
      case (PStart k i nm)
      have "fst (normalize_event (responses_stream_env P) raw p) = Some (chunk pc)" for p
      proof -
        obtain s where "run_state (resp_stream_state_of p) [] = (s, [])" using st by blast
        then show ?thesis using e Some PStart
          by (auto simp: n responses_normalize_stream_event_def str_or_empty_def lits Let_def resp_item_added_def chunk_made defs)
      qed
      then show ?thesis using Some by (simp add: carries_def)
    qed (use e Some in \<open>auto simp: carries_def n responses_normalize_stream_event_def str_or_empty_def lits Let_def chunk_made defs\<close>)
  qed
qed

text \<open>The whole answer.\<close>

definition buf_text :: "cstr option \<Rightarrow> cstr" where
  "buf_text b = (case b of None \<Rightarrow> [] | Some s \<Rightarrow> s)"

lemma append_texts_nofail: "\<exists>b. run_state (append_texts J want cs buf) [] = (Inr b, [])"
  by (induction cs arbitrary: buf) (auto simp: str_append_def nofail split: option.split)

lemma append_texts_ok:
  "list_all2 (\<lambda>c s. want c \<and> get_str J c (lit ''text'') = Some s) cs ss \<Longrightarrow>
    \<exists>b. run_state (append_texts J want cs buf) [] = (Inr b, []) \<and> buf_text b = buf_text buf @ concat ss"
proof (induction cs ss arbitrary: buf rule: list_all2_induct)
  case (Cons c cs s ss)
  obtain b where "run_state (append_texts J want cs (Some (buf_text buf @ s))) [] = (Inr b, [])"
    "buf_text b = buf_text (Some (buf_text buf @ s)) @ concat ss" using Cons.IH by blast
  then show ?case using Cons.hyps by (simp add: str_append_def nofail buf_text_def)
qed simp

lemma gather_item_ok:
  assumes "resp_item_is J x b"
  shows "\<exists>g'. run_state (gather_item J x g) [] = (Some g', []) \<and> gathered_text g' = gathered_text g @ block_text b
    \<and> map (read_call J) (gathered_calls g') = map (read_call J) (gathered_calls g) @ answer_calls [b]
    \<and> (g_calls g \<noteq> Some [] \<longrightarrow> g_calls g' \<noteq> Some [])"
proof (cases b)
  case (TextBlock fs)
  then obtain ss where ss: "list_all2 (\<lambda>c s. get_str J c (lit ''type'') = Some (lit ''output_text'') \<and> get_str J c (lit ''text'') = Some s)
      (array_items J x (lit ''content'')) ss" "concat ss = concat fs" using assms by auto
  obtain b' where "run_state (append_texts J (\<lambda>c. get_str J c (lit ''type'') = Some (lit ''output_text'')) (array_items J x (lit ''content'')) (g_text g)) [] = (Inr b', [])"
    "buf_text b' = buf_text (g_text g) @ concat ss" using append_texts_ok [OF ss(1)] by blast
  then show ?thesis using assms TextBlock ss(2)
    by (simp add: gather_item_def str_or_empty_def lits gathered_text_def gathered_calls_def block_text_def answer_calls_def block_call_def buf_text_def)
next
  case (ThinkBlock fs)
  obtain b1 where 1: "run_state (append_texts J (\<lambda>_. True) (child_items J x (lit ''summary'')) (g_think g)) [] = (Inr b1, [])"
    using append_texts_nofail by blast
  obtain b2 where "run_state (append_texts J (\<lambda>_. True) (child_items J x (lit ''content'')) b1) [] = (Inr b2, [])"
    using append_texts_nofail by blast
  then show ?thesis using assms ThinkBlock 1
    by (simp add: gather_item_def str_or_empty_def lits gathered_text_def gathered_calls_def block_text_def answer_calls_def block_call_def)
next
  case (ToolBlock i n fs inp)
  obtain c where c: "run_state (canonical_call J i n (concat fs)) [] = (Some c, [])" "read_call J c = (Some i, Some n, Some (concat fs))"
    using canonical_call_ok by blast
  then have "run_state (gather_item J x g) [] = (Some (g\<lparr>g_calls := Some (gathered_calls g @ [c])\<rparr>), [])"
    using assms ToolBlock
    by (simp add: gather_item_def str_or_empty_def lits add_canonical_call_def gathered_calls_def nofail split: option.split)
  then show ?thesis using c(2) ToolBlock
    by (simp add: gathered_text_def gathered_calls_def block_text_def answer_calls_def block_call_def)
qed

lemma gather_items_ok:
  "list_all2 (resp_item_is J) xs bs \<Longrightarrow> \<exists>g'. run_state (gather_items J xs g) [] = (Some g', []) \<and> gathered_text g' = gathered_text g @ answer_text bs
    \<and> map (read_call J) (gathered_calls g') = map (read_call J) (gathered_calls g) @ answer_calls bs
    \<and> (g_calls g \<noteq> Some [] \<longrightarrow> g_calls g' \<noteq> Some [])"
proof (induction xs bs arbitrary: g rule: list_all2_induct)
  case (Cons x xs b bs)
  obtain g1 where g1: "run_state (gather_item J x g) [] = (Some g1, [])" "gathered_text g1 = gathered_text g @ block_text b"
    "map (read_call J) (gathered_calls g1) = map (read_call J) (gathered_calls g) @ answer_calls [b]"
    "g_calls g \<noteq> Some [] \<longrightarrow> g_calls g1 \<noteq> Some []" using gather_item_ok [OF Cons.hyps(1)] by blast
  have "answer_calls (b # bs) = answer_calls [b] @ answer_calls bs" by (simp add: answer_calls_def)
  then show ?case using Cons.IH [of g1] g1 by (auto simp: answer_text_def)
qed (simp add: answer_text_def answer_calls_def)

lemma normalize_items_ok:
  assumes "cj_get J raw (lit ''output'') = Some arr" "cj_is_array J arr" "run_state (gather_items J (cj_items J arr) nothing_gathered) [] = (Some g, [])"
  shows "\<exists>resp msg. run_state (responses_normalize_response P raw) [] = (Some resp, []) \<and> response_message J resp = Some msg
    \<and> (g_text g \<noteq> None \<longrightarrow> get_str J msg (lit ''content'') = g_text g)
    \<and> items_or_none J (cj_get J msg (lit ''tool_calls'')) = gathered_calls g
    \<and> response_finish_reason J resp = map_status J (Some raw) (get_str J raw (lit ''status'')) (g_calls g \<noteq> None)
    \<and> (response_finish_reason J resp \<noteq> Some (lit ''error'') \<longrightarrow> response_error_message J resp = None)"
proof -
  obtain m where m: "run_state (canonical_message J g) [] = (m, [])" "g_text g \<noteq> None \<longrightarrow> get_str J m (lit ''content'') = g_text g"
    "items_or_none J (cj_get J m (lit ''tool_calls'')) = gathered_calls g" using canonical_message_ok by blast
  let ?mapped = "map_status J (Some raw) (get_str J raw (lit ''status'')) (g_calls g \<noteq> None)"
  let ?c = "cj_add J (cj_object J) (lit ''message'') m"
  obtain ob where ob: "run_state (finish_object P (Some raw) ?mapped ?c) [] = (ob, [])" "beside (one_choice J (with_finish ?mapped ?c)) ob"
    "?mapped \<noteq> Some (lit ''error'') \<longrightarrow> cj_get J ob (lit ''error'') = None" using finish_object_ok by blast
  have fin: "response_finish_reason J ob = ?mapped"
    using ob(2) by (simp add: beside_def response_finish_reason_def one_choice_def array_head_def with_finish_def object_laws str_laws lits split: option.split)
  moreover have "?mapped \<noteq> Some (lit ''error'') \<longrightarrow> response_error_message J ob = None"
    using ob(3) by (simp add: response_error_message_def)
  moreover have "response_message J ob = Some m"
    using beside_message [OF ob(2)] by (simp add: message_found with_finish_def object_laws lits split: option.split)
  moreover have "run_state (responses_normalize_response P raw) [] = (Some ob, [])"
    using assms m(1) ob(1) by (simp add: responses_normalize_response_def nofail Let_def)
  ultimately show ?thesis using m(2,3) by auto
qed

lemma responses_normalize_ok:
  assumes "resp_answer_is J raw bs"
  shows "\<exists>resp msg. run_state (responses_normalize_response P raw) [] = (Some resp, []) \<and> response_message J resp = Some msg
    \<and> (answer_text bs \<noteq> [] \<longrightarrow> get_str J msg (lit ''content'') = Some (answer_text bs))
    \<and> map (read_call J) (items_or_none J (cj_get J msg (lit ''tool_calls''))) = answer_calls bs
    \<and> response_finish_reason J resp = map_status J (Some raw) (get_str J raw (lit ''status'')) (answer_calls bs \<noteq> [])
    \<and> (response_finish_reason J resp \<noteq> Some (lit ''error'') \<longrightarrow> response_error_message J resp = None)"
proof -
  obtain arr where arr: "cj_get J raw (lit ''output'') = Some arr" "cj_is_array J arr" "list_all2 (resp_item_is J) (cj_items J arr) bs"
    using assms by (auto simp: resp_answer_is_def)
  obtain g where g: "run_state (gather_items J (cj_items J arr) nothing_gathered) [] = (Some g, [])" "gathered_text g = answer_text bs"
    "map (read_call J) (gathered_calls g) = answer_calls bs" "g_calls g \<noteq> Some []"
    using gather_items_ok [OF arr(3), of nothing_gathered] by (auto simp: nothing_gathered_def gathered_text_def gathered_calls_def)
  have "answer_text bs \<noteq> [] \<Longrightarrow> g_text g = Some (answer_text bs)"
    using g(2) by (cases "g_text g") (simp_all add: gathered_text_def)
  moreover have "g_calls g \<noteq> None \<longleftrightarrow> answer_calls bs \<noteq> []"
    using g(3,4) by (cases "g_calls g") (auto simp: gathered_calls_def)
  ultimately show ?thesis using normalize_items_ok [OF arr(1,2) g(1)] g(3) by auto
qed

end

text \<open>C11 (equivalence). A streamed Responses answer and the same answer in one piece lead to the same conversation: with the events of its items in
  any chunks of bytes and any other events between them, the agent's parser assembles the text that the normalized whole answer
  has, and the same tool calls in the same order, each with its id, its name and all of its arguments.\<close>

theorem responses_stream_agrees:
  assumes "provider_laws P" "length bs \<le> 2 ^ 31"
    and "\<not> a_cancelling a" "sb_str (t_line turn) = []" "sb_str (t_content turn) = []" "t_calls turn = []"
    and "list_all2 (resp_event_is P) (List.map_filter (line_json (pe_api P)) (fst (split_lines [] (concat cs)))) es"
    and "List.map_filter id es = answer_pieces 0 bs" "resp_answer_is (pe_api P) raw bs"
  shows "\<exists>turn' a' r resp msg. feed (responses_stream_env P) cs [] turn a = Some ([], turn', a')
    \<and> stream_build_tool_calls (pe_api P) turn' [] = (r, [])
    \<and> run_state (responses_normalize_response P raw) [] = (Some resp, []) \<and> response_message (pe_api P) resp = Some msg
    \<and> sb_str (t_content turn') = answer_text bs
    \<and> (answer_text bs \<noteq> [] \<longrightarrow> get_str (pe_api P) msg (lit ''content'') = Some (sb_str (t_content turn')))
    \<and> map (read_call (pe_api P)) (items_or_none (pe_api P) r) = answer_calls bs
    \<and> map (read_call (pe_api P)) (items_or_none (pe_api P) (cj_get (pe_api P) msg (lit ''tool_calls''))) = answer_calls bs"
proof -
  note law = assms(1)
  have "list_all2 (provider_laws.carries P (responses_stream_env P)) (List.map_filter (line_json (pe_api P)) (fst (split_lines [] (concat cs)))) es"
    by (rule list_all2_mono [OF assms(7)]) (rule provider_laws.resp_carries [OF law])
  note s = provider_laws.stream_of_answer [OF law provider_laws.env_for_responses [OF law] assms(2-6) this assms(8)]
  then show ?thesis using provider_laws.responses_normalize_ok [OF law assms(9)] by fastforce
qed

text \<open>C12 (error). The comment of \<^verbatim>\<open>map_status\<close> says that a failure must not hide the message that tells its reason. When an answer that failed holds a
  tool call, the reason reported is the call and the message of the server is dropped.\<close>

theorem failed_answer_hides_error:
  assumes "provider_laws P" "resp_answer_is (pe_api P) raw bs" "answer_calls bs \<noteq> []" "get_str (pe_api P) raw (lit ''status'') = Some (lit ''failed'')"
  shows "\<exists>resp. run_state (responses_normalize_response P raw) [] = (Some resp, [])
    \<and> response_finish_reason (pe_api P) resp = Some (lit ''tool_calls'') \<and> response_error_message (pe_api P) resp = None"
  using provider_laws.responses_normalize_ok [OF assms(1,2)] assms(3) by (auto simp: map_status_def lits)

text \<open>An answer with a text and a call, in seven lines.\<close>

definition resp_blocks :: "json ablock list" where
  "resp_blocks = [TextBlock [lit ''he'', lit ''y''], ToolBlock (lit ''7'') (lit ''sh'') [lit ''{}''] JNull]"

definition resp_event :: "cstr \<Rightarrow> json option" where
  "resp_event s = map_of [
     (lit ''a'', JObject [(lit ''type'', JString (lit ''response.output_text.delta'')), (lit ''delta'', JString (lit ''he''))]),
     (lit ''b'', JObject [(lit ''type'', JString (lit ''response.output_text.delta'')), (lit ''delta'', JString (lit ''y''))]),
     (lit ''c'', JObject [(lit ''type'', JString (lit ''response.output_item.added'')), (lit ''output_index'', JNumber 1),
        (lit ''item'', JObject [(lit ''type'', JString (lit ''function_call'')), (lit ''call_id'', JString (lit ''7'')), (lit ''name'', JString (lit ''sh''))])]),
     (lit ''d'', JObject [(lit ''type'', JString (lit ''response.function_call_arguments.delta'')), (lit ''output_index'', JNumber 1),
        (lit ''delta'', JString (lit ''{}''))]),
     (lit ''e'', JObject [(lit ''type'', JString (lit ''response.completed''))])] s"

definition resp_answer :: json where
  "resp_answer = JObject [(lit ''output'', JArray [
     JObject [(lit ''type'', JString (lit ''message'')),
       (lit ''content'', JArray [JObject [(lit ''type'', JString (lit ''output_text'')), (lit ''text'', JString (lit ''hey''))]])],
     JObject [(lit ''type'', JString (lit ''function_call'')), (lit ''call_id'', JString (lit ''7'')), (lit ''name'', JString (lit ''sh'')),
       (lit ''arguments'', JString (lit ''{}''))]]), (lit ''status'', JString (lit ''failed''))]"

definition resp_io :: "json provider_env" where
  "resp_io = json_io resp_event (\<lambda>_. None)"

lemma resp_line:
  "line_json (pe_api resp_io) (lit ''data:a'') = resp_event (lit ''a'')" "line_json (pe_api resp_io) (lit ''data:b'') = resp_event (lit ''b'')"
  "line_json (pe_api resp_io) (lit ''data:c'') = resp_event (lit ''c'')" "line_json (pe_api resp_io) (lit ''data:d'') = resp_event (lit ''d'')"
  "line_json (pe_api resp_io) (lit ''data:e'') = resp_event (lit ''e'')" "line_json (pe_api resp_io) (lit ''event: x'') = None"
  "line_json (pe_api resp_io) [] = None"
  by (simp_all add: line_json_def line_payload_def c_str_def resp_io_def json_io_def lit_Cons)

lemma resp_payloads: "List.map_filter (line_json (pe_api resp_io)) demo_lines = List.map_filter resp_event [lit ''a'', lit ''b'', lit ''c'', lit ''d'', lit ''e'']"
  by (simp add: demo_lines_def resp_line split: option.split)

lemma resp_api: "pe_api resp_io = json_api\<lparr>cj_parse := resp_event, cj_print := \<lambda>_. None\<rparr>" "pe_int resp_io = pe_int json_provider"
  by (simp_all add: resp_io_def json_io_def)

lemma resp_answer_blocks: "resp_answer_is (pe_api resp_io) resp_answer resp_blocks"
proof -
  let ?part = "JObject [(lit ''type'', JString (lit ''output_text'')), (lit ''text'', JString (lit ''hey''))]"
  let ?msg = "JObject [(lit ''type'', JString (lit ''message'')), (lit ''content'', JArray [?part])]"
  let ?call = "JObject [(lit ''type'', JString (lit ''function_call'')), (lit ''call_id'', JString (lit ''7'')), (lit ''name'', JString (lit ''sh'')),
       (lit ''arguments'', JString (lit ''{}''))]"
  have "get_str (pe_api resp_io) ?part (lit ''type'') = Some (lit ''output_text'')" "get_str (pe_api resp_io) ?part (lit ''text'') = Some (lit ''hey'')"
    "array_items (pe_api resp_io) ?msg (lit ''content'') = [?part]" "get_str (pe_api resp_io) ?msg (lit ''type'') = Some (lit ''message'')"
    by (simp_all add: get_str_def resp_api json_api_def array_items_def lits)
  moreover have "lit ''hey'' = lit ''he'' @ lit ''y''" by (simp add: lit_Cons)
  ultimately have "resp_item_is (pe_api resp_io) ?msg (TextBlock [lit ''he'', lit ''y''])"
    by (simp add: exI [of _ "[lit ''hey'']"])
  moreover have "resp_item_is (pe_api resp_io) ?call (ToolBlock (lit ''7'') (lit ''sh'') [lit ''{}''] JNull)"
    by (simp add: get_str_def resp_api json_api_def lits)
  ultimately have "list_all2 (resp_item_is (pe_api resp_io)) [?msg, ?call] resp_blocks" by (simp add: resp_blocks_def)
  moreover have "cj_get (pe_api resp_io) resp_answer (lit ''output'') = Some (JArray [?msg, ?call])"
    "cj_is_array (pe_api resp_io) (JArray [?msg, ?call])" "cj_items (pe_api resp_io) (JArray [?msg, ?call]) = [?msg, ?call]"
    by (simp_all add: resp_api json_api_def resp_answer_def lits)
  ultimately show ?thesis unfolding resp_answer_is_def by metis
qed

theorem failed_answer_hides_error_witness:
  "\<exists>resp. run_state (responses_normalize_response resp_io resp_answer) [] = (Some resp, [])
    \<and> response_finish_reason (pe_api resp_io) resp = Some (lit ''tool_calls'') \<and> response_error_message (pe_api resp_io) resp = None"
proof -
  have "provider_laws resp_io" unfolding resp_io_def by (rule json_io_laws)
  moreover have "answer_calls resp_blocks \<noteq> []" by (simp add: resp_blocks_def answer_calls_def block_call_def)
  moreover have "get_str (pe_api resp_io) resp_answer (lit ''status'') = Some (lit ''failed'')"
    by (simp add: get_str_def resp_api json_api_def resp_answer_def lits)
  ultimately show ?thesis using failed_answer_hides_error [OF _ resp_answer_blocks] by blast
qed

theorem responses_stream_agrees_witness:
  "\<exists>turn' a' r resp msg. feed (responses_stream_env resp_io) [concat (map (\<lambda>l. l @ [0x0A]) demo_lines)] [] (new_turn 0) idle_agent = Some ([], turn', a')
    \<and> stream_build_tool_calls (pe_api resp_io) turn' [] = (r, [])
    \<and> run_state (responses_normalize_response resp_io resp_answer) [] = (Some resp, []) \<and> response_message (pe_api resp_io) resp = Some msg
    \<and> sb_str (t_content turn') = lit ''hey'' \<and> get_str (pe_api resp_io) msg (lit ''content'') = Some (lit ''hey'')
    \<and> map (read_call (pe_api resp_io)) (items_or_none (pe_api resp_io) r) = [(Some (lit ''7''), Some (lit ''sh''), Some (lit ''{}''))]
    \<and> map (read_call (pe_api resp_io)) (items_or_none (pe_api resp_io) (cj_get (pe_api resp_io) msg (lit ''tool_calls''))) = [(Some (lit ''7''), Some (lit ''sh''), Some (lit ''{}''))]"
proof -
  let ?es = "[Some (PText (lit ''he'')), Some (PText (lit ''y'')), Some (PStart 1 (lit ''7'') (lit ''sh'')), Some (PArgs 1 (lit ''{}'')), None]"
  have es: "list_all2 (resp_event_is resp_io) (List.map_filter (line_json (pe_api resp_io)) (fst (split_lines [] (concat [concat (map (\<lambda>l. l @ [0x0A]) demo_lines)])))) ?es"
    unfolding concat.simps append_Nil2 demo_split fst_conv resp_payloads
    by (simp add: resp_event_def lits int_or_zero_def get_str_def resp_api json_api_def json_provider_def)
  have ps: "List.map_filter id ?es = answer_pieces 0 resp_blocks"
    by (simp add: answer_pieces_def resp_blocks_def pieces_of_def)
  have new: "\<not> a_cancelling idle_agent" "sb_str (t_line (new_turn 0)) = []" "sb_str (t_content (new_turn 0)) = []" "t_calls (new_turn 0) = []"
    by (simp_all add: idle_agent_def new_turn_def)
  have vals: "answer_text resp_blocks = lit ''hey''" "answer_calls resp_blocks = [(Some (lit ''7''), Some (lit ''sh''), Some (lit ''{}''))]"
    by (simp_all add: resp_blocks_def answer_text_def block_text_def answer_calls_def block_call_def lit_Cons)
  have "provider_laws resp_io" unfolding resp_io_def by (rule json_io_laws)
  from responses_stream_agrees [OF this _ new es ps resp_answer_blocks] show ?thesis
    unfolding vals by (simp add: resp_blocks_def lits) metis
qed

end
