(* ===== verification/Openai_Request.thy ===== *)
theory Openai_Request
  imports Provider_Json
begin

text \<open>
  The provider \<^verbatim>\<open>libclm/provider_openai.c\<close>. Its format is the canonical one, so only the request is built; the work is to move the
  images of tool results into a user message behind the batch. The property is that the loop that does this, with its pending
  carrier and the insertions under its index, is the batch-wise conversion.
\<close>

section \<open>Images of tool results\<close>

definition calls_in :: "'j cjson_api \<Rightarrow> 'j \<Rightarrow> 'j list" where
  "calls_in J m = (case cj_get J m (lit ''tool_calls'') of None \<Rightarrow> [] | Some a \<Rightarrow> cj_items J a)"

text \<open>The name of the call with an id, \<open>Some None\<close> when the call is found and its name is no string.\<close>

fun name_in :: "'j cjson_api \<Rightarrow> 'j list \<Rightarrow> cstr option \<Rightarrow> cstr option option" where
  "name_in J [] i = None"
| "name_in J (c # cs) i =
     (if i \<noteq> None \<and> cj_get_string J c (lit ''id'') = i
      then Some (Option.bind (cj_get J c (lit ''function'')) (\<lambda>f. cj_get_string J f (lit ''name''))) else name_in J cs i)"

text \<open>The loop over the messages before a message, from the last to the first.\<close>

fun name_back :: "'j cjson_api \<Rightarrow> 'j list \<Rightarrow> cstr option \<Rightarrow> cstr option" where
  "name_back J [] i = None"
| "name_back J (m # ms) i = (case name_in J (calls_in J m) i of Some n \<Rightarrow> n | None \<Rightarrow> name_back J ms i)"

definition tool_name_for :: "'j cjson_api \<Rightarrow> 'j list \<Rightarrow> cstr option \<Rightarrow> cstr option" where
  "tool_name_for J before i = name_back J (rev before) i"

definition image_label :: "cstr option \<Rightarrow> cstr option \<Rightarrow> cstr" where
  "image_label name i = snprintf 256 (lit ''image from tool '' @ (case name of None \<Rightarrow> lit ''?'' | Some s \<Rightarrow> s) @ lit '' (call ''
     @ (case i of None \<Rightarrow> lit ''?'' | Some s \<Rightarrow> s) @ lit ''):'')"

definition label_part :: "'j cjson_api \<Rightarrow> cstr \<Rightarrow> 'j option mem" where
  "label_part J label = do {
     lp \<leftarrow> create (cj_object J);
     case lp of None \<Rightarrow> State_Monad.return None
     | Some lp \<Rightarrow> do {
       lp \<leftarrow> add_string J lp (lit ''type'') (lit ''text'');
       case lp of None \<Rightarrow> State_Monad.return None | Some lp \<Rightarrow> add_string J lp (lit ''text'') label } }"

definition join_text :: "cstr option \<Rightarrow> cstr \<Rightarrow> cstr" where
  "join_text old t = (case old of None \<Rightarrow> t | Some s \<Rightarrow> if s \<noteq> [] then s @ [0x0A] @ t else t)"

text \<open>The loop over the parts: the text so far and the carrier.\<close>

fun split_parts :: "'j cjson_api \<Rightarrow> cstr \<Rightarrow> 'j list \<Rightarrow> cstr option \<Rightarrow> 'j list \<Rightarrow> (cstr option \<times> 'j list) option mem" where
  "split_parts J label [] txt carrier = State_Monad.return (Some (txt, carrier))"
| "split_parts J label (part # parts) txt carrier =
     (if cj_get_string J part (lit ''type'') = Some (lit ''text'') then do {
        nt \<leftarrow> copy_string (join_text txt (case cj_get_string J part (lit ''text'') of None \<Rightarrow> [] | Some t \<Rightarrow> t));
        case nt of None \<Rightarrow> State_Monad.return None | Some t \<Rightarrow> split_parts J label parts (Some t) carrier }
      else if cj_get_string J part (lit ''type'') = Some (lit ''image_url'') then do {
        lp \<leftarrow> label_part J label;
        case lp of None \<Rightarrow> State_Monad.return None | Some lp \<Rightarrow> split_parts J label parts txt (carrier @ [lp, part]) }
      else split_parts J label parts txt carrier)"

definition split_tool_images :: "'j cjson_api \<Rightarrow> 'j list \<Rightarrow> 'j \<Rightarrow> 'j list \<Rightarrow> ('j \<times> 'j list) option mem" where
  "split_tool_images J before msg carrier =
     (let i = cj_get_string J msg (lit ''tool_call_id'') in do {
      r \<leftarrow> split_parts J (image_label (tool_name_for J before i) i)
        (case cj_get J msg (lit ''content'') of None \<Rightarrow> [] | Some c \<Rightarrow> cj_items J c) None carrier;
      case r of None \<Rightarrow> State_Monad.return None
      | Some (txt, carrier) \<Rightarrow> do {
        msg \<leftarrow> put_string J (cj_delete J msg (lit ''content'')) (lit ''content'')
          (case txt of None \<Rightarrow> lit ''(image result)'' | Some t \<Rightarrow> t);
        State_Monad.return (Some (msg, carrier)) } })"

definition carrier_message :: "'j cjson_api \<Rightarrow> 'j list \<Rightarrow> 'j option mem" where
  "carrier_message J carrier = do {
     user \<leftarrow> create (cj_object J);
     case user of None \<Rightarrow> State_Monad.return None
     | Some user \<Rightarrow> do {
       user \<leftarrow> add_string J user (lit ''role'') (lit ''user'');
       State_Monad.return (map_option (\<lambda>u. cj_add J u (lit ''content'') (array_of J carrier)) user) } }"

definition is_tool_json :: "'j cjson_api \<Rightarrow> 'j \<Rightarrow> bool" where
  "is_tool_json J m \<longleftrightarrow> cj_get_string J m (lit ''role'') = Some (lit ''tool'')"

definition has_parts :: "'j cjson_api \<Rightarrow> 'j \<Rightarrow> bool" where
  "has_parts J m = (case cj_get J m (lit ''content'') of None \<Rightarrow> False | Some c \<Rightarrow> cj_is_array J c)"

text \<open>
  The loop: what is behind the index, what is at it and beyond, the pending carrier. When the carrier is inserted the index skips the message that
  ended the batch.
\<close>

fun carry_from :: "'j cjson_api \<Rightarrow> 'j list \<Rightarrow> 'j list \<Rightarrow> 'j list option \<Rightarrow> 'j list option mem" where
  "carry_from J before [] carrier =
     (case carrier of None \<Rightarrow> State_Monad.return (Some before)
      | Some c \<Rightarrow> do { u \<leftarrow> carrier_message J c; State_Monad.return (map_option (\<lambda>u. before @ [u]) u) })"
| "carry_from J before (m # ms) carrier =
     (if is_tool_json J m \<and> has_parts J m then do {
        c \<leftarrow> (case carrier of Some c \<Rightarrow> State_Monad.return (Some c)
          | None \<Rightarrow> do { a \<leftarrow> create (cj_array J); State_Monad.return (map_option (\<lambda>_. []) a) });
        case c of None \<Rightarrow> State_Monad.return None
        | Some c \<Rightarrow> do {
          r \<leftarrow> split_tool_images J before m c;
          case r of None \<Rightarrow> State_Monad.return None
          | Some (m, c) \<Rightarrow> carry_from J (before @ [m]) ms (Some c) } }
      else case carrier of
        None \<Rightarrow> carry_from J (before @ [m]) ms None
      | Some c \<Rightarrow>
        if is_tool_json J m then carry_from J (before @ [m]) ms carrier
        else do {
          u \<leftarrow> carrier_message J c;
          case u of None \<Rightarrow> State_Monad.return None | Some u \<Rightarrow> carry_from J (before @ [u, m]) ms None })"

definition carry_tool_images :: "'j cjson_api \<Rightarrow> 'j list \<Rightarrow> 'j list option mem" where
  "carry_tool_images J ms = carry_from J [] ms None"

section \<open>The request\<close>

definition response_format :: "'j cjson_api \<Rightarrow> clm_llm \<Rightarrow> 'j \<Rightarrow> 'j mem" where
  "response_format J llm req =
     (case llm_response_schema llm of None \<Rightarrow> State_Monad.return req
      | Some sc \<Rightarrow> do {
          fmt \<leftarrow> create (cj_object J); js \<leftarrow> create (cj_object J);
          case (cj_parse J sc, fmt, js) of
            (Some schema, Some fmt, Some js) \<Rightarrow> do {
              js \<leftarrow> put_string J js (lit ''name'') (lit ''response'');
              let js = cj_add J js (lit ''schema'') schema;
              fmt \<leftarrow> put_string J fmt (lit ''type'') (lit ''json_schema'');
              State_Monad.return (cj_add J req (lit ''response_format'') (cj_add J fmt (lit ''json_schema'') js)) }
          | _ \<Rightarrow> State_Monad.return req })"

definition stream_options :: "'j provider_env \<Rightarrow> bool \<Rightarrow> 'j \<Rightarrow> 'j mem" where
  "stream_options P stream req =
     (if \<not> stream then State_Monad.return req else do {
        so \<leftarrow> create (cj_object (pe_api P));
        case so of None \<Rightarrow> State_Monad.return req
        | Some so \<Rightarrow> do {
            so \<leftarrow> put_new (pe_api P) so (lit ''include_usage'') (pe_bool P True);
            State_Monad.return (cj_add (pe_api P) req (lit ''stream_options'') so) } })"

definition openai_tools_field :: "'j provider_env \<Rightarrow> clm_llm \<Rightarrow> 'j option \<Rightarrow> 'j \<Rightarrow> 'j mem" where
  "openai_tools_field P llm tools req =
     (case tools of None \<Rightarrow> State_Monad.return req
      | Some ts \<Rightarrow>
        let req = cj_add (pe_api P) req (lit ''tools'') ts in
        if llm_parallel_off llm then put_new (pe_api P) req (lit ''parallel_tool_calls'') (pe_bool P False) else State_Monad.return req)"

definition openai_build_request :: "'j provider_env \<Rightarrow> clm_llm \<Rightarrow> 'j list \<Rightarrow> 'j option \<Rightarrow> bool \<Rightarrow> 'j option mem" where
  "openai_build_request P llm ms tools stream = (let J = pe_api P in do {
     req \<leftarrow> create (cj_object J);
     case req of None \<Rightarrow> State_Monad.return None
     | Some req \<Rightarrow> do {
       jmodel \<leftarrow> create (cj_string J (llm_model llm));
       case jmodel of None \<Rightarrow> State_Monad.return None
       | Some jmodel \<Rightarrow> do {
         out \<leftarrow> carry_tool_images J ms;
         case out of None \<Rightarrow> State_Monad.return None
         | Some out \<Rightarrow> do {
           let req = cj_add J (cj_add J req (lit ''model'') jmodel) (lit ''messages'') (array_of J out);
           jstream \<leftarrow> create (pe_bool P stream);
           case jstream of None \<Rightarrow> State_Monad.return None
           | Some jstream \<Rightarrow> do {
             let req = cj_add J req (lit ''stream'') jstream;
             req \<leftarrow> (case llm_effort llm of None \<Rightarrow> State_Monad.return req | Some e \<Rightarrow> put_string J req (lit ''reasoning_effort'') e);
             req \<leftarrow> response_format J llm req;
             req \<leftarrow> stream_options P stream req;
             req \<leftarrow> openai_tools_field P llm tools req;
             State_Monad.return (Some req) } } } } })"

definition openai_forbid_tool_calls :: "'j cjson_api \<Rightarrow> 'j \<Rightarrow> 'j mem" where
  "openai_forbid_tool_calls J req = do {
     tc \<leftarrow> create (cj_string J (lit ''none''));
     State_Monad.return (case tc of None \<Rightarrow> req
       | Some tc \<Rightarrow> cj_add J (cj_delete J req (lit ''tool_choice'')) (lit ''tool_choice'') tc) }"

section \<open>Batch by batch\<close>

text \<open>
  The reference. A run of tool messages is converted as a whole: the results with their texts, then, if any of them had parts, one user
  message with all their images, each behind a label with the name and the id of its call.
\<close>

definition image_parts :: "'j cjson_api \<Rightarrow> 'j list \<Rightarrow> 'j list" where
  "image_parts J ps = filter (\<lambda>p. cj_get_string J p (lit ''type'') = Some (lit ''image_url'')) ps"

definition text_parts :: "'j cjson_api \<Rightarrow> 'j list \<Rightarrow> cstr list" where
  "text_parts J ps = map (\<lambda>p. case cj_get_string J p (lit ''text'') of None \<Rightarrow> [] | Some t \<Rightarrow> t)
     (filter (\<lambda>p. cj_get_string J p (lit ''type'') = Some (lit ''text'')) ps)"

definition joined_texts :: "cstr option \<Rightarrow> cstr list \<Rightarrow> cstr option" where
  "joined_texts = foldl (\<lambda>old t. Some (join_text old t))"

definition parts_in :: "'j cjson_api \<Rightarrow> 'j \<Rightarrow> 'j list" where
  "parts_in J m = (case cj_get J m (lit ''content'') of None \<Rightarrow> [] | Some c \<Rightarrow> cj_items J c)"

definition text_result :: "'j cjson_api \<Rightarrow> 'j \<Rightarrow> 'j" where
  "text_result J m =
     (if has_parts J m then cj_add J (cj_delete J m (lit ''content'')) (lit ''content'')
        (cj_string J (case joined_texts None (text_parts J (parts_in J m)) of None \<Rightarrow> lit ''(image result)'' | Some t \<Rightarrow> t))
      else m)"

definition label_of :: "'j cjson_api \<Rightarrow> 'j list \<Rightarrow> 'j \<Rightarrow> 'j" where
  "label_of J before m = (let i = cj_get_string J m (lit ''tool_call_id'') in
     cj_add J (cj_add J (cj_object J) (lit ''type'') (cj_string J (c_str (lit ''text''))))
       (lit ''text'') (cj_string J (c_str (image_label (tool_name_for J before i) i))))"

definition labelled_images :: "'j cjson_api \<Rightarrow> 'j list \<Rightarrow> 'j \<Rightarrow> 'j list" where
  "labelled_images J before m =
     (if has_parts J m then concat (map (\<lambda>p. [label_of J before m, p]) (image_parts J (parts_in J m))) else [])"

definition user_with :: "'j cjson_api \<Rightarrow> 'j list \<Rightarrow> 'j" where
  "user_with J ps = cj_add J (cj_add J (cj_object J) (lit ''role'') (cj_string J (c_str (lit ''user'')))) (lit ''content'') (array_of J ps)"

text \<open>The images of the messages of a batch; the messages before each of them say which call it answers.\<close>

fun batch_images :: "'j cjson_api \<Rightarrow> 'j list \<Rightarrow> 'j list \<Rightarrow> 'j list" where
  "batch_images J before [] = []"
| "batch_images J before (m # ms) = labelled_images J before m @ batch_images J (before @ [m]) ms"

function by_batches :: "'j cjson_api \<Rightarrow> 'j list \<Rightarrow> 'j list \<Rightarrow> 'j list" where
  "by_batches J before [] = []"
| "by_batches J before (m # ms) =
     (if is_tool_json J m then
        (let batch = takeWhile (is_tool_json J) (m # ms); rest = dropWhile (is_tool_json J) (m # ms) in
         map (text_result J) batch @ (if list_ex (has_parts J) batch then [user_with J (batch_images J before batch)] else [])
           @ by_batches J (before @ batch) rest)
      else m # by_batches J (before @ [m]) ms)"
  by pat_completeness auto
termination by (relation "measure (\<lambda>(J, before, ms). length ms)") (auto simp: length_dropWhile_le le_imp_less_Suc)

section \<open>The loop is the conversion by batches\<close>

context cjson_types
begin

lemma label_part_ok: "run_state (label_part J s) [] =
    (Some (cj_add J (cj_add J (cj_object J) (lit ''type'') (cj_string J (c_str (lit ''text'')))) (lit ''text'') (cj_string J (c_str s))), [])"
  by (simp add: label_part_def nofail)

lemma carrier_message_ok: "run_state (carrier_message J c) [] = (Some (user_with J c), [])"
  by (simp add: carrier_message_def nofail user_with_def)

definition label_json :: "cstr \<Rightarrow> 'j" where
  "label_json s = cj_add J (cj_add J (cj_object J) (lit ''type'') (cj_string J (c_str (lit ''text'')))) (lit ''text'') (cj_string J (c_str s))"

lemma split_parts_ok:
  "run_state (split_parts J s ps txt c) [] =
    (Some (joined_texts txt (text_parts J ps), c @ concat (map (\<lambda>p. [label_json s, p]) (image_parts J ps))), [])"
  by (induction ps arbitrary: "txt" c) (simp_all add: text_parts_def image_parts_def joined_texts_def nofail label_part_ok label_json_def lits)

lemma split_tool_images_ok:
  assumes "has_parts J m"
  shows "run_state (split_tool_images J before m c) [] = (Some (text_result J m, c @ labelled_images J before m), [])"
  using assms by (simp add: split_tool_images_def split_parts_ok nofail Let_def label_json_def labelled_images_def label_of_def text_result_def parts_in_def)

definition alike :: "'j list \<Rightarrow> 'j list \<Rightarrow> bool" where
  "alike xs ys \<longleftrightarrow> (\<forall>i. tool_name_for J xs i = tool_name_for J ys i)"

lemma alike_snoc: "alike xs ys \<Longrightarrow> calls_in J m = calls_in J m' \<Longrightarrow> alike (xs @ [m]) (ys @ [m'])"
  by (simp add: alike_def tool_name_for_def split: option.split)

lemma alike_user: "alike xs ys \<Longrightarrow> alike (xs @ [user_with J c]) ys"
  by (simp add: alike_def tool_name_for_def calls_in_def user_with_def object_laws lits)

lemma alike_labels: "alike xs ys \<Longrightarrow> labelled_images J xs m = labelled_images J ys m"
  by (simp add: alike_def labelled_images_def label_of_def)

lemma text_result_calls: "cj_is_object J m \<Longrightarrow> calls_in J (text_result J m) = calls_in J m"
  by (simp add: text_result_def calls_in_def object_laws get_delete_other is_object_delete lits)

lemma by_batches_plain: "\<not> has_parts J m \<Longrightarrow> by_batches J before (m # ms) = m # by_batches J (before @ [m]) ms"
proof (cases ms)
  case (Cons x xs)
  assume "\<not> has_parts J m"
  then have "text_result J m = m" "labelled_images J before m = []" by (simp_all add: text_result_def labelled_images_def)
  then show ?thesis using Cons \<open>\<not> has_parts J m\<close> by (cases "is_tool_json J x") (simp_all add: Let_def)
qed (simp add: text_result_def labelled_images_def Let_def)

lemma by_batches_parts: "is_tool_json J m \<Longrightarrow> has_parts J m \<Longrightarrow> by_batches J before (m # ms) =
    text_result J m # map (text_result J) (takeWhile (is_tool_json J) ms)
      @ user_with J (labelled_images J before m @ batch_images J (before @ [m]) (takeWhile (is_tool_json J) ms))
      # by_batches J (before @ m # takeWhile (is_tool_json J) ms) (dropWhile (is_tool_json J) ms)"
  by (simp add: Let_def)

lemma carry_from_ok:
  assumes "alike out before" "\<forall>m \<in> set ms. cj_is_object J m"
  shows "run_state (carry_from J out ms None) [] = (Some (out @ by_batches J before ms), [])"
    and "run_state (carry_from J out ms (Some c)) [] = (Some (out @ map (text_result J) (takeWhile (is_tool_json J) ms)
      @ user_with J (c @ batch_images J before (takeWhile (is_tool_json J) ms))
      # by_batches J (before @ takeWhile (is_tool_json J) ms) (dropWhile (is_tool_json J) ms)), [])"
  using assms
proof (induction ms arbitrary: out before c)
  case Nil
  { case 1 then show ?case by simp }
  { case 2 then show ?case by (simp add: carrier_message_ok) }
next
  case (Cons m ms)
  have same: "alike (out @ [m]) (before @ [m])" if "alike out before" for out before
    using alike_snoc [OF that refl] .
  have told: "alike (out @ [text_result J m]) (before @ [m])" if "alike out before" "cj_is_object J m" for out before
    using alike_snoc [OF that(1) text_result_calls [OF that(2)]] .
  { case 1
    then have obj: "cj_is_object J m" "\<forall>m \<in> set ms. cj_is_object J m" by simp_all
    show ?case
    proof (cases "is_tool_json J m \<and> has_parts J m")
      case True
      then show ?thesis
        using Cons.IH(2) [OF told [OF 1(1) obj(1)] obj(2)] 1(1)
        by (simp only: carry_from.simps if_True) (simp add: nofail split_tool_images_ok alike_labels by_batches_parts del: by_batches.simps)
    next
      case False
      then have "by_batches J before (m # ms) = m # by_batches J (before @ [m]) ms"
        using by_batches_plain [of m before ms] by (cases "has_parts J m") (simp_all del: Let_def)
      then show ?thesis using Cons.IH(1) [OF same [OF 1(1)] obj(2)] False by (auto simp del: by_batches.simps)
    qed }
  { case 2
    then have obj: "cj_is_object J m" "\<forall>m \<in> set ms. cj_is_object J m" by simp_all
    show ?case
    proof (cases "is_tool_json J m")
      case tool: True
      show ?thesis
      proof (cases "has_parts J m")
        case True
        then show ?thesis using Cons.IH(2) [OF told [OF 2(1) obj(1)] obj(2)] 2(1) tool
          by (simp add: split_tool_images_ok alike_labels del: by_batches.simps)
      next
        case False
        then show ?thesis using Cons.IH(2) [OF same [OF 2(1)] obj(2)] tool
          by (simp add: text_result_def labelled_images_def del: by_batches.simps)
      qed
    next
      case False
      then have "by_batches J before (m # ms) = m # by_batches J (before @ [m]) ms" by simp
      then show ?thesis using Cons.IH(1) [OF same [OF alike_user [OF 2(1), of c]] obj(2)] False
        by (simp add: carrier_message_ok del: by_batches.simps)
    qed }
qed

text \<open>No tool message keeps its parts, and none is lost.\<close>

lemma text_result_role: "cj_is_object J m \<Longrightarrow> is_tool_json J (text_result J m) \<longleftrightarrow> is_tool_json J m"
  by (simp add: text_result_def is_tool_json_def cj_get_string_def object_laws get_delete_other is_object_delete lits)

lemma text_result_string:
  assumes "cj_is_object J m" "cj_get J (cj_delete J m (lit ''content'')) (lit ''content'') = None"
  shows "\<not> has_parts J (text_result J m)"
  using assms by (auto simp: text_result_def has_parts_def object_laws is_object_delete string_not_array)

lemma user_with_role: "\<not> is_tool_json J (user_with J c)"
  by (simp add: is_tool_json_def user_with_def cj_get_string_def object_laws string_value c_str_def lit_Cons)

lemma filter_takeWhile: "filter Q xs = takeWhile Q xs @ filter Q (dropWhile Q xs)"
  by (induction xs) simp_all

lemma by_batches_tools:
  "\<forall>m \<in> set ms. cj_is_object J m \<Longrightarrow> filter (is_tool_json J) (by_batches J before ms) = map (text_result J) (filter (is_tool_json J) ms)"
proof (induction "length ms" arbitrary: before ms rule: less_induct)
  case less
  show ?case
  proof (cases ms)
    case (Cons m ms')
    let ?batch = "takeWhile (is_tool_json J) ms" let ?rest = "dropWhile (is_tool_json J) ms"
    show ?thesis
    proof (cases "is_tool_json J m")
      case True
      have "x \<in> set ?batch \<Longrightarrow> is_tool_json J (text_result J x)" for x
        using less.prems text_result_role by (metis set_takeWhileD)
      then have 1: "filter (is_tool_json J) (map (text_result J) ?batch) = map (text_result J) ?batch" by (simp add: filter_id_conv)
      have shorter: "length ?rest < length ms" using Cons True by (simp add: length_dropWhile_le le_imp_less_Suc)
      have objects: "\<forall>m \<in> set ?rest. cj_is_object J m" using less.prems by (meson set_dropWhileD)
      have "by_batches J before ms = map (text_result J) ?batch
          @ (if list_ex (has_parts J) ?batch then [user_with J (batch_images J before ?batch)] else []) @ by_batches J (before @ ?batch) ?rest"
        using Cons True by (simp add: Let_def)
      then have "filter (is_tool_json J) (by_batches J before ms) = map (text_result J) (?batch @ filter (is_tool_json J) ?rest)"
        using 1 less.hyps [OF shorter objects] user_with_role by simp
      then show ?thesis by (simp add: filter_takeWhile [symmetric] flip: map_append)
    next
      case False
      then show ?thesis using Cons less.hyps [of ms' "before @ [m]"] less.prems by simp
    qed
  qed simp
qed

lemma openai_request_messages:
  assumes "pe_api P = J" "\<forall>m \<in> set ms. cj_is_object J m"
  shows "\<exists>req. run_state (openai_build_request P llm ms tools stream) [] = (Some req, []) \<and> cj_get J req (lit ''messages'') = Some (array_of J (by_batches J [] ms))"
proof -
  let ?out = "array_of J (by_batches J [] ms)"
  have 1: "run_state (carry_tool_images J ms) [] = (Some (by_batches J [] ms), [])"
    using carry_from_ok(1) [of "[]" "[]" ms] assms(2) by (simp add: carry_tool_images_def alike_def)
  define keeps where "keeps req \<longleftrightarrow> cj_is_object J req \<and> cj_get J req (lit ''messages'') = Some ?out" for req
  have add: "keeps req \<Longrightarrow> k \<noteq> lit ''messages'' \<Longrightarrow> keeps (cj_add J req k v)" for req k v
    by (simp add: keeps_def object_laws)
  let ?r1 = "cj_add J (cj_add J (cj_add J (cj_object J) (lit ''model'') (cj_string J (llm_model llm))) (lit ''messages'') ?out) (lit ''stream'') (pe_bool P stream)"
  have "keeps ?r1" by (simp add: keeps_def object_laws lits)
  then obtain r2 where 2: "run_state (case llm_effort llm of None \<Rightarrow> State_Monad.return ?r1 | Some e \<Rightarrow> put_string J ?r1 (lit ''reasoning_effort'') e) [] = (r2, [])" "keeps r2"
    by (cases "llm_effort llm") (simp_all add: nofail add lits)
  obtain r3 where 3: "run_state (response_format J llm r2) [] = (r3, [])" "keeps r3"
  proof (cases "Option.bind (llm_response_schema llm) (cj_parse J)")
    case None
    then show ?thesis using 2(2) that by (cases "llm_response_schema llm") (simp_all add: response_format_def nofail)
  next
    case (Some sc)
    then show ?thesis using 2(2) that by (cases "llm_response_schema llm") (simp_all add: response_format_def nofail add lits Let_def)
  qed
  obtain r4 where 4: "run_state (stream_options P stream r3) [] = (r4, [])" "keeps r4"
    using 3(2) by (cases stream) (simp_all add: stream_options_def nofail add lits assms(1))
  obtain r5 where 5: "run_state (openai_tools_field P llm tools r4) [] = (r5, [])" "keeps r5"
    using 4(2) by (cases tools; cases "llm_parallel_off llm") (simp_all add: openai_tools_field_def nofail add lits assms(1) Let_def)
  have "run_state (openai_build_request P llm ms tools stream) [] = (Some r5, [])"
    using 1 2(1) 3(1) 4(1) 5(1) by (simp add: openai_build_request_def assms(1) nofail Let_def)
  then show ?thesis using 5(2) by (auto simp: keeps_def)
qed

end

text \<open>C13 (equivalence). The loop that carries the images of tool results, with its pending carrier and the insertions under its own index, converts
  batch by batch: each run of tool messages becomes the same results with their texts as plain strings, in order and with nothing
  between them, followed by one user message with all their images, each behind a label with the name and the id of the call; every
  other message is left alone. No image is left in a tool message, where the server would ignore it.\<close>

theorem openai_images_behind_batch:
  assumes "cjson_types (pe_api P)"
    and "\<forall>m \<in> set ms. cj_is_object (pe_api P) m \<and> cj_get (pe_api P) (cj_delete (pe_api P) m (lit ''content'')) (lit ''content'') = None"
  shows "\<exists>req. run_state (openai_build_request P llm ms tools stream) [] = (Some req, [])
    \<and> cj_get (pe_api P) req (lit ''messages'') = Some (array_of (pe_api P) (by_batches (pe_api P) [] ms))
    \<and> filter (is_tool_json (pe_api P)) (by_batches (pe_api P) [] ms) = map (text_result (pe_api P)) (filter (is_tool_json (pe_api P)) ms)
    \<and> (\<forall>m \<in> set ms. \<not> has_parts (pe_api P) (text_result (pe_api P) m))"
  using cjson_types.openai_request_messages [OF assms(1) refl] cjson_types.by_batches_tools [OF assms(1)]
    cjson_types.text_result_string [OF assms(1)] assms(2) by (metis (no_types, lifting))

text \<open>Two results of a batch, the second with an image.\<close>

definition call_message :: json where
  "call_message = JObject [(lit ''role'', JString (lit ''assistant'')), (lit ''tool_calls'', JArray [
     JObject [(lit ''id'', JString (lit ''1'')), (lit ''function'', JObject [(lit ''name'', JString (lit ''cat''))])]])]"

definition image_part :: json where
  "image_part = JObject [(lit ''type'', JString (lit ''image_url'')), (lit ''image_url'', JObject [(lit ''url'', JString (lit ''u''))])]"

definition image_result :: json where
  "image_result = JObject [(lit ''role'', JString (lit ''tool'')), (lit ''tool_call_id'', JString (lit ''1'')), (lit ''content'', JArray [image_part])]"

definition plain_result :: json where
  "plain_result = JObject [(lit ''role'', JString (lit ''tool'')), (lit ''tool_call_id'', JString (lit ''2'')), (lit ''content'', JString (lit ''x''))]"

definition image_user :: json where
  "image_user = JObject [(lit ''role'', JString (lit ''user'')), (lit ''content'', JArray [
     JObject [(lit ''type'', JString (lit ''text'')), (lit ''text'', JString (lit ''image from tool cat (call 1):''))], image_part])]"

lemma label_text: "image_label (Some (lit ''cat'')) (Some (lit ''1'')) = lit ''image from tool cat (call 1):''"
  by (simp add: image_label_def snprintf_def lit_Cons)

lemma demo_batches:
  "by_batches json_api [] [call_message, image_result, plain_result] =
    [call_message, JObject [(lit ''role'', JString (lit ''tool'')), (lit ''tool_call_id'', JString (lit ''1'')), (lit ''content'', JString (lit ''(image result)''))],
     plain_result, image_user]"
proof -
  have 1: "\<not> is_tool_json json_api call_message" "is_tool_json json_api image_result" "is_tool_json json_api plain_result"
    "has_parts json_api image_result" "\<not> has_parts json_api plain_result"
    by (simp_all add: is_tool_json_def has_parts_def cj_get_string_def json_api_def call_message_def image_result_def plain_result_def lits)
  have 2: "tool_name_for json_api [call_message] (Some (lit ''1'')) = Some (lit ''cat'')" "cj_get_string json_api image_result (lit ''tool_call_id'') = Some (lit ''1'')"
    by (simp_all add: tool_name_for_def calls_in_def cj_get_string_def json_api_def call_message_def image_result_def lits)
  have 3: "parts_in json_api image_result = [image_part]" "image_parts json_api [image_part] = [image_part]" "text_parts json_api [image_part] = []"
    by (simp_all add: parts_in_def image_parts_def text_parts_def json_api_def cj_get_string_def image_result_def image_part_def lits)
  have 4: "text_result json_api image_result =
      JObject [(lit ''role'', JString (lit ''tool'')), (lit ''tool_call_id'', JString (lit ''1'')), (lit ''content'', JString (lit ''(image result)''))]"
    by (simp add: text_result_def 1 3 joined_texts_def) (simp add: image_result_def json_api_def lits)
  have 5: "user_with json_api (labelled_images json_api [call_message] image_result @ []) = image_user"
    by (simp add: labelled_images_def 1 2 3 label_of_def Let_def label_text)
      (simp add: user_with_def image_user_def json_api_def array_of_def c_str_def lit_Cons)
  have 6: "text_result json_api plain_result = plain_result" "labelled_images json_api [call_message, image_result] plain_result = []"
    by (simp_all add: text_result_def labelled_images_def 1)
  show ?thesis using 1 4 5 6 by (simp add: Let_def)
qed

theorem openai_images_behind_batch_witness:
  "\<exists>req. run_state (openai_build_request json_provider \<lparr>llm_provider = CLM_PROVIDER_OPENAI, llm_api_key = [], llm_base_url = [], llm_model = lit ''m'',
       llm_parallel_off = False, llm_effort = None, llm_prev_response = None, llm_cache_system = False, llm_response_schema = None\<rparr>
       [call_message, image_result, plain_result] None True) [] = (Some req, [])
    \<and> cj_get json_api req (lit ''messages'') = Some (array_of json_api
        [call_message, JObject [(lit ''role'', JString (lit ''tool'')), (lit ''tool_call_id'', JString (lit ''1'')), (lit ''content'', JString (lit ''(image result)''))],
         plain_result, image_user])"
proof -
  have api: "pe_api json_provider = json_api" by (simp add: json_provider_def)
  have "\<forall>m \<in> set [call_message, image_result, plain_result].
      cj_is_object json_api m \<and> cj_get json_api (cj_delete json_api m (lit ''content'')) (lit ''content'') = None"
    by (simp add: json_api_def call_message_def image_result_def plain_result_def lits)
  then show ?thesis
    using openai_images_behind_batch [of json_provider "[call_message, image_result, plain_result]"] json_types.cjson_types_axioms
    unfolding api demo_batches by blast
qed

end
