(* ===== verification/Spec2Isabelle.thy ===== *)
theory Spec2Isabelle
  imports Ratelimit Text_Clean Base64 Image History_Repair History_Json Tool_Output Tool_Schema Tool_Properties Tool_Builtins Files Agent_Edges Sha256 Anthropic_Properties Responses_Properties Responses_Response Openai_Request
begin

text \<open>
  Verification of the core of clm, an embeddable agent for large language models, written in C.

  \<^bold>\<open>The program.\<close> An embedder (a terminal program, a microcontroller, a test) creates an agent with a host, which gives it HTTP
  requests, timers and a clock, and submits prompts. The agent (\<^verbatim>\<open>libclm/agent.c\<close>) keeps the conversation
  (\<^verbatim>\<open>libclm/history.c\<close>), sends it to a model server in the format of the provider, parses the answer, also while it streams, runs the tools
  the model calls for (\<^verbatim>\<open>libclm/tools.c\<close>), adds their results to the history and asks again, until the model answers with
  text. Nothing blocks: every completion is a callback of the host or of a tool. Around this stand rate limits
  (\<^verbatim>\<open>ratelimit.c\<close>), compaction of a long history, uploads of images (\<^verbatim>\<open>files.c\<close>, \<^verbatim>\<open>image.c\<close>), and the file tools.

  \<^bold>\<open>The theories.\<close> In the order of their imports:

  \<^item> \<open>Clm_Prelude\<close>: bytes, C strings, the error numbers, and the tape of allocation outcomes, which decides for every
    \<^verbatim>\<open>malloc\<close> in turn whether it succeeds (an empty tape: all succeed). \<open>Cjson\<close>: the operations of the cJSON library as a record, the laws
    cJSON documents as the locale \<open>cjson_laws\<close>, interpreted on JSON trees.
  \<^item> \<open>Ratelimit\<close>: the token bucket at 64 bits; it refines exact arithmetic, grants no more than its rate, never overfills.
  \<^item> \<open>Text_Clean\<close>, \<open>Base64\<close>, \<open>Image\<close>, \<open>Utf8\<close>: the in-place loop against a reference that reduces the stream; encoder and decoder as
    inverses; recognition of images with every read checked; the UTF-8 scanner against the definition of the encoding.
  \<^item> \<open>History\<close>, \<open>History_Compact\<close>, \<open>History_Repair\<close>, \<open>History_Json\<close>: messages and their storage, the two compactions, the repair and the
    superseding of tool results, the JSON formats. \<open>wire_ok\<close> is the property a server insists on: every result follows its call and every
    call has its result.
  \<^item> \<open>Tool_Output\<close>, \<open>Tool_Registry\<close>, \<open>Tool_Schema\<close>, \<open>Tool_Dispatch\<close>: the cut of long output, the registry with tools that are removed
    while they run, the schema for the model, and the dispatch of a batch of calls over an explicit heap, where freed objects stay
    recognizable. \<open>Tool_Safety\<close> has the invariant and its proof for every function, \<open>Tool_Runs\<close> the actions of the outside, which may
    interleave in any way, with a stack of the functions whose callbacks run, and \<open>Tool_Properties\<close> what follows.
  \<^item> \<open>File_Io\<close>, \<open>Tool_Builtins\<close>: reading and writing files over a kernel state that fixes the outcome of every system call, and the four
    file tools. \<open>Files\<close>: the cache of uploaded images and its use in a request.
  \<^item> \<open>Agent_Stream\<close>: the parser of streamed answers. \<open>Agent_Request\<close>: what a request is made of. \<open>Agent_Turn\<close>: the agent's
    operations and callbacks as functions on its state, which return the status when they end the turn. \<open>Agent_Safety\<close> and \<open>Agent_Steps\<close>: what
    each of them keeps. \<open>Agent_Run\<close>: the end of a turn with the embedder's callback in it, cancelling, the steps that are possible in
    each state, and the accounting of turns. \<open>Agent_Edges\<close>: three situations the code does not handle.
  \<^item> \<open>Provider_Json\<close>: the settings of a model (\<^verbatim>\<open>llm.c\<close>, \<^verbatim>\<open>provider.c\<close>) and how providers build JSON, as computations in the state
    monad over the tape. \<open>Provider_Stream\<close>: what the stream parser makes of an answer that is sent in pieces, whatever provider sends it.
  \<^item> \<open>Anthropic_Request\<close>, \<open>Anthropic_Response\<close>: the operations of \<^verbatim>\<open>provider_anthropic.c\<close>. \<open>Anthropic_Wire\<close>,
    \<open>Anthropic_Properties\<close>: the conversion of a history refines a view of it, and the view is what the server accepts.
  \<^item> \<open>Responses_Request\<close>, \<open>Responses_Response\<close>: the operations of \<^verbatim>\<open>provider_responses.c\<close>. \<open>Responses_Properties\<close>: the input of a
    request has every call, result and message of the history in order. For both providers a streamed answer and the whole one agree.
  \<^item> \<open>Openai_Request\<close>: \<^verbatim>\<open>provider_openai.c\<close>, and the loop that moves the images of tool results against the conversion by batches.
  \<^item> \<open>Sha256\<close>: the digest that names the images of a session, against the definition in FIPS 180-4.

  \<^bold>\<open>Conventions.\<close> A struct is a record with the fields of the C struct that the code reads, an enum a datatype. Sizes and counters are natural
  numbers where the code cannot make them wrap, and words where it can or where the width matters (\<open>u64\<close> in the rate limiter and the hash,
  \<open>u16\<close> in \<open>content_len\<close>, \<open>u32\<close> in the image and base64 code). A fallible function returns a sum with the error number, or an
  option for NULL, together with the rest of the tape. Undefined behaviour (a read out of bounds, a NULL passed to \<^verbatim>\<open>strdup\<close>) is \<open>None\<close>, or the
  mark \<open>bad\<close> in the dispatcher. Loops are structural recursions, or recursions with a termination proof; no fuel is used, except that \<open>storm\<close>
  counts events, where 17 is shown to be enough. The providers' functions are computations in \<open>State_Monad\<close> over the tape, with cJSON's
  functions on numbers and booleans in the record \<open>provider_env\<close> and \<^verbatim>\<open>double\<close> as real numbers; the properties of requests and answers are
  stated for the empty tape, where no allocation fails.

  \<^bold>\<open>Assumptions.\<close> cJSON obeys \<open>cjson_laws\<close>, and \<open>cjson_types\<close> and \<open>provider_laws\<close> where providers use it: an item has one type, and
  integers of 32 bits are kept exactly. Nothing is assumed of its parser and printer. That an event or an item of a server carries a piece of an
  answer (\<open>anth_event_is\<close>, \<open>resp_event_is\<close>) is a hypothesis of the two agreements, which have witnesses. The host calls back asynchronously (never from inside
  \<^verbatim>\<open>http_post\<close>, \<^verbatim>\<open>http_cancel\<close> or \<^verbatim>\<open>timer_set\<close>), reports each request once, and a cancelled one as \<^verbatim>\<open>-ECANCELED\<close>, as \<^verbatim>\<open>clm/host.h\<close> says. The
  embedder may submit or notify in its turn-done callback; its other callbacks do not call the agent. \<open>timers_work\<close> (armed timers fire) is
  a named hypothesis of the accounting, and \<open>failed_timer_sticks\<close> shows what happens without it. Allocation may fail anywhere.

  \<^bold>\<open>Not modelled.\<close> The largest parts left out are the terminal interface (\<^verbatim>\<open>src/tui.c\<close>, \<^verbatim>\<open>md_render.c\<close>, \<^verbatim>\<open>complete.c\<close>) and
  \<^verbatim>\<open>main.c\<close>, which draw, read keys and parse options over ncurses and md4c; the Lua bindings (\<^verbatim>\<open>libclmlua\<close>, \<^verbatim>\<open>lua/\<close>), which move
  values between the agent and an interpreter that is not part of the repository; \<^verbatim>\<open>libclmuv\<close> and \<^verbatim>\<open>libclmproc\<close>, which wrap libuv, curl and
  processes; and \<^verbatim>\<open>esp32/\<close>, firmware over the vendor's SDK. The session log (\<^verbatim>\<open>libclmsession/session.c\<close>) stores histories in the format
  of \<open>History_Json\<close>; its files, links and locks would need a model of a file system with hard links and crashes and are left out, as are
  the readers of server metadata (\<^verbatim>\<open>models_list.c\<close>, \<^verbatim>\<open>props.c\<close>) and the creation of agents. These have logic of their own; what is
  modelled is the core they feed. \<^verbatim>\<open>PROJECT.json\<close> lists every part with its state.
\<close>

end
